(* ===== verification/Machine.thy ===== *)
theory Machine
  imports Main "HOL-Library.Monad_Syntax" "HOL-Library.Multiset" "HOL-Library.Word"
begin

text \<open>
  The prelude of the development: the machine arithmetic of the Rust sources, panics as values,
  list and option lemmas the components share, and the contract of an event-driven component.

  \<^item> Unsigned integers (\<open>u16\<close>, \<open>u32\<close>, \<open>u64\<close>, \<open>usize\<close>) are \<open>nat\<close>, signed ones (\<open>i32\<close>, \<open>i64\<close>)
    are \<open>int\<close>. The operators that can overflow are written out: the crate sets no
    \<open>overflow-checks\<close>, so a release build wraps (\<open>u32_add\<close>, \<open>u32_sub\<close>, \<open>u64_mul\<close>); the methods
    \<open>saturating_add\<close> and \<open>checked_add\<close> have their own functions.
  \<^item> A step that panics (division by zero, \<open>clamp\<close> with its bounds swapped, an index or a slice out
    of range) is \<open>None\<close> in the type \<open>'a run\<close>; a function that returns \<open>Option\<close> and may panic has
    the type \<open>'a option run\<close>.
\<close>

section \<open>Collections of facts\<close>

named_theorems machine_simps \<open>the machine operations, unfolded\<close>
named_theorems inv_intros \<open>operations that keep the invariant of their component\<close>

section \<open>Machine integers\<close>

abbreviation u16_max :: nat where "u16_max \<equiv> 65535"
abbreviation u32_max :: nat where "u32_max \<equiv> 4294967295"
abbreviation u64_max :: nat where "u64_max \<equiv> 18446744073709551615"
abbreviation i32_min :: int where "i32_min \<equiv> - 2147483648"
abbreviation i32_max :: int where "i32_max \<equiv> 2147483647"
abbreviation i64_min :: int where "i64_min \<equiv> - 9223372036854775808"
abbreviation i64_max :: int where "i64_max \<equiv> 9223372036854775807"

definition is_i32 :: "int \<Rightarrow> bool" where
  "is_i32 x \<longleftrightarrow> i32_min \<le> x \<and> x \<le> i32_max"

definition as_u16 :: "nat \<Rightarrow> nat" where
  "as_u16 n = n mod 65536"

definition as_u32 :: "nat \<Rightarrow> nat" where
  "as_u32 n = n mod 4294967296"

definition u32_add :: "nat \<Rightarrow> nat \<Rightarrow> nat" where
  "u32_add a b = (a + b) mod 4294967296"

definition u32_sub :: "nat \<Rightarrow> nat \<Rightarrow> nat" where
  "u32_sub a b = (a + 4294967296 - b) mod 4294967296"

definition u32_sat_add :: "nat \<Rightarrow> nat \<Rightarrow> nat" where
  "u32_sat_add a b = min (a + b) u32_max"

definition u32_sat_mul :: "nat \<Rightarrow> nat \<Rightarrow> nat" where
  "u32_sat_mul a b = min (a * b) u32_max"

definition u64_add :: "nat \<Rightarrow> nat \<Rightarrow> nat" where
  "u64_add a b = (a + b) mod 18446744073709551616"

definition u64_mul :: "nat \<Rightarrow> nat \<Rightarrow> nat" where
  "u64_mul a b = (a * b) mod 18446744073709551616"

definition u64_sat_add :: "nat \<Rightarrow> nat \<Rightarrow> nat" where
  "u64_sat_add a b = min (a + b) u64_max"

definition u64_sat_mul :: "nat \<Rightarrow> nat \<Rightarrow> nat" where
  "u64_sat_mul a b = min (a * b) u64_max"

definition u32_checked_add :: "nat \<Rightarrow> nat \<Rightarrow> nat option" where
  "u32_checked_add a b = (if a + b \<le> u32_max then Some (a + b) else None)"

definition u64_checked_add :: "nat \<Rightarrow> nat \<Rightarrow> nat option" where
  "u64_checked_add a b = (if a + b \<le> u64_max then Some (a + b) else None)"

definition u64_checked_mul :: "nat \<Rightarrow> nat \<Rightarrow> nat option" where
  "u64_checked_mul a b = (if a * b \<le> u64_max then Some (a * b) else None)"

definition u64_checked_sub :: "nat \<Rightarrow> nat \<Rightarrow> nat option" where
  "u64_checked_sub a b = (if b \<le> a then Some (a - b) else None)"

definition i32_sat :: "int \<Rightarrow> int" where
  "i32_sat x = (if x < i32_min then i32_min else if x > i32_max then i32_max else x)"

definition i32_wrap :: "int \<Rightarrow> int" where
  "i32_wrap x = (x + 2147483648) mod 4294967296 - 2147483648"

definition i64_sat :: "int \<Rightarrow> int" where
  "i64_sat x = (if x < i64_min then i64_min else if x > i64_max then i64_max else x)"

definition i32_sat_add :: "int \<Rightarrow> int \<Rightarrow> int" where
  "i32_sat_add a b = i32_sat (a + b)"

definition i32_sat_sub :: "int \<Rightarrow> int \<Rightarrow> int" where
  "i32_sat_sub a b = i32_sat (a - b)"

definition i64_sat_add :: "int \<Rightarrow> int \<Rightarrow> int" where
  "i64_sat_add a b = i64_sat (a + b)"

text \<open>\<open>i32::try_from\<close> on an unsigned value.\<close>

definition i32_try_from :: "nat \<Rightarrow> int option" where
  "i32_try_from n = (if int n \<le> i32_max then Some (int n) else None)"

text \<open>\<open>Ord::clamp\<close> where the bounds cannot be swapped, and in general, with its panic.\<close>

definition clamp :: "'a::linorder \<Rightarrow> 'a \<Rightarrow> 'a \<Rightarrow> 'a" where
  "clamp x lo hi = (if x < lo then lo else if x > hi then hi else x)"

type_synonym 'a run = "'a option"

definition clamp_run :: "'a::linorder \<Rightarrow> 'a \<Rightarrow> 'a \<Rightarrow> 'a run" where
  "clamp_run x lo hi = (if lo \<le> hi then Some (clamp x lo hi) else None)"

definition div_run :: "nat \<Rightarrow> nat \<Rightarrow> nat run" where
  "div_run a b = (if b = 0 then None else Some (a div b))"

lemmas unsigned_defs =
  as_u16_def as_u32_def u32_add_def u32_sub_def u32_sat_add_def u32_sat_mul_def
  u64_add_def u64_mul_def u64_sat_add_def u64_sat_mul_def
  u32_checked_add_def u64_checked_add_def u64_checked_mul_def u64_checked_sub_def

lemmas signed_defs =
  i32_sat_def i64_sat_def i32_sat_add_def i32_sat_sub_def i64_sat_add_def i32_wrap_def

declare unsigned_defs [machine_simps] signed_defs [machine_simps]

lemma as_u16_id: "n \<le> u16_max \<Longrightarrow> as_u16 n = n"
  by (simp add: as_u16_def)

lemma as_u32_id: "n \<le> u32_max \<Longrightarrow> as_u32 n = n"
  by (simp add: as_u32_def)

lemma u32_add_id: "a + b \<le> u32_max \<Longrightarrow> u32_add a b = a + b"
  by (simp add: u32_add_def)

lemma u32_sub_id: "b \<le> a \<Longrightarrow> a \<le> u32_max \<Longrightarrow> u32_sub a b = a - b"
  by (simp add: u32_sub_def mod_if)

lemma u32_sub_le: "b \<le> a \<Longrightarrow> a \<le> u32_max \<Longrightarrow> u32_sub a b \<le> a"
  by (simp add: u32_sub_id)

lemma i32_sat_bounds: "is_i32 (i32_sat x)"
  by (simp add: is_i32_def i32_sat_def)

lemma i32_wrap_id: "is_i32 x \<Longrightarrow> i32_wrap x = x"
  by (simp add: i32_wrap_def is_i32_def)

lemma u32_product: "a \<le> u32_max \<Longrightarrow> b \<le> u32_max \<Longrightarrow> a * b \<le> u32_max * u32_max" for a b :: nat
  by (rule mult_le_mono)

lemma u64_mul_id: "a \<le> u32_max \<Longrightarrow> b \<le> u32_max \<Longrightarrow> u64_mul a b = a * b"
  using u32_product [of a b] by (simp add: u64_mul_def)

lemma clamp_bounds: "lo \<le> hi \<Longrightarrow> lo \<le> clamp x lo hi \<and> clamp x lo hi \<le> hi" for x :: "'a::linorder"
  by (auto simp: clamp_def)

lemma clamp_id: "lo \<le> x \<Longrightarrow> x \<le> hi \<Longrightarrow> clamp x lo hi = x" for x :: "'a::linorder"
  by (auto simp: clamp_def)

lemma clamp_mono: "x \<le> y \<Longrightarrow> lo \<le> hi \<Longrightarrow> clamp x lo hi \<le> clamp y lo hi" for x :: "'a::linorder"
  by (auto simp: clamp_def)

lemma clamp_run_Some: "lo \<le> hi \<Longrightarrow> clamp_run x lo hi = Some (clamp x lo hi)"
  by (simp add: clamp_run_def)

lemma div_run_Some: "0 < b \<Longrightarrow> div_run a b = Some (a div b)"
  by (simp add: div_run_def)

section \<open>Lists\<close>

text \<open>\<open>Iterator::filter_map\<close>, and its form for a step that may panic.\<close>

definition filter_map :: "('a \<Rightarrow> 'b option) \<Rightarrow> 'a list \<Rightarrow> 'b list" where
  "filter_map f xs = List.map_filter f xs"

lemma filter_map_simps [simp]:
  "filter_map f [] = []"
  "filter_map f (x # xs) =
     (case f x of None \<Rightarrow> filter_map f xs | Some y \<Rightarrow> y # filter_map f xs)"
  by (simp_all add: filter_map_def map_filter_simps split: option.splits)

lemma set_filter_map: "set (filter_map f xs) = {y. \<exists>x\<in>set xs. f x = Some y}"
  by (induction xs) (auto split: option.splits)

lemma length_filter_map: "length (filter_map f xs) \<le> length xs"
  by (induction xs) (auto split: option.splits)

fun filter_map_run :: "('a \<Rightarrow> 'b option run) \<Rightarrow> 'a list \<Rightarrow> 'b list run" where
  "filter_map_run f [] = Some []"
| "filter_map_run f (x # xs) = do {
     r \<leftarrow> f x;
     ys \<leftarrow> filter_map_run f xs;
     Some (case r of None \<Rightarrow> ys | Some y \<Rightarrow> y # ys)
   }"

lemma filter_map_run_total:
  "(\<And>x. x \<in> set xs \<Longrightarrow> f x = Some (g x)) \<Longrightarrow> filter_map_run f xs = Some (filter_map g xs)"
  by (induction xs) (auto split: option.splits)

lemma filter_map_run_set:
  "filter_map_run f xs = Some ys \<Longrightarrow> y \<in> set ys \<Longrightarrow> \<exists>x\<in>set xs. f x = Some (Some y)"
  by (induction xs arbitrary: ys) (auto split: option.splits bind_splits)

text \<open>Byte buffers: a slice \<open>xs[s..e]\<close>, and copying the slice \<open>[s..e]\<close> of one buffer over another.\<close>

type_synonym byte = "8 word"

definition subslice :: "nat \<Rightarrow> nat \<Rightarrow> 'a list \<Rightarrow> 'a list" where
  "subslice s e xs = take (e - s) (drop s xs)"

definition blit :: "nat \<Rightarrow> nat \<Rightarrow> 'a list \<Rightarrow> 'a list \<Rightarrow> 'a list" where
  "blit s e src dst = take s dst @ subslice s e src @ drop e dst"

lemma length_subslice: "e \<le> length xs \<Longrightarrow> length (subslice s e xs) = e - s"
  by (simp add: subslice_def)

lemma nth_subslice: "i < e - s \<Longrightarrow> e \<le> length xs \<Longrightarrow> subslice s e xs ! i = xs ! (s + i)"
  by (simp add: subslice_def)

lemma subslice_eq_iff:
  assumes "s \<le> e" and "e \<le> length xs" and "e \<le> length ys"
  shows "subslice s e xs = subslice s e ys \<longleftrightarrow> (\<forall>i. s \<le> i \<and> i < e \<longrightarrow> xs ! i = ys ! i)"
proof
  assume eq: "subslice s e xs = subslice s e ys"
  show "\<forall>i. s \<le> i \<and> i < e \<longrightarrow> xs ! i = ys ! i"
  proof (intro allI impI)
    fix i
    assume i: "s \<le> i \<and> i < e"
    then have "i - s < e - s" and "s + (i - s) = i" by auto
    then have "subslice s e xs ! (i - s) = xs ! i" "subslice s e ys ! (i - s) = ys ! i"
      using assms by (simp_all add: nth_subslice)
    with eq show "xs ! i = ys ! i" by simp
  qed
next
  assume "\<forall>i. s \<le> i \<and> i < e \<longrightarrow> xs ! i = ys ! i"
  with assms show "subslice s e xs = subslice s e ys"
    by (simp add: list_eq_iff_nth_eq length_subslice nth_subslice)
qed

lemma length_blit:
  "s \<le> e \<Longrightarrow> e \<le> length src \<Longrightarrow> e \<le> length dst \<Longrightarrow> length (blit s e src dst) = length dst"
  by (simp add: blit_def length_subslice)

lemma nth_blit:
  assumes "s \<le> e" and "e \<le> length src" and "e \<le> length dst" and "i < length dst"
  shows "blit s e src dst ! i = (if s \<le> i \<and> i < e then src ! i else dst ! i)"
  using assms by (auto simp: blit_def nth_append length_subslice nth_subslice)

section \<open>Loops and lists that may panic\<close>

text \<open>A loop over a list whose steps may not return.\<close>

fun fold_run :: "('a \<Rightarrow> 'b \<Rightarrow> 'b run) \<Rightarrow> 'a list \<Rightarrow> 'b \<Rightarrow> 'b run" where
  "fold_run f [] b = Some b"
| "fold_run f (x # xs) b = Option.bind (f x b) (fold_run f xs)"

lemma fold_run_append [simp]: "fold_run f (xs @ ys) b = Option.bind (fold_run f xs b) (fold_run f ys)"
  by (induction xs arbitrary: b) (auto split: bind_splits)

lemma fold_run_total:
  "(\<And>x b. x \<in> set xs \<Longrightarrow> I b \<Longrightarrow> \<exists>b'. f x b = Some b' \<and> I b') \<Longrightarrow> I b \<Longrightarrow> \<exists>b'. fold_run f xs b = Some b' \<and> I b'"
proof (induction xs arbitrary: b)
  case Nil
  then show ?case by simp
next
  case (Cons x xs)
  then obtain b1 where "f x b = Some b1" "I b1" by (meson list.set_intros(1))
  with Cons.IH [of b1] Cons.prems(1) show ?case by simp
qed

text \<open>An index and a slice, with their panics: \<open>xs[i]\<close>, \<open>xs[i] = v\<close>, \<open>xs[s..e]\<close>.\<close>

definition index_run :: "'a list \<Rightarrow> nat \<Rightarrow> 'a run" where
  "index_run xs i = (if i < length xs then Some (xs ! i) else None)"

definition put_run :: "nat \<Rightarrow> 'a \<Rightarrow> 'a list \<Rightarrow> 'a list run" where
  "put_run i v xs = (if i < length xs then Some (xs[i := v]) else None)"

definition slice_run :: "nat \<Rightarrow> nat \<Rightarrow> 'a list \<Rightarrow> 'a list run" where
  "slice_run s e xs = (if s \<le> e \<and> e \<le> length xs then Some (subslice s e xs) else None)"

text \<open>\<open>dst[s..e].copy_from_slice(&src[s..e])\<close>.\<close>

definition blit_run :: "nat \<Rightarrow> nat \<Rightarrow> 'a list \<Rightarrow> 'a list \<Rightarrow> 'a list run" where
  "blit_run s e src dst = (if s \<le> e \<and> e \<le> length src \<and> e \<le> length dst then Some (blit s e src dst) else None)"

text \<open>The cell of a row-major plane at an index.\<close>

lemma div_mod_row:
  fixes i W c :: nat
  assumes "c < W"
  shows "i = row * W + c \<longleftrightarrow> i div W = row \<and> i mod W = c"
  using assms by (auto simp: mult.commute)

lemma row_span:
  fixes i W l r row :: nat
  assumes "r \<le> W"
  shows "row * W + l \<le> i \<and> i < row * W + r \<longleftrightarrow> i div W = row \<and> l \<le> i mod W \<and> i mod W < r"
proof
  assume i: "row * W + l \<le> i \<and> i < row * W + r"
  then have "i = row * W + (i - row * W)" and "i - row * W < W" using assms by auto
  then have "i div W = row" "i mod W = i - row * W" using div_mod_row by blast+
  with i show "i div W = row \<and> l \<le> i mod W \<and> i mod W < r" by auto
next
  assume "i div W = row \<and> l \<le> i mod W \<and> i mod W < r"
  then show "row * W + l \<le> i \<and> i < row * W + r"
    using div_mult_mod_eq [of i W] by auto
qed

definition in_box :: "nat \<Rightarrow> nat \<times> nat \<times> nat \<times> nat \<Rightarrow> nat \<Rightarrow> bool" where
  "in_box W = (\<lambda>(l, t, r, b) i. l \<le> i mod W \<and> i mod W < r \<and> t \<le> i div W \<and> i div W < b)"

section \<open>Event-driven components\<close>

text \<open>
  The contract of a component that starts in one state and handles one event at a time: its
  invariant holds at the start and every event keeps it. Each stateful component of the
  development interprets it, and takes from it that the invariant holds after every run.
\<close>

fun run_events :: "('s \<Rightarrow> 'e \<Rightarrow> 's) \<Rightarrow> 's \<Rightarrow> 'e list \<Rightarrow> 's" where
  "run_events step s [] = s"
| "run_events step s (e # es) = run_events step (step s e) es"

lemma run_events_append [simp]:
  "run_events step s (xs @ ys) = run_events step (run_events step s xs) ys"
  by (induction xs arbitrary: s) auto

locale event_system =
  fixes step :: "'s \<Rightarrow> 'e \<Rightarrow> 's"
    and admissible :: "'e \<Rightarrow> bool"
    and inv :: "'s \<Rightarrow> bool"
  assumes step_keeps: "inv s \<Longrightarrow> admissible e \<Longrightarrow> inv (step s e)"
begin

lemma run_keeps: "inv s \<Longrightarrow> list_all admissible es \<Longrightarrow> inv (run_events step s es)"
  by (induction es arbitrary: s) (auto intro: step_keeps)

lemma run_keeps_prefix:
  "inv s \<Longrightarrow> list_all admissible (xs @ ys) \<Longrightarrow> inv (run_events step s xs)"
  by (auto intro: run_keeps)

end

text \<open>
  A component whose state abstracts to a simpler one: every event acts on the abstract state as the
  abstract step does. Then so does every run.
\<close>

locale event_refinement = event_system +
  fixes abs :: "'s \<Rightarrow> 'a"
    and astep :: "'a \<Rightarrow> 'e \<Rightarrow> 'a"
  assumes step_refines: "inv s \<Longrightarrow> admissible e \<Longrightarrow> abs (step s e) = astep (abs s) e"
begin

lemma run_refines:
  "inv s \<Longrightarrow> list_all admissible es \<Longrightarrow> abs (run_events step s es) = run_events astep (abs s) es"
  by (induction es arbitrary: s) (simp_all add: step_refines step_keeps)

end

end
