(* ===== verification/Regions.thy ===== *)
theory Regions
  imports Machine
begin

text \<open>
  Damage rectangles as sets of pixels. The capture, display and EGFX code pass damage as tuples
  \<open>(x, y, w, h)\<close> of \<open>i32\<close>; a tuple stands for the pixels it covers in the quadrant of the frame.
  Several components clip such tuples to a frame, each in its own output type: the locale
  \<open>region_clipper\<close> is the contract they share, and each of them interprets it.
\<close>

section \<open>Rectangles and their pixels\<close>

type_synonym region = "int \<times> int \<times> int \<times> int"

definition in_region :: "nat \<Rightarrow> nat \<Rightarrow> region \<Rightarrow> bool" where
  "in_region px py = (\<lambda>(x, y, w, h).
     x \<le> int px \<and> int px < x + w \<and> y \<le> int py \<and> int py < y + h)"

definition cells :: "region \<Rightarrow> (nat \<times> nat) set" where
  "cells r = {(px, py). in_region px py r}"

definition frame_cells :: "nat \<Rightarrow> nat \<Rightarrow> (nat \<times> nat) set" where
  "frame_cells width height = {(px, py). px < width \<and> py < height}"

definition box_cells :: "nat \<Rightarrow> nat \<Rightarrow> nat \<Rightarrow> nat \<Rightarrow> (nat \<times> nat) set" where
  "box_cells l t r b = {(px, py). l \<le> px \<and> px < r \<and> t \<le> py \<and> py < b}"

definition i32_region :: "region \<Rightarrow> bool" where
  "i32_region = (\<lambda>(x, y, w, h). is_i32 x \<and> is_i32 y \<and> is_i32 w \<and> is_i32 h)"

text \<open>A rectangle that is not empty and lies inside a frame.\<close>

definition region_inside :: "nat \<Rightarrow> nat \<Rightarrow> region \<Rightarrow> bool" where
  "region_inside width height = (\<lambda>(x, y, w, h).
     0 \<le> x \<and> 0 < w \<and> x + w \<le> int width \<and> 0 \<le> y \<and> 0 < h \<and> y + h \<le> int height)"

lemma box_cells_times: "box_cells l t r b = {l..<r} \<times> {t..<b}"
  by (auto simp: box_cells_def)

lemma box_cells_empty_iff: "box_cells l t r b = {} \<longleftrightarrow> r \<le> l \<or> b \<le> t"
  by (simp add: box_cells_times not_less)

lemma cells_box:
  "0 \<le> x \<Longrightarrow> 0 \<le> y \<Longrightarrow> cells (x, y, w, h) = box_cells (nat x) (nat y) (nat (x + w)) (nat (y + h))"
  by (auto simp: cells_def in_region_def box_cells_def)

lemma card_box: "card (box_cells l t r b) = (r - l) * (b - t)"
  by (simp add: box_cells_times card_cartesian_product)

lemma region_inside_cells:
  assumes "region_inside width height r"
  shows "cells r \<noteq> {} \<and> cells r \<subseteq> frame_cells width height"
proof -
  obtain x y w h where r: "r = (x, y, w, h)" by (cases r) auto
  have "cells r \<subseteq> frame_cells width height"
    using assms by (auto simp: r region_inside_def cells_def in_region_def frame_cells_def)
  moreover have "(nat x, nat y) \<in> cells r"
    using assms by (auto simp: r region_inside_def cells_def in_region_def)
  ultimately show ?thesis by auto
qed

section \<open>Clipping one coordinate\<close>

text \<open>
  The bounds of a span \<open>[a, a + n)\<close> clipped to \<open>[0, e]\<close>; the upper bound is the same with the
  saturating \<open>i32\<close> addition of the code, which saturates beyond any frame.
\<close>

lemma clamp_sat_add:
  assumes "is_i32 a" and "is_i32 n" and "0 \<le> e" and "e \<le> i32_max"
  shows "clamp (i32_sat_add a n) 0 e = clamp (a + n) 0 e"
  using assms by (auto simp: is_i32_def i32_sat_add_def i32_sat_def clamp_def)

lemma clamped_span:
  fixes a n e :: int
  assumes "0 \<le> e"
  shows "nat (clamp a 0 e) \<le> p \<and> p < nat (clamp (a + n) 0 e) \<longleftrightarrow> int p < e \<and> a \<le> int p \<and> int p < a + n"
  using assms by (auto simp: clamp_def)

lemma clamped_box:
  fixes x y w h :: int
  assumes W: "0 \<le> W" and H: "0 \<le> H"
  shows "box_cells (nat (clamp x 0 W)) (nat (clamp y 0 H)) (nat (clamp (x + w) 0 W)) (nat (clamp (y + h) 0 H))
    = cells (x, y, w, h) \<inter> frame_cells (nat W) (nat H)"
proof (intro set_eqI, clarify)
  fix p q :: nat
  have "p < nat W \<longleftrightarrow> int p < W" "q < nat H \<longleftrightarrow> int q < H" by linarith+
  then show "(p, q) \<in> box_cells (nat (clamp x 0 W)) (nat (clamp y 0 H)) (nat (clamp (x + w) 0 W))
      (nat (clamp (y + h) 0 H)) \<longleftrightarrow> (p, q) \<in> cells (x, y, w, h) \<inter> frame_cells (nat W) (nat H)"
    using clamped_span [OF W, of x p w] clamped_span [OF H, of y q h]
    unfolding box_cells_def cells_def in_region_def frame_cells_def by simp blast
qed

section \<open>The contract of a clipping function\<close>

locale region_clipper =
  fixes clip :: "region \<Rightarrow> 'b option"
    and out_cells :: "'b \<Rightarrow> (nat \<times> nat) set"
    and frame :: "(nat \<times> nat) set"
    and good :: "region \<Rightarrow> bool"
  assumes clip_Some: "good d \<Longrightarrow> clip d = Some b \<Longrightarrow> out_cells b = cells d \<inter> frame \<and> out_cells b \<noteq> {}"
    and clip_None: "good d \<Longrightarrow> clip d = None \<Longrightarrow> cells d \<inter> frame = {}"
begin

lemma clip_all:
  "list_all good ds \<Longrightarrow> (\<Union>b\<in>set (filter_map clip ds). out_cells b) = (\<Union>d\<in>set ds. cells d) \<inter> frame"
proof (induction ds)
  case Nil
  then show ?case by simp
next
  case (Cons d ds)
  then show ?case
    using clip_Some [of d] clip_None [of d]
    by (cases "clip d") (simp_all add: Int_Un_distrib2)
qed

lemma clip_all_inside:
  "list_all good ds \<Longrightarrow> b \<in> set (filter_map clip ds) \<Longrightarrow> out_cells b \<noteq> {} \<and> out_cells b \<subseteq> frame"
  using clip_Some by (fastforce simp: set_filter_map list_all_iff)

end

end
