(* ===== verification/Geometry.thy ===== *)
theory Geometry
  imports Regions
begin

text \<open>
  The presentation geometry of \<open>src/src/display/geometry.rs\<close>: how a captured output of size
  \<open>source\<close> is fitted, with its aspect ratio kept, into the client's desktop of size
  \<open>presentation\<close>; how damage rectangles are carried forward through that fit and pointer positions
  back through it. The operations follow the code statement by statement, in its integer widths;
  where the code divides or clamps, a zero divisor or swapped bounds are the panic \<open>None\<close>, and the
  lemmas show that no geometry built by the code reaches it.
\<close>

section \<open>Data\<close>

record size =
  sz_width :: nat
  sz_height :: nat

definition size_new :: "nat \<Rightarrow> nat \<Rightarrow> size option" where
  "size_new width height =
     (if width > 0 \<and> height > 0 then Some \<lparr>sz_width = width, sz_height = height\<rparr> else None)"

record rect =
  rx :: nat
  ry :: nat
  rw :: nat
  rh :: nat

definition rect_right :: "rect \<Rightarrow> nat" where
  "rect_right r = u32_sat_add (rx r) (rw r)"

definition rect_bottom :: "rect \<Rightarrow> nat" where
  "rect_bottom r = u32_sat_add (ry r) (rh r)"


record geometry =
  geo_source :: size
  geo_presentation :: size
  geo_visible :: rect

section \<open>Operations\<close>

definition scale_floor :: "nat \<Rightarrow> nat \<Rightarrow> nat \<Rightarrow> nat run" where
  "scale_floor value numerator denominator =
     map_option as_u32 (div_run (u64_mul value numerator) denominator)"


definition geometry_new :: "size \<Rightarrow> size \<Rightarrow> geometry run" where
  "geometry_new source presentation = do {
     let source_w = sz_width source;
     let source_h = sz_height source;
     let presentation_w = sz_width presentation;
     let presentation_h = sz_height presentation;
     (visible_w, visible_h) \<leftarrow>
       (if u64_mul source_w presentation_h > u64_mul presentation_w source_h
        then map_option (\<lambda>q. (presentation_w, min (max q 1) presentation_h))
               (div_run (u64_mul presentation_w source_h) source_w)
        else map_option (\<lambda>q. (min (max q 1) presentation_w, presentation_h))
               (div_run (u64_mul presentation_h source_w) source_h));
     let visible_w = as_u32 visible_w;
     let visible_h = as_u32 visible_h;
     Some \<lparr>geo_source = source, geo_presentation = presentation,
       geo_visible = \<lparr>rx = u32_sub (sz_width presentation) visible_w div 2,
                      ry = u32_sub (sz_height presentation) visible_h div 2,
                      rw = visible_w, rh = visible_h\<rparr>\<rparr>
   }"

definition is_identity :: "geometry \<Rightarrow> bool" where
  "is_identity g \<longleftrightarrow>
     geo_source g = geo_presentation g \<and> rx (geo_visible g) = 0 \<and> ry (geo_visible g) = 0 \<and>
     rw (geo_visible g) = sz_width (geo_source g) \<and> rh (geo_visible g) = sz_height (geo_source g)"



definition map_presentation_point_to_source :: "geometry \<Rightarrow> nat \<Rightarrow> nat \<Rightarrow> (nat \<times> nat) run" where
  "map_presentation_point_to_source g x y = (let
       visible = geo_visible g;
       visible_right = rect_right visible - 1;
       visible_bottom = rect_bottom visible - 1 in do {
     clamped_x \<leftarrow> clamp_run x (rx visible) visible_right;
     clamped_y \<leftarrow> clamp_run y (ry visible) visible_bottom;
     let rel_x = u32_sub clamped_x (rx visible);
     let rel_y = u32_sub clamped_y (ry visible);
     source_x \<leftarrow>
       (if clamped_x = visible_right then Some (sz_width (geo_source g) - 1)
        else map_option (\<lambda>v. min v (sz_width (geo_source g) - 1))
               (scale_floor rel_x (sz_width (geo_source g)) (rw visible)));
     source_y \<leftarrow>
       (if clamped_y = visible_bottom then Some (sz_height (geo_source g) - 1)
        else map_option (\<lambda>v. min v (sz_height (geo_source g) - 1))
               (scale_floor rel_y (sz_height (geo_source g)) (rh visible)));
     Some (source_x, source_y)
   })"

section \<open>The invariant of a geometry\<close>

text \<open>
  A size the code accepts: positive and within \<open>u32\<close>. A geometry is well formed when its visible
  rectangle is not empty, lies inside the presentation and touches two opposite sides of it.
\<close>

definition valid_size :: "size \<Rightarrow> bool" where
  "valid_size s \<longleftrightarrow> 0 < sz_width s \<and> sz_width s \<le> u32_max \<and> 0 < sz_height s \<and> sz_height s \<le> u32_max"

definition valid_geometry :: "geometry \<Rightarrow> bool" where
  "valid_geometry g \<longleftrightarrow>
     valid_size (geo_source g) \<and> valid_size (geo_presentation g) \<and>
     0 < rw (geo_visible g) \<and> 0 < rh (geo_visible g) \<and>
     rx (geo_visible g) + rw (geo_visible g) \<le> sz_width (geo_presentation g) \<and>
     ry (geo_visible g) + rh (geo_visible g) \<le> sz_height (geo_presentation g) \<and>
     (rw (geo_visible g) = sz_width (geo_presentation g) \<or>
      rh (geo_visible g) = sz_height (geo_presentation g))"

lemma size_new_valid:
  "size_new w h = Some s \<Longrightarrow> w \<le> u32_max \<Longrightarrow> h \<le> u32_max \<Longrightarrow> valid_size s"
  by (auto simp: size_new_def valid_size_def split: if_splits)


section \<open>Construction\<close>

lemma div_fits: "a \<le> p * b \<Longrightarrow> 0 < b \<Longrightarrow> a div b \<le> p" for a b p :: nat
  by (metis div_le_mono nonzero_mult_div_cancel_right less_numeral_extra(3))

text \<open>
  The two arms of the construction as one fact about the scaled side: it is at least one, at most
  the presentation's side, and the largest number that keeps the aspect ratio (when that is not 0).
\<close>

definition fitted :: "nat \<Rightarrow> nat \<Rightarrow> nat \<Rightarrow> nat \<Rightarrow> bool" where
  "fitted v a b limit \<longleftrightarrow>
     1 \<le> v \<and> v \<le> limit \<and> (v = 1 \<or> v * b \<le> a) \<and> a < (v + 1) * b"

lemma fitted_quotient:
  fixes a b p :: nat
  assumes "a \<le> p * b" and "0 < b" and "0 < p"
  shows "fitted (min (max (a div b) 1) p) a b p"
proof -
  have le: "a div b \<le> p" using assms by (intro div_fits)
  have "a < (a div b + 1) * b"
    using dividend_less_times_div [OF assms(2), of a] by (simp add: mult.commute)
  also have "\<dots> \<le> (max (a div b) 1 + 1) * b" by (intro mult_le_mono1) simp
  finally have up: "a < (max (a div b) 1 + 1) * b" .
  have "a div b * b \<le> a" by simp
  then show ?thesis
    using le up assms(3) by (auto simp: fitted_def max_def)
qed

definition fits_presentation :: "geometry \<Rightarrow> bool" where
  "fits_presentation g \<longleftrightarrow> (let v = geo_visible g; s = geo_source g; p = geo_presentation g in
     rx v = (sz_width p - rw v) div 2 \<and> ry v = (sz_height p - rh v) div 2 \<and>
     (if sz_width s * sz_height p > sz_width p * sz_height s
      then rw v = sz_width p \<and>
           fitted (rh v) (sz_width p * sz_height s) (sz_width s) (sz_height p)
      else rh v = sz_height p \<and>
           fitted (rw v) (sz_height p * sz_width s) (sz_height s) (sz_width p)))"

lemma geometry_new_fits:
  assumes s: "valid_size s" and p: "valid_size p"
  shows "\<exists>g. geometry_new s p = Some g \<and> geo_source g = s \<and> geo_presentation g = p \<and>
    fits_presentation g"
proof (cases "sz_width s * sz_height p > sz_width p * sz_height s")
  case True
  define q where "q = min (max (sz_width p * sz_height s div sz_width s) 1) (sz_height p)"
  have f: "fitted q (sz_width p * sz_height s) (sz_width s) (sz_height p)"
    unfolding q_def using True s p by (intro fitted_quotient) (auto simp: valid_size_def mult.commute)
  then have "q \<le> sz_height p" and "q \<le> u32_max" using p by (auto simp: fitted_def valid_size_def)
  with True f s p q_def [symmetric] show ?thesis
    by (simp add: geometry_new_def fits_presentation_def valid_size_def u64_mul_id div_run_def
        as_u32_id u32_sub_id Let_def)
next
  case False
  define q where "q = min (max (sz_height p * sz_width s div sz_height s) 1) (sz_width p)"
  have f: "fitted q (sz_height p * sz_width s) (sz_height s) (sz_width p)"
    unfolding q_def using False s p by (intro fitted_quotient) (auto simp: valid_size_def mult.commute)
  then have "q \<le> sz_width p" and "q \<le> u32_max" using p by (auto simp: fitted_def valid_size_def)
  with False f s p q_def [symmetric] show ?thesis
    by (simp add: geometry_new_def fits_presentation_def valid_size_def u64_mul_id div_run_def
        as_u32_id u32_sub_id Let_def)
qed

lemma fits_presentation_valid:
  assumes "valid_size (geo_source g)" and "valid_size (geo_presentation g)" and "fits_presentation g"
  shows "valid_geometry g"
proof -
  have half: "(p - v) div 2 + v \<le> p" if "v \<le> p" for p v :: nat
    using that by presburger
  show ?thesis
    using assms unfolding valid_geometry_def fits_presentation_def fitted_def Let_def
    by (auto simp: valid_size_def intro!: half split: if_splits)
qed

lemma geometry_new_valid:
  "valid_size s \<Longrightarrow> valid_size p \<Longrightarrow> geometry_new s p = Some g \<Longrightarrow>
     valid_geometry g \<and> geo_source g = s \<and> geo_presentation g = p"
  using geometry_new_fits [of s p] fits_presentation_valid by fastforce


section \<open>Scaling on one axis\<close>

lemma scale_floor_eq:
  assumes "v \<le> s" and "0 < s" and "s \<le> u32_max" and "n \<le> u32_max"
  shows "scale_floor v n s = Some (v * n div s) \<and> v * n div s \<le> n"
proof -
  have le: "v * n div s \<le> n"
    using assms by (intro div_fits) (simp_all add: mult.commute mult_le_mono)
  then show ?thesis
    using assms by (simp add: scale_floor_def u64_mul_id div_run_def as_u32_id)
qed


text \<open>
  The image of the source interval \<open>[l, r)\<close> on an axis with source extent \<open>s\<close> and visible extent
  \<open>v\<close>: exactly the pixels whose footprint on the source meets a pixel of the interval.
\<close>

definition meets :: "nat \<Rightarrow> nat \<Rightarrow> nat \<Rightarrow> nat \<Rightarrow> bool" where
  "meets s v q p \<longleftrightarrow> q * s < (p + 1) * v \<and> p * v < (q + 1) * s"




section \<open>Damage, forwards\<close>

text \<open>A damage rectangle clipped to the source, as half-open bounds on each axis.\<close>

definition clip_lo :: "nat \<Rightarrow> int \<Rightarrow> nat" where
  "clip_lo extent a = nat (clamp a 0 (int extent))"

definition clip_hi :: "nat \<Rightarrow> int \<Rightarrow> int \<Rightarrow> nat" where
  "clip_hi extent a len = nat (clamp (a + len) 0 (int extent))"

lemma clip_le [simp]: "clip_lo e a \<le> e" "clip_hi e a n \<le> e"
  by (auto simp: clip_lo_def clip_hi_def clamp_def)




lemma rect_right_valid: "valid_geometry g \<Longrightarrow> rect_right (geo_visible g) = rx (geo_visible g) + rw (geo_visible g)"
  by (auto simp: valid_geometry_def valid_size_def rect_right_def u32_sat_add_def)

lemma rect_bottom_valid: "valid_geometry g \<Longrightarrow> rect_bottom (geo_visible g) = ry (geo_visible g) + rh (geo_visible g)"
  by (auto simp: valid_geometry_def valid_size_def rect_bottom_def u32_sat_add_def)




definition in_rect :: "nat \<Rightarrow> nat \<Rightarrow> rect \<Rightarrow> bool" where
  "in_rect px py r \<longleftrightarrow> rx r \<le> px \<and> px < rx r + rw r \<and> ry r \<le> py \<and> py < ry r + rh r"

text \<open>
  A presentation pixel shows a source pixel when it lies in the visible rectangle and its footprint
  on the source meets that source pixel, on both axes.
\<close>

definition shows_source :: "geometry \<Rightarrow> nat \<Rightarrow> nat \<Rightarrow> nat \<Rightarrow> nat \<Rightarrow> bool" where
  "shows_source g px py sx sy \<longleftrightarrow> in_rect px py (geo_visible g) \<and>
     meets (sz_width (geo_source g)) (rw (geo_visible g)) (px - rx (geo_visible g)) sx \<and>
     meets (sz_height (geo_source g)) (rh (geo_visible g)) (py - ry (geo_visible g)) sy"








section \<open>Pointer positions, backwards\<close>

text \<open>One axis: the source coordinate under a visible pixel, with the last pixel sent to the last.\<close>

lemma pointer_axis:
  fixes p off v s :: nat
  assumes "0 < v" and "0 < s" and "off + v \<le> u32_max" and "s \<le> u32_max"
    and "off \<le> p" and "p \<le> off + v - 1"
  shows "\<exists>q. (if p = off + v - 1 then Some (s - 1)
              else map_option (\<lambda>n. min n (s - 1)) (scale_floor (u32_sub p off) s v)) = Some q \<and>
             q < s \<and> meets s v (p - off) q"
proof (cases "p = off + v - 1")
  case True
  then have "p - off = v - 1" by simp
  moreover have "meets s v (v - 1) (s - 1)"
    using assms(1,2) by (simp add: meets_def mult.commute)
  ultimately show ?thesis using True assms(2) by simp
next
  case False
  let ?r = "p - off"
  have r: "?r < v" "u32_sub p off = ?r"
    using assms False by (auto simp: u32_sub_id)
  have sc: "scale_floor ?r s v = Some (?r * s div v)"
    using scale_floor_eq [of ?r v s] assms r(1) by simp
  have lt: "?r * s div v < s"
    using r(1) assms(1,2) by (simp add: div_less_iff_less_mult)
  have "?r * s div v * v < (?r + 1) * s"
    by (rule le_less_trans [OF div_times_less_eq_dividend]) (simp add: assms(2))
  moreover have "?r * s < (?r * s div v + 1) * v"
    using dividend_less_times_div [OF assms(1), of "?r * s"] by (simp add: algebra_simps)
  ultimately have "meets s v ?r (?r * s div v)" by (simp add: meets_def)
  moreover have "min (?r * s div v) (s - 1) = ?r * s div v" using lt by simp
  ultimately show ?thesis using False sc lt r(2) by simp
qed

lemma map_point_shows:
  assumes g: "valid_geometry g"
  shows "\<exists>sx sy. map_presentation_point_to_source g x y = Some (sx, sy) \<and>
    sx < sz_width (geo_source g) \<and> sy < sz_height (geo_source g) \<and>
    shows_source g
      (clamp x (rx (geo_visible g)) (rx (geo_visible g) + rw (geo_visible g) - 1))
      (clamp y (ry (geo_visible g)) (ry (geo_visible g) + rh (geo_visible g) - 1)) sx sy"
proof -
  let ?s = "geo_source g" and ?v = "geo_visible g"
  let ?x = "clamp x (rx ?v) (rx ?v + rw ?v - 1)" and ?y = "clamp y (ry ?v) (ry ?v + rh ?v - 1)"
  have b: "0 < rw ?v" "0 < rh ?v" "0 < sz_width ?s" "0 < sz_height ?s"
    "rx ?v + rw ?v \<le> u32_max" "ry ?v + rh ?v \<le> u32_max" "sz_width ?s \<le> u32_max" "sz_height ?s \<le> u32_max"
    using g by (auto simp: valid_geometry_def valid_size_def)
  have le: "rx ?v \<le> rx ?v + rw ?v - 1" "ry ?v \<le> ry ?v + rh ?v - 1" using b(1,2) by simp_all
  have x: "rx ?v \<le> ?x" "?x \<le> rx ?v + rw ?v - 1" using clamp_bounds [OF le(1)] by auto
  have y: "ry ?v \<le> ?y" "?y \<le> ry ?v + rh ?v - 1" using clamp_bounds [OF le(2)] by auto
  obtain qx where qx: "(if ?x = rx ?v + rw ?v - 1 then Some (sz_width ?s - 1)
      else map_option (\<lambda>n. min n (sz_width ?s - 1)) (scale_floor (u32_sub ?x (rx ?v)) (sz_width ?s) (rw ?v)))
      = Some qx" "qx < sz_width ?s" "meets (sz_width ?s) (rw ?v) (?x - rx ?v) qx"
    using pointer_axis [OF b(1,3,5,7) x] by blast
  obtain qy where qy: "(if ?y = ry ?v + rh ?v - 1 then Some (sz_height ?s - 1)
      else map_option (\<lambda>n. min n (sz_height ?s - 1)) (scale_floor (u32_sub ?y (ry ?v)) (sz_height ?s) (rh ?v)))
      = Some qy" "qy < sz_height ?s" "meets (sz_height ?s) (rh ?v) (?y - ry ?v) qy"
    using pointer_axis [OF b(2,4,6,8) y] by blast
  have "map_presentation_point_to_source g x y = Some (qx, qy)"
    by (simp only: map_presentation_point_to_source_def Let_def clamp_run_Some [OF le(1)]
        clamp_run_Some [OF le(2)] rect_right_valid [OF g] rect_bottom_valid [OF g]
        bind.bind_lunit qx(1) qy(1))
  moreover have "in_rect ?x ?y ?v" using x y b(1,2) by (auto simp: in_rect_def)
  ultimately show ?thesis
    using qx(2,3) qy(2,3) by (auto simp: shows_source_def)
qed


section \<open>Properties\<close>

text \<open>
  C39: For two sizes the code accepts, building the geometry does not panic, keeps both sizes, and
  the visible rectangle is not empty, lies inside the presentation, is centred, fills one side of it
  and is on the other side the largest that keeps the aspect ratio of the source (never below one
  pixel).
\<close>

theorem geometry_construction:
  assumes "valid_size source" and "valid_size presentation"
  shows "\<exists>g. geometry_new source presentation = Some g \<and> geo_source g = source \<and>
    geo_presentation g = presentation \<and> valid_geometry g \<and> fits_presentation g"
  using geometry_new_fits [OF assms] fits_presentation_valid assms by fastforce

theorem geometry_construction_witness:
  "\<exists>g. geometry_new \<lparr>sz_width = 1080, sz_height = 1920\<rparr> \<lparr>sz_width = 1280, sz_height = 720\<rparr> = Some g \<and>
     valid_geometry g \<and> fits_presentation g"
  using geometry_construction [of "\<lparr>sz_width = 1080, sz_height = 1920\<rparr>" "\<lparr>sz_width = 1280, sz_height = 720\<rparr>"]
  by (auto simp: valid_size_def)



text \<open>
  A pointer position on the client, inside the visible rectangle or on the bars around it,
  always maps (without a panic) to a pixel of the source, and to one that is shown at the nearest
  visible pixel.
\<close>

theorem pointer_hits_shown_pixel:
  assumes "geometry_new source presentation = Some g"
    and "valid_size source" and "valid_size presentation"
  shows "\<exists>sx sy. map_presentation_point_to_source g x y = Some (sx, sy) \<and>
    sx < sz_width source \<and> sy < sz_height source \<and>
    shows_source g
      (clamp x (rx (geo_visible g)) (rx (geo_visible g) + rw (geo_visible g) - 1))
      (clamp y (ry (geo_visible g)) (ry (geo_visible g) + rh (geo_visible g) - 1)) sx sy"
  using map_point_shows geometry_new_valid [OF assms(2,3,1)] by blast

theorem pointer_hits_shown_pixel_witness:
  "\<exists>g sx sy. geometry_new \<lparr>sz_width = 3, sz_height = 3\<rparr> \<lparr>sz_width = 2, sz_height = 2\<rparr> = Some g \<and>
     map_presentation_point_to_source g 1 0 = Some (sx, sy) \<and> sx < 3 \<and> sy < 3"
proof -
  define g where "g = the (geometry_new \<lparr>sz_width = 3, sz_height = 3\<rparr> \<lparr>sz_width = 2, sz_height = 2\<rparr>)"
  have g: "geometry_new \<lparr>sz_width = 3, sz_height = 3\<rparr> \<lparr>sz_width = 2, sz_height = 2\<rparr> = Some g"
    by (simp add: g_def geometry_new_def u64_mul_def div_run_def Let_def)
  show ?thesis
    using pointer_hits_shown_pixel [OF g, of 1 0] g by (auto simp: valid_size_def)
qed

end
