(* ===== verification/Damage.thy ===== *)
theory Damage
  imports Regions
begin

text \<open>
  The frame-diff damage detector and the damage-list operations of \<open>src/src/capture/damage.rs\<close>.
  The detector keeps the last frame that was sent; \<open>detect\<close> cuts the candidate rectangles into
  tiles of 64 pixels and reports the tiles in which a byte changed, \<open>update_reference_regions\<close>
  copies the sent rectangles into the reference. A pixel is four bytes, and a row starts every
  \<open>stride\<close> bytes.

  The tile loops add 64 to an \<open>i32\<close> position; on a frame with a side within 64 of \<open>i32::MAX\<close> the
  addition overflows and the loop does not reach its end, which is the result \<open>None\<close>.
\<close>

abbreviation damage_tile_size :: int where "damage_tile_size \<equiv> 64"
abbreviation damage_merge_distance :: int where "damage_merge_distance \<equiv> 16"

record detector =
  reference_frame :: "byte list option"
  reference_stride :: nat

section \<open>Operations\<close>

definition detector_new :: detector where
  "detector_new = \<lparr>reference_frame = None, reference_stride = 0\<rparr>"

definition invalidate :: "detector \<Rightarrow> detector" where
  "invalidate d = d\<lparr>reference_frame := None, reference_stride := 0\<rparr>"

definition update_reference :: "detector \<Rightarrow> byte list \<Rightarrow> nat \<Rightarrow> nat \<Rightarrow> detector" where
  "update_reference d data height stride =
     (let len = min (u64_sat_mul stride height) (length data)
      in d\<lparr>reference_frame := Some (take len data), reference_stride := stride\<rparr>)"

definition clamp_damage_region ::
  "int \<Rightarrow> int \<Rightarrow> int \<Rightarrow> int \<Rightarrow> nat \<Rightarrow> nat \<Rightarrow> region option" where
  "clamp_damage_region x y w h width height =
     (if w \<le> 0 \<or> h \<le> 0 then None
      else do {
        width \<leftarrow> i32_try_from width;
        height \<leftarrow> i32_try_from height;
        let left = clamp x 0 width;
        let top_y = clamp y 0 height;
        let right = clamp (i32_sat_add x w) 0 width;
        let bottom = clamp (i32_sat_add y h) 0 height;
        if right \<le> left \<or> bottom \<le> top_y then None
        else Some (left, top_y, right - left, bottom - top_y)
      })"

definition copy_row ::
  "byte list \<Rightarrow> nat \<Rightarrow> nat \<Rightarrow> nat \<Rightarrow> nat \<Rightarrow> nat \<Rightarrow> byte list \<Rightarrow> byte list" where
  "copy_row data stride left top_y width_bytes row reference =
     (let start = u64_sat_add (u64_sat_mul (top_y + row) stride) (left * 4);
          end' = u64_sat_add start width_bytes
      in if end' \<le> length data \<and> end' \<le> length reference
         then blit start end' data reference else reference)"

definition copy_region ::
  "byte list \<Rightarrow> nat \<Rightarrow> nat \<Rightarrow> nat \<Rightarrow> region \<Rightarrow> byte list \<Rightarrow> byte list" where
  "copy_region data width height stride = (\<lambda>(x, y, w, h) reference.
     case clamp_damage_region x y w h width height of
       None \<Rightarrow> reference
     | Some (left, top_y, region_w, region_h) \<Rightarrow>
         fold (copy_row data stride (nat left) (nat top_y) (nat region_w * 4))
           [0..<nat region_h] reference)"

definition update_reference_regions ::
  "detector \<Rightarrow> byte list \<Rightarrow> nat \<Rightarrow> nat \<Rightarrow> nat \<Rightarrow> region list \<Rightarrow> detector" where
  "update_reference_regions d data width height stride regions =
     (let frame_len = u64_sat_mul stride height in
      case reference_frame d of
        None \<Rightarrow> update_reference d data height stride
      | Some frame \<Rightarrow>
          if reference_stride d \<noteq> stride \<or> length frame < frame_len
          then update_reference d data height stride
          else d\<lparr>reference_frame :=
                  Some (fold (copy_region data width height stride) regions frame)\<rparr>)"

definition push_unique_damage_region :: "region list \<Rightarrow> region \<Rightarrow> region list" where
  "push_unique_damage_region regions region =
     (if region \<in> set regions then regions else regions @ [region])"

definition frame_tile_changed :: "byte list \<Rightarrow> byte list \<Rightarrow> nat \<Rightarrow> region \<Rightarrow> bool" where
  "frame_tile_changed current reference stride = (\<lambda>(x, y, width, height).
     if x < 0 \<or> y < 0 \<or> width \<le> 0 \<or> height \<le> 0 then False
     else list_ex (\<lambda>row.
       let start = u64_sat_add (u64_sat_mul (nat y + row) stride) (nat x * 4);
           end' = u64_sat_add start (nat width * 4)
       in end' > length current \<or> end' > length reference \<or>
          subslice start end' current \<noteq> subslice start end' reference) [0..<nat height])"

text \<open>The positions a tile loop visits: \<open>while pos < end { ..; pos += 64 }\<close>.\<close>

function tile_starts :: "int \<Rightarrow> int \<Rightarrow> int list run" where
  "tile_starts pos stop =
     (if pos < stop
      then if pos + damage_tile_size > i32_max then None
           else map_option (Cons pos) (tile_starts (pos + damage_tile_size) stop)
      else Some [])"
  by pat_completeness auto
termination
  by (relation "measure (\<lambda>(pos, stop). nat (stop - pos))") auto

declare tile_starts.simps [simp del]

definition tiles :: "region \<Rightarrow> region list run" where
  "tiles = (\<lambda>(left, top_y, cand_w, cand_h).
     let right = i32_sat_add left cand_w; bottom = i32_sat_add top_y cand_h in do {
       ys \<leftarrow> tile_starts top_y bottom;
       xs \<leftarrow> (if ys = [] then Some [] else tile_starts left right);
       Some (concat (map (\<lambda>tile_y. map (\<lambda>tile_x.
         (tile_x, tile_y, min damage_tile_size (right - tile_x),
          min damage_tile_size (bottom - tile_y))) xs) ys))
     })"

definition detect_candidate ::
  "byte list \<Rightarrow> byte list \<Rightarrow> nat \<Rightarrow> nat \<Rightarrow> nat \<Rightarrow> region \<Rightarrow> region list \<Rightarrow> region list run" where
  "detect_candidate data reference width height stride = (\<lambda>(x, y, w, h) regions.
     case clamp_damage_region x y w h width height of
       None \<Rightarrow> Some regions
     | Some c \<Rightarrow> do {
         ts \<leftarrow> tiles c;
         Some (fold (\<lambda>tile regions.
           if frame_tile_changed data reference stride tile
           then push_unique_damage_region regions tile else regions) ts regions)
       })"

fun detect_candidates ::
  "byte list \<Rightarrow> byte list \<Rightarrow> nat \<Rightarrow> nat \<Rightarrow> nat \<Rightarrow> region list \<Rightarrow> region list \<Rightarrow> region list run" where
  "detect_candidates data reference width height stride [] regions = Some regions"
| "detect_candidates data reference width height stride (c # cs) regions = do {
     regions \<leftarrow> detect_candidate data reference width height stride c regions;
     detect_candidates data reference width height stride cs regions
   }"

definition full_frame :: "nat \<Rightarrow> nat \<Rightarrow> region" where
  "full_frame width height = (0, 0, i32_wrap (int width), i32_wrap (int height))"

definition detect ::
  "detector \<Rightarrow> byte list \<Rightarrow> nat \<Rightarrow> nat \<Rightarrow> nat \<Rightarrow> region list \<Rightarrow> region list run" where
  "detect d data width height stride candidates =
     (case reference_frame d of
        None \<Rightarrow> Some [full_frame width height]
      | Some reference \<Rightarrow>
          let frame_len = u64_sat_mul stride height in
          if reference_stride d \<noteq> stride \<or> length reference < frame_len \<or> length data < frame_len
          then Some [full_frame width height]
          else detect_candidates data reference width height stride candidates [])"

section \<open>Damage lists\<close>

definition damage_regions_are_near :: "region \<Rightarrow> region \<Rightarrow> int \<Rightarrow> bool" where
  "damage_regions_are_near = (\<lambda>(ax, ay, aw, ah) (bx, by', bw, bh) merge_distance.
     let a_right = i32_sat_add ax aw; a_bottom = i32_sat_add ay ah;
         b_right = i32_sat_add bx bw; b_bottom = i32_sat_add by' bh;
         gap_x = (if bx \<ge> a_right then i32_wrap (bx - a_right) else i32_sat_sub ax b_right);
         gap_y = (if by' \<ge> a_bottom then i32_wrap (by' - a_bottom) else i32_sat_sub ay b_bottom)
     in gap_x \<le> merge_distance \<and> gap_y \<le> merge_distance)"

definition union_damage_region :: "region \<Rightarrow> region \<Rightarrow> region" where
  "union_damage_region = (\<lambda>(ax, ay, aw, ah) (bx, by', bw, bh).
     let left = min ax bx; top_y = min ay by';
         right = max (i32_sat_add ax aw) (i32_sat_add bx bw);
         bottom = max (i32_sat_add ay ah) (i32_sat_add by' bh)
     in (left, top_y, i32_wrap (right - left), i32_wrap (bottom - top_y)))"

text \<open>\<open>Vec::swap_remove\<close>: the last element takes the place of the removed one.\<close>

definition swap_remove :: "'a list \<Rightarrow> nat \<Rightarrow> 'a list" where
  "swap_remove xs i = butlast (xs[i := last xs])"

function merge_loop :: "int \<Rightarrow> region list \<Rightarrow> region \<Rightarrow> nat \<Rightarrow> region list" where
  "merge_loop merge_distance regions merged index =
     (if index < length regions
      then if damage_regions_are_near (regions ! index) merged merge_distance
           then merge_loop merge_distance (swap_remove regions index)
                  (union_damage_region (regions ! index) merged) index
           else merge_loop merge_distance regions merged (index + 1)
      else regions @ [merged])"
  by pat_completeness auto
termination
  by (relation "measure (\<lambda>(_, regions, _, index). length regions - index)")
    (auto simp: swap_remove_def)

declare merge_loop.simps [simp del]

definition merge_nearby_damage_region :: "region list \<Rightarrow> region \<Rightarrow> int \<Rightarrow> region list" where
  "merge_nearby_damage_region regions region merge_distance = merge_loop merge_distance regions region 0"

definition merge_damage_region :: "region list \<Rightarrow> region \<Rightarrow> region list" where
  "merge_damage_region pending region = merge_nearby_damage_region pending region damage_merge_distance"

text \<open>
  \<open>damage_area_pixels\<close> casts the frame sides to \<open>i32\<close>; a side beyond \<open>i32::MAX\<close> becomes negative and
  \<open>clamp\<close> then panics.
\<close>

definition clamped_area :: "nat \<Rightarrow> nat \<Rightarrow> region \<Rightarrow> nat option run" where
  "clamped_area width height = (\<lambda>(x, y, w, h).
     if w \<le> 0 \<or> h \<le> 0 then Some None
     else do {
       left \<leftarrow> clamp_run x 0 (i32_wrap (int width));
       top_y \<leftarrow> clamp_run y 0 (i32_wrap (int height));
       right \<leftarrow> clamp_run (i32_sat_add x w) 0 (i32_wrap (int width));
       bottom \<leftarrow> clamp_run (i32_sat_add y h) 0 (i32_wrap (int height));
       Some (if right \<le> left \<or> bottom \<le> top_y then None
             else Some (u64_mul (nat (right - left)) (nat (bottom - top_y))))
     })"

definition damage_area_pixels :: "region list \<Rightarrow> nat \<Rightarrow> nat \<Rightarrow> nat run" where
  "damage_area_pixels damage_regions width height =
     map_option (\<lambda>areas. fold u64_add areas 0) (filter_map_run (clamped_area width height) damage_regions)"


section \<open>Clipping to the frame\<close>

lemma clamp_damage_region_eq:
  assumes "int width \<le> i32_max" and "int height \<le> i32_max" and "i32_region (x, y, w, h)"
  shows "clamp_damage_region x y w h width height =
    (let l = clamp x 0 (int width); t = clamp y 0 (int height);
         r = clamp (x + w) 0 (int width); b = clamp (y + h) 0 (int height)
     in if w \<le> 0 \<or> h \<le> 0 \<or> r \<le> l \<or> b \<le> t then None else Some (l, t, r - l, b - t))"
  using assms
  by (simp add: clamp_damage_region_def i32_try_from_def i32_region_def clamp_sat_add Let_def)

text \<open>
  On a frame whose sides fit in \<open>i32\<close>, \<open>clamp_damage_region\<close> meets the contract of a clipper, and
  its results lie inside the frame.
\<close>

definition small_frame :: "nat \<Rightarrow> nat \<Rightarrow> bool" where
  "small_frame width height \<longleftrightarrow> int width \<le> i32_max - damage_tile_size \<and> int height \<le> i32_max - damage_tile_size"

lemma clamp_damage_region_inside:
  "small_frame width height \<Longrightarrow> i32_region (x, y, w, h) \<Longrightarrow>
   clamp_damage_region x y w h width height = Some c \<Longrightarrow> region_inside width height c"
  by (auto simp: small_frame_def clamp_damage_region_eq Let_def region_inside_def clamp_def split: if_splits)

lemma clamp_damage_region_cells:
  assumes "small_frame width height" and "i32_region (x, y, w, h)"
  shows "(case clamp_damage_region x y w h width height of None \<Rightarrow> {} | Some c \<Rightarrow> cells c) =
    cells (x, y, w, h) \<inter> frame_cells width height"
proof -
  let ?l = "clamp x 0 (int width)" and ?t = "clamp y 0 (int height)"
  let ?r = "clamp (x + w) 0 (int width)" and ?b = "clamp (y + h) 0 (int height)"
  have box: "box_cells (nat ?l) (nat ?t) (nat ?r) (nat ?b) = cells (x, y, w, h) \<inter> frame_cells width height"
    using clamped_box [of "int width" "int height" x y w h] by simp
  have eq: "clamp_damage_region x y w h width height =
      (if w \<le> 0 \<or> h \<le> 0 \<or> ?r \<le> ?l \<or> ?b \<le> ?t then None else Some (?l, ?t, ?r - ?l, ?b - ?t))"
    using assms by (simp add: clamp_damage_region_eq small_frame_def Let_def)
  show ?thesis
  proof (cases "w \<le> 0 \<or> h \<le> 0 \<or> ?r \<le> ?l \<or> ?b \<le> ?t")
    case True
    then have "w \<le> 0 \<or> h \<le> 0 \<or> nat ?r \<le> nat ?l \<or> nat ?b \<le> nat ?t" by auto
    then have "cells (x, y, w, h) \<inter> frame_cells width height = {}"
      unfolding box [symmetric] box_cells_empty_iff by (auto simp: clamp_def)
    with True eq show ?thesis by simp
  next
    case False
    have "0 \<le> ?l" "0 \<le> ?t" by (auto simp: clamp_def)
    then show ?thesis using False eq box by (simp add: cells_box)
  qed
qed

definition clip_damage :: "nat \<Rightarrow> nat \<Rightarrow> region \<Rightarrow> region option" where
  "clip_damage width height = (\<lambda>(x, y, w, h). clamp_damage_region x y w h width height)"

interpretation damage_clip: region_clipper "clip_damage width height" cells "frame_cells width height"
  "\<lambda>d. small_frame width height \<and> i32_region d" for width height
proof
  fix d b
  assume good: "small_frame width height \<and> i32_region d" and b: "clip_damage width height d = Some b"
  obtain x y w h where eq: "d = (x, y, w, h)" by (cases d) auto
  show "cells b = cells d \<inter> frame_cells width height \<and> cells b \<noteq> {}"
    using clamp_damage_region_cells [of width height x y w h] clamp_damage_region_inside [of width height x y w h b]
      region_inside_cells [of width height b] good b by (simp add: eq clip_damage_def)
next
  fix d
  assume "small_frame width height \<and> i32_region d" and "clip_damage width height d = None"
  then show "cells d \<inter> frame_cells width height = {}"
    using clamp_damage_region_cells [of width height] by (cases d) (force simp: clip_damage_def)
qed

section \<open>Frames and rows\<close>

text \<open>A buffer that holds a frame: rows of at least \<open>4 * width\<close> bytes, all of them present.\<close>

definition frame_buffer :: "nat \<Rightarrow> nat \<Rightarrow> nat \<Rightarrow> byte list \<Rightarrow> bool" where
  "frame_buffer width height stride data \<longleftrightarrow>
     4 * width \<le> stride \<and> stride * height \<le> length data \<and> length data \<le> u64_max"

definition pixel_bytes :: "nat \<Rightarrow> nat \<Rightarrow> nat \<Rightarrow> nat set" where
  "pixel_bytes stride px py = {py * stride + px * 4..<py * stride + px * 4 + 4}"

definition pixel_differs :: "byte list \<Rightarrow> byte list \<Rightarrow> nat \<Rightarrow> nat \<times> nat \<Rightarrow> bool" where
  "pixel_differs data reference stride = (\<lambda>(px, py).
     \<exists>i\<in>pixel_bytes stride px py. data ! i \<noteq> reference ! i)"

lemma row_end:
  fixes width height stride px py n :: nat
  assumes "4 * width \<le> stride" and "px + n \<le> width" and "py < height"
  shows "py * stride + px * 4 + n * 4 \<le> stride * height"
proof -
  have "py * stride + px * 4 + n * 4 \<le> py * stride + stride" using assms(1,2) by simp
  also have "\<dots> = (py + 1) * stride" by simp
  also have "\<dots> \<le> height * stride" using assms(3) by (intro mult_le_mono1) simp
  finally show ?thesis by (simp add: mult.commute)
qed

lemma row_sat:
  assumes "frame_buffer width height stride data" and "px + n \<le> width" and "py < height"
  shows "u64_sat_add (u64_sat_mul py stride) (px * 4) = py * stride + px * 4"
    and "u64_sat_add (py * stride + px * 4) (n * 4) = py * stride + px * 4 + n * 4"
    and "py * stride + px * 4 + n * 4 \<le> length data"
proof -
  have "py * stride + px * 4 + n * 4 \<le> length data" "length data \<le> u64_max"
    using row_end [of width stride px n py height] assms by (auto simp: frame_buffer_def)
  then show "u64_sat_add (u64_sat_mul py stride) (px * 4) = py * stride + px * 4"
    and "u64_sat_add (py * stride + px * 4) (n * 4) = py * stride + px * 4 + n * 4"
    and "py * stride + px * 4 + n * 4 \<le> length data"
    by (simp_all add: u64_sat_add_def u64_sat_mul_def)
qed

text \<open>A byte range of a row is the bytes of its pixels.\<close>

lemma row_bytes:
  "py * stride + px * 4 \<le> i \<and> i < py * stride + px * 4 + n * 4 \<longleftrightarrow>
   (\<exists>qx. px \<le> qx \<and> qx < px + n \<and> i \<in> pixel_bytes stride qx py)"
proof
  assume i: "py * stride + px * 4 \<le> i \<and> i < py * stride + px * 4 + n * 4"
  let ?q = "px + (i - (py * stride + px * 4)) div 4"
  have "px \<le> ?q \<and> ?q < px + n \<and> i \<in> pixel_bytes stride ?q py"
    using i unfolding pixel_bytes_def by simp linarith
  then show "\<exists>qx. px \<le> qx \<and> qx < px + n \<and> i \<in> pixel_bytes stride qx py" by blast
qed (auto simp: pixel_bytes_def)

section \<open>Changed tiles\<close>

lemma frame_tile_changed_iff:
  assumes d: "frame_buffer width height stride data" and r: "frame_buffer width height stride reference"
    and t: "region_inside width height tile"
  shows "frame_tile_changed data reference stride tile \<longleftrightarrow> (\<exists>c\<in>cells tile. pixel_differs data reference stride c)"
proof -
  obtain x y w h where tile: "tile = (x, y, w, h)" by (cases tile) auto
  have b: "0 \<le> x" "0 < w" "0 \<le> y" "0 < h" "nat x + nat w \<le> width" "nat y + nat h \<le> height"
    using t by (auto simp: tile region_inside_def)
  let ?start = "\<lambda>row. (nat y + row) * stride + nat x * 4"
  have row: "(let start = u64_sat_add (u64_sat_mul (nat y + row) stride) (nat x * 4);
        end' = u64_sat_add start (nat w * 4)
      in end' > length data \<or> end' > length reference \<or>
         subslice start end' data \<noteq> subslice start end' reference) \<longleftrightarrow>
      (\<exists>i. ?start row \<le> i \<and> i < ?start row + nat w * 4 \<and> data ! i \<noteq> reference ! i)" if "row < nat h" for row
    using row_sat [OF d b(5), of "nat y + row"] row_sat [OF r b(5), of "nat y + row"] that b(6)
    by (auto simp: Let_def subslice_eq_iff)
  have "frame_tile_changed data reference stride tile \<longleftrightarrow>
      (\<exists>row<nat h. \<exists>i. ?start row \<le> i \<and> i < ?start row + nat w * 4 \<and> data ! i \<noteq> reference ! i)"
    using b row by (auto simp: frame_tile_changed_def tile list_ex_iff)
  also have "\<dots> \<longleftrightarrow> (\<exists>row<nat h. \<exists>qx. nat x \<le> qx \<and> qx < nat x + nat w \<and>
      pixel_differs data reference stride (qx, nat y + row))"
    unfolding conj_assoc [symmetric] row_bytes by (fastforce simp: pixel_differs_def)
  also have "\<dots> \<longleftrightarrow> (\<exists>c\<in>cells tile. pixel_differs data reference stride c)"
  proof
    assume "\<exists>row<nat h. \<exists>qx. nat x \<le> qx \<and> qx < nat x + nat w \<and>
      pixel_differs data reference stride (qx, nat y + row)"
    then obtain row qx where "row < nat h" "nat x \<le> qx" "qx < nat x + nat w"
      "pixel_differs data reference stride (qx, nat y + row)" by blast
    then show "\<exists>c\<in>cells tile. pixel_differs data reference stride c"
      using b by (intro bexI [where x = "(qx, nat y + row)"]) (auto simp: cells_def in_region_def tile)
  next
    assume "\<exists>c\<in>cells tile. pixel_differs data reference stride c"
    then obtain px py where c: "(px, py) \<in> cells tile" "pixel_differs data reference stride (px, py)" by auto
    have "py - nat y < nat h \<and> nat x \<le> px \<and> px < nat x + nat w \<and> nat y + (py - nat y) = py"
      using c(1) b by (auto simp: cells_def in_region_def tile)
    with c(2) show "\<exists>row<nat h. \<exists>qx. nat x \<le> qx \<and> qx < nat x + nat w \<and>
      pixel_differs data reference stride (qx, nat y + row)" by metis
  qed
  finally show ?thesis .
qed


section \<open>The tiles of a candidate\<close>

lemma tile_starts_spec:
  assumes "stop \<le> i32_max - damage_tile_size"
  shows "\<exists>xs. tile_starts pos stop = Some xs \<and> (\<forall>x\<in>set xs. pos \<le> x \<and> x < stop) \<and>
    (\<forall>q. pos \<le> q \<and> q < stop \<longrightarrow> (\<exists>x\<in>set xs. x \<le> q \<and> q < x + damage_tile_size))"
  using assms
proof (induction pos stop rule: tile_starts.induct)
  case (1 pos stop)
  show ?case
  proof (cases "pos < stop")
    case False
    then show ?thesis by (subst tile_starts.simps) auto
  next
    case True
    with "1.prems" have le: "\<not> pos + damage_tile_size > i32_max" by simp
    from "1.IH" [OF True le "1.prems"] obtain xs where
      xs: "tile_starts (pos + damage_tile_size) stop = Some xs"
      "\<forall>x\<in>set xs. pos + damage_tile_size \<le> x \<and> x < stop"
      "\<forall>q. pos + damage_tile_size \<le> q \<and> q < stop \<longrightarrow> (\<exists>x\<in>set xs. x \<le> q \<and> q < x + damage_tile_size)"
      by blast
    have "tile_starts pos stop = Some (pos # xs)"
      using True le xs(1) by (subst tile_starts.simps) simp
    moreover have "\<exists>x\<in>set (pos # xs). x \<le> q \<and> q < x + damage_tile_size" if "pos \<le> q \<and> q < stop" for q
      using xs(3) that by (cases "q < pos + damage_tile_size") auto
    ultimately show ?thesis using xs(2) True by fastforce
  qed
qed

definition tile_at :: "int \<Rightarrow> int \<Rightarrow> int \<Rightarrow> int \<Rightarrow> region" where
  "tile_at right bottom tile_x tile_y =
     (tile_x, tile_y, min damage_tile_size (right - tile_x), min damage_tile_size (bottom - tile_y))"

lemma tiles_spec:
  assumes f: "small_frame width height" and c: "region_inside width height c"
  shows "\<exists>ts. tiles c = Some ts \<and>
    (\<forall>t\<in>set ts. region_inside width height t \<and> cells t \<subseteq> cells c) \<and>
    (\<forall>p\<in>cells c. \<exists>t\<in>set ts. p \<in> cells t)"
proof -
  obtain x y w h where eq: "c = (x, y, w, h)" by (cases c) auto
  have b: "0 \<le> x" "0 < w" "x + w \<le> int width" "0 \<le> y" "0 < h" "y + h \<le> int height"
    "int width \<le> i32_max - damage_tile_size" "int height \<le> i32_max - damage_tile_size"
    using f c by (auto simp: eq region_inside_def small_frame_def)
  have sat: "i32_sat_add x w = x + w" "i32_sat_add y h = y + h"
    using b by (auto simp: i32_sat_add_def i32_sat_def)
  obtain ys where ys: "tile_starts y (y + h) = Some ys" "\<forall>t\<in>set ys. y \<le> t \<and> t < y + h"
    "\<forall>q. y \<le> q \<and> q < y + h \<longrightarrow> (\<exists>t\<in>set ys. t \<le> q \<and> q < t + damage_tile_size)"
    using tile_starts_spec [of "y + h" y] b by auto
  obtain xs where xs: "tile_starts x (x + w) = Some xs" "\<forall>t\<in>set xs. x \<le> t \<and> t < x + w"
    "\<forall>q. x \<le> q \<and> q < x + w \<longrightarrow> (\<exists>t\<in>set xs. t \<le> q \<and> q < t + damage_tile_size)"
    using tile_starts_spec [of "x + w" x] b by auto
  have ne: "ys \<noteq> []" using ys(3) b(5) by (metis add.commute empty_iff less_add_same_cancel2 order_refl set_empty2)
  let ?ts = "concat (map (\<lambda>tile_y. map (\<lambda>tile_x. tile_at (x + w) (y + h) tile_x tile_y) xs) ys)"
  have "tiles c = Some ?ts"
    using ys(1) xs(1) ne by (simp add: tiles_def eq sat Let_def tile_at_def)
  moreover have "region_inside width height t \<and> cells t \<subseteq> cells c" if "t \<in> set ?ts" for t
    using that xs(2) ys(2) b by (fastforce simp: tile_at_def region_inside_def cells_def in_region_def eq)
  moreover have "\<exists>t\<in>set ?ts. p \<in> cells t" if "p \<in> cells c" for p
  proof -
    obtain px py where p: "p = (px, py)" by (cases p)
    with that have in_c: "x \<le> int px" "int px < x + w" "y \<le> int py" "int py < y + h"
      by (auto simp: cells_def in_region_def eq)
    from xs(3) in_c obtain tx where tx: "tx \<in> set xs" "tx \<le> int px" "int px < tx + damage_tile_size" by blast
    from ys(3) in_c obtain ty where ty: "ty \<in> set ys" "ty \<le> int py" "int py < ty + damage_tile_size" by blast
    have "p \<in> cells (tile_at (x + w) (y + h) tx ty)"
      using p in_c tx ty by (auto simp: tile_at_def cells_def in_region_def)
    then show ?thesis using tx(1) ty(1) by auto
  qed
  ultimately show ?thesis by blast
qed

section \<open>Detection\<close>

lemma fold_push_changed:
  "set (fold (\<lambda>t acc. if P t then push_unique_damage_region acc t else acc) ts acc) =
     set acc \<union> {t \<in> set ts. P t} \<and>
   (distinct acc \<longrightarrow> distinct (fold (\<lambda>t acc. if P t then push_unique_damage_region acc t else acc) ts acc))"
  by (induction ts arbitrary: acc) (auto simp: push_unique_damage_region_def)

text \<open>
  What a detection run owes its caller: tiles inside the frame and the candidates, each with a
  changed pixel, and every changed pixel of a candidate in one of them.
\<close>

definition detects ::
  "byte list \<Rightarrow> byte list \<Rightarrow> nat \<Rightarrow> nat \<Rightarrow> nat \<Rightarrow> region list \<Rightarrow> region set \<Rightarrow> bool" where
  "detects data reference width height stride cands out \<longleftrightarrow>
     (\<forall>t\<in>out. region_inside width height t \<and> (\<exists>c\<in>set cands. cells t \<subseteq> cells c) \<and>
        (\<exists>p\<in>cells t. pixel_differs data reference stride p)) \<and>
     (\<forall>c\<in>set cands. \<forall>p\<in>cells c \<inter> frame_cells width height.
        pixel_differs data reference stride p \<longrightarrow> (\<exists>t\<in>out. p \<in> cells t))"

lemma detect_candidate_spec:
  assumes f: "small_frame width height" and i: "i32_region c"
    and d: "frame_buffer width height stride data" and r: "frame_buffer width height stride reference"
  shows "\<exists>out new. detect_candidate data reference width height stride c acc = Some out \<and>
    set out = set acc \<union> new \<and> (distinct acc \<longrightarrow> distinct out) \<and>
    detects data reference width height stride [c] new"
proof -
  obtain x y w h where eq: "c = (x, y, w, h)" by (cases c) auto
  note clip = clamp_damage_region_cells [OF f, of x y w h]
  show ?thesis
  proof (cases "clamp_damage_region x y w h width height")
    case None
    with clip i have "cells c \<inter> frame_cells width height = {}" by (simp add: eq)
    then have "detects data reference width height stride [c] {}" by (simp add: detects_def)
    with None show ?thesis by (intro exI [where x = acc] exI [where x = "{}"]) (simp add: detect_candidate_def eq)
  next
    case (Some b)
    with i f have inside: "region_inside width height b"
      using clamp_damage_region_inside by (simp add: eq)
    from clip Some i have cb: "cells b = cells c \<inter> frame_cells width height" by (simp add: eq)
    obtain ts where ts: "tiles b = Some ts" "\<forall>t\<in>set ts. region_inside width height t \<and> cells t \<subseteq> cells b"
      "\<forall>p\<in>cells b. \<exists>t\<in>set ts. p \<in> cells t"
      using tiles_spec [OF f inside] by blast
    let ?new = "{t \<in> set ts. frame_tile_changed data reference stride t}"
    have ch: "frame_tile_changed data reference stride t \<longleftrightarrow> (\<exists>p\<in>cells t. pixel_differs data reference stride p)"
      if "t \<in> set ts" for t
      using frame_tile_changed_iff [OF d r] ts(2) that by blast
    have "detects data reference width height stride [c] ?new"
      unfolding detects_def
    proof (intro conjI ballI impI)
      fix t
      assume t: "t \<in> ?new"
      then show "region_inside width height t" using ts(2) by blast
      show "\<exists>c'\<in>set [c]. cells t \<subseteq> cells c'" using t ts(2) cb by auto
      show "\<exists>p\<in>cells t. pixel_differs data reference stride p" using t ch by blast
    next
      fix c' p
      assume "c' \<in> set [c]" and p: "p \<in> cells c' \<inter> frame_cells width height"
        and diff: "pixel_differs data reference stride p"
      then have "p \<in> cells b" using cb by simp
      then obtain t where "t \<in> set ts" "p \<in> cells t" using ts(3) by blast
      with ch diff show "\<exists>t\<in>?new. p \<in> cells t" by blast
    qed
    with Some ts(1) fold_push_changed [of "frame_tile_changed data reference stride" ts acc] show ?thesis
      by (auto simp: detect_candidate_def eq)
  qed
qed

lemma detects_Un:
  "detects data reference width height stride cs A \<Longrightarrow> detects data reference width height stride ds B \<Longrightarrow>
   detects data reference width height stride (cs @ ds) (A \<union> B)"
  unfolding detects_def set_append ball_Un bex_Un by blast

lemma detect_candidates_spec:
  assumes f: "small_frame width height" and i: "list_all i32_region cs"
    and d: "frame_buffer width height stride data" and r: "frame_buffer width height stride reference"
  shows "\<exists>out new. detect_candidates data reference width height stride cs acc = Some out \<and>
    set out = set acc \<union> new \<and> (distinct acc \<longrightarrow> distinct out) \<and>
    detects data reference width height stride cs new"
  using i
proof (induction cs arbitrary: acc)
  case Nil
  then show ?case by (intro exI [where x = acc] exI [where x = "{}"]) (simp add: detects_def)
next
  case (Cons c cs)
  then obtain o1 n1 where 1: "detect_candidate data reference width height stride c acc = Some o1"
    "set o1 = set acc \<union> n1" "distinct acc \<longrightarrow> distinct o1" "detects data reference width height stride [c] n1"
    using detect_candidate_spec [OF f _ d r, of c acc] by auto
  from Cons.prems have "list_all i32_region cs" by simp
  from Cons.IH [OF this, of o1] obtain o2 n2 where 2: "detect_candidates data reference width height stride cs o1 = Some o2"
    "set o2 = set o1 \<union> n2" "distinct o1 \<longrightarrow> distinct o2" "detects data reference width height stride cs n2"
    by blast
  from detects_Un [OF 1(4) 2(4)] 1 2 show ?case
    by (intro exI [where x = o2] exI [where x = "n1 \<union> n2"]) auto
qed

lemma detect_spec:
  assumes f: "small_frame width height" and i: "list_all i32_region cands"
    and d: "frame_buffer width height stride data" and r: "frame_buffer width height stride reference"
    and det: "reference_frame det = Some reference" "reference_stride det = stride"
  shows "\<exists>out. detect det data width height stride cands = Some out \<and> distinct out \<and>
    detects data reference width height stride cands (set out)"
proof -
  have "u64_sat_mul stride height \<le> length data" "u64_sat_mul stride height \<le> length reference"
    using d r by (auto simp: frame_buffer_def u64_sat_mul_def)
  then show ?thesis
    using detect_candidates_spec [OF f i d r, of "[]"] det by (auto simp: detect_def Let_def not_less)
qed


section \<open>Updating the reference\<close>

lemma copy_row_nth:
  assumes d: "frame_buffer width height stride data" and r: "frame_buffer width height stride reference"
    and b: "left + w \<le> width" "top_y + row < height"
  shows "length (copy_row data stride left top_y (w * 4) row reference) = length reference \<and>
    (\<forall>i<length reference. copy_row data stride left top_y (w * 4) row reference ! i =
      (if \<exists>qx. left \<le> qx \<and> qx < left + w \<and> i \<in> pixel_bytes stride qx (top_y + row)
       then data ! i else reference ! i))"
proof -
  let ?s = "(top_y + row) * stride + left * 4"
  have eq: "copy_row data stride left top_y (w * 4) row reference = blit ?s (?s + w * 4) data reference"
    using row_sat [OF d b] row_sat [OF r b] by (simp add: copy_row_def Let_def)
  show ?thesis
    using row_sat(3) [OF d b] row_sat(3) [OF r b]
    by (simp add: eq length_blit nth_blit row_bytes)
qed

lemma copy_rows_nth:
  assumes d: "frame_buffer width height stride data" and b: "left + w \<le> width"
  shows "frame_buffer width height stride reference \<Longrightarrow> (\<forall>row\<in>set rows. top_y + row < height) \<Longrightarrow>
    length (fold (copy_row data stride left top_y (w * 4)) rows reference) = length reference \<and>
    (\<forall>i<length reference. fold (copy_row data stride left top_y (w * 4)) rows reference ! i =
      (if \<exists>row\<in>set rows. \<exists>qx. left \<le> qx \<and> qx < left + w \<and> i \<in> pixel_bytes stride qx (top_y + row)
       then data ! i else reference ! i))"
proof (induction rows arbitrary: reference)
  case Nil
  then show ?case by simp
next
  case (Cons row rows)
  let ?ref = "copy_row data stride left top_y (w * 4) row reference"
  from Cons.prems have row: "top_y + row < height" by simp
  note one = copy_row_nth [OF d Cons.prems(1) b row]
  from one Cons.prems(1) have "frame_buffer width height stride ?ref" by (simp add: frame_buffer_def)
  from Cons.IH [OF this] Cons.prems(2) one show ?case by auto
qed

definition written :: "nat \<Rightarrow> nat \<Rightarrow> nat \<Rightarrow> region list \<Rightarrow> nat \<Rightarrow> bool" where
  "written width height stride regions i \<longleftrightarrow>
     (\<exists>c\<in>set regions. \<exists>p\<in>cells c \<inter> frame_cells width height. i \<in> pixel_bytes stride (fst p) (snd p))"

lemma writtenI:
  "c \<in> set regions \<Longrightarrow> (px, py) \<in> cells c \<inter> frame_cells width height \<Longrightarrow>
   i \<in> pixel_bytes stride px py \<Longrightarrow> written width height stride regions i"
  by (force simp: written_def)

lemma copy_region_nth:
  assumes f: "small_frame width height" and c: "i32_region c"
    and d: "frame_buffer width height stride data" and r: "frame_buffer width height stride reference"
  shows "length (copy_region data width height stride c reference) = length reference \<and>
    (\<forall>i<length reference. copy_region data width height stride c reference ! i =
      (if written width height stride [c] i then data ! i else reference ! i))"
proof -
  obtain x y w h where eq: "c = (x, y, w, h)" by (cases c) auto
  note clip = clamp_damage_region_cells [OF f, of x y w h]
  show ?thesis
  proof (cases "clamp_damage_region x y w h width height")
    case None
    with clip c have "\<not> written width height stride [c] i" for i by (simp add: written_def eq)
    with None show ?thesis by (simp add: copy_region_def eq)
  next
    case (Some k)
    obtain l t rw rh where k: "k = (l, t, rw, rh)" by (cases k) auto
    have inside: "region_inside width height (l, t, rw, rh)"
      using clamp_damage_region_inside [OF f] c Some by (simp add: eq k)
    then have b: "0 \<le> l" "0 < rw" "0 \<le> t" "0 < rh" "nat l + nat rw \<le> width" "nat t + nat rh \<le> height"
      by (auto simp: region_inside_def)
    from clip Some c have cs: "cells c \<inter> frame_cells width height = cells (l, t, rw, rh)"
      by (simp add: eq k)
    have wr: "written width height stride [c] i \<longleftrightarrow>
        (\<exists>row\<in>set [0..<nat rh]. \<exists>qx. nat l \<le> qx \<and> qx < nat l + nat rw \<and> i \<in> pixel_bytes stride qx (nat t + row))" for i
    proof
      assume "written width height stride [c] i"
      then obtain px py where p: "(px, py) \<in> cells (l, t, rw, rh)" "i \<in> pixel_bytes stride px py"
        by (auto simp: written_def cs)
      then have "py - nat t \<in> set [0..<nat rh]" "nat l \<le> px" "px < nat l + nat rw" "nat t + (py - nat t) = py"
        using b by (auto simp: cells_def in_region_def)
      with p(2) show "\<exists>row\<in>set [0..<nat rh]. \<exists>qx. nat l \<le> qx \<and> qx < nat l + nat rw \<and>
          i \<in> pixel_bytes stride qx (nat t + row)" by metis
    next
      assume "\<exists>row\<in>set [0..<nat rh]. \<exists>qx. nat l \<le> qx \<and> qx < nat l + nat rw \<and>
          i \<in> pixel_bytes stride qx (nat t + row)"
      then obtain row qx where q: "row < nat rh" "nat l \<le> qx" "qx < nat l + nat rw"
        "i \<in> pixel_bytes stride qx (nat t + row)" by auto
      have "l \<le> int qx" "int qx < l + rw" "int row < rh" using q b by linarith+
      then have "(qx, nat t + row) \<in> cells c \<inter> frame_cells width height"
        unfolding cs using b by (simp add: cells_def in_region_def)
      then show "written width height stride [c] i"
        using q(4) by (intro writtenI [of c _ "qx" "nat t + row"]) simp_all
    qed
    show ?thesis
      using copy_rows_nth [OF d b(5) r, of "[0..<nat rh]" "nat t"] b(6) wr
      by (simp add: copy_region_def eq Some [unfolded k])
  qed
qed

lemma copy_regions_nth:
  assumes f: "small_frame width height" and d: "frame_buffer width height stride data"
  shows "list_all i32_region regions \<Longrightarrow> frame_buffer width height stride reference \<Longrightarrow>
    length (fold (copy_region data width height stride) regions reference) = length reference \<and>
    (\<forall>i<length reference. fold (copy_region data width height stride) regions reference ! i =
      (if written width height stride regions i then data ! i else reference ! i))"
proof (induction regions arbitrary: reference)
  case Nil
  then show ?case by (simp add: written_def)
next
  case (Cons c regions)
  let ?ref = "copy_region data width height stride c reference"
  from Cons.prems have c: "i32_region c" and cs: "list_all i32_region regions" by auto
  note one = copy_region_nth [OF f c d Cons.prems(2)]
  from one Cons.prems(2) have "frame_buffer width height stride ?ref" by (simp add: frame_buffer_def)
  moreover have "written width height stride (c # regions) i \<longleftrightarrow>
      written width height stride [c] i \<or> written width height stride regions i" for i
    by (auto simp: written_def)
  ultimately show ?case using Cons.IH [OF cs, of ?ref] one by simp
qed

text \<open>Pixels of a frame own their bytes, so a pixel is synchronized exactly when it was sent.\<close>

lemma pixel_bytes_owner:
  assumes "4 * width \<le> stride" and "px < width" and "i \<in> pixel_bytes stride px py"
  shows "i div stride = py \<and> i mod stride div 4 = px"
proof -
  define k where "k = i - (py * stride + px * 4)"
  have k: "k < 4" "i = py * stride + (px * 4 + k)"
    using assms(3) by (auto simp: pixel_bytes_def k_def)
  have "px * 4 + k < stride" using assms(1,2) k(1) by simp
  with k show ?thesis by simp
qed

lemma written_pixel:
  assumes "4 * width \<le> stride" and "(px, py) \<in> frame_cells width height" and "i \<in> pixel_bytes stride px py"
  shows "written width height stride regions i \<longleftrightarrow> (\<exists>c\<in>set regions. (px, py) \<in> cells c)"
proof
  assume "written width height stride regions i"
  then obtain c qx qy where c: "c \<in> set regions" "(qx, qy) \<in> cells c" "(qx, qy) \<in> frame_cells width height"
    "i \<in> pixel_bytes stride qx qy" by (auto simp: written_def)
  then have "(qx, qy) = (px, py)"
    using pixel_bytes_owner [OF assms(1) _ assms(3)] pixel_bytes_owner [OF assms(1) _ c(4)] assms(2)
    by (auto simp: frame_cells_def)
  with c show "\<exists>c\<in>set regions. (px, py) \<in> cells c" by auto
next
  assume "\<exists>c\<in>set regions. (px, py) \<in> cells c"
  with assms show "written width height stride regions i" by (auto intro: writtenI)
qed

lemma update_reference_regions_spec:
  assumes f: "small_frame width height" and i: "list_all i32_region regions"
    and d: "frame_buffer width height stride data" and r: "frame_buffer width height stride reference"
    and det: "reference_frame det = Some reference" "reference_stride det = stride"
  shows "\<exists>reference'. reference_frame (update_reference_regions det data width height stride regions) = Some reference' \<and>
    reference_stride (update_reference_regions det data width height stride regions) = stride \<and>
    frame_buffer width height stride reference' \<and>
    (\<forall>p\<in>frame_cells width height. pixel_differs data reference' stride p \<longleftrightarrow>
       pixel_differs data reference stride p \<and> \<not> (\<exists>c\<in>set regions. p \<in> cells c))"
proof -
  let ?ref = "fold (copy_region data width height stride) regions reference"
  note copied = copy_regions_nth [OF f d i r]
  have "u64_sat_mul stride height \<le> length reference"
    using r by (auto simp: frame_buffer_def u64_sat_mul_def)
  then have upd: "update_reference_regions det data width height stride regions = det\<lparr>reference_frame := Some ?ref\<rparr>"
    using det by (simp add: update_reference_regions_def Let_def)
  have "pixel_differs data ?ref stride p \<longleftrightarrow>
      pixel_differs data reference stride p \<and> \<not> (\<exists>c\<in>set regions. p \<in> cells c)"
    if p: "p \<in> frame_cells width height" for p
  proof -
    obtain px py where eq: "p = (px, py)" by (cases p)
    have w: "4 * width \<le> stride" using d by (simp add: frame_buffer_def)
    have "px + 1 \<le> width" "py < height" using p by (auto simp: eq frame_cells_def)
    from row_sat(3) [OF r this] have "\<forall>i\<in>pixel_bytes stride px py. i < length reference"
      by (auto simp: pixel_bytes_def)
    then show ?thesis
      using copied written_pixel [OF w] p unfolding eq by (auto simp: pixel_differs_def)
  qed
  then show ?thesis using upd det copied r by (auto simp: frame_buffer_def)
qed


section \<open>Merging\<close>

lemma mset_swap_remove:
  assumes "i < length xs"
  shows "mset (swap_remove xs i) = mset xs - {#xs ! i#}"
proof -
  let ?ys = "xs[i := last xs]"
  have "xs \<noteq> []" using assms by auto
  then have ne: "?ys \<noteq> []" and last: "last ?ys = last xs"
    by (simp_all add: last_list_update)
  have "mset ?ys = add_mset (last xs) (mset (butlast ?ys))"
    using append_butlast_last_id [OF ne] last by (metis mset.simps(2) mset_append union_mset_add_mset_right
        mset.simps(1) add.right_neutral)
  moreover have "mset ?ys = add_mset (last xs) (mset xs - {#xs ! i#})"
    using assms by (simp add: mset_update)
  ultimately show ?thesis by (simp add: swap_remove_def)
qed

lemma set_swap_remove: "i < length xs \<Longrightarrow> set xs = insert (xs ! i) (set (swap_remove xs i))"
  using mset_swap_remove [of i xs] by (metis insert_DiffM nth_mem_mset set_mset_add_mset_insert set_mset_mset)

lemma length_swap_remove [simp]: "length (swap_remove xs i) = length xs - 1"
  by (simp add: swap_remove_def)

lemma union_damage_region_inside:
  assumes "small_frame width height" and "region_inside width height a" and "region_inside width height b"
  shows "region_inside width height (union_damage_region a b) \<and>
    cells a \<union> cells b \<subseteq> cells (union_damage_region a b)"
proof -
  obtain ax ay aw ah where a: "a = (ax, ay, aw, ah)" by (cases a) auto
  obtain bx by' bw bh where b: "b = (bx, by', bw, bh)" by (cases b) auto
  have in_a: "0 \<le> ax" "0 < aw" "ax + aw \<le> int width" "0 \<le> ay" "0 < ah" "ay + ah \<le> int height"
    and in_b: "0 \<le> bx" "0 < bw" "bx + bw \<le> int width" "0 \<le> by'" "0 < bh" "by' + bh \<le> int height"
    and lim: "int width \<le> i32_max" "int height \<le> i32_max"
    using assms by (simp_all add: a b region_inside_def small_frame_def)
  have sat: "i32_sat_add ax aw = ax + aw" "i32_sat_add ay ah = ay + ah" "i32_sat_add bx bw = bx + bw" "i32_sat_add by' bh = by' + bh"
    using in_a in_b lim by (simp_all add: i32_sat_add_def i32_sat_def)
  have "is_i32 (max (ax + aw) (bx + bw) - min ax bx)" "is_i32 (max (ay + ah) (by' + bh) - min ay by')"
    unfolding is_i32_def using in_a in_b lim by linarith+
  then have u: "union_damage_region a b = (min ax bx, min ay by',
      max (ax + aw) (bx + bw) - min ax bx, max (ay + ah) (by' + bh) - min ay by')"
    by (simp only: a b union_damage_region_def prod.case Let_def sat i32_wrap_id)
  show ?thesis
    using assms unfolding u by (auto simp: a b region_inside_def cells_def in_region_def)
qed

lemma merge_loop_spec:
  assumes "small_frame width height"
  shows "list_all (region_inside width height) regions \<Longrightarrow> region_inside width height merged \<Longrightarrow>
    list_all (region_inside width height) (merge_loop dist regions merged index) \<and>
    length (merge_loop dist regions merged index) \<le> length regions + 1 \<and>
    (\<Union>r\<in>set regions. cells r) \<union> cells merged \<subseteq> (\<Union>r\<in>set (merge_loop dist regions merged index). cells r)"
proof (induction dist regions merged index rule: merge_loop.induct)
  case (1 dist regions merged index)
  note all = "1.prems"
  show ?case
  proof (cases "index < length regions \<and> damage_regions_are_near (regions ! index) merged dist")
    case True
    let ?r = "regions ! index" and ?rest = "swap_remove regions index"
    have set: "set regions = insert ?r (set ?rest)" using True set_swap_remove by blast
    then have rest: "list_all (region_inside width height) ?rest" and r: "region_inside width height ?r"
      using all(1) by (auto simp: list_all_iff)
    note u = union_damage_region_inside [OF assms r all(2)]
    have eq: "merge_loop dist regions merged index = merge_loop dist ?rest (union_damage_region ?r merged) index"
      using True by (subst merge_loop.simps) simp
    have ih: "list_all (region_inside width height) (merge_loop dist regions merged index) \<and>
        length (merge_loop dist regions merged index) \<le> length ?rest + 1 \<and>
        (\<Union>r\<in>set ?rest. cells r) \<union> cells (union_damage_region ?r merged)
          \<subseteq> (\<Union>r\<in>set (merge_loop dist regions merged index). cells r)"
      unfolding eq using "1.IH"(1) True rest u by blast
    have "(\<Union>r\<in>set regions. cells r) \<union> cells merged
        \<subseteq> (\<Union>r\<in>set ?rest. cells r) \<union> cells (union_damage_region ?r merged)"
      unfolding set using u by auto
    also have "\<dots> \<subseteq> (\<Union>r\<in>set (merge_loop dist regions merged index). cells r)"
      using ih by simp
    finally have cover: "(\<Union>r\<in>set regions. cells r) \<union> cells merged
        \<subseteq> (\<Union>r\<in>set (merge_loop dist regions merged index). cells r)" .
    have "length ?rest \<le> length regions" by simp
    with ih cover show ?thesis by (intro conjI) (simp_all del: length_swap_remove)
  next
    case False
    show ?thesis
    proof (cases "index < length regions")
      case True
      then have "merge_loop dist regions merged index = merge_loop dist regions merged (index + 1)"
        using False by (subst merge_loop.simps) simp
      then show ?thesis using "1.IH"(2) True False all by simp
    next
      case False
      then have "merge_loop dist regions merged index = regions @ [merged]"
        by (subst merge_loop.simps) simp
      then show ?thesis using all by auto
    qed
  qed
qed

section \<open>Areas\<close>

lemma clamped_area_eq:
  assumes "int width \<le> i32_max" and "int height \<le> i32_max" and "i32_region d"
  shows "\<exists>a. clamped_area width height d = Some a \<and>
    (case a of None \<Rightarrow> 0 | Some n \<Rightarrow> n) = card (cells d \<inter> frame_cells width height)"
proof -
  obtain x y w h where d: "d = (x, y, w, h)" by (cases d) auto
  let ?l = "clamp x 0 (int width)" and ?t = "clamp y 0 (int height)"
  let ?r = "clamp (x + w) 0 (int width)" and ?b = "clamp (y + h) 0 (int height)"
  have wrap: "i32_wrap (int width) = int width" "i32_wrap (int height) = int height"
    using assms by (simp_all add: i32_wrap_id is_i32_def)
  have box: "card (cells d \<inter> frame_cells width height) = (nat ?r - nat ?l) * (nat ?b - nat ?t)"
    using clamped_box [of "int width" "int height" x y w h] by (simp add: d card_box flip: card_box)
  have run: "clamped_area width height d = Some (if w \<le> 0 \<or> h \<le> 0 \<or> ?r \<le> ?l \<or> ?b \<le> ?t then None
      else Some (u64_mul (nat (?r - ?l)) (nat (?b - ?t))))"
    using assms by (simp add: clamped_area_def d wrap clamp_run_Some clamp_sat_add i32_region_def)
  show ?thesis
  proof (cases "w \<le> 0 \<or> h \<le> 0 \<or> ?r \<le> ?l \<or> ?b \<le> ?t")
    case True
    then have "?r \<le> ?l \<or> ?b \<le> ?t" by (auto simp: clamp_def)
    then have "(nat ?r - nat ?l) * (nat ?b - nat ?t) = 0" by auto
    with True box run show ?thesis by auto
  next
    case False
    have nn: "0 \<le> ?l" "?r \<le> int width" "0 \<le> ?t" "?b \<le> int height" by (auto simp: clamp_def)
    then have "nat (?r - ?l) \<le> u32_max" "nat (?b - ?t) \<le> u32_max" using assms by linarith+
    then have "u64_mul (nat (?r - ?l)) (nat (?b - ?t)) = nat (?r - ?l) * nat (?b - ?t)"
      by (rule u64_mul_id)
    moreover have "nat (?r - ?l) = nat ?r - nat ?l" "nat (?b - ?t) = nat ?b - nat ?t"
      using nn by (simp_all add: nat_diff_distrib')
    ultimately show ?thesis using False box run by auto
  qed
qed

lemma fold_u64_add:
  "acc + sum_list ns \<le> u64_max \<Longrightarrow> fold u64_add ns acc = acc + sum_list ns"
  by (induction ns arbitrary: acc) (auto simp: u64_add_def add.commute add.left_commute)

lemma card_clipped: "card (cells d \<inter> frame_cells width height) \<le> width * height"
proof -
  have "frame_cells width height = box_cells 0 0 width height"
    by (auto simp: frame_cells_def box_cells_def)
  moreover have "finite (box_cells 0 0 width height)" by (simp add: box_cells_times)
  ultimately show ?thesis
    using card_mono [of "box_cells 0 0 width height" "cells d \<inter> frame_cells width height"]
    by (simp add: card_box)
qed


section \<open>Properties\<close>

text \<open>
  C20: Damage detection against the last sent frame is exact up to tiles: on a frame that fits its
  buffer, it returns distinct tiles, each inside the frame and inside a candidate and each with a
  changed pixel, and every changed pixel of a candidate lies in one of them.
\<close>

theorem detect_exact:
  assumes "small_frame width height" and "list_all i32_region candidates"
    and "frame_buffer width height stride data" and "frame_buffer width height stride reference"
    and "reference_frame det = Some reference" and "reference_stride det = stride"
  shows "\<exists>out. detect det data width height stride candidates = Some out \<and> distinct out \<and>
    (\<forall>t\<in>set out. region_inside width height t \<and> (\<exists>c\<in>set candidates. cells t \<subseteq> cells c) \<and>
       (\<exists>p\<in>cells t. pixel_differs data reference stride p)) \<and>
    (\<forall>c\<in>set candidates. \<forall>p\<in>cells c \<inter> frame_cells width height.
       pixel_differs data reference stride p \<longrightarrow> (\<exists>t\<in>set out. p \<in> cells t))"
  using detect_spec [OF assms] unfolding detects_def by blast

theorem detect_exact_witness:
  "\<exists>out. detect \<lparr>reference_frame = Some (replicate 8 0), reference_stride = 8\<rparr> (replicate 4 0 @ replicate 4 1)
      2 1 8 [(0, 0, 2, 1)] = Some out \<and> (\<exists>t\<in>set out. (1, 0) \<in> cells t)"
proof -
  have d: "frame_buffer 2 1 8 (replicate 4 0 @ replicate 4 1)" "frame_buffer 2 1 8 (replicate 8 0)"
    by (simp_all add: frame_buffer_def)
  have p: "(1, 0) \<in> cells (0, 0, 2, 1) \<inter> frame_cells 2 1"
    by (simp add: cells_def in_region_def frame_cells_def)
  have "(replicate 4 0 @ replicate 4 (1 :: byte)) ! 4 \<noteq> replicate 8 0 ! 4"
    by (simp add: nth_append)
  then have "pixel_differs (replicate 4 0 @ replicate 4 1) (replicate 8 0) 8 (1, 0)"
    unfolding pixel_differs_def prod.case by (rule bexI) (simp add: pixel_bytes_def)
  with p show ?thesis
    using detect_exact [of 2 1 "[(0, 0, 2, 1)]", OF _ _ d, of "\<lparr>reference_frame = Some (replicate 8 0), reference_stride = 8\<rparr>"]
    by (fastforce simp: small_frame_def i32_region_def is_i32_def)
qed

text \<open>
  Sending what was detected settles the frame: after the detected tiles are copied into the
  reference, detecting the same frame again finds nothing, and pixels that were not sent stay
  different, so they are found by a later detection.
\<close>

theorem detect_then_update_settles:
  assumes f: "small_frame width height" and i: "list_all i32_region candidates"
    and d: "frame_buffer width height stride data" and r: "frame_buffer width height stride reference"
    and det: "reference_frame det = Some reference" "reference_stride det = stride"
    and out: "detect det data width height stride candidates = Some out"
  shows "detect (update_reference_regions det data width height stride out) data width height stride candidates = Some [] \<and>
    (\<exists>reference'. reference_frame (update_reference_regions det data width height stride out) = Some reference' \<and>
      (\<forall>p\<in>frame_cells width height. (\<forall>t\<in>set out. p \<notin> cells t) \<longrightarrow>
         pixel_differs data reference' stride p = pixel_differs data reference stride p))"
proof -
  have spec: "detects data reference width height stride candidates (set out)"
    using detect_spec [OF f i d r det] out by auto
  then have "list_all i32_region out"
    using f unfolding detects_def list_all_iff
    by (force simp: region_inside_def i32_region_def is_i32_def small_frame_def)
  from update_reference_regions_spec [OF f this d r det] obtain reference' where
    upd: "reference_frame (update_reference_regions det data width height stride out) = Some reference'"
      "reference_stride (update_reference_regions det data width height stride out) = stride"
      "frame_buffer width height stride reference'"
    and diff: "\<forall>p\<in>frame_cells width height. pixel_differs data reference' stride p \<longleftrightarrow>
       pixel_differs data reference stride p \<and> \<not> (\<exists>c\<in>set out. p \<in> cells c)" by blast
  from detect_spec [OF f i d upd(3) upd(1,2)] obtain out' where
    out': "detect (update_reference_regions det data width height stride out) data width height stride candidates = Some out'"
      "detects data reference' width height stride candidates (set out')" by blast
  have "t \<notin> set out'" for t
  proof
    assume t: "t \<in> set out'"
    then obtain c p where "c \<in> set candidates" "cells t \<subseteq> cells c" "p \<in> cells t"
      "pixel_differs data reference' stride p" "region_inside width height t"
      using out'(2) unfolding detects_def by blast
    then have "p \<in> cells c \<inter> frame_cells width height" "pixel_differs data reference stride p"
      "\<not> (\<exists>c\<in>set out. p \<in> cells c)" "c \<in> set candidates"
      using region_inside_cells diff by blast+
    with spec show False unfolding detects_def by blast
  qed
  then have "out' = []" by (cases out') auto
  with out'(1) have settled: "detect (update_reference_regions det data width height stride out) data width height stride candidates = Some []"
    by simp
  moreover have "\<exists>reference'. reference_frame (update_reference_regions det data width height stride out) = Some reference' \<and>
      (\<forall>p\<in>frame_cells width height. (\<forall>t\<in>set out. p \<notin> cells t) \<longrightarrow>
         pixel_differs data reference' stride p = pixel_differs data reference stride p)"
    using upd(1) diff by blast
  ultimately show ?thesis by blast
qed

theorem detect_then_update_settles_witness:
  "\<exists>out. detect \<lparr>reference_frame = Some (replicate 8 0), reference_stride = 8\<rparr> (replicate 4 0 @ replicate 4 1)
      2 1 8 [(0, 0, 2, 1)] = Some out \<and>
    detect (update_reference_regions \<lparr>reference_frame = Some (replicate 8 0), reference_stride = 8\<rparr>
      (replicate 4 0 @ replicate 4 1) 2 1 8 out) (replicate 4 0 @ replicate 4 1) 2 1 8 [(0, 0, 2, 1)] = Some []"
proof -
  let ?det = "\<lparr>reference_frame = Some (replicate 8 0), reference_stride = 8\<rparr>"
  have f: "small_frame 2 1" and i: "list_all i32_region [(0, 0, 2, 1)]"
    by (simp_all add: small_frame_def i32_region_def is_i32_def)
  have d: "frame_buffer 2 1 8 (replicate 4 0 @ replicate 4 1)" "frame_buffer 2 1 8 (replicate 8 0)"
    by (simp_all add: frame_buffer_def)
  obtain out where out: "detect ?det (replicate 4 0 @ replicate 4 1) 2 1 8 [(0, 0, 2, 1)] = Some out"
    using detect_spec [OF f i d, of ?det] by auto
  show ?thesis
    using detect_then_update_settles [OF f i d, of ?det out] out by auto
qed

text \<open>
  Merging a clamped damage rectangle into the pending list loses no pixel, keeps every
  rectangle inside the frame, and grows the list by at most one.
\<close>

theorem merge_damage_keeps_pixels:
  assumes "small_frame width height" and "list_all (region_inside width height) pending"
    and "region_inside width height region"
  shows "list_all (region_inside width height) (merge_damage_region pending region) \<and>
    length (merge_damage_region pending region) \<le> length pending + 1 \<and>
    (\<Union>r\<in>set pending. cells r) \<union> cells region \<subseteq> (\<Union>r\<in>set (merge_damage_region pending region). cells r)"
  using merge_loop_spec [OF assms] unfolding merge_damage_region_def merge_nearby_damage_region_def .

theorem merge_damage_keeps_pixels_witness:
  "merge_damage_region [(0, 0, 20, 20)] (25, 10, 20, 10) = [(0, 0, 45, 20)] \<and>
   cells (25, 10, 20, 10) \<subseteq> (\<Union>r\<in>set (merge_damage_region [(0, 0, 20, 20)] (25, 10, 20, 10)). cells r)"
proof -
  have "merge_damage_region [(0, 0, 20, 20)] (25, 10, 20, 10) = [(0, 0, 45, 20)]"
    by code_simp
  then show ?thesis
    using merge_damage_keeps_pixels [of 1280 720 "[(0, 0, 20, 20)]" "(25, 10, 20, 10)"]
    by (simp add: small_frame_def region_inside_def)
qed

text \<open>
  The damage area is the sum of the pixels of the damaged rectangles inside the frame, with no
  panic and no wrap-around, on frames whose sides fit in \<open>i32\<close>.
\<close>

theorem damage_area_counts_pixels:
  assumes "int width \<le> i32_max" and "int height \<le> i32_max" and "list_all i32_region regions"
    and "length regions * (width * height) \<le> u64_max"
  shows "damage_area_pixels regions width height =
    Some (\<Sum>d\<leftarrow>regions. card (cells d \<inter> frame_cells width height))"
proof -
  define f where "f d = the (clamped_area width height d)" for d
  have f: "clamped_area width height d = Some (f d) \<and>
      (case f d of None \<Rightarrow> 0 | Some n \<Rightarrow> n) = card (cells d \<inter> frame_cells width height)"
    if "d \<in> set regions" for d
    using clamped_area_eq [OF assms(1,2), of d] assms(3) that by (force simp: f_def list_all_iff)
  have run: "filter_map_run (clamped_area width height) regions = Some (filter_map f regions)"
    by (rule filter_map_run_total) (use f in blast)
  have "sum_list (filter_map f ds) = (\<Sum>d\<leftarrow>ds. case f d of None \<Rightarrow> 0 | Some n \<Rightarrow> n)" for ds
    by (induction ds) (auto split: option.splits)
  also have "(\<Sum>d\<leftarrow>regions. case f d of None \<Rightarrow> 0 | Some n \<Rightarrow> n) =
      (\<Sum>d\<leftarrow>regions. card (cells d \<inter> frame_cells width height))"
    using f by (intro arg_cong [where f = sum_list] map_cong) auto
  finally have sum: "sum_list (filter_map f regions) = (\<Sum>d\<leftarrow>regions. card (cells d \<inter> frame_cells width height))" .
  have "(\<Sum>d\<leftarrow>ds. card (cells d \<inter> frame_cells width height)) \<le> length ds * (width * height)" for ds
    by (induction ds) (auto intro: add_mono card_clipped)
  with assms(4) have "sum_list (filter_map f regions) \<le> u64_max"
    unfolding sum by (rule order_trans [rotated])
  then show ?thesis
    using fold_u64_add [of 0] by (simp add: damage_area_pixels_def run sum)
qed

theorem damage_area_counts_pixels_witness:
  "damage_area_pixels [(-10, -10, 20, 20), (1270, 710, 20, 20)] 1280 720 =
     Some (\<Sum>d\<leftarrow>[(-10, -10, 20, 20), (1270, 710, 20, 20)]. card (cells d \<inter> frame_cells 1280 720))"
  using damage_area_counts_pixels [of 1280 720 "[(-10, -10, 20, 20), (1270, 710, 20, 20)]"]
  by (simp add: i32_region_def is_i32_def)

end
