(* ===== verification/YuvPlanes.thy ===== *)
theory YuvPlanes
  imports Damage
begin

text \<open>
  The planes of \<open>src/src/egfx/avc444.rs\<close>: alignment and merging of the rectangles of a frame, copying
  the rectangles of a plane into the reference, and the detection of the tiles of 64 by 64 pixels in
  which a plane changed. A plane is a list of bytes in row-major order; an index or a slice out of
  range is the result \<open>None\<close>, and so is the overflow of a tile position.

  The lemmas say what a reference holds after its update (\<open>patched\<close>: exactly the bytes in the rectangles
  are replaced) and which tiles the detection reports (\<open>changed_in\<close>: those in which a byte differs).
\<close>

section \<open>Rectangles\<close>

definition align_down :: "int \<Rightarrow> int \<Rightarrow> int" where
  "align_down value alignment = value - value mod alignment"

definition align_up :: "int \<Rightarrow> int \<Rightarrow> int" where
  "align_up value alignment =
     (let rem = value mod alignment in if rem = 0 then value else i32_sat_add value (alignment - rem))"

type_synonym box = "nat \<times> nat \<times> nat \<times> nat"

definition clamp_region :: "nat \<Rightarrow> nat \<Rightarrow> region \<Rightarrow> box option" where
  "clamp_region width height = (\<lambda>(x, y, w, h).
     if w \<le> 0 \<or> h \<le> 0 then None
     else do {
       width \<leftarrow> i32_try_from width;
       height \<leftarrow> i32_try_from height;
       let left = clamp x 0 width;
       let top_y = clamp y 0 height;
       let right = clamp (i32_sat_add x w) 0 width;
       let bottom = clamp (i32_sat_add y h) 0 height;
       if right > left \<and> bottom > top_y then Some (nat left, nat top_y, nat right, nat bottom) else None
     })"

definition regions_overlap_or_touch :: "region \<Rightarrow> region \<Rightarrow> bool" where
  "regions_overlap_or_touch = (\<lambda>(ax, ay, aw, ah) (bx, by', bw, bh).
     let a_right = i32_sat_add ax aw; a_bottom = i32_sat_add ay ah;
         b_right = i32_sat_add bx bw; b_bottom = i32_sat_add by' bh
     in ax \<le> b_right \<and> bx \<le> a_right \<and> ay \<le> b_bottom \<and> by' \<le> a_bottom)"

definition union_region :: "region \<Rightarrow> region \<Rightarrow> region" where
  "union_region = (\<lambda>(ax, ay, aw, ah) (bx, by', bw, bh).
     let left = min ax bx; top_y = min ay by';
         right = max (i32_sat_add ax aw) (i32_sat_add bx bw);
         bottom = max (i32_sat_add ay ah) (i32_sat_add by' bh)
     in (left, top_y, i32_wrap (right - left), i32_wrap (bottom - top_y)))"

function merge_region_loop :: "region list \<Rightarrow> region \<Rightarrow> nat \<Rightarrow> region list" where
  "merge_region_loop regions merged index =
     (if index < length regions
      then if regions_overlap_or_touch (regions ! index) merged
           then merge_region_loop (swap_remove regions index) (union_region (regions ! index) merged) index
           else merge_region_loop regions merged (index + 1)
      else regions @ [merged])"
  by pat_completeness auto
termination
  by (relation "measure (\<lambda>(regions, _, index). length regions - index)") (auto simp: swap_remove_def)

declare merge_region_loop.simps [simp del]

definition merge_region :: "region list \<Rightarrow> region \<Rightarrow> region list" where
  "merge_region regions region = merge_region_loop regions region 0"

definition push_unique_region :: "region list \<Rightarrow> region \<Rightarrow> region list" where
  "push_unique_region regions region = (if region \<in> set regions then regions else regions @ [region])"

definition align_region :: "int \<Rightarrow> int \<Rightarrow> int \<Rightarrow> int \<Rightarrow> region \<Rightarrow> region list \<Rightarrow> region list" where
  "align_region width height x_alignment y_alignment = (\<lambda>(x, y, w, h) aligned.
     if w \<le> 0 \<or> h \<le> 0 then aligned
     else let left = align_down (clamp x 0 width) x_alignment;
              top_y = align_down (clamp y 0 height) y_alignment;
              right = clamp (align_up (clamp (i32_sat_add x w) 0 width) x_alignment) 0 width;
              bottom = clamp (align_up (clamp (i32_sat_add y h) 0 height) y_alignment) 0 height
          in if right > left \<and> bottom > top_y
             then merge_region aligned (left, top_y, right - left, bottom - top_y)
             else aligned)"

definition align_regions :: "nat \<Rightarrow> nat \<Rightarrow> region list \<Rightarrow> int \<Rightarrow> int \<Rightarrow> region list" where
  "align_regions width height regions x_alignment y_alignment =
     (case (i32_try_from width, i32_try_from height) of
        (Some w, Some h) \<Rightarrow> fold (align_region w h x_alignment y_alignment) regions []
      | _ \<Rightarrow> [])"

definition align_protocol_regions :: "nat \<Rightarrow> nat \<Rightarrow> region list \<Rightarrow> region list" where
  "align_protocol_regions width height regions = align_regions width height regions 4 2"

definition region_area_pixels :: "region list \<Rightarrow> nat \<Rightarrow> nat \<Rightarrow> nat" where
  "region_area_pixels regions width height =
     fold u64_add (filter_map (\<lambda>r. map_option (\<lambda>(l, t, r, b). u64_mul (r - l) (b - t))
       (clamp_region width height r)) regions) 0"

section \<open>Planes of one picture\<close>

record yuv420 =
  y_plane :: "byte list"
  u_plane :: "byte list"
  v_plane :: "byte list"

definition copy_plane_region :: "nat \<Rightarrow> byte list \<Rightarrow> box \<Rightarrow> byte list \<Rightarrow> byte list run" where
  "copy_plane_region stride src = (\<lambda>(left, top_y, right, bottom) dst.
     let width = right - left in
     if width = 0 then Some dst
     else fold_run (\<lambda>row. blit_run (row * stride + left) (row * stride + left + width) src) [top_y..<bottom] dst)"

definition copy_yuv420_reference :: "nat \<Rightarrow> nat \<Rightarrow> yuv420 \<Rightarrow> yuv420 option \<Rightarrow> yuv420 run" where
  "copy_yuv420_reference width height p reference =
     (let y_len = width * height; uv_len = (width div 2) * (height div 2);
          r = (case reference of
                 None \<Rightarrow> \<lparr>y_plane = replicate y_len 0, u_plane = replicate uv_len 0, v_plane = replicate uv_len 0\<rparr>
               | Some r \<Rightarrow> r)
      in do {
        y \<leftarrow> blit_run 0 y_len (y_plane p) (y_plane r);
        u \<leftarrow> blit_run 0 uv_len (u_plane p) (u_plane r);
        v \<leftarrow> blit_run 0 uv_len (v_plane p) (v_plane r);
        Some \<lparr>y_plane = y, u_plane = u, v_plane = v\<rparr>
      })"

definition chroma_box :: "box \<Rightarrow> box" where
  "chroma_box = (\<lambda>(left, top_y, right, bottom). (left div 2, top_y div 2, (right + 1) div 2, (bottom + 1) div 2))"

definition update_yuv420_region :: "nat \<Rightarrow> nat \<Rightarrow> yuv420 \<Rightarrow> region \<Rightarrow> yuv420 \<Rightarrow> yuv420 run" where
  "update_yuv420_region width height p region r =
     (case clamp_region width height region of
        None \<Rightarrow> Some r
      | Some b \<Rightarrow> do {
          y \<leftarrow> copy_plane_region width (y_plane p) b (y_plane r);
          u \<leftarrow> copy_plane_region (width div 2) (u_plane p) (chroma_box b) (u_plane r);
          v \<leftarrow> copy_plane_region (width div 2) (v_plane p) (chroma_box b) (v_plane r);
          Some \<lparr>y_plane = y, u_plane = u, v_plane = v\<rparr>
        })"

definition update_yuv420_reference_regions ::
  "nat \<Rightarrow> nat \<Rightarrow> yuv420 \<Rightarrow> region list \<Rightarrow> yuv420 option \<Rightarrow> yuv420 option run" where
  "update_yuv420_reference_regions width height p regions reference =
     (case reference of
        None \<Rightarrow> map_option Some (copy_yuv420_reference width height p None)
      | Some r \<Rightarrow> map_option Some (fold_run (update_yuv420_region width height p) regions r))"

section \<open>Changed tiles\<close>

text \<open>A search over rows that stops at the first hit, with the panic of a row out of range.\<close>

fun any_run :: "('a \<Rightarrow> bool run) \<Rightarrow> 'a list \<Rightarrow> bool run" where
  "any_run f [] = Some False"
| "any_run f (x # xs) = (case f x of None \<Rightarrow> None | Some True \<Rightarrow> Some True | Some False \<Rightarrow> any_run f xs)"

definition rows_differ :: "nat \<Rightarrow> nat \<Rightarrow> byte list \<Rightarrow> byte list \<Rightarrow> bool run" where
  "rows_differ s e xs ys = do { a \<leftarrow> slice_run s e xs; b \<leftarrow> slice_run s e ys; Some (a \<noteq> b) }"

definition yuv420_tile_changed :: "nat \<Rightarrow> yuv420 \<Rightarrow> yuv420 \<Rightarrow> box \<Rightarrow> bool run" where
  "yuv420_tile_changed width p reference = (\<lambda>(left, top_y, right, bottom). do {
     luma \<leftarrow> any_run (\<lambda>row. rows_differ (row * width + left) (row * width + right) (y_plane p) (y_plane reference))
       [top_y..<bottom];
     if luma then Some True
     else let chroma_width = width div 2; chroma_left = left div 2; chroma_right = (right + 1) div 2;
              chroma_top = top_y div 2; chroma_bottom = (bottom + 1) div 2
          in any_run (\<lambda>row. let s = row * chroma_width + chroma_left; e = row * chroma_width + chroma_right in
               case rows_differ s e (u_plane p) (u_plane reference) of
                 None \<Rightarrow> None
               | Some True \<Rightarrow> Some True
               | Some False \<Rightarrow> rows_differ s e (v_plane p) (v_plane reference))
             [chroma_top..<chroma_bottom]
   })"

text \<open>The positions of \<open>while pos < end { ..; pos += 64 }\<close>.\<close>

function steps64 :: "nat \<Rightarrow> nat \<Rightarrow> nat list" where
  "steps64 pos stop = (if pos < stop then pos # steps64 (pos + 64) stop else [])"
  by pat_completeness auto
termination
  by (relation "measure (\<lambda>(pos, stop). stop - pos)") auto

declare steps64.simps [simp del]

definition tile_boxes :: "box \<Rightarrow> box list" where
  "tile_boxes = (\<lambda>(left, top_y, right, bottom).
     concat (map (\<lambda>tile_y. map (\<lambda>tile_x. (tile_x, tile_y, min (tile_x + 64) right, min (tile_y + 64) bottom))
       (steps64 left right)) (steps64 top_y bottom)))"

definition box_region :: "box \<Rightarrow> region" where
  "box_region = (\<lambda>(l, t, r, b). (int l, int t, int (r - l), int (b - t)))"

definition detect_yuv420_tile :: "nat \<Rightarrow> yuv420 \<Rightarrow> yuv420 \<Rightarrow> box \<Rightarrow> region list \<Rightarrow> region list run" where
  "detect_yuv420_tile width p reference tile regions = do {
     changed \<leftarrow> yuv420_tile_changed width p reference tile;
     Some (if changed then push_unique_region regions (box_region tile) else regions)
   }"

definition detect_yuv420_candidate ::
  "nat \<Rightarrow> nat \<Rightarrow> yuv420 \<Rightarrow> yuv420 \<Rightarrow> region \<Rightarrow> region list \<Rightarrow> region list run" where
  "detect_yuv420_candidate width height p reference candidate regions =
     (case clamp_region width height candidate of
        None \<Rightarrow> Some regions
      | Some b \<Rightarrow> fold_run (detect_yuv420_tile width p reference) (tile_boxes b) regions)"

definition detect_yuv420_regions ::
  "nat \<Rightarrow> nat \<Rightarrow> yuv420 \<Rightarrow> yuv420 option \<Rightarrow> region list \<Rightarrow> region list run" where
  "detect_yuv420_regions width height p reference candidates =
     (case reference of
        None \<Rightarrow> Some [full_frame width height]
      | Some r \<Rightarrow> fold_run (detect_yuv420_candidate width height p r) candidates [])"

section \<open>Copies\<close>

lemma blit_run_Some:
  "s \<le> e \<Longrightarrow> e \<le> length src \<Longrightarrow> e \<le> length dst \<Longrightarrow>
   \<exists>d. blit_run s e src dst = Some d \<and> length d = length dst \<and>
     (\<forall>i<length dst. d ! i = (if s \<le> i \<and> i < e then src ! i else dst ! i))"
  by (simp add: blit_run_def length_blit nth_blit)

text \<open>A copy into part of a plane: it returns, keeps the length and writes exactly the indices in \<open>P\<close>.\<close>

definition copies :: "(nat \<Rightarrow> bool) \<Rightarrow> byte list \<Rightarrow> byte list \<Rightarrow> byte list run \<Rightarrow> bool" where
  "copies P src dst r \<longleftrightarrow> (\<exists>d. r = Some d \<and> length d = length dst \<and>
     (\<forall>i<length dst. d ! i = (if P i then src ! i else dst ! i)))"

lemma copies_rows:
  assumes "W * n \<le> length src" and "length dst = W * n" and "l \<le> r" and "r \<le> W" and "list_all (\<lambda>row. row < n) rows"
  shows "copies (\<lambda>i. i div W \<in> set rows \<and> l \<le> i mod W \<and> i mod W < r) src dst
    (fold_run (\<lambda>row. blit_run (row * W + l) (row * W + r) src) rows dst)"
  using assms(2,5)
proof (induction rows arbitrary: dst)
  case Nil
  then show ?case by (simp add: copies_def)
next
  case (Cons row rows)
  have "row * W + r \<le> (row + 1) * W" using assms(4) by simp
  also have "\<dots> \<le> n * W" using Cons.prems(2) by (intro mult_le_mono1) simp
  finally have e: "row * W + r \<le> W * n" by (simp add: mult.commute)
  then obtain d1 where d1: "blit_run (row * W + l) (row * W + r) src dst = Some d1" "length d1 = length dst"
    "\<forall>i<length dst. d1 ! i = (if row * W + l \<le> i \<and> i < row * W + r then src ! i else dst ! i)"
    using blit_run_Some [of "row * W + l" "row * W + r" src dst] assms(1,3) Cons.prems(1) by auto
  have "copies (\<lambda>i. i div W \<in> set rows \<and> l \<le> i mod W \<and> i mod W < r) src d1
    (fold_run (\<lambda>row. blit_run (row * W + l) (row * W + r) src) rows d1)"
    using Cons.IH [of d1] d1(2) Cons.prems by simp
  with d1 show ?case unfolding row_span [OF assms(4)] by (auto simp: copies_def)
qed

lemma copy_plane_region_copies:
  assumes "W * n \<le> length src" and "length dst = W * n" and "l \<le> r" and "r \<le> W" and "b \<le> n"
  shows "copies (in_box W (l, t, r, b)) src dst (copy_plane_region W src (l, t, r, b) dst)"
proof (cases "l = r")
  case True
  then show ?thesis by (auto simp: copy_plane_region_def copies_def in_box_def Let_def)
next
  case False
  have "list_all (\<lambda>row. row < n) [t..<b]" using assms(5) by (auto simp: list_all_iff)
  from copies_rows [OF assms(1-4) this] False assms(3) show ?thesis
    by (simp add: copy_plane_region_def in_box_def copies_def conj_ac)
qed

section \<open>Boxes inside a picture\<close>

definition yuv_len :: "nat \<Rightarrow> nat \<Rightarrow> yuv420 \<Rightarrow> bool" where
  "yuv_len width height p \<longleftrightarrow> length (y_plane p) = width * height \<and>
     length (u_plane p) = (width div 2) * (height div 2) \<and> length (v_plane p) = (width div 2) * (height div 2)"

definition box_inside :: "nat \<Rightarrow> nat \<Rightarrow> box \<Rightarrow> bool" where
  "box_inside width height = (\<lambda>(l, t, r, b). l < r \<and> r \<le> width \<and> t < b \<and> b \<le> height)"

text \<open>Sides the encoder accepts, and that fit the casts to \<open>i32\<close>.\<close>

definition even_frame :: "nat \<Rightarrow> nat \<Rightarrow> bool" where
  "even_frame width height \<longleftrightarrow> even width \<and> even height \<and> int width \<le> i32_max \<and> int height \<le> i32_max"

lemma clamp_region_eq:
  assumes "int width \<le> i32_max" and "int height \<le> i32_max" and "i32_region (x, y, w, h)"
  shows "clamp_region width height (x, y, w, h) =
    (let l = clamp x 0 (int width); t = clamp y 0 (int height);
         r = clamp (x + w) 0 (int width); b = clamp (y + h) 0 (int height)
     in if w \<le> 0 \<or> h \<le> 0 \<or> r \<le> l \<or> b \<le> t then None else Some (nat l, nat t, nat r, nat b))"
  using assms
  by (auto simp: clamp_region_def i32_try_from_def i32_region_def clamp_sat_add Let_def)

lemma clamp_region_box:
  assumes "box_inside width height bx" and "int width \<le> i32_max" and "int height \<le> i32_max"
  shows "clamp_region width height (box_region bx) = Some bx \<and> i32_region (box_region bx)"
proof -
  obtain l t r b where bx: "bx = (l, t, r, b)" by (cases bx) auto
  have i: "i32_region (int l, int t, int (r - l), int (b - t))"
    using assms by (simp add: bx box_inside_def i32_region_def is_i32_def)
  have "int l + int (r - l) = int r" "int t + int (b - t) = int b"
    using assms(1) by (simp_all add: bx box_inside_def of_nat_diff)
  with assms(1) i show ?thesis
    unfolding bx box_region_def prod.case clamp_region_eq [OF assms(2,3) i]
    by (simp add: box_inside_def clamp_def Let_def)
qed

lemma clamp_region_inside:
  "clamp_region width height d = Some bx \<Longrightarrow> box_inside width height bx"
  by (cases d) (auto simp: clamp_region_def box_inside_def i32_try_from_def Let_def clamp_def split: if_splits)

lemma clamp_region_cells:
  assumes "int width \<le> i32_max" and "int height \<le> i32_max" and "i32_region d"
  shows "(case clamp_region width height d of None \<Rightarrow> {} | Some (l, t, r, b) \<Rightarrow> box_cells l t r b) =
    cells d \<inter> frame_cells width height"
proof -
  obtain x y w h where d: "d = (x, y, w, h)" by (cases d) auto
  note box = clamped_box [of "int width" "int height" x y w h, simplified]
  show ?thesis
  proof (cases "w \<le> 0 \<or> h \<le> 0")
    case True
    then have "cells d = {}" by (auto simp: d cells_def in_region_def)
    with True show ?thesis by (simp add: d clamp_region_def)
  next
    case False
    have "r \<le> l \<or> b \<le> t \<Longrightarrow> box_cells (nat l) (nat t) (nat r) (nat b) = {}" for l t r b :: int
      unfolding box_cells_empty_iff using nat_mono by blast
    with False show ?thesis
      unfolding d clamp_region_eq [OF assms(1,2) assms(3) [unfolded d]] Let_def box [symmetric] by simp
  qed
qed

lemma chroma_box_inside:
  assumes "box_inside width height (l, t, r, b)" and "even width" and "even height"
  shows "l div 2 \<le> (r + 1) div 2" "(r + 1) div 2 \<le> width div 2" "(b + 1) div 2 \<le> height div 2"
  using assms by (auto simp: box_inside_def elim!: evenE)

text \<open>The indices of the three planes that belong to a box.\<close>

definition luma_at :: "nat \<Rightarrow> box \<Rightarrow> nat \<Rightarrow> bool" where
  "luma_at width bx i \<longleftrightarrow> in_box width bx i"

definition chroma_at :: "nat \<Rightarrow> box \<Rightarrow> nat \<Rightarrow> bool" where
  "chroma_at width bx i \<longleftrightarrow> in_box (width div 2) (chroma_box bx) i"

definition covered_by :: "nat \<Rightarrow> nat \<Rightarrow> (nat \<Rightarrow> box \<Rightarrow> nat \<Rightarrow> bool) \<Rightarrow> region list \<Rightarrow> nat \<Rightarrow> bool" where
  "covered_by width height at regions i \<longleftrightarrow>
     (\<exists>d\<in>set regions. \<exists>bx. clamp_region width height d = Some bx \<and> at width bx i)"

text \<open>A picture after the part of it under some regions was taken from another.\<close>

definition patched :: "nat \<Rightarrow> nat \<Rightarrow> region list \<Rightarrow> yuv420 \<Rightarrow> yuv420 \<Rightarrow> yuv420 \<Rightarrow> bool" where
  "patched width height regions p r r' \<longleftrightarrow> yuv_len width height r' \<and>
     (\<forall>i<width * height. y_plane r' ! i = (if covered_by width height luma_at regions i then y_plane p ! i else y_plane r ! i)) \<and>
     (\<forall>i<(width div 2) * (height div 2).
        u_plane r' ! i = (if covered_by width height chroma_at regions i then u_plane p ! i else u_plane r ! i) \<and>
        v_plane r' ! i = (if covered_by width height chroma_at regions i then v_plane p ! i else v_plane r ! i))"

lemma patched_Nil: "yuv_len width height r \<Longrightarrow> patched width height [] p r r"
  by (simp add: patched_def covered_by_def)

lemma covered_by_append:
  "covered_by width height at (ds @ es) i \<longleftrightarrow> covered_by width height at ds i \<or> covered_by width height at es i"
  unfolding covered_by_def set_append bex_Un by (rule refl)

lemma patched_trans:
  "patched width height ds p r r1 \<Longrightarrow> patched width height es p r1 r2 \<Longrightarrow> patched width height (ds @ es) p r r2"
  unfolding patched_def covered_by_append by simp

lemma update_region_patches:
  assumes "even_frame width height" and "yuv_len width height p" and "yuv_len width height r"
  shows "\<exists>r'. update_yuv420_region width height p d r = Some r' \<and> patched width height [d] p r r'"
proof (cases "clamp_region width height d")
  case None
  with assms(3) show ?thesis by (simp add: update_yuv420_region_def patched_def covered_by_def)
next
  case (Some bx)
  obtain l t r' b where bx: "bx = (l, t, r', b)" by (cases bx) auto
  have inside: "box_inside width height (l, t, r', b)" using clamp_region_inside [OF Some] by (simp add: bx)
  have e: "even width" "even height" using assms(1) by (simp_all add: even_frame_def)
  note cb = chroma_box_inside [OF inside e]
  have "copies (luma_at width bx) (y_plane p) (y_plane r) (copy_plane_region width (y_plane p) bx (y_plane r))"
    using copy_plane_region_copies [of width height "y_plane p" "y_plane r" l r' b t] assms(2,3) inside
    by (simp add: bx luma_at_def [abs_def] yuv_len_def box_inside_def)
  moreover have "copies (chroma_at width bx) (q p) (q r) (copy_plane_region (width div 2) (q p) (chroma_box bx) (q r))"
    if "length (q p) = (width div 2) * (height div 2)" "length (q r) = (width div 2) * (height div 2)" for q
    using copy_plane_region_copies [of "width div 2" "height div 2" "q p" "q r" "l div 2" "(r' + 1) div 2" "(b + 1) div 2" "t div 2"]
      that cb by (simp add: bx chroma_at_def [abs_def] chroma_box_def)
  note this [of u_plane] this [of v_plane]
  ultimately show ?thesis using assms(2,3) Some
    unfolding update_yuv420_region_def copies_def patched_def yuv_len_def covered_by_def by auto
qed

lemma update_regions_patch:
  assumes "even_frame width height" and "yuv_len width height p"
  shows "yuv_len width height r \<Longrightarrow>
    \<exists>r'. fold_run (update_yuv420_region width height p) ds r = Some r' \<and> patched width height ds p r r'"
proof (induction ds arbitrary: r)
  case Nil
  then show ?case by (simp add: patched_Nil)
next
  case (Cons d ds)
  obtain r1 where r1: "update_yuv420_region width height p d r = Some r1" "patched width height [d] p r r1"
    using update_region_patches [OF assms Cons.prems] by blast
  then have "yuv_len width height r1" by (simp add: patched_def)
  then obtain r2 where "fold_run (update_yuv420_region width height p) ds r1 = Some r2" "patched width height ds p r1 r2"
    using Cons.IH by blast
  with r1 patched_trans [OF r1(2)] show ?case by fastforce
qed

lemma copy_reference_copies:
  "yuv_len width height p \<Longrightarrow> copy_yuv420_reference width height p None = Some p"
  by (simp add: copy_yuv420_reference_def blit_run_def blit_def subslice_def yuv_len_def Let_def)

section \<open>Detection\<close>

lemma any_run_total:
  "(\<And>x. x \<in> set xs \<Longrightarrow> f x = Some (g x)) \<Longrightarrow> any_run f xs = Some (\<exists>x\<in>set xs. g x)"
  by (induction xs) (auto split: bool.splits)

lemma rows_differ_eq:
  "s \<le> e \<Longrightarrow> e \<le> length xs \<Longrightarrow> e \<le> length ys \<Longrightarrow>
   rows_differ s e xs ys = Some (\<exists>i. s \<le> i \<and> i < e \<and> xs ! i \<noteq> ys ! i)"
  unfolding rows_differ_def slice_run_def by (auto simp: subslice_eq_iff)

lemma row_in_plane:
  fixes row n r W :: nat
  assumes "row < n" and "r \<le> W"
  shows "row * W + r \<le> W * n"
proof -
  have "row * W + r \<le> (row + 1) * W" using assms(2) by simp
  also have "\<dots> \<le> n * W" using assms(1) by (intro mult_le_mono1) simp
  finally show ?thesis by (simp add: mult.commute)
qed

lemma rows_differ_box:
  assumes "r \<le> W"
  shows "(\<exists>row\<in>set [t..<b]. \<exists>i. row * W + l \<le> i \<and> i < row * W + r \<and> xs ! i \<noteq> ys ! i) \<longleftrightarrow>
    (\<exists>i. in_box W (l, t, r, b) i \<and> xs ! i \<noteq> ys ! i)"
proof -
  have "(\<exists>row\<in>set [t..<b]. \<exists>i. (row * W + l \<le> i \<and> i < row * W + r) \<and> xs ! i \<noteq> ys ! i) \<longleftrightarrow>
    (\<exists>i. in_box W (l, t, r, b) i \<and> xs ! i \<noteq> ys ! i)"
    unfolding row_span [OF assms] by (auto simp: in_box_def)
  then show ?thesis by simp
qed

definition box_differs :: "nat \<Rightarrow> yuv420 \<Rightarrow> yuv420 \<Rightarrow> box \<Rightarrow> bool" where
  "box_differs width p r bx \<longleftrightarrow> (\<exists>i. luma_at width bx i \<and> y_plane p ! i \<noteq> y_plane r ! i) \<or>
     (\<exists>i. chroma_at width bx i \<and> u_plane p ! i \<noteq> u_plane r ! i) \<or>
     (\<exists>i. chroma_at width bx i \<and> v_plane p ! i \<noteq> v_plane r ! i)"

lemma or_run:
  "a = Some x \<Longrightarrow> b = Some y \<Longrightarrow>
   (case a of None \<Rightarrow> None | Some True \<Rightarrow> Some True | Some False \<Rightarrow> b) = Some (x \<or> y)"
  by (cases x) simp_all

lemma tile_changed_eq:
  assumes "even_frame width height" and "yuv_len width height p" and "yuv_len width height r"
    and "box_inside width height bx"
  shows "yuv420_tile_changed width p r bx = Some (box_differs width p r bx)"
proof -
  obtain l t r' b where bx: "bx = (l, t, r', b)" by (cases bx) auto
  have inside: "l < r'" "r' \<le> width" "b \<le> height" using assms(4) by (simp_all add: bx box_inside_def)
  have e: "even width" "even height" using assms(1) by (simp_all add: even_frame_def)
  let ?W = "width div 2" and ?H = "height div 2"
  let ?l = "l div 2" and ?r = "(r' + 1) div 2" and ?t = "t div 2" and ?b = "(b + 1) div 2"
  have cb: "?l \<le> ?r" "?r \<le> ?W" "?b \<le> ?H" using chroma_box_inside [OF _ e] assms(4) by (simp_all add: bx)
  have luma: "any_run (\<lambda>row. rows_differ (row * width + l) (row * width + r') (y_plane p) (y_plane r)) [t..<b] =
      Some (\<exists>i. luma_at width bx i \<and> y_plane p ! i \<noteq> y_plane r ! i)"
    unfolding luma_at_def bx rows_differ_box [OF inside(2), symmetric]
    by (rule any_run_total, rule rows_differ_eq)
      (use inside row_in_plane [OF _ inside(2)] assms(2,3) in \<open>auto simp: yuv_len_def\<close>)
  have row: "rows_differ (row * ?W + ?l) (row * ?W + ?r) (q p) (q r) =
      Some (\<exists>i. row * ?W + ?l \<le> i \<and> i < row * ?W + ?r \<and> q p ! i \<noteq> q r ! i)"
    if "row \<in> set [?t..<?b]" "length (q p) = ?W * ?H" "length (q r) = ?W * ?H" for row q
    by (rule rows_differ_eq) (use that cb row_in_plane [OF _ cb(2), of row ?H] in auto)
  have chroma: "any_run (\<lambda>row. case rows_differ (row * ?W + ?l) (row * ?W + ?r) (u_plane p) (u_plane r) of
      None \<Rightarrow> None | Some True \<Rightarrow> Some True
      | Some False \<Rightarrow> rows_differ (row * ?W + ?l) (row * ?W + ?r) (v_plane p) (v_plane r)) [?t..<?b] =
      Some ((\<exists>i. chroma_at width bx i \<and> u_plane p ! i \<noteq> u_plane r ! i) \<or>
        (\<exists>i. chroma_at width bx i \<and> v_plane p ! i \<noteq> v_plane r ! i))"
    unfolding chroma_at_def bx chroma_box_def prod.case rows_differ_box [OF cb(2), symmetric] bex_disj_distrib [symmetric]
    by (rule any_run_total, rule or_run; rule row) (use assms(2,3) in \<open>simp_all add: yuv_len_def\<close>)
  show ?thesis
    unfolding yuv420_tile_changed_def bx prod.case luma [unfolded bx] Let_def bind.simps option.simps
      chroma [unfolded bx] box_differs_def by (simp, blast)
qed

lemma steps64_iff: "x \<in> set (steps64 pos stop) \<Longrightarrow> pos \<le> x \<and> x < stop \<and> 64 dvd (x - pos)"
proof (induction pos stop rule: steps64.induct)
  case (1 pos stop)
  show ?case
  proof (cases "pos < stop \<and> x \<noteq> pos")
    case True
    then have "x \<in> set (steps64 (pos + 64) stop)" using "1.prems" by (simp add: steps64.simps [of pos])
    then have "pos + 64 \<le> x" "x < stop" "64 dvd (x - (pos + 64))" using "1.IH" True by auto
    moreover from this have "x - pos = x - (pos + 64) + 64" by simp
    then have "64 dvd x - pos" using calculation(3) by (metis dvd_add_triv_right_iff)
    ultimately show ?thesis by simp
  next
    case False
    with "1.prems" show ?thesis by (auto simp: steps64.simps [of pos] split: if_splits)
  qed
qed

lemma steps64_covers: "pos \<le> x \<Longrightarrow> x < stop \<Longrightarrow> \<exists>p\<in>set (steps64 pos stop). p \<le> x \<and> x < p + 64"
proof (induction pos stop rule: steps64.induct)
  case (1 pos stop)
  then show ?case
    by (cases "x < pos + 64") (auto simp: steps64.simps [of pos])
qed

definition subbox :: "box \<Rightarrow> box \<Rightarrow> bool" where
  "subbox = (\<lambda>(l, t, r, b) (l', t', r', b'). l' \<le> l \<and> l < r \<and> r \<le> r' \<and> t' \<le> t \<and> t < b \<and> b \<le> b')"

lemma tile_boxes_sub: "tb \<in> set (tile_boxes bx) \<Longrightarrow> subbox tb bx"
  by (cases bx) (auto simp: tile_boxes_def subbox_def dest!: steps64_iff)

lemma tile_boxes_cover:
  assumes "l \<le> x" "x < r" "t \<le> y" "y < b"
  shows "\<exists>(l', t', r', b')\<in>set (tile_boxes (l, t, r, b)). l' \<le> x \<and> x < r' \<and> t' \<le> y \<and> y < b'"
proof -
  obtain p q where "p \<in> set (steps64 l r)" "p \<le> x" "x < p + 64" "q \<in> set (steps64 t b)" "q \<le> y" "y < q + 64"
    using steps64_covers [OF assms(1,2)] steps64_covers [OF assms(3,4)] by blast
  then show ?thesis using assms
    by (intro bexI [of _ "(p, q, min (p + 64) r, min (q + 64) b)"]) (auto simp: tile_boxes_def)
qed

lemma subbox_inside: "subbox tb bx \<Longrightarrow> box_inside width height bx \<Longrightarrow> box_inside width height tb"
  by (cases tb; cases bx) (auto simp: subbox_def box_inside_def)

definition changed_tiles :: "nat \<Rightarrow> nat \<Rightarrow> yuv420 \<Rightarrow> yuv420 \<Rightarrow> region \<Rightarrow> region set" where
  "changed_tiles width height p r c = (case clamp_region width height c of None \<Rightarrow> {}
     | Some bx \<Rightarrow> box_region ` {tb \<in> set (tile_boxes bx). box_differs width p r tb})"

lemma detect_tiles:
  assumes "even_frame width height" and "yuv_len width height p" and "yuv_len width height r"
    and "list_all (box_inside width height) tbs"
  shows "\<exists>out. fold_run (detect_yuv420_tile width p r) tbs acc = Some out \<and>
    set out = set acc \<union> box_region ` {tb \<in> set tbs. box_differs width p r tb} \<and> (distinct acc \<longrightarrow> distinct out)"
  using assms(4)
proof (induction tbs arbitrary: acc)
  case Nil
  then show ?case by simp
next
  case (Cons tb tbs)
  let ?acc = "if box_differs width p r tb then push_unique_region acc (box_region tb) else acc"
  have "detect_yuv420_tile width p r tb acc = Some ?acc"
    using tile_changed_eq [OF assms(1-3)] Cons.prems by (simp add: detect_yuv420_tile_def)
  moreover have "set ?acc = set acc \<union> box_region ` {t \<in> {tb}. box_differs width p r t}" "distinct acc \<longrightarrow> distinct ?acc"
    by (auto simp: push_unique_region_def)
  ultimately show ?case using Cons.IH [of ?acc] Cons.prems by fastforce
qed

lemma detect_candidate_eq:
  assumes "even_frame width height" and "yuv_len width height p" and "yuv_len width height r"
  shows "\<exists>out. detect_yuv420_candidate width height p r c acc = Some out \<and>
    set out = set acc \<union> changed_tiles width height p r c \<and> (distinct acc \<longrightarrow> distinct out)"
proof (cases "clamp_region width height c")
  case None
  then show ?thesis by (simp add: detect_yuv420_candidate_def changed_tiles_def)
next
  case (Some bx)
  have "list_all (box_inside width height) (tile_boxes bx)"
    using subbox_inside [OF tile_boxes_sub clamp_region_inside [OF Some]] by (simp add: list_all_iff)
  from detect_tiles [OF assms this, of acc] Some show ?thesis
    by (simp add: detect_yuv420_candidate_def changed_tiles_def)
qed

lemma detect_regions_fold:
  assumes "even_frame width height" and "yuv_len width height p" and "yuv_len width height r"
  shows "\<exists>out. fold_run (detect_yuv420_candidate width height p r) cs acc = Some out \<and>
    set out = set acc \<union> (\<Union>c\<in>set cs. changed_tiles width height p r c) \<and> (distinct acc \<longrightarrow> distinct out)"
proof (induction cs arbitrary: acc)
  case Nil
  then show ?case by simp
next
  case (Cons c cs)
  obtain acc' where a: "detect_yuv420_candidate width height p r c acc = Some acc'"
    "set acc' = set acc \<union> changed_tiles width height p r c" "distinct acc \<longrightarrow> distinct acc'"
    using detect_candidate_eq [OF assms] by blast
  with Cons.IH [of acc'] show ?case by fastforce
qed

lemma detect_regions_eq:
  assumes "even_frame width height" and "yuv_len width height p" and "yuv_len width height r"
  shows "\<exists>out. detect_yuv420_regions width height p (Some r) cs = Some out \<and> distinct out \<and>
    set out = (\<Union>c\<in>set cs. changed_tiles width height p r c)"
  using detect_regions_fold [OF assms, of cs "[]"] by (auto simp: detect_yuv420_regions_def)

lemma tile_covers_luma:
  assumes "luma_at width bx i"
  shows "\<exists>tb\<in>set (tile_boxes bx). luma_at width tb i"
proof -
  obtain l t r b where bx: "bx = (l, t, r, b)" by (cases bx) auto
  show ?thesis
    using tile_boxes_cover [of l "i mod width" r t "i div width" b] assms
    by (force simp: bx luma_at_def in_box_def)
qed

lemma halved_span:
  fixes c l r :: nat
  assumes "l div 2 \<le> c" and "c < (r + 1) div 2" and "l < r"
  shows "\<exists>x. l \<le> x \<and> x < r \<and> x div 2 = c"
proof (cases "l \<le> 2 * c")
  case True
  then show ?thesis using assms by (intro exI [of _ "2 * c"]) auto
next
  case False
  then have "l = 2 * c + 1" using assms by linarith
  then show ?thesis using assms(3) by (intro exI [of _ l]) simp
qed

lemma tile_covers_chroma:
  assumes "chroma_at width bx i" and "l < r" and "t < b" and bx: "bx = (l, t, r, b)"
  shows "\<exists>tb\<in>set (tile_boxes bx). chroma_at width tb i"
proof -
  let ?c = "i mod (width div 2)" and ?d = "i div (width div 2)"
  have "l div 2 \<le> ?c" "?c < (r + 1) div 2" "t div 2 \<le> ?d" "?d < (b + 1) div 2"
    using assms(1) by (simp_all add: bx chroma_at_def chroma_box_def in_box_def)
  then obtain x y where x: "l \<le> x" "x < r" "x div 2 = ?c" and y: "t \<le> y" "y < b" "y div 2 = ?d"
    using halved_span [of l ?c r] halved_span [of t ?d b] assms(2,3) by blast
  obtain l' t' r' b' where tb: "(l', t', r', b') \<in> set (tile_boxes bx)" "l' \<le> x" "t' \<le> y" "x < r'" "y < b'"
    using tile_boxes_cover [OF x(1,2) y(1,2)] unfolding bx by blast
  have "l' div 2 \<le> ?c" "t' div 2 \<le> ?d" "?c < (r' + 1) div 2" "?d < (b' + 1) div 2"
    using tb(2-5) x(3) y(3) by linarith+
  with tb(1) show ?thesis
    by (intro bexI [of _ "(l', t', r', b')"]) (auto simp: chroma_at_def chroma_box_def in_box_def)
qed

lemma subbox_luma: "subbox tb bx \<Longrightarrow> luma_at width tb i \<Longrightarrow> luma_at width bx i"
  by (cases tb; cases bx) (auto simp: subbox_def luma_at_def in_box_def)

lemma subbox_chroma:
  assumes "subbox tb bx" and "chroma_at width tb i"
  shows "chroma_at width bx i"
proof -
  obtain l t r b l' t' r' b' where eq: "tb = (l, t, r, b)" "bx = (l', t', r', b')" by (cases tb; cases bx)
  have le: "l' div 2 \<le> l div 2" "t' div 2 \<le> t div 2" "(r + 1) div 2 \<le> (r' + 1) div 2" "(b + 1) div 2 \<le> (b' + 1) div 2"
    using assms(1) by (simp_all add: eq subbox_def div_le_mono)
  have c: "l div 2 \<le> i mod (width div 2)" "i mod (width div 2) < (r + 1) div 2"
    "t div 2 \<le> i div (width div 2)" "i div (width div 2) < (b + 1) div 2"
    using assms(2) by (simp_all add: eq chroma_at_def chroma_box_def in_box_def)
  from order_trans [OF le(1) c(1)] order_trans [OF le(2) c(3)] less_le_trans [OF c(2) le(3)] less_le_trans [OF c(4) le(4)]
  show ?thesis by (simp add: eq chroma_at_def chroma_box_def in_box_def)
qed

definition changed_in :: "nat \<Rightarrow> nat \<Rightarrow> yuv420 \<Rightarrow> yuv420 \<Rightarrow> region list \<Rightarrow> region set" where
  "changed_in width height p r cs = (\<Union>c\<in>set cs. changed_tiles width height p r c)"

lemma changed_in_covers:
  assumes f: "int width \<le> i32_max" "int height \<le> i32_max" and out: "set out = changed_in width height p r cs"
    and cov: "covered_by width height at cs i"
    and tile: "\<And>bx. at width bx i \<Longrightarrow> box_inside width height bx \<Longrightarrow> \<exists>tb\<in>set (tile_boxes bx). at width tb i"
    and diff: "\<And>bx. at width bx i \<Longrightarrow> box_differs width p r bx"
  shows "covered_by width height at out i"
proof -
  obtain c bx where c: "c \<in> set cs" "clamp_region width height c = Some bx" "at width bx i"
    using cov by (auto simp: covered_by_def)
  note inside = clamp_region_inside [OF c(2)]
  obtain tb where tb: "tb \<in> set (tile_boxes bx)" "at width tb i" using tile [OF c(3) inside] by blast
  then have "box_region tb \<in> set out"
    using c diff [OF tb(2)] by (auto simp: out changed_in_def changed_tiles_def intro!: bexI [of _ c])
  moreover have "clamp_region width height (box_region tb) = Some tb"
    using clamp_region_box [OF subbox_inside [OF tile_boxes_sub [OF tb(1)] inside] f] by simp
  ultimately show ?thesis using tb(2) unfolding covered_by_def by blast
qed

lemma changed_in_within:
  assumes f: "int width \<le> i32_max" "int height \<le> i32_max" and out: "set out \<subseteq> changed_in width height p r cs"
    and cov: "covered_by width height at out i"
    and mono: "\<And>tb bx. subbox tb bx \<Longrightarrow> at width tb i \<Longrightarrow> at width bx i"
  shows "covered_by width height at cs i"
proof -
  obtain d tb' where d: "d \<in> set out" "clamp_region width height d = Some tb'" "at width tb' i"
    using cov by (auto simp: covered_by_def)
  then obtain c bx tb where c: "c \<in> set cs" "clamp_region width height c = Some bx" "tb \<in> set (tile_boxes bx)" "d = box_region tb"
    using out by (fastforce simp: changed_in_def changed_tiles_def split: option.splits)
  have "clamp_region width height d = Some tb"
    using clamp_region_box [OF subbox_inside [OF tile_boxes_sub [OF c(3)] clamp_region_inside [OF c(2)]] f]
    by (simp add: c(4))
  with d have "at width tb i" by simp
  then have "at width bx i" by (rule mono [OF tile_boxes_sub [OF c(3)]])
  with c show ?thesis unfolding covered_by_def by blast
qed

text \<open>Copying the changed tiles brings the reference up to date under the candidates and nowhere else.\<close>


lemma patched_changes:
  assumes e: "even_frame width height" and out: "set out = changed_in width height p r cs"
    and r': "patched width height out p r r'"
  shows "patched width height cs p r r'"
proof -
  have f: "int width \<le> i32_max" "int height \<le> i32_max" using e by (simp_all add: even_frame_def)
  have back_luma: "covered_by width height luma_at out i \<Longrightarrow> covered_by width height luma_at cs i" for i
    by (rule changed_in_within [OF f]) (use out subbox_luma in auto)
  have back_chroma: "covered_by width height chroma_at out i \<Longrightarrow> covered_by width height chroma_at cs i" for i
    by (rule changed_in_within [OF f]) (use out subbox_chroma in auto)
  have luma: "y_plane p ! i = y_plane r ! i"
    if "covered_by width height luma_at cs i" "\<not> covered_by width height luma_at out i" for i
  proof (rule ccontr)
    assume "y_plane p ! i \<noteq> y_plane r ! i"
    then have "covered_by width height luma_at out i"
      by (intro changed_in_covers [OF f out that(1)] tile_covers_luma) (auto simp: box_differs_def)
    with that(2) show False by simp
  qed
  have tile: "\<exists>tb\<in>set (tile_boxes bx). chroma_at width tb i" if "chroma_at width bx i" "box_inside width height bx" for bx i
    by (cases bx) (use that tile_covers_chroma in \<open>auto simp: box_inside_def\<close>)
  have chroma: "u_plane p ! i = u_plane r ! i \<and> v_plane p ! i = v_plane r ! i"
    if "covered_by width height chroma_at cs i" "\<not> covered_by width height chroma_at out i" for i
  proof (rule ccontr)
    assume "\<not> (u_plane p ! i = u_plane r ! i \<and> v_plane p ! i = v_plane r ! i)"
    then have "covered_by width height chroma_at out i"
      by (intro changed_in_covers [OF f out that(1)] tile) (auto simp: box_differs_def)
    with that(2) show False by simp
  qed
  show ?thesis using r' back_luma back_chroma luma chroma unfolding patched_def by auto
qed

end
