(* ===== verification/ChromaTiles.thy ===== *)
theory ChromaTiles
  imports YuvPlanes
begin

text \<open>
  The chroma rectangles of an AVC444v2 frame (\<open>src/src/egfx/avc444.rs\<close>): a candidate rectangle is
  looked up in both halves of the auxiliary view, the changed tiles are reported twice, as they lie in
  the packed view (\<open>packed\<close>) and as the rectangles of the picture the client is told (\<open>protocol\<close>).

  \<open>receive_main\<close> and \<open>receive_aux\<close> state what a client does with a decoded view and its rectangles:
  each plane takes over the samples of the pixels under the rectangles. The lemmas \<open>main_mirrors\<close> and
  \<open>aux_mirrors\<close> show that a reference updated at the packed rectangles is what the client holds after
  it applied the view under the protocol rectangles.
\<close>

section \<open>Chroma rectangles\<close>

definition chroma_packed_candidates :: "nat \<Rightarrow> nat \<Rightarrow> region \<Rightarrow> region list" where
  "chroma_packed_candidates width height region =
     (case clamp_region width height region of
        None \<Rightarrow> []
      | Some (left, top_y, right, bottom) \<Rightarrow>
          (let packed_left = left div 2; packed_right = (right + 1) div 2;
               packed_width = packed_right - packed_left; half_width = width div 2
           in if packed_width = 0 then []
              else [(int packed_left, int top_y, int packed_width, int (bottom - top_y)),
                    (int (half_width + packed_left), int top_y, int packed_width, int (bottom - top_y))]))"

definition protocol_segment :: "nat \<Rightarrow> nat \<Rightarrow> box \<Rightarrow> nat \<times> nat \<times> nat \<Rightarrow> region list \<Rightarrow> region list" where
  "protocol_segment width height = (\<lambda>(left, top_y, right, bottom) (half_left, half_right, x_offset) regions.
     let segment_left = max left half_left; segment_right = min right half_right in
     if segment_right \<le> segment_left then regions
     else let packed_left = segment_left - x_offset; packed_right = segment_right - x_offset;
              protocol_left = align_down (int (packed_left * 2)) 4;
              protocol_top = align_down (int top_y) 2;
              protocol_right = clamp (align_up (int (packed_right * 2)) 4) 0 (int width);
              protocol_bottom = clamp (align_up (int bottom) 2) 0 (int height)
          in if protocol_right > protocol_left \<and> protocol_bottom > protocol_top
             then merge_region regions (protocol_left, protocol_top,
                    protocol_right - protocol_left, protocol_bottom - protocol_top)
             else regions)"

definition chroma_packed_region_to_protocol_regions :: "nat \<Rightarrow> nat \<Rightarrow> region \<Rightarrow> region list" where
  "chroma_packed_region_to_protocol_regions width height region =
     (case clamp_region width height region of
        None \<Rightarrow> []
      | Some b \<Rightarrow>
          (let half_width = width div 2
           in if half_width = 0 then []
              else fold (protocol_segment width height b) [(0, half_width, 0), (half_width, width, half_width)] []))"

definition push_changed :: "nat \<Rightarrow> nat \<Rightarrow> region \<Rightarrow> region list \<times> region list \<Rightarrow> region list \<times> region list" where
  "push_changed width height region = (\<lambda>(packed, protocol).
     (push_unique_region packed region,
      fold (\<lambda>r regions. push_unique_region regions r) (chroma_packed_region_to_protocol_regions width height region) protocol))"

definition detect_chroma_candidate ::
  "nat \<Rightarrow> nat \<Rightarrow> yuv420 \<Rightarrow> yuv420 option \<Rightarrow> region \<Rightarrow> region list \<times> region list \<Rightarrow> (region list \<times> region list) run" where
  "detect_chroma_candidate width height p reference candidate out =
     (case chroma_packed_candidates width height candidate of
        [] \<Rightarrow> Some out
      | packed \<Rightarrow> map_option (\<lambda>changed. fold (push_changed width height) changed out)
          (detect_yuv420_regions width height p reference packed))"

definition detect_chroma_regions ::
  "nat \<Rightarrow> nat \<Rightarrow> yuv420 \<Rightarrow> yuv420 option \<Rightarrow> region list \<Rightarrow> (region list \<times> region list) run" where
  "detect_chroma_regions width height p reference candidates =
     (if reference = None then Some ([full_frame width height], [full_frame width height])
      else fold_run (detect_chroma_candidate width height p reference) candidates ([], []))"

section \<open>Tiles of the packed chroma and the rectangles the client gets\<close>

text \<open>Sides the AVC444 encoder accepts.\<close>

definition avc444_frame :: "nat \<Rightarrow> nat \<Rightarrow> bool" where
  "avc444_frame width height \<longleftrightarrow> 0 < width \<and> 0 < height \<and> 4 dvd width \<and> 2 dvd height \<and>
     int width \<le> i32_max \<and> int height \<le> i32_max"

lemma avc444_even: "avc444_frame width height \<Longrightarrow> even_frame width height"
  by (auto simp: avc444_frame_def even_frame_def elim!: dvdE)

definition even_box :: "box \<Rightarrow> bool" where
  "even_box = (\<lambda>(l, t, r, b). even l \<and> even t \<and> even r \<and> even b)"

definition aligned_box :: "box \<Rightarrow> bool" where
  "aligned_box = (\<lambda>(l, t, r, b). 4 dvd l \<and> even t \<and> 4 dvd r \<and> even b)"

definition aligned_regions :: "nat \<Rightarrow> nat \<Rightarrow> region list \<Rightarrow> bool" where
  "aligned_regions width height cs \<longleftrightarrow>
     (\<forall>c\<in>set cs. \<exists>bx. clamp_region width height c = Some bx \<and> c = box_region bx \<and> aligned_box bx)"

text \<open>The box a packed box stands for: the packed box shifted into the left half, its columns doubled.\<close>

definition packed_box :: "nat \<Rightarrow> bool \<Rightarrow> box \<Rightarrow> box" where
  "packed_box width second = (\<lambda>(l, t, r, b).
     let o' = (if second then width div 2 else 0) in (o' + l div 2, t, o' + r div 2, b))"

lemma steps64_even: "even pos \<Longrightarrow> x \<in> set (steps64 pos stop) \<Longrightarrow> even x"
proof -
  assume "even pos" "x \<in> set (steps64 pos stop)"
  then have "even pos" "pos \<le> x" "64 dvd (x - pos)" using steps64_iff by auto
  moreover from this have "even (x - pos)" by (meson dvd_trans even_numeral)
  ultimately show "even x" by (metis even_diff_nat le_add_diff_inverse dvd_add)
qed

lemma tile_boxes_even: "even_box bx \<Longrightarrow> tb \<in> set (tile_boxes bx) \<Longrightarrow> even_box tb"
  by (cases bx) (auto simp: even_box_def tile_boxes_def min_def dest: steps64_even)

text \<open>The tiles of the second half are those of the first, shifted.\<close>

definition shift_box :: "nat \<Rightarrow> box \<Rightarrow> box" where
  "shift_box n = (\<lambda>(l, t, r, b). (n + l, t, n + r, b))"

lemma steps64_shift: "steps64 (n + pos) (n + stop) = map ((+) n) (steps64 pos stop)"
proof (induction pos stop rule: steps64.induct)
  case (1 pos stop)
  then show ?case by (simp add: steps64.simps [of "n + pos"] steps64.simps [of pos] add.assoc)
qed

lemma tile_boxes_shift: "tile_boxes (shift_box n bx) = map (shift_box n) (tile_boxes bx)"
proof -
  obtain l t r b where bx: "bx = (l, t, r, b)" by (cases bx) auto
  have "min (n + x + 64) (n + r) = n + min (x + 64) r" for x :: nat by simp
  then show ?thesis
    by (simp add: bx tile_boxes_def shift_box_def steps64_shift map_concat comp_def)
qed

lemma packed_box_second: "packed_box width True bx = shift_box (width div 2) (packed_box width False bx)"
  by (cases bx) (simp add: packed_box_def shift_box_def Let_def)

lemma packed_candidates_eq:
  assumes "avc444_frame width height" and "clamp_region width height c = Some bx" and "aligned_box bx"
  shows "chroma_packed_candidates width height c = [box_region (packed_box width False bx), box_region (packed_box width True bx)] \<and>
    box_inside width height (packed_box width False bx) \<and> box_inside width height (packed_box width True bx) \<and>
    even_box (packed_box width False bx)"
proof -
  obtain l t r b where bx: "bx = (l, t, r, b)" by (cases bx) auto
  obtain l' r' w' where e: "l = 4 * l'" "r = 4 * r'" "width = 4 * w'" "even t" "even b"
    using assms(1,3) by (auto simp: bx aligned_box_def avc444_frame_def elim!: dvdE)
  have "l < r" "r \<le> width" "t < b" "b \<le> height"
    using clamp_region_inside [OF assms(2)] by (simp_all add: bx box_inside_def)
  moreover have "(r + 1) div 2 = r div 2" using e(2) by simp
  ultimately show ?thesis
    unfolding chroma_packed_candidates_def assms(2) bx
    using e by (simp add: packed_box_def box_region_def box_inside_def even_box_def Let_def)
qed

lemma protocol_of_tile:
  assumes f: "avc444_frame width height" and tb: "even_box (l, t, r, b)" "l < r" "r \<le> width div 2" "t < b" "b \<le> height"
  shows "chroma_packed_region_to_protocol_regions width height (box_region (shift_box (if second then width div 2 else 0) (l, t, r, b))) =
    [box_region (2 * l, t, 2 * r, b)]"
proof -
  let ?half = "width div 2"
  obtain w' h' where w: "width = 4 * w'" "height = 2 * h'" using f by (auto simp: avc444_frame_def elim!: dvdE)
  have lim: "int width \<le> i32_max" "int height \<le> i32_max" using f by (simp_all add: avc444_frame_def)
  obtain l' t' r' b' where e: "l = 2 * l'" "t = 2 * t'" "r = 2 * r'" "b = 2 * b'"
    using tb(1) by (auto simp: even_box_def elim!: evenE)
  have half: "?half = 2 * w'" "0 < ?half" using w tb(2,3) by simp_all
  have inside: "box_inside width height (shift_box (if second then ?half else 0) (l, t, r, b))"
    using tb half w by (simp add: box_inside_def shift_box_def)
  have up: "align_up (int (r * 2)) 4 = int (2 * r)" "align_up (int b) 2 = int b"
    and down: "align_down (int (l * 2)) 4 = int (2 * l)" "align_down (int t) 2 = int t"
    unfolding align_up_def align_down_def e by simp_all
  have one: "protocol_segment width height (shift_box n (l, t, r, b)) (n, m, n) rs =
      merge_region rs (box_region (2 * l, t, 2 * r, b))" if "n + r \<le> m" for n m rs
  proof -
    have "max (n + l) n = n + l" "min (n + r) m = n + r" using that by simp_all
    moreover have "clamp (int (2 * r)) 0 (int width) = int (2 * r)" "clamp (int b) 0 (int height) = int b"
      using tb half w by (simp_all add: clamp_def)
    moreover have "int (2 * r) - int (2 * l) = int (2 * r - 2 * l)" "int b - int t = int (b - t)"
      using tb by (simp_all add: of_nat_diff)
    ultimately show ?thesis
      using tb(2,4) up down
      by (simp add: protocol_segment_def shift_box_def box_region_def Let_def)
  qed
  have none: "protocol_segment width height (shift_box ?half (l, t, r, b)) (0, ?half, 0) rs = rs"
    "protocol_segment width height (shift_box 0 (l, t, r, b)) (?half, width, ?half) rs = rs" for rs
    using tb(3) by (auto simp: protocol_segment_def shift_box_def Let_def min_def max_def)
  have merge: "merge_region [] d = [d]" for d by (simp add: merge_region_def merge_region_loop.simps)
  have "clamp_region width height (box_region (shift_box (if second then ?half else 0) (l, t, r, b))) =
      Some (shift_box (if second then ?half else 0) (l, t, r, b))"
    using clamp_region_box [OF inside lim] by simp
  then show ?thesis
    using half tb(3) w one [of 0 ?half] one [of ?half width] none merge
    by (simp add: chroma_packed_region_to_protocol_regions_def)
qed

definition half_tiles :: "nat \<Rightarrow> nat \<Rightarrow> region \<Rightarrow> box set" where
  "half_tiles width height c = (case clamp_region width height c of None \<Rightarrow> {}
     | Some bx \<Rightarrow> set (tile_boxes (packed_box width False bx)))"

definition half_shift :: "nat \<Rightarrow> bool \<Rightarrow> box \<Rightarrow> box" where
  "half_shift width second = shift_box (if second then width div 2 else 0)"

definition unpack_box :: "box \<Rightarrow> box" where
  "unpack_box = (\<lambda>(l, t, r, b). (2 * l, t, 2 * r, b))"

text \<open>The halves of a candidate whose tile differs, and what they stand for.\<close>

definition changed_halves :: "nat \<Rightarrow> nat \<Rightarrow> yuv420 \<Rightarrow> yuv420 \<Rightarrow> region list \<Rightarrow> (box \<times> bool) set" where
  "changed_halves width height p r cs =
     {(tb, second). (\<exists>c\<in>set cs. tb \<in> half_tiles width height c) \<and> box_differs width p r (half_shift width second tb)}"

lemma half_tile:
  assumes "avc444_frame width height" and "aligned_regions width height cs" and "c \<in> set cs" and "tb \<in> half_tiles width height c"
  obtains l t r b where "tb = (l, t, r, b)" "even_box tb" "l < r" "r \<le> width div 2" "t < b" "b \<le> height"
proof -
  obtain bx where bx: "clamp_region width height c = Some bx" "aligned_box bx"
    using assms(2,3) by (auto simp: aligned_regions_def)
  note packed = packed_candidates_eq [OF assms(1) bx]
  have tile: "tb \<in> set (tile_boxes (packed_box width False bx))" using assms(4) bx(1) by (simp add: half_tiles_def)
  have "even_box tb" by (rule tile_boxes_even [OF _ tile]) (use packed in simp)
  moreover obtain l t r b where tb: "tb = (l, t, r, b)" by (cases tb) auto
  moreover obtain l' t' r' b' where bx': "bx = (l', t', r', b')" by (cases bx) auto
  have "r' div 2 \<le> width div 2" "b' \<le> height"
    using clamp_region_inside [OF bx(1)] by (auto simp: bx' box_inside_def intro: div_le_mono)
  moreover have "subbox tb (packed_box width False bx)" by (rule tile_boxes_sub [OF tile])
  ultimately show thesis by (intro that [of l t r b]) (auto simp: tb bx' subbox_def packed_box_def Let_def)
qed

lemma protocol_of_half:
  assumes "avc444_frame width height" and "aligned_regions width height cs" and "c \<in> set cs" and "tb \<in> half_tiles width height c"
  shows "chroma_packed_region_to_protocol_regions width height (box_region (half_shift width second tb)) = [box_region (unpack_box tb)]"
proof -
  obtain l t r b where tb: "tb = (l, t, r, b)" "even_box tb" "l < r" "r \<le> width div 2" "t < b" "b \<le> height"
    using half_tile [OF assms] by blast
  show ?thesis using protocol_of_tile [OF assms(1) _ tb(3-6), of second] tb(1,2)
    by (simp add: half_shift_def unpack_box_def)
qed

lemma set_push_unique [simp]: "set (push_unique_region regions r) = insert r (set regions)"
  by (auto simp: push_unique_region_def)

lemma push_unique_set: "set (fold (\<lambda>r regions. push_unique_region regions r) ds acc) = set acc \<union> set ds"
  by (induction ds arbitrary: acc) simp_all

lemma push_changed_one:
  "set (fst (push_changed width height d out)) = insert d (set (fst out)) \<and>
   set (snd (push_changed width height d out)) =
     set (snd out) \<union> set (chroma_packed_region_to_protocol_regions width height d)"
  by (cases out) (simp add: push_changed_def push_unique_set)

lemma push_changed_set:
  "set (fst (fold (push_changed width height) ds out)) = set (fst out) \<union> set ds \<and>
   set (snd (fold (push_changed width height) ds out)) =
     set (snd out) \<union> (\<Union>d\<in>set ds. set (chroma_packed_region_to_protocol_regions width height d))"
proof (induction ds arbitrary: out)
  case Nil
  then show ?case by simp
next
  case (Cons d ds)
  show ?case
    unfolding fold_simps comp_apply
    using Cons.IH [of "push_changed width height d out"] push_changed_one [of width height d out]
    by (simp add: Un_assoc)
qed

lemma image_filter_image: "f ` {t \<in> g ` S. P t} = {f (g t) | t. t \<in> S \<and> P (g t)}"
  by blast

lemma image_both:
  "(\<lambda>(x, s). F s x) ` {(x, s). P s x} = {F False x | x. P False x} \<union> {F True x | x. P True x}"
  unfolding set_eq_iff image_iff Bex_def split_paired_Ex ex_bool_eq by auto

lemma changed_tiles_packed:
  assumes "avc444_frame width height" and "clamp_region width height c = Some bx" and "aligned_box bx"
  shows "changed_tiles width height p r (box_region (packed_box width second bx)) =
    {box_region (half_shift width second tb) | tb. tb \<in> half_tiles width height c \<and> box_differs width p r (half_shift width second tb)}"
proof -
  have lim: "int width \<le> i32_max" "int height \<le> i32_max" using assms(1) by (simp_all add: avc444_frame_def)
  have shift: "packed_box width second bx = half_shift width second (packed_box width False bx)"
    by (cases second) (simp_all add: half_shift_def packed_box_second, cases bx, simp add: shift_box_def)
  have "box_inside width height (packed_box width second bx)"
    using packed_candidates_eq [OF assms] by (cases second) simp_all
  then have "changed_tiles width height p r (box_region (packed_box width second bx)) =
      box_region ` {tb \<in> half_shift width second ` set (tile_boxes (packed_box width False bx)). box_differs width p r tb}"
    using clamp_region_box [OF _ lim]
    by (simp add: changed_tiles_def) (simp add: shift half_shift_def tile_boxes_shift)
  then show ?thesis unfolding image_filter_image using assms(2) by (simp add: half_tiles_def)
qed

lemma detect_chroma_candidate_eq:
  assumes f: "avc444_frame width height" and len: "yuv_len width height p" "yuv_len width height r"
    and al: "aligned_regions width height cs" "c \<in> set cs"
  shows "\<exists>out'. detect_chroma_candidate width height p (Some r) c out = Some out' \<and>
    set (fst out') = set (fst out) \<union> (\<lambda>(tb, second). box_region (half_shift width second tb)) ` changed_halves width height p r [c] \<and>
    set (snd out') = set (snd out) \<union> (\<lambda>(tb, second). box_region (unpack_box tb)) ` changed_halves width height p r [c]"
proof -
  obtain bx where bx: "clamp_region width height c = Some bx" "aligned_box bx"
    using al by (auto simp: aligned_regions_def)
  note packed = packed_candidates_eq [OF f bx]
  let ?A = "box_region (packed_box width False bx)" and ?B = "box_region (packed_box width True bx)"
  obtain changed where ch: "detect_yuv420_regions width height p (Some r) [?A, ?B] = Some changed"
    "set changed = (\<Union>c\<in>set [?A, ?B]. changed_tiles width height p r c)"
    using detect_regions_eq [OF avc444_even [OF f] len, of "[?A, ?B]"] by auto
  have set_ch: "set changed = (\<lambda>(tb, second). box_region (half_shift width second tb)) ` changed_halves width height p r [c]"
    unfolding ch(2) changed_halves_def image_both using changed_tiles_packed [OF f bx, of p r] by simp
  have one: "set (chroma_packed_region_to_protocol_regions width height ((\<lambda>(tb, second). box_region (half_shift width second tb)) x)) =
      {(\<lambda>(tb, second). box_region (unpack_box tb)) x}" if "x \<in> changed_halves width height p r [c]" for x
    using that protocol_of_half [OF f al] by (cases x) (simp add: changed_halves_def)
  have "(\<Union>d\<in>set changed. set (chroma_packed_region_to_protocol_regions width height d)) =
      (\<lambda>(tb, second). box_region (unpack_box tb)) ` changed_halves width height p r [c]"
    unfolding set_ch using one by (simp add: UNION_singleton_eq_range)
  then show ?thesis
    using packed ch(1) set_ch push_changed_set [of width height changed out]
    by (simp add: detect_chroma_candidate_def)
qed

lemma changed_halves_Cons: "changed_halves width height p r (c # cs) =
  changed_halves width height p r [c] \<union> changed_halves width height p r cs"
  by (auto simp: changed_halves_def)

lemma detect_chroma_fold:
  assumes f: "avc444_frame width height" and len: "yuv_len width height p" "yuv_len width height r"
    and al: "aligned_regions width height cs"
  shows "set ds \<subseteq> set cs \<Longrightarrow> \<exists>out'. fold_run (detect_chroma_candidate width height p (Some r)) ds out = Some out' \<and>
    set (fst out') = set (fst out) \<union> (\<lambda>(tb, second). box_region (half_shift width second tb)) ` changed_halves width height p r ds \<and>
    set (snd out') = set (snd out) \<union> (\<lambda>(tb, second). box_region (unpack_box tb)) ` changed_halves width height p r ds"
proof (induction ds arbitrary: out)
  case Nil
  then show ?case by (simp add: changed_halves_def)
next
  case (Cons d ds)
  obtain out1 where out1: "detect_chroma_candidate width height p (Some r) d out = Some out1"
    "set (fst out1) = set (fst out) \<union> (\<lambda>(tb, second). box_region (half_shift width second tb)) ` changed_halves width height p r [d]"
    "set (snd out1) = set (snd out) \<union> (\<lambda>(tb, second). box_region (unpack_box tb)) ` changed_halves width height p r [d]"
    using detect_chroma_candidate_eq [OF f len al, of d out] Cons.prems by auto
  obtain out2 where "fold_run (detect_chroma_candidate width height p (Some r)) ds out1 = Some out2"
    "set (fst out2) = set (fst out1) \<union> (\<lambda>(tb, second). box_region (half_shift width second tb)) ` changed_halves width height p r ds"
    "set (snd out2) = set (snd out1) \<union> (\<lambda>(tb, second). box_region (unpack_box tb)) ` changed_halves width height p r ds"
    using Cons.IH [of out1] Cons.prems by auto
  with out1 show ?case
    unfolding changed_halves_Cons [of width height p r d ds] by (auto simp: image_Un)
qed

lemma detect_chroma_eq:
  assumes "avc444_frame width height" and "yuv_len width height p" and "yuv_len width height r"
    and "aligned_regions width height cs"
  shows "\<exists>packed protocol. detect_chroma_regions width height p (Some r) cs = Some (packed, protocol) \<and>
    set packed = (\<lambda>(tb, second). box_region (half_shift width second tb)) ` changed_halves width height p r cs \<and>
    set protocol = (\<lambda>(tb, second). box_region (unpack_box tb)) ` changed_halves width height p r cs"
  using detect_chroma_fold [OF assms order_refl, of "([], [])"]
  by (auto simp: detect_chroma_regions_def)

section \<open>What the client does with a stream\<close>

text \<open>
  The pixel each index of a plane describes. The main view has one luma sample per pixel and one
  chroma sample per block of four; in the auxiliary view (\<open>bgra_to_avc444_v2_plane_regions_selective\<close>)
  the left half of a row holds U and the right half V.
\<close>

definition px_luma :: "nat \<Rightarrow> nat \<Rightarrow> nat \<times> nat" where
  "px_luma width i = (i mod width, i div width)"

definition px_block :: "nat \<Rightarrow> nat \<Rightarrow> nat \<times> nat" where
  "px_block width i = (2 * (i mod (width div 2)), 2 * (i div (width div 2)))"

definition px_aux_y :: "nat \<Rightarrow> nat \<Rightarrow> nat \<times> nat" where
  "px_aux_y width i = (2 * ((i mod width) mod (width div 2)) + 1, i div width)"

definition px_aux_u :: "nat \<Rightarrow> nat \<Rightarrow> nat \<times> nat" where
  "px_aux_u width i = (4 * ((i mod (width div 2)) mod (width div 4)), 2 * (i div (width div 2)) + 1)"

definition px_aux_v :: "nat \<Rightarrow> nat \<Rightarrow> nat \<times> nat" where
  "px_aux_v width i = (4 * ((i mod (width div 2)) mod (width div 4)) + 2, 2 * (i div (width div 2)) + 1)"

definition under :: "region list \<Rightarrow> nat \<times> nat \<Rightarrow> bool" where
  "under regions = (\<lambda>(x, y). list_ex (in_region x y) regions)"

definition refresh :: "(nat \<Rightarrow> nat \<times> nat) \<Rightarrow> (nat \<times> nat \<Rightarrow> bool) \<Rightarrow> byte list \<Rightarrow> byte list \<Rightarrow> byte list" where
  "refresh px P new old = map (\<lambda>i. if P (px i) then new ! i else old ! i) [0..<length new]"

definition receive_main :: "nat \<Rightarrow> (nat \<times> nat \<Rightarrow> bool) \<Rightarrow> yuv420 \<Rightarrow> yuv420 \<Rightarrow> yuv420" where
  "receive_main width P p old = \<lparr>y_plane = refresh (px_luma width) P (y_plane p) (y_plane old),
     u_plane = refresh (px_block width) P (u_plane p) (u_plane old),
     v_plane = refresh (px_block width) P (v_plane p) (v_plane old)\<rparr>"

definition receive_aux :: "nat \<Rightarrow> (nat \<times> nat \<Rightarrow> bool) \<Rightarrow> yuv420 \<Rightarrow> yuv420 \<Rightarrow> yuv420" where
  "receive_aux width P p old = \<lparr>y_plane = refresh (px_aux_y width) P (y_plane p) (y_plane old),
     u_plane = refresh (px_aux_u width) P (u_plane p) (u_plane old),
     v_plane = refresh (px_aux_v width) P (v_plane p) (v_plane old)\<rparr>"

lemma refresh_eqI:
  assumes "length r = length new"
    and "\<And>i. i < length new \<Longrightarrow> r ! i = (if P (px i) then new ! i else old ! i)"
  shows "r = refresh px P new old"
  by (rule nth_equalityI) (simp_all add: refresh_def assms)

lemma under_boxes:
  "under (map box_region bxs) (x, y) \<longleftrightarrow> (\<exists>(l, t, r, b)\<in>set bxs. l \<le> x \<and> x < r \<and> t \<le> y \<and> y < b)"
proof (induction bxs)
  case Nil
  then show ?case by (simp add: under_def)
next
  case (Cons bx bxs)
  obtain l t r b where bx: "bx = (l, t, r, b)" by (cases bx) auto
  have "in_region x y (box_region bx) \<longleftrightarrow> l \<le> x \<and> x < r \<and> t \<le> y \<and> y < b"
    unfolding bx box_region_def in_region_def prod.case by linarith
  with Cons.IH show ?case by (simp add: under_def bx)
qed

lemma under_set: "set rs = set rs' \<Longrightarrow> under rs p = under rs' p"
  by (cases p) (simp add: under_def list_ex_iff)

text \<open>The main view: rectangles with even corners.\<close>

definition even_regions :: "nat \<Rightarrow> nat \<Rightarrow> region list \<Rightarrow> bool" where
  "even_regions width height rs \<longleftrightarrow> (\<forall>d\<in>set rs. \<exists>bx. d = box_region bx \<and> box_inside width height bx \<and> even_box bx)"

lemma even_regions_boxes:
  "even_regions width height rs \<Longrightarrow> \<exists>bxs. rs = map box_region bxs \<and> (\<forall>bx\<in>set bxs. box_inside width height bx \<and> even_box bx)"
proof (induction rs)
  case Nil
  then show ?case by (intro exI [of _ "[]"]) simp
next
  case (Cons d rs)
  then obtain bx bxs where "d = box_region bx" "box_inside width height bx" "even_box bx"
    "rs = map box_region bxs" "\<forall>bx\<in>set bxs. box_inside width height bx \<and> even_box bx"
    by (auto simp: even_regions_def)
  then show ?case by (intro exI [of _ "bx # bxs"]) simp
qed

lemma covered_boxes:
  assumes "int width \<le> i32_max" and "int height \<le> i32_max" and "\<forall>bx\<in>set bxs. box_inside width height bx"
  shows "covered_by width height at (map box_region bxs) i \<longleftrightarrow> (\<exists>bx\<in>set bxs. at width bx i)"
  using clamp_region_box [OF _ assms(1,2)] assms(3) by (simp add: covered_by_def del: split_paired_Ex)

lemma even_span: "even l \<Longrightarrow> l div 2 \<le> c \<longleftrightarrow> l \<le> 2 * c" "c < (r + 1) div 2 \<longleftrightarrow> 2 * c < r" for l c r :: nat
  by (auto elim!: evenE)

lemma main_covered:
  assumes f: "int width \<le> i32_max" "int height \<le> i32_max" and rs: "even_regions width height rs"
  shows "covered_by width height luma_at rs i \<longleftrightarrow> under rs (px_luma width i)"
    and "covered_by width height chroma_at rs i \<longleftrightarrow> under rs (px_block width i)"
proof -
  obtain bxs where bxs: "rs = map box_region bxs" "\<forall>bx\<in>set bxs. box_inside width height bx" "\<forall>bx\<in>set bxs. even_box bx"
    using even_regions_boxes [OF rs] by auto
  show "covered_by width height luma_at rs i \<longleftrightarrow> under rs (px_luma width i)"
    unfolding bxs(1) covered_boxes [OF f bxs(2)] px_luma_def under_boxes
    by (intro bex_cong refl) (auto simp: luma_at_def in_box_def)
  show "covered_by width height chroma_at rs i \<longleftrightarrow> under rs (px_block width i)"
    unfolding bxs(1) covered_boxes [OF f bxs(2)] px_block_def under_boxes
  proof (intro bex_cong refl)
    fix bx
    assume "bx \<in> set bxs"
    then have e: "even_box bx" using bxs(3) by simp
    obtain l t r b where bx: "bx = (l, t, r, b)" by (cases bx) auto
    have "even l" "even t" using e by (simp_all add: bx even_box_def)
    then show "chroma_at width bx i \<longleftrightarrow> (case bx of (l, t, r, b) \<Rightarrow> l \<le> 2 * (i mod (width div 2)) \<and>
        2 * (i mod (width div 2)) < r \<and> t \<le> 2 * (i div (width div 2)) \<and> 2 * (i div (width div 2)) < b)"
      unfolding bx chroma_at_def chroma_box_def in_box_def prod.case even_span(2) by (simp add: even_span(1))
  qed
qed

lemma main_mirrors:
  assumes "int width \<le> i32_max" "int height \<le> i32_max" "even_regions width height rs"
    and "yuv_len width height p" and "patched width height rs p r r'"
  shows "r' = receive_main width (under rs) p r"
proof -
  note cov = main_covered [OF assms(1-3)]
  have "y_plane r' = refresh (px_luma width) (under rs) (y_plane p) (y_plane r)"
    "u_plane r' = refresh (px_block width) (under rs) (u_plane p) (u_plane r)"
    "v_plane r' = refresh (px_block width) (under rs) (v_plane p) (v_plane r)"
    by (rule refresh_eqI; use assms(4,5) in \<open>simp add: yuv_len_def patched_def cov\<close>)+
  then show ?thesis by (simp add: receive_main_def)
qed

section \<open>The auxiliary view\<close>

lemma shifted_column:
  fixes c n l r :: nat
  assumes "c < 2 * n" and "r \<le> n"
  shows "(if s then n else 0) + l \<le> c \<and> c < (if s then n else 0) + r \<Longrightarrow> l \<le> c mod n \<and> c mod n < r"
    and "l \<le> c mod n \<and> c mod n < r \<Longrightarrow> s = (n \<le> c) \<Longrightarrow> (if s then n else 0) + l \<le> c \<and> c < (if s then n else 0) + r"
proof -
  have "c mod n = (if n \<le> c then c - n else c)" using assms(1) by (simp add: mod_if)
  then show "(if s then n else 0) + l \<le> c \<and> c < (if s then n else 0) + r \<Longrightarrow> l \<le> c mod n \<and> c mod n < r"
    and "l \<le> c mod n \<and> c mod n < r \<Longrightarrow> s = (n \<le> c) \<Longrightarrow> (if s then n else 0) + l \<le> c \<and> c < (if s then n else 0) + r"
    using assms(2) by (auto split: if_splits)
qed


lemma aux_columns:
  assumes f: "avc444_frame width height" and tb: "even_box (l, t, r, b)" "r \<le> width div 2" "b \<le> height"
  shows "luma_at width (half_shift width s (l, t, r, b)) i \<Longrightarrow> i < width * height \<Longrightarrow> under [box_region (unpack_box (l, t, r, b))] (px_aux_y width i)"
    and "under [box_region (unpack_box (l, t, r, b))] (px_aux_y width i) \<Longrightarrow> i < width * height \<Longrightarrow>
      luma_at width (half_shift width (width div 2 \<le> i mod width) (l, t, r, b)) i"
proof -
  have w: "width = 2 * (width div 2)" using f by (auto simp: avc444_frame_def elim!: dvdE)
  have c: "i mod width < 2 * (width div 2)" using f w by (simp add: avc444_frame_def)
  have d: "2 * x + 1 < 2 * r \<longleftrightarrow> x < r" "2 * l \<le> 2 * x + 1 \<longleftrightarrow> l \<le> x" for x by linarith+
  show "under [box_region (unpack_box (l, t, r, b))] (px_aux_y width i)"
    if "luma_at width (half_shift width s (l, t, r, b)) i"
    using shifted_column(1) [OF c tb(2), of s l] that under_boxes [of "[unpack_box (l, t, r, b)]"]
    by (simp add: luma_at_def half_shift_def shift_box_def in_box_def px_aux_y_def unpack_box_def d)
  show "luma_at width (half_shift width (width div 2 \<le> i mod width) (l, t, r, b)) i"
    if "under [box_region (unpack_box (l, t, r, b))] (px_aux_y width i)"
    using shifted_column(2) [OF c tb(2), of l "width div 2 \<le> i mod width"] that under_boxes [of "[unpack_box (l, t, r, b)]"]
    by (simp add: luma_at_def half_shift_def shift_box_def in_box_def px_aux_y_def unpack_box_def d)
qed

lemma aux_blocks:
  assumes f: "avc444_frame width height" and tb: "even_box (l, t, r, b)" "r \<le> width div 2"
    and px: "px = px_aux_u \<or> px = px_aux_v"
  shows "chroma_at width (half_shift width s (l, t, r, b)) i \<Longrightarrow> under [box_region (unpack_box (l, t, r, b))] (px width i)"
    and "under [box_region (unpack_box (l, t, r, b))] (px width i) \<Longrightarrow>
      chroma_at width (half_shift width (width div 4 \<le> i mod (width div 2)) (l, t, r, b)) i"
proof -
  obtain w' where w: "width = 4 * w'" "0 < w'" using f by (auto simp: avc444_frame_def elim!: dvdE)
  obtain l' t' r' b' where e: "l = 2 * l'" "t = 2 * t'" "r = 2 * r'" "b = 2 * b'"
    using tb(1) by (auto simp: even_box_def elim!: evenE)
  have half: "width div 2 = 2 * w'" "width div 4 = w'" using w by simp_all
  have c: "i mod (2 * w') < 2 * w'" and r: "r' \<le> w'" using w(2) tb(2) by (simp_all add: e half)
  have shift: "chroma_box (half_shift width s (l, t, r, b)) = ((if s then w' else 0) + l', t', (if s then w' else 0) + r', b')" for s
    by (simp add: chroma_box_def half_shift_def shift_box_def e half)
  have under: "under [box_region (unpack_box (l, t, r, b))] (px width i) \<longleftrightarrow>
      l' \<le> i mod (2 * w') mod w' \<and> i mod (2 * w') mod w' < r' \<and> t' \<le> i div (2 * w') \<and> i div (2 * w') < b'"
  proof -
    have "4 * x < 2 * (2 * r') \<longleftrightarrow> x < r'" "2 * (2 * l') \<le> 4 * x \<longleftrightarrow> l' \<le> x"
      "4 * x + 2 < 2 * (2 * r') \<longleftrightarrow> x < r'" "2 * (2 * l') \<le> 4 * x + 2 \<longleftrightarrow> l' \<le> x"
      "2 * y + 1 < 2 * b' \<longleftrightarrow> y < b'" "2 * t' \<le> 2 * y + 1 \<longleftrightarrow> t' \<le> y" for x y
      by linarith+
    then show ?thesis
      using px under_boxes [of "[unpack_box (l, t, r, b)]"]
      by (auto simp: px_aux_u_def px_aux_v_def unpack_box_def e half)
  qed
  show "under [box_region (unpack_box (l, t, r, b))] (px width i)"
    if "chroma_at width (half_shift width s (l, t, r, b)) i"
    using shifted_column(1) [OF c r, of s l'] that unfolding under chroma_at_def shift in_box_def prod.case half by simp
  show "chroma_at width (half_shift width (width div 4 \<le> i mod (width div 2)) (l, t, r, b)) i"
    if "under [box_region (unpack_box (l, t, r, b))] (px width i)"
    using shifted_column(2) [OF c r, of l' "w' \<le> i mod (2 * w')"] that
    unfolding under chroma_at_def shift in_box_def prod.case half by simp
qed

definition tile_changes :: "nat \<Rightarrow> nat \<Rightarrow> yuv420 \<Rightarrow> yuv420 \<Rightarrow> region list \<Rightarrow> region list \<Rightarrow> region list \<Rightarrow> bool" where
  "tile_changes width height p r cs packed protocol \<longleftrightarrow>
     set packed = (\<lambda>(tb, second). box_region (half_shift width second tb)) ` changed_halves width height p r cs \<and>
     set protocol = (\<lambda>(tb, second). box_region (unpack_box tb)) ` changed_halves width height p r cs"

lemma bex_image_pair: "(\<exists>d\<in>(\<lambda>(x, s). F s x) ` A. Q d) \<longleftrightarrow> (\<exists>x s. (x, s) \<in> A \<and> Q (F s x))"
proof
  assume "\<exists>d\<in>(\<lambda>(x, s). F s x) ` A. Q d"
  then obtain z where "z \<in> A" "Q (case z of (x, s) \<Rightarrow> F s x)" by blast
  then show "\<exists>x s. (x, s) \<in> A \<and> Q (F s x)" by (cases z) (auto simp del: split_paired_Ex)
next
  assume "\<exists>x s. (x, s) \<in> A \<and> Q (F s x)"
  then obtain x s where "(x, s) \<in> A" "Q (F s x)" by blast
  note A = this(1) and Q = this(2)
  show "\<exists>d\<in>(\<lambda>(x, s). F s x) ` A. Q d"
  proof (rule bexI [where x = "F s x"])
    show "Q (F s x)" by (rule Q)
    show "F s x \<in> (\<lambda>(x, s). F s x) ` A" by (rule image_eqI [OF _ A]) simp
  qed
qed

lemma half_inside:
  assumes "avc444_frame width height" and "aligned_regions width height cs" and "c \<in> set cs" and "tb \<in> half_tiles width height c"
  shows "box_inside width height (half_shift width s tb)"
proof -
  obtain l t r b where tb: "tb = (l, t, r, b)" "even_box tb" "l < r" "r \<le> width div 2" "t < b" "b \<le> height"
    by (rule half_tile [OF assms])
  have "width div 2 + r \<le> width" "r \<le> width" using tb(4) by linarith+
  with tb show ?thesis by (cases s) (simp_all add: box_inside_def half_shift_def shift_box_def)
qed

lemma covered_packed:
  assumes f: "avc444_frame width height" and al: "aligned_regions width height cs"
    and ch: "tile_changes width height p r cs packed protocol"
  shows "covered_by width height at packed i \<longleftrightarrow>
    (\<exists>tb s. (tb, s) \<in> changed_halves width height p r cs \<and> at width (half_shift width s tb) i)"
proof -
  have lim: "int width \<le> i32_max" "int height \<le> i32_max" using f by (simp_all add: avc444_frame_def)
  have "clamp_region width height (box_region (half_shift width s tb)) = Some (half_shift width s tb)"
    if x: "(tb, s) \<in> changed_halves width height p r cs" for tb s
  proof -
    obtain c where "c \<in> set cs" "tb \<in> half_tiles width height c" using x by (auto simp: changed_halves_def)
    from clamp_region_box [OF half_inside [OF f al this] lim] show ?thesis by blast
  qed
  note box = this
  have packed: "set packed = (\<lambda>(tb, second). box_region (half_shift width second tb)) ` changed_halves width height p r cs"
    using ch by (simp add: tile_changes_def)
  have "covered_by width height at packed i \<longleftrightarrow> (\<exists>tb s. (tb, s) \<in> changed_halves width height p r cs \<and>
      (\<exists>bx. clamp_region width height (box_region (half_shift width s tb)) = Some bx \<and> at width bx i))"
    unfolding covered_by_def packed bex_image_pair by (rule refl)
  also have "\<dots> \<longleftrightarrow> (\<exists>tb s. (tb, s) \<in> changed_halves width height p r cs \<and> at width (half_shift width s tb) i)"
    using box by (metis option.inject)
  finally show ?thesis .
qed

lemma under_protocol:
  assumes "tile_changes width height p r cs packed protocol"
  shows "under protocol q \<longleftrightarrow>
    (\<exists>tb s. (tb, s) \<in> changed_halves width height p r cs \<and> under [box_region (unpack_box tb)] q)"
proof -
  obtain x y where q: "q = (x, y)" by (cases q)
  have "under protocol q \<longleftrightarrow> (\<exists>d\<in>(\<lambda>(tb, second). box_region (unpack_box tb)) ` changed_halves width height p r cs. in_region x y d)"
    using assms by (simp add: q under_def list_ex_iff tile_changes_def)
  then show ?thesis unfolding bex_image_pair by (simp add: q under_def)
qed

text \<open>One plane of the auxiliary view, by where its indices lie (\<open>at\<close>) and what they describe (\<open>px\<close>).\<close>

definition plane_of :: "nat \<Rightarrow> (nat \<Rightarrow> box \<Rightarrow> nat \<Rightarrow> bool) \<Rightarrow> (nat \<Rightarrow> nat \<times> nat) \<Rightarrow> (nat \<Rightarrow> bool) \<Rightarrow> nat \<Rightarrow> nat \<Rightarrow> bool" where
  "plane_of width at px side n height \<longleftrightarrow>
     (\<forall>i<n. \<forall>l t r b s. even_box (l, t, r, b) \<and> r \<le> width div 2 \<and> b \<le> height \<longrightarrow>
       (at width (half_shift width s (l, t, r, b)) i \<longrightarrow> under [box_region (unpack_box (l, t, r, b))] (px i)) \<and>
       (under [box_region (unpack_box (l, t, r, b))] (px i) \<longrightarrow> at width (half_shift width (side i) (l, t, r, b)) i))"

lemma aux_planes_of:
  assumes "avc444_frame width height"
  shows "plane_of width luma_at (px_aux_y width) (\<lambda>i. width div 2 \<le> i mod width) (width * height) height"
    and "plane_of width chroma_at (px_aux_u width) (\<lambda>i. width div 4 \<le> i mod (width div 2)) n height"
    and "plane_of width chroma_at (px_aux_v width) (\<lambda>i. width div 4 \<le> i mod (width div 2)) n height"
  unfolding plane_of_def
  by (intro allI impI conjI; elim conjE; (rule aux_columns [OF assms] | rule aux_blocks [OF assms]); (assumption | simp))+

lemma plane_mirrors:
  assumes f: "avc444_frame width height" and al: "aligned_regions width height cs"
    and ch: "tile_changes width height p r cs packed protocol"
    and of: "plane_of width at px side n height" and i: "i < n"
    and new: "q' = (if covered_by width height at packed i then new else old)"
    and same: "\<And>tb. at width tb i \<Longrightarrow> \<not> box_differs width p r tb \<Longrightarrow> new = old"
  shows "q' = (if under protocol (px i) then new else old)"
proof -
  note cov = covered_packed [OF f al ch, of at i] and und = under_protocol [OF ch, of "px i"]
  have tile: "\<exists>l t r' b. tb = (l, t, r', b) \<and> even_box tb \<and> r' \<le> width div 2 \<and> b \<le> height"
    if "(tb, s) \<in> changed_halves width height p r cs" for tb s
  proof -
    obtain c where c: "c \<in> set cs" "tb \<in> half_tiles width height c" using \<open>(tb, s) \<in> _\<close> by (auto simp: changed_halves_def)
    show ?thesis using half_tile [OF f al c] by metis
  qed
  have "under protocol (px i)" if "covered_by width height at packed i"
    using that of i tile unfolding cov und plane_of_def by blast
  moreover have "new = old" if u: "under protocol (px i)" and n: "\<not> covered_by width height at packed i"
  proof -
    obtain tb s where tb: "(tb, s) \<in> changed_halves width height p r cs" "under [box_region (unpack_box tb)] (px i)"
      using u und by blast
    then have "at width (half_shift width (side i) tb) i" using tile [OF tb(1)] of i unfolding plane_of_def by blast
    moreover have "(tb, side i) \<notin> changed_halves width height p r cs" using n calculation unfolding cov by blast
    with tb(1) have "\<not> box_differs width p r (half_shift width (side i) tb)" by (auto simp: changed_halves_def)
    ultimately show ?thesis by (rule same)
  qed
  ultimately show ?thesis using new by auto
qed

text \<open>The three planes at once, for pixels \<open>P\<close> that every plane follows.\<close>

lemma aux_receives:
  fixes P :: "nat \<times> nat \<Rightarrow> bool"
  assumes f: "avc444_frame width height" and len: "yuv_len width height p" and r': "patched width height packed p r r'"
    and plane: "\<And>at px side n i q' new (old :: byte). plane_of width at px side n height \<Longrightarrow> i < n \<Longrightarrow>
      q' = (if covered_by width height at packed i then new else old) \<Longrightarrow>
      (\<And>tb. at width tb i \<Longrightarrow> \<not> box_differs width p r tb \<Longrightarrow> new = old) \<Longrightarrow> q' = (if P (px i) then new else old)"
  shows "r' = receive_aux width P p r"
proof -
  note of = aux_planes_of [OF f]
  have same: "y_plane p ! i = y_plane r ! i" if "luma_at width tb i" "\<not> box_differs width p r tb" for tb i
    using that by (auto simp: box_differs_def)
  have same': "u_plane p ! i = u_plane r ! i" "v_plane p ! i = v_plane r ! i"
    if "chroma_at width tb i" "\<not> box_differs width p r tb" for tb i
    using that by (auto simp: box_differs_def)
  have at: "y_plane r' ! i = (if covered_by width height luma_at packed i then y_plane p ! i else y_plane r ! i)"
    if "i < width * height" for i
    using r' that by (simp add: patched_def)
  have at': "u_plane r' ! i = (if covered_by width height chroma_at packed i then u_plane p ! i else u_plane r ! i)"
    "v_plane r' ! i = (if covered_by width height chroma_at packed i then v_plane p ! i else v_plane r ! i)"
    if "i < (width div 2) * (height div 2)" for i
    using r' that by (simp_all add: patched_def)
  have l: "length (y_plane p) = width * height" "length (u_plane p) = (width div 2) * (height div 2)"
    "length (v_plane p) = (width div 2) * (height div 2)" "length (y_plane r') = width * height"
    "length (u_plane r') = (width div 2) * (height div 2)" "length (v_plane r') = (width div 2) * (height div 2)"
    using len r' by (simp_all add: yuv_len_def patched_def)
  have "y_plane r' = refresh (px_aux_y width) P (y_plane p) (y_plane r)"
    by (rule refresh_eqI) (simp add: l, rule plane [OF of(1) _ at same], simp_all add: l)
  moreover have "u_plane r' = refresh (px_aux_u width) P (u_plane p) (u_plane r)"
    by (rule refresh_eqI) (simp add: l, rule plane [OF of(2) _ at'(1) same'(1)], simp_all add: l)
  moreover have "v_plane r' = refresh (px_aux_v width) P (v_plane p) (v_plane r)"
    by (rule refresh_eqI) (simp add: l, rule plane [OF of(3) _ at'(2) same'(2)], simp_all add: l)
  ultimately show ?thesis by (simp add: receive_aux_def)
qed

lemma aux_mirrors:
  assumes f: "avc444_frame width height" and al: "aligned_regions width height cs"
    and ch: "tile_changes width height p r cs packed protocol"
    and len: "yuv_len width height p" and r': "patched width height packed p r r'"
  shows "r' = receive_aux width (under protocol) p r"
  by (rule aux_receives [OF f len r' plane_mirrors [OF f al ch]])

section \<open>Aligned candidates\<close>

definition hull :: "box \<Rightarrow> box \<Rightarrow> box" where
  "hull = (\<lambda>(l, t, r, b) (l', t', r', b'). (min l l', min t t', max r r', max b b'))"

lemma union_region_box:
  assumes "box_inside width height a" and "box_inside width height c"
    and "int width \<le> i32_max" and "int height \<le> i32_max"
  shows "union_region (box_region a) (box_region c) = box_region (hull a c)"
proof -
  obtain l t r b l' t' r' b' where eq: "a = (l, t, r, b)" "c = (l', t', r', b')" by (cases a; cases c)
  have i: "l < r" "r \<le> width" "t < b" "b \<le> height" "l' < r'" "r' \<le> width" "t' < b'" "b' \<le> height"
    using assms(1,2) by (simp_all add: eq box_inside_def)
  have sat: "i32_sat_add (int x) (int (y - x)) = int y" if "x < y" "y \<le> width \<or> y \<le> height" for x y
    using that assms(3,4) by (auto simp: i32_sat_add_def i32_sat_def of_nat_diff)
  have wrap: "i32_wrap (int y - int x) = int (y - x)" if "x \<le> y" "y \<le> width \<or> y \<le> height" for x y
    using that assms(3,4) by (subst i32_wrap_id) (auto simp: is_i32_def of_nat_diff)
  have sats: "i32_sat_add (int l) (int (r - l)) = int r" "i32_sat_add (int l') (int (r' - l')) = int r'"
    "i32_sat_add (int t) (int (b - t)) = int b" "i32_sat_add (int t') (int (b' - t')) = int b'"
    using sat [of l r] sat [of l' r'] sat [of t b] sat [of t' b'] i by (simp_all only: simp_thms)
  have wraps: "i32_wrap (int (max r r') - int (min l l')) = int (max r r' - min l l')"
    "i32_wrap (int (max b b') - int (min t t')) = int (max b b' - min t t')"
    using wrap [of "min l l'" "max r r'"] wrap [of "min t t'" "max b b'"] i by simp_all
  show ?thesis
    by (simp only: eq union_region_def box_region_def hull_def prod.case Let_def sats wraps flip: of_nat_max of_nat_min)
qed

definition good_region :: "nat \<Rightarrow> nat \<Rightarrow> region \<Rightarrow> bool" where
  "good_region width height d \<longleftrightarrow> (\<exists>bx. d = box_region bx \<and> box_inside width height bx \<and> aligned_box bx)"

lemma hull_good:
  "box_inside width height a \<Longrightarrow> box_inside width height c \<Longrightarrow> box_inside width height (hull a c)"
  "aligned_box a \<Longrightarrow> aligned_box c \<Longrightarrow> aligned_box (hull a c)"
  by (cases a; cases c; auto simp: hull_def box_inside_def aligned_box_def min_def max_def)+

lemma hull_under:
  "under [box_region a] q \<or> under [box_region c] q \<Longrightarrow> under [box_region (hull a c)] q"
  using under_boxes [of "[a]"] under_boxes [of "[c]"] under_boxes [of "[hull a c]"]
  by (cases a; cases c; cases q) (auto simp: hull_def)

lemma union_region_good:
  assumes "int width \<le> i32_max" and "int height \<le> i32_max" and "good_region width height d" and "good_region width height e"
  shows "good_region width height (union_region d e) \<and> (under [d] q \<or> under [e] q \<longrightarrow> under [union_region d e] q)"
proof -
  obtain a c where eq: "d = box_region a" "e = box_region c" and i: "box_inside width height a" "box_inside width height c"
    "aligned_box a" "aligned_box c"
    using assms(3,4) by (auto simp: good_region_def)
  have u: "union_region d e = box_region (hull a c)"
    unfolding eq by (rule union_region_box [OF i(1,2) assms(1,2)])
  show ?thesis unfolding u good_region_def using hull_good(1) [OF i(1,2)] hull_good(2) [OF i(3,4)] hull_under [of a q c] eq by blast
qed

lemma under_Cons: "under (d # ds) q \<longleftrightarrow> under [d] q \<or> under ds q"
  by (cases q) (simp add: under_def)

lemma under_append: "under (ds @ es) q \<longleftrightarrow> under ds q \<or> under es q"
  by (cases q) (simp add: under_def)

lemma under_nth: "i < length ds \<Longrightarrow> under ds q \<longleftrightarrow> under [ds ! i] q \<or> under (swap_remove ds i) q"
proof -
  assume i: "i < length ds"
  then have "set ds = insert (ds ! i) (set (swap_remove ds i))" by (rule set_swap_remove)
  then show ?thesis by (cases q) (auto simp: under_def list_ex_iff)
qed


lemma merge_region_loop_good:
  assumes f: "int width \<le> i32_max" "int height \<le> i32_max"
  shows "list_all (good_region width height) ds \<Longrightarrow> good_region width height d \<Longrightarrow>
    list_all (good_region width height) (merge_region_loop ds d n) \<and>
    (under ds q \<or> under [d] q \<longrightarrow> under (merge_region_loop ds d n) q)"
proof (induction ds d n rule: merge_region_loop.induct)
  case (1 ds d n)
  show ?case
  proof (cases "n < length ds \<and> regions_overlap_or_touch (ds ! n) d")
    case True
    then have n: "n < length ds" by simp
    have good: "good_region width height (ds ! n)" "list_all (good_region width height) (swap_remove ds n)"
      using "1.prems"(1) set_swap_remove [OF n] by (auto simp: list_all_iff)
    note u = union_region_good [OF f good(1) "1.prems"(2), of q]
    from "1.IH"(1) [OF n _ good(2)] True u under_nth [OF n, of q]
    show ?thesis by (simp add: merge_region_loop.simps [of ds d n])
  next
    case False
    with "1.IH"(2) [OF _ _ "1.prems"] "1.prems" show ?thesis
      by (cases "n < length ds") (auto simp: merge_region_loop.simps [of ds d n] under_append)
  qed
qed

lemma align_up_nat:
  fixes x a :: int
  assumes "0 \<le> x" and "x \<le> w" and "a dvd w" and "0 < a" and "w \<le> i32_max"
  shows "clamp (align_up x a) 0 w = (if a dvd x then x else x - x mod a + a)" "a dvd clamp (align_up x a) 0 w"
    "x \<le> clamp (align_up x a) 0 w" "clamp (align_up x a) 0 w \<le> w"
proof -
  have m: "0 \<le> x mod a" "x mod a < a" using assms(4) by simp_all
  have le: "x - x mod a + a \<le> w" if "\<not> a dvd x"
  proof -
    have "x < w" using assms(2,3) that by (cases "x = w") auto
    have d: "a dvd x - x mod a" by (rule dvd_minus_mod)
    then obtain k where k: "x - x mod a = a * k" by blast
    obtain n where n: "w = a * n" using assms(3) by blast
    have "a * k < a * n" using \<open>x < w\<close> m k n by linarith
    then have "k < n" using assms(4) by (simp add: mult_less_cancel_left_pos)
    then have "a * (k + 1) \<le> a * n" using assms(4) by (intro mult_left_mono) simp_all
    then show ?thesis using k n by (simp add: algebra_simps)
  qed
  show eq: "clamp (align_up x a) 0 w = (if a dvd x then x else x - x mod a + a)"
  proof (cases "a dvd x")
    case True
    then show ?thesis using assms(1,2) by (simp add: align_up_def clamp_id dvd_imp_mod_0)
  next
    case False
    then have "x mod a \<noteq> 0" by auto
    moreover have "i32_sat_add x (a - x mod a) = x - x mod a + a"
      using le [OF False] assms(1,5) m by (simp add: i32_sat_add_def i32_sat_def)
    ultimately show ?thesis using le [OF False] False assms(1) m by (simp add: align_up_def clamp_def Let_def)
  qed
  show "a dvd clamp (align_up x a) 0 w" unfolding eq by (auto intro: dvd_minus_mod)
  show "x \<le> clamp (align_up x a) 0 w" unfolding eq using m by auto
  show "clamp (align_up x a) 0 w \<le> w" unfolding eq using le assms(2) by auto
qed

lemma align_down_nat:
  fixes x a :: int
  assumes "0 \<le> x" and "0 < a"
  shows "a dvd align_down x a" "align_down x a \<le> x" "0 \<le> align_down x a"
  using assms by (simp_all add: align_down_def minus_mod_eq_mult_div pos_imp_zdiv_nonneg_iff mult_nonneg_nonneg)
    (simp add: mult_div_mod_eq [symmetric] flip: minus_mod_eq_mult_div)

lemma align_span:
  fixes x n W a :: int
  assumes "is_i32 x" "is_i32 n" "0 \<le> W" "W \<le> i32_max" "a dvd W" "0 < a"
    and l: "l = align_down (clamp x 0 W) a" and r: "r = clamp (align_up (clamp (i32_sat_add x n) 0 W) a) 0 W"
  shows "0 \<le> l" "a dvd l" "a dvd r" "r \<le> W" "int q < W \<Longrightarrow> x \<le> int q \<Longrightarrow> int q < x + n \<Longrightarrow> l \<le> int q \<and> int q < r"
proof -
  have sat: "clamp (i32_sat_add x n) 0 W = clamp (x + n) 0 W" by (rule clamp_sat_add [OF assms(1-4)])
  have b: "0 \<le> clamp x 0 W" "0 \<le> clamp (x + n) 0 W" "clamp (x + n) 0 W \<le> W"
    using clamp_bounds [OF assms(3)] by auto
  note d = align_down_nat [OF b(1) assms(6), folded l]
  note u = align_up_nat [OF b(2,3) assms(5,6,4), folded sat, folded r]
  show "0 \<le> l" "a dvd l" by (rule d)+
  show "a dvd r" "r \<le> W" by (rule u)+
  assume q: "int q < W" "x \<le> int q" "int q < x + n"
  have "clamp x 0 W \<le> int q" "int q < clamp (x + n) 0 W" using q by (auto simp: clamp_def)
  then show "l \<le> int q \<and> int q < r" using d(2) u(3) sat by linarith
qed

lemma align_region_good:
  assumes f: "avc444_frame width height" and d: "i32_region d" and acc: "list_all (good_region width height) acc"
    and res: "res = align_region (int width) (int height) 4 2 d acc"
  shows "list_all (good_region width height) res" and
    "(\<And>px py. px < width \<Longrightarrow> py < height \<Longrightarrow> under acc (px, py) \<or> under [d] (px, py) \<Longrightarrow> under res (px, py))"
proof -
  obtain x y w h where eq: "d = (x, y, w, h)" by (cases d) auto
  have lim: "int width \<le> i32_max" "int height \<le> i32_max" and dv: "(4::int) dvd int width" "(2::int) dvd int height"
    using f by (auto simp: avc444_frame_def elim!: dvdE)
  have i: "is_i32 x" "is_i32 y" "is_i32 w" "is_i32 h" using d by (simp_all add: eq i32_region_def)
  define l t r b where lt: "l = align_down (clamp x 0 (int width)) 4" "t = align_down (clamp y 0 (int height)) 2"
    and rb: "r = clamp (align_up (clamp (i32_sat_add x w) 0 (int width)) 4) 0 (int width)"
      "b = clamp (align_up (clamp (i32_sat_add y h) 0 (int height)) 2) 0 (int height)"
  note X = align_span [OF i(1,3) _ lim(1) dv(1) _ lt(1) rb(1), simplified]
    and Y = align_span [OF i(2,4) _ lim(2) dv(2) _ lt(2) rb(2), simplified]
  have ress: "res = (if w \<le> 0 \<or> h \<le> 0 then acc
      else if r > l \<and> b > t then merge_region acc (l, t, r - l, b - t) else acc)"
    by (simp add: res eq align_region_def lt rb Let_def)
  have inside: "l \<le> int px \<and> int px < r \<and> t \<le> int py \<and> int py < b \<and> \<not> w \<le> 0 \<and> \<not> h \<le> 0"
    if "px < width" "py < height" "under [d] (px, py)" for px py
    using that X(5) [of px] Y(5) [of py] by (simp add: under_def eq in_region_def)
  have good: "good_region width height (l, t, r - l, b - t)" if "l < r" "t < b"
  proof -
    have "(l, t, r - l, b - t) = box_region (nat l, nat t, nat r, nat b)"
      using X(1) Y(1) that by (simp add: box_region_def of_nat_diff)
    moreover have "box_inside width height (nat l, nat t, nat r, nat b)"
      using X(1,4) Y(1,4) that by (auto simp: box_inside_def)
    moreover have "4 dvd nat l" "4 dvd nat r" "2 dvd nat t" "2 dvd nat b"
      using X(1-3) Y(1-3) that int_dvd_int_iff [of 4 "nat l"] int_dvd_int_iff [of 4 "nat r"]
        int_dvd_int_iff [of 2 "nat t"] int_dvd_int_iff [of 2 "nat b"] by simp_all
    ultimately show ?thesis unfolding good_region_def aligned_box_def by (intro exI [of _ "(nat l, nat t, nat r, nat b)"]) simp
  qed
  note merged = merge_region_loop_good [OF lim acc good, where n = 0, folded merge_region_def]
  show "list_all (good_region width height) res" using merged acc by (simp add: ress)
  fix px py
  assume p: "px < width" "py < height" "under acc (px, py) \<or> under [d] (px, py)"
  show "under res (px, py)"
  proof (cases "under [d] (px, py)")
    case True
    note q = inside [OF p(1,2) True]
    have "under [(l, t, r - l, b - t)] (px, py)" using q by (simp add: under_def in_region_def)
    then show ?thesis using q merged [of "(px, py)"] by (simp add: ress)
  next
    case False
    then show ?thesis using p(3) merged [of "(px, py)"] by (auto simp: ress)
  qed
qed

lemma align_protocol_good:
  assumes f: "avc444_frame width height" and ds: "list_all i32_region ds"
  shows "list_all (good_region width height) (align_protocol_regions width height ds)" and
    "(\<And>px py. px < width \<Longrightarrow> py < height \<Longrightarrow> under ds (px, py) \<Longrightarrow> under (align_protocol_regions width height ds) (px, py))"
proof -
  have lim: "int width \<le> i32_max" "int height \<le> i32_max" using f by (simp_all add: avc444_frame_def)
  have eq: "align_protocol_regions width height ds = fold (align_region (int width) (int height) 4 2) ds []"
    using lim by (simp add: align_protocol_regions_def align_regions_def i32_try_from_def)
  have "list_all (good_region width height) (fold (align_region (int width) (int height) 4 2) ds acc) \<and>
      (\<forall>px<width. \<forall>py<height. under acc (px, py) \<or> under ds (px, py) \<longrightarrow>
         under (fold (align_region (int width) (int height) 4 2) ds acc) (px, py))"
    if "list_all (good_region width height) acc" for acc
    using ds that
  proof (induction ds arbitrary: acc)
    case Nil
    then show ?case by (simp add: under_def)
  next
    case (Cons d ds)
    let ?acc = "align_region (int width) (int height) 4 2 d acc"
    have "i32_region d" using Cons.prems(1) by simp
    note step = align_region_good [OF f this Cons.prems(2) refl]
    show ?case using Cons.IH [OF _ step(1)] Cons.prems(1) step(2) under_Cons [of d ds] by auto
  qed
  from this [of "[]"] show "list_all (good_region width height) (align_protocol_regions width height ds)"
    "(\<And>px py. px < width \<Longrightarrow> py < height \<Longrightarrow> under ds (px, py) \<Longrightarrow> under (align_protocol_regions width height ds) (px, py))"
    by (simp_all add: eq)
qed

lemma good_aligned:
  assumes "avc444_frame width height" and "list_all (good_region width height) cs"
  shows "aligned_regions width height cs" and "even_regions width height cs"
proof -
  have lim: "int width \<le> i32_max" "int height \<le> i32_max" using assms(1) by (simp_all add: avc444_frame_def)
  have "aligned_box bx \<Longrightarrow> even_box bx" for bx by (cases bx) (auto simp: aligned_box_def even_box_def elim!: dvdE)
  then show "even_regions width height cs" using assms(2) by (fastforce simp: even_regions_def list_all_iff good_region_def)
  show "aligned_regions width height cs"
    unfolding aligned_regions_def
  proof
    fix c
    assume "c \<in> set cs"
    then obtain bx where "c = box_region bx" "box_inside width height bx" "aligned_box bx"
      using assms(2) by (auto simp: list_all_iff good_region_def)
    then show "\<exists>bx. clamp_region width height c = Some bx \<and> c = box_region bx \<and> aligned_box bx"
      using clamp_region_box [OF _ lim] by blast
  qed
qed

end
