(* ===== verification/YuvConversion.thy ===== *)
theory YuvConversion
  imports ChromaTiles
begin

text \<open>
  The conversion of a BGRA buffer into the main and the auxiliary view of AVC444v2
  (\<open>bgra_to_avc444_v2_plane_regions_selective\<close> of \<open>src/src/egfx/avc444.rs\<close>), block by block as the code
  loops. \<open>main_view\<close> and \<open>aux_view\<close> say, sample by sample, what the two views of a picture are, and
  \<open>convert_fills\<close> shows that the loops fill in exactly the samples under the rectangles and never leave
  the planes or the buffer.
\<close>

section \<open>Conversion\<close>

text \<open>The tables \<open>BgraToYuvTables\<close> hold the products below.\<close>

definition bgra_components_to_yuv :: "nat \<Rightarrow> nat \<Rightarrow> nat \<Rightarrow> byte \<times> byte \<times> byte" where
  "bgra_components_to_yuv r g b =
     (word_of_int (clamp ((54 * int r + 183 * int g + 18 * int b) div 256) 0 255),
      word_of_int (clamp ((- 29 * int r + - 99 * int g + 128 * int b) div 256 + 128) 0 255),
      word_of_int (clamp ((128 * int r + - 116 * int g + - 12 * int b) div 256 + 128) 0 255))"

definition row_pixel_to_yuv :: "byte list \<Rightarrow> nat \<Rightarrow> (byte \<times> byte \<times> byte) run" where
  "row_pixel_to_yuv row x = do {
     b \<leftarrow> index_run row (x * 4);
     g \<leftarrow> index_run row (x * 4 + 1);
     r \<leftarrow> index_run row (x * 4 + 2);
     Some (bgra_components_to_yuv (unat r) (unat g) (unat b))
   }"

definition avg4_floor :: "byte \<Rightarrow> byte \<Rightarrow> byte \<Rightarrow> byte \<Rightarrow> byte" where
  "avg4_floor a b c d = word_of_nat ((unat a + unat b + unat c + unat d) div 4)"

definition put_y :: "nat \<Rightarrow> byte \<Rightarrow> yuv420 \<Rightarrow> yuv420 run" where
  "put_y i v p = map_option (\<lambda>y. p\<lparr>y_plane := y\<rparr>) (put_run i v (y_plane p))"

definition put_u :: "nat \<Rightarrow> byte \<Rightarrow> yuv420 \<Rightarrow> yuv420 run" where
  "put_u i v p = map_option (\<lambda>u. p\<lparr>u_plane := u\<rparr>) (put_run i v (u_plane p))"

definition put_v :: "nat \<Rightarrow> byte \<Rightarrow> yuv420 \<Rightarrow> yuv420 run" where
  "put_v i v p = map_option (\<lambda>w. p\<lparr>v_plane := w\<rparr>) (put_run i v (v_plane p))"

text \<open>
  One block of four pixels. The pair is the main view (\<open>y444\<close>, \<open>main_u\<close>, \<open>main_v\<close>) and the auxiliary
  view (\<open>aux_y\<close>, \<open>aux_u\<close>, \<open>aux_v\<close>).
\<close>

definition convert_block :: "nat \<Rightarrow> bool \<Rightarrow> bool \<Rightarrow> byte list \<Rightarrow> byte list \<Rightarrow> nat \<Rightarrow> nat \<Rightarrow> yuv420 \<times> yuv420 \<Rightarrow> (yuv420 \<times> yuv420) run" where
  "convert_block width convert_luma convert_chroma even_row odd_row cy cx = (\<lambda>(m, a).
     let chroma_w = width div 2; quarter_w = width div 4; x = cx * 2;
         y_even_base = cy * 2 * width; y_odd_base = (cy * 2 + 1) * width; main_base = cy * chroma_w
     in do {
       (ya, ua, va) \<leftarrow> row_pixel_to_yuv even_row x;
       (yb, ub, vb) \<leftarrow> row_pixel_to_yuv even_row (x + 1);
       (yc, uc, vc) \<leftarrow> row_pixel_to_yuv odd_row x;
       (yd, ud, vd) \<leftarrow> row_pixel_to_yuv odd_row (x + 1);
       m \<leftarrow> (if \<not> convert_luma then Some m else do {
         m \<leftarrow> put_y (y_even_base + x) ya m;
         m \<leftarrow> put_y (y_even_base + x + 1) yb m;
         m \<leftarrow> put_y (y_odd_base + x) yc m;
         m \<leftarrow> put_y (y_odd_base + x + 1) yd m;
         m \<leftarrow> put_u (main_base + cx) (avg4_floor ua ub uc ud) m;
         put_v (main_base + cx) (avg4_floor va vb vc vd) m
       });
       a \<leftarrow> (if \<not> convert_chroma then Some a else do {
         a \<leftarrow> put_y (y_even_base + cx) ub a;
         a \<leftarrow> put_y (y_even_base + cx + chroma_w) vb a;
         a \<leftarrow> put_y (y_odd_base + cx) ud a;
         a \<leftarrow> put_y (y_odd_base + cx + chroma_w) vd a;
         let aux_x = cx div 2;
         if cx mod 2 = 0
         then do {
           a \<leftarrow> put_u (main_base + aux_x) uc a;
           put_u (main_base + aux_x + quarter_w) vc a
         }
         else do {
           a \<leftarrow> put_v (main_base + aux_x) uc a;
           put_v (main_base + aux_x + quarter_w) vc a
         }
       });
       Some (m, a)
     })"

definition convert_row :: "nat \<Rightarrow> byte list \<Rightarrow> nat \<Rightarrow> bool \<Rightarrow> bool \<Rightarrow> nat \<Rightarrow> nat \<Rightarrow> nat \<Rightarrow> yuv420 \<times> yuv420 \<Rightarrow> (yuv420 \<times> yuv420) run" where
  "convert_row width bgra stride convert_luma convert_chroma left right cy planes = do {
     even_row \<leftarrow> slice_run (cy * 2 * stride) ((cy * 2 + 1) * stride) bgra;
     odd_row \<leftarrow> slice_run ((cy * 2 + 1) * stride) ((cy * 2 + 1 + 1) * stride) bgra;
     fold_run (convert_block width convert_luma convert_chroma even_row odd_row cy) [left div 2..<right div 2] planes
   }"

definition convert_region :: "nat \<Rightarrow> nat \<Rightarrow> byte list \<Rightarrow> nat \<Rightarrow> bool \<Rightarrow> bool \<Rightarrow> region \<Rightarrow> yuv420 \<times> yuv420 \<Rightarrow> (yuv420 \<times> yuv420) run" where
  "convert_region width height bgra stride convert_luma convert_chroma region planes =
     (case clamp_region width height region of
        None \<Rightarrow> Some planes
      | Some (left, top_y, right, bottom) \<Rightarrow>
          (let left = nat (align_down (int left) 4); top_y = nat (align_down (int top_y) 2);
               right = nat (clamp (align_up (int right) 4) 0 (int width));
               bottom = nat (clamp (align_up (int bottom) 2) 0 (int height))
           in fold_run (convert_row width bgra stride convert_luma convert_chroma left right)
                [top_y div 2..<bottom div 2] planes))"

definition bgra_to_plane_regions :: "nat \<Rightarrow> nat \<Rightarrow> byte list \<Rightarrow> nat \<Rightarrow> region list \<Rightarrow> bool \<Rightarrow> bool \<Rightarrow> yuv420 \<times> yuv420 \<Rightarrow> (yuv420 \<times> yuv420) run" where
  "bgra_to_plane_regions width height bgra stride regions convert_luma convert_chroma planes =
     fold_run (convert_region width height bgra stride convert_luma convert_chroma) regions planes"

section \<open>The two views of a picture\<close>

definition pixel_yuv :: "byte list \<Rightarrow> nat \<Rightarrow> nat \<times> nat \<Rightarrow> byte \<times> byte \<times> byte" where
  "pixel_yuv bgra stride = (\<lambda>(x, y).
     bgra_components_to_yuv (unat (bgra ! (y * stride + x * 4 + 2))) (unat (bgra ! (y * stride + x * 4 + 1)))
       (unat (bgra ! (y * stride + x * 4))))"

definition block_avg :: "(nat \<times> nat \<Rightarrow> byte) \<Rightarrow> nat \<times> nat \<Rightarrow> byte" where
  "block_avg c = (\<lambda>(x, y). avg4_floor (c (x, y)) (c (x + 1, y)) (c (x, y + 1)) (c (x + 1, y + 1)))"

definition chroma_u :: "(nat \<times> nat \<Rightarrow> byte \<times> byte \<times> byte) \<Rightarrow> nat \<times> nat \<Rightarrow> byte" where
  "chroma_u pix q = fst (snd (pix q))"

definition chroma_v :: "(nat \<times> nat \<Rightarrow> byte \<times> byte \<times> byte) \<Rightarrow> nat \<times> nat \<Rightarrow> byte" where
  "chroma_v pix q = snd (snd (pix q))"

definition main_view :: "nat \<Rightarrow> nat \<Rightarrow> (nat \<times> nat \<Rightarrow> byte \<times> byte \<times> byte) \<Rightarrow> yuv420" where
  "main_view width height pix =
     \<lparr>y_plane = map (\<lambda>i. fst (pix (px_luma width i))) [0..<width * height],
      u_plane = map (\<lambda>i. block_avg (chroma_u pix) (px_block width i)) [0..<(width div 2) * (height div 2)],
      v_plane = map (\<lambda>i. block_avg (chroma_v pix) (px_block width i)) [0..<(width div 2) * (height div 2)]\<rparr>"

definition aux_view :: "nat \<Rightarrow> nat \<Rightarrow> (nat \<times> nat \<Rightarrow> byte \<times> byte \<times> byte) \<Rightarrow> yuv420" where
  "aux_view width height pix =
     \<lparr>y_plane = map (\<lambda>i. (if i mod width < width div 2 then chroma_u else chroma_v) pix (px_aux_y width i)) [0..<width * height],
      u_plane = map (\<lambda>i. (if i mod (width div 2) < width div 4 then chroma_u else chroma_v) pix (px_aux_u width i))
        [0..<(width div 2) * (height div 2)],
      v_plane = map (\<lambda>i. (if i mod (width div 2) < width div 4 then chroma_u else chroma_v) pix (px_aux_v width i))
        [0..<(width div 2) * (height div 2)]\<rparr>"

section \<open>Conversion fills in the views\<close>

lemma length_refresh [simp]: "length (refresh px P new old) = length new"
  by (simp add: refresh_def)

lemma nth_refresh: "i < length new \<Longrightarrow> refresh px P new old ! i = (if P (px i) then new ! i else old ! i)"
  by (simp add: refresh_def)

lemma refresh_twice: "refresh px P new (refresh px Q new old) = refresh px (\<lambda>q. P q \<or> Q q) new old"
  by (rule nth_equalityI) (simp_all add: nth_refresh)

lemma refresh_cong:
  "(\<And>i. i < length new \<Longrightarrow> P (px i) = Q (px i)) \<Longrightarrow> refresh px P new old = refresh px Q new old"
  by (rule nth_equalityI) (simp_all add: nth_refresh)

lemma refresh_none: "length old = length new \<Longrightarrow> refresh px (\<lambda>_. False) new old = old"
  by (rule nth_equalityI) (simp_all add: nth_refresh)

lemma updates_refresh:
  assumes "length xs = length new" and "list_all (\<lambda>i. i < length new) js"
    and "\<And>i. i < length new \<Longrightarrow> P (px i) \<longleftrightarrow> i \<in> set js"
  shows "fold (\<lambda>i ys. ys[i := new ! i]) js xs = refresh px P new xs"
proof -
  have "length (fold (\<lambda>i ys. ys[i := new ! i]) ks zs) = length zs" for ks zs
    by (induction ks arbitrary: zs) auto
  moreover have "fold (\<lambda>i ys. ys[i := new ! i]) ks zs ! i = (if i \<in> set ks then new ! i else zs ! i)"
    if "i < length new" "length zs = length new" for ks zs i
    using that(2) by (induction ks arbitrary: zs) (auto simp: nth_list_update that(1))
  ultimately show ?thesis using assms by (intro refresh_eqI) simp_all
qed

definition block_of :: "nat \<times> nat \<Rightarrow> nat \<times> nat" where
  "block_of = (\<lambda>(x, y). (x div 2, y div 2))"

lemma half_iff: "n div 2 = k \<longleftrightarrow> n = 2 * k \<or> n = 2 * k + 1" for n k :: nat
  by linarith

lemma index_iff:
  fixes i W c row :: nat
  assumes "c < W"
  shows "i = row * W + c \<longleftrightarrow> i div W = row \<and> i mod W = c" "i = c + row * W \<longleftrightarrow> i div W = row \<and> i mod W = c"
  using div_mod_row [OF assms] by (simp_all add: add.commute)

lemma mod_half_iff:
  fixes n c k :: nat
  assumes "c < 2 * n" and "k < n"
  shows "c mod n = k \<longleftrightarrow> c = k \<or> c = n + k"
  using assms by (auto simp: mod_if)

lemma luma_block:
  assumes "W = 2 * n" and "cx < n"
  shows "block_of (px_luma W i) = (cx, cy) \<longleftrightarrow>
    i \<in> set [cy * 2 * W + cx * 2, cy * 2 * W + cx * 2 + 1, (cy * 2 + 1) * W + cx * 2, (cy * 2 + 1) * W + cx * 2 + 1]"
proof -
  have c: "cx * 2 < W" "cx * 2 + 1 < W" using assms by simp_all
  have "i = row * W + cx * 2 + 1 \<longleftrightarrow> i div W = row \<and> i mod W = cx * 2 + 1" for row
    using index_iff(1) [OF c(2), of i row] by (simp add: add.assoc)
  note j = index_iff(1) [OF c(1), of i] this
  show ?thesis
    unfolding set_simps insert_iff empty_iff j block_of_def px_luma_def prod.case prod.inject half_iff by auto
qed

lemma chroma_block:
  assumes "W = 2 * n" and "cx < n"
  shows "block_of (px_block W i) = (cx, cy) \<longleftrightarrow> i \<in> set [cy * (W div 2) + cx]"
  using index_iff(1) [of cx n i cy] assms by (auto simp: block_of_def px_block_def)

lemma aux_y_block:
  assumes "W = 2 * n" and "cx < n"
  shows "block_of (px_aux_y W i) = (cx, cy) \<longleftrightarrow>
    i \<in> set [cy * 2 * W + cx, cy * 2 * W + cx + W div 2, (cy * 2 + 1) * W + cx, (cy * 2 + 1) * W + cx + W div 2]"
proof -
  have c: "cx < W" "cx + n < W" and half: "W div 2 = n" using assms by simp_all
  have "i = row * W + cx + n \<longleftrightarrow> i div W = row \<and> i mod W = n + cx" for row
    using index_iff(1) [OF c(2), of i row] by (simp add: add_ac)
  note j = index_iff(1) [OF c(1), of i] this
  have "i mod W < 2 * n" using assms by simp
  note m = mod_half_iff [OF this assms(2)]
  show ?thesis
    unfolding set_simps insert_iff empty_iff j half block_of_def px_aux_y_def prod.case prod.inject
    by (simp add: m half_iff mult.commute) blast
qed

lemma aux_uv_block:
  assumes "W = 4 * n" and "cx < 2 * n"
  shows "block_of (px_aux_u W i) = (cx, cy) \<longleftrightarrow>
      i \<in> set (if cx mod 2 = 0 then [cy * (W div 2) + cx div 2, cy * (W div 2) + cx div 2 + W div 4] else [])"
    and "block_of (px_aux_v W i) = (cx, cy) \<longleftrightarrow>
      i \<in> set (if cx mod 2 = 0 then [] else [cy * (W div 2) + cx div 2, cy * (W div 2) + cx div 2 + W div 4])"
proof -
  define k where "k = cx div 2"
  have k: "k < n" using assms(2) by (simp add: k_def)
  then have c: "k < 2 * n" "k + n < 2 * n" and half: "W div 2 = 2 * n" "W div 4 = n" using assms by simp_all
  have "i = cy * (2 * n) + k + n \<longleftrightarrow> i div (2 * n) = cy \<and> i mod (2 * n) = n + k"
    using index_iff(1) [OF c(2), of i cy] by (simp add: add_ac)
  note j = index_iff(1) [OF c(1), of i cy] this
  have "i mod (2 * n) < 2 * n" using c(1) by simp
  note m = mod_half_iff [OF this k]
  have d: "(4 * q) div 2 = 2 * q" "(4 * q + 2) div 2 = 2 * q + 1" "(2 * q + 1) div 2 = q" for q :: nat by presburger+
  note px = block_of_def px_aux_u_def px_aux_v_def prod.case prod.inject half d
  consider "cx = 2 * k" | "cx = 2 * k + 1" unfolding k_def by linarith
  then have "(block_of (px_aux_u W i) = (cx, cy) \<longleftrightarrow>
      i \<in> set (if cx mod 2 = 0 then [cy * (2 * n) + k, cy * (2 * n) + k + n] else [])) \<and>
    (block_of (px_aux_v W i) = (cx, cy) \<longleftrightarrow>
      i \<in> set (if cx mod 2 = 0 then [] else [cy * (2 * n) + k, cy * (2 * n) + k + n]))"
  proof cases
    case 1
    have "cx mod 2 = 0" "2 * q = cx \<longleftrightarrow> q = k" "2 * q + 1 \<noteq> cx" for q using 1 by presburger+
    then show ?thesis unfolding px by (simp only: simp_thms if_True set_simps insert_iff empty_iff j m) blast
  next
    case 2
    have "(cx mod 2 = 0) = False" "2 * q \<noteq> cx" "2 * q + 1 = cx \<longleftrightarrow> q = k" for q using 2 by presburger+
    then show ?thesis unfolding px by (simp only: simp_thms if_False set_simps insert_iff empty_iff j m) blast
  qed
  then show "block_of (px_aux_u W i) = (cx, cy) \<longleftrightarrow>
      i \<in> set (if cx mod 2 = 0 then [cy * (W div 2) + cx div 2, cy * (W div 2) + cx div 2 + W div 4] else [])"
    and "block_of (px_aux_v W i) = (cx, cy) \<longleftrightarrow>
      i \<in> set (if cx mod 2 = 0 then [] else [cy * (W div 2) + cx div 2, cy * (W div 2) + cx div 2 + W div 4])"
    by (simp_all only: half k_def)
qed

lemma view_len [simp]: "yuv_len width height (main_view width height pix)" "yuv_len width height (aux_view width height pix)"
  by (simp_all add: yuv_len_def main_view_def aux_view_def)

lemma view_nth:
  "i < W * H \<Longrightarrow> y_plane (aux_view W H pix) ! i = (if i mod W < W div 2 then chroma_u else chroma_v) pix (px_aux_y W i)"
  "i < W div 2 * (H div 2) \<Longrightarrow> u_plane (aux_view W H pix) ! i = (if i mod (W div 2) < W div 4 then chroma_u else chroma_v) pix (px_aux_u W i)"
  "i < W div 2 * (H div 2) \<Longrightarrow> v_plane (aux_view W H pix) ! i = (if i mod (W div 2) < W div 4 then chroma_u else chroma_v) pix (px_aux_v W i)"
  "i < W div 2 * (H div 2) \<Longrightarrow> u_plane (main_view W H pix) ! i = block_avg (chroma_u pix) (px_block W i)"
  "i < W div 2 * (H div 2) \<Longrightarrow> v_plane (main_view W H pix) ! i = block_avg (chroma_v pix) (px_block W i)"
  by (simp_all add: aux_view_def main_view_def)

lemma put_Some:
  "i < length (y_plane p) \<Longrightarrow> put_y i v p = Some (p\<lparr>y_plane := (y_plane p)[i := v]\<rparr>)"
  "i < length (u_plane p) \<Longrightarrow> put_u i v p = Some (p\<lparr>u_plane := (u_plane p)[i := v]\<rparr>)"
  "i < length (v_plane p) \<Longrightarrow> put_v i v p = Some (p\<lparr>v_plane := (v_plane p)[i := v]\<rparr>)"
  by (simp_all add: put_y_def put_u_def put_v_def put_run_def)

lemma index_bound:
  fixes i W H c row :: nat
  assumes "c < W" and "row < H"
  shows "row * W + c < W * H"
  using row_in_plane [of row H "c + 1" W] assms by simp

lemma row_divmod:
  fixes c W row :: nat
  assumes "c < W"
  shows "(row * W + c) mod W = c" "(row * W + c) div W = row"
  using div_mod_row [OF assms, of "row * W + c" row] by blast+

lemma main_block:
  assumes W: "W = 4 * n" and cx: "cx < 2 * n" and cy: "cy < hh" and H: "H = 2 * hh" and len: "yuv_len W H m"
    and pix: "pix (cx * 2, cy * 2) = (ya, ua, va)" "pix (cx * 2 + 1, cy * 2) = (yb, ub, vb)"
      "pix (cx * 2, cy * 2 + 1) = (yc, uc, vc)" "pix (cx * 2 + 1, cy * 2 + 1) = (yd, ud, vd)"
  shows "receive_main W (\<lambda>q. block_of q = (cx, cy)) (main_view W H pix) m =
    \<lparr>y_plane = (y_plane m)[cy * 2 * W + cx * 2 := ya, cy * 2 * W + cx * 2 + 1 := yb,
       (cy * 2 + 1) * W + cx * 2 := yc, (cy * 2 + 1) * W + cx * 2 + 1 := yd],
     u_plane = (u_plane m)[cy * (W div 2) + cx := avg4_floor ua ub uc ud],
     v_plane = (v_plane m)[cy * (W div 2) + cx := avg4_floor va vb vc vd]\<rparr>"
proof -
  let ?M = "main_view W H pix"
  have c: "cx * 2 < W" "cx * 2 + 1 < W" "cx < W div 2" "cy * 2 < H" "cy * 2 + 1 < H" "cy < H div 2" "W = 2 * (2 * n)"
    using W cx cy H by simp_all
  have b: "row * W + cx * 2 < W * H" "row * W + cx * 2 + 1 < W * H" if "row < H" for row
    using index_bound [OF c(1) that] index_bound [OF c(2) that] by simp_all
  have b': "cy * (W div 2) + cx < (W div 2) * (H div 2)" by (rule index_bound [OF c(3,6)])
  have px: "px_luma W (row * W + cx * 2) = (cx * 2, row)" "px_luma W (row * W + cx * 2 + 1) = (cx * 2 + 1, row)" for row
    using row_divmod [OF c(1), of row] row_divmod [OF c(2), of row] unfolding px_luma_def add.assoc by (simp_all only:)
  have px': "px_block W (cy * (W div 2) + cx) = (cx * 2, cy * 2)"
    using row_divmod [OF c(3), of cy] by (simp only: px_block_def mult.commute)
  have y: "y_plane ?M ! (row * W + cx * 2) = fst (pix (cx * 2, row))"
    "y_plane ?M ! (row * W + cx * 2 + 1) = fst (pix (cx * 2 + 1, row))" if "row < H" for row
    using b [OF that] px [of row] by (simp_all add: main_view_def)
  have uv: "u_plane ?M ! (cy * (W div 2) + cx) = avg4_floor ua ub uc ud"
    "v_plane ?M ! (cy * (W div 2) + cx) = avg4_floor va vb vc vd"
    using b' px' pix by (simp_all add: main_view_def block_avg_def chroma_u_def chroma_v_def)
  have ly: "length (y_plane m) = W * H" "length (y_plane ?M) = W * H" and
    lu: "length (u_plane m) = W div 2 * (H div 2)" "length (u_plane ?M) = W div 2 * (H div 2)" and
    lv: "length (v_plane m) = W div 2 * (H div 2)" "length (v_plane ?M) = W div 2 * (H div 2)"
    using len view_len(1) [of W H pix] by (simp_all add: yuv_len_def)
  have "fold (\<lambda>i ys. ys[i := y_plane ?M ! i]) [cy * 2 * W + cx * 2, cy * 2 * W + cx * 2 + 1,
      (cy * 2 + 1) * W + cx * 2, (cy * 2 + 1) * W + cx * 2 + 1] (y_plane m) =
    refresh (px_luma W) (\<lambda>q. block_of q = (cx, cy)) (y_plane ?M) (y_plane m)"
    using b [OF c(4)] b [OF c(5)] cx by (intro updates_refresh luma_block [OF c(7)]) (simp_all add: ly)
  moreover have "fold (\<lambda>i ys. ys[i := u_plane ?M ! i]) [cy * (W div 2) + cx] (u_plane m) =
      refresh (px_block W) (\<lambda>q. block_of q = (cx, cy)) (u_plane ?M) (u_plane m)"
    using b' cx by (intro updates_refresh chroma_block [OF c(7)]) (simp_all add: lu)
  moreover have "fold (\<lambda>i ys. ys[i := v_plane ?M ! i]) [cy * (W div 2) + cx] (v_plane m) =
      refresh (px_block W) (\<lambda>q. block_of q = (cx, cy)) (v_plane ?M) (v_plane m)"
    using b' cx by (intro updates_refresh chroma_block [OF c(7)]) (simp_all add: lv)
  ultimately show ?thesis
    using y [OF c(4)] y [OF c(5)] uv pix by (simp add: receive_main_def)
qed

lemma aux_block:
  assumes W: "W = 4 * n" and cx: "cx < 2 * n" and cy: "cy < hh" and H: "H = 2 * hh" and len: "yuv_len W H a"
    and pix: "pix (cx * 2 + 1, cy * 2) = (yb, ub, vb)"
      "pix (cx * 2, cy * 2 + 1) = (yc, uc, vc)" "pix (cx * 2 + 1, cy * 2 + 1) = (yd, ud, vd)"
  shows "receive_aux W (\<lambda>q. block_of q = (cx, cy)) (aux_view W H pix) a =
    \<lparr>y_plane = (y_plane a)[cy * 2 * W + cx := ub, cy * 2 * W + cx + W div 2 := vb,
       (cy * 2 + 1) * W + cx := ud, (cy * 2 + 1) * W + cx + W div 2 := vd],
     u_plane = (if cx mod 2 = 0 then (u_plane a)[cy * (W div 2) + cx div 2 := uc, cy * (W div 2) + cx div 2 + W div 4 := vc]
       else u_plane a),
     v_plane = (if cx mod 2 = 0 then v_plane a
       else (v_plane a)[cy * (W div 2) + cx div 2 := uc, cy * (W div 2) + cx div 2 + W div 4 := vc])\<rparr>"
proof -
  let ?A = "aux_view W H pix"
  have c: "cx < W" "cx + W div 2 < W" "cx div 2 < W div 2" "cx div 2 + W div 4 < W div 2"
    "cy * 2 < H" "cy * 2 + 1 < H" "cy < H div 2" "W = 2 * (2 * n)" "cx < W div 2" "cx div 2 < W div 4"
    using W cx cy H by simp_all
  have half: "W div 2 = 2 * n" "W div 4 = n" using W by simp_all
  have b: "row * W + cx < W * H" "row * W + cx + W div 2 < W * H" if "row < H" for row
    using index_bound [OF c(1) that] index_bound [OF c(2) that] by simp_all
  have b': "cy * (W div 2) + cx div 2 < (W div 2) * (H div 2)" "cy * (W div 2) + cx div 2 + W div 4 < (W div 2) * (H div 2)"
    using index_bound [OF c(3,7)] index_bound [OF c(4,7)] by simp_all
  have at: "(row * W + cx) mod W = cx" "(row * W + cx) div W = row" "(row * W + cx + W div 2) mod W = cx + W div 2"
    "(row * W + cx + W div 2) div W = row" for row
    using row_divmod [OF c(1), of row] row_divmod [OF c(2), of row] unfolding add.assoc by (simp_all only:)
  have at': "(cy * (W div 2) + cx div 2) mod (W div 2) = cx div 2" "(cy * (W div 2) + cx div 2) div (W div 2) = cy"
    "(cy * (W div 2) + cx div 2 + W div 4) mod (W div 2) = cx div 2 + W div 4"
    "(cy * (W div 2) + cx div 2 + W div 4) div (W div 2) = cy"
    using row_divmod [OF c(3), of cy] row_divmod [OF c(4), of cy] unfolding add.assoc by (simp_all only:)
  have y: "y_plane ?A ! (row * W + cx) = chroma_u pix (cx * 2 + 1, row)"
    "y_plane ?A ! (row * W + cx + W div 2) = chroma_v pix (cx * 2 + 1, row)" if "row < H" for row
    using b [OF that] at [of row] c(9) by (simp_all add: aux_view_def px_aux_y_def mult.commute)
  have side: "(cx div 2 < W div 4) = True" "(cx div 2 + W div 4 < W div 4) = False" using c(10) by simp_all
  have u: "u_plane ?A ! (cy * (W div 2) + cx div 2) = chroma_u pix (cx * 2, cy * 2 + 1)"
    "u_plane ?A ! (cy * (W div 2) + cx div 2 + W div 4) = chroma_v pix (cx * 2, cy * 2 + 1)" if "cx mod 2 = 0"
  proof -
    have px: "px_aux_u W (cy * (W div 2) + cx div 2) = (4 * (cx div 2), 2 * cy + 1)"
      "px_aux_u W (cy * (W div 2) + cx div 2 + W div 4) = (4 * (cx div 2), 2 * cy + 1)"
      unfolding px_aux_u_def at' using c(10) by simp_all
    have e: "4 * (cx div 2) = cx * 2" "2 * cy + 1 = cy * 2 + 1" using that by presburger+
    show "u_plane ?A ! (cy * (W div 2) + cx div 2) = chroma_u pix (cx * 2, cy * 2 + 1)"
      "u_plane ?A ! (cy * (W div 2) + cx div 2 + W div 4) = chroma_v pix (cx * 2, cy * 2 + 1)"
      unfolding view_nth(2) [OF b'(1)] view_nth(2) [OF b'(2)] px e at' using side by (simp_all only: if_True if_False)
  qed
  have v: "v_plane ?A ! (cy * (W div 2) + cx div 2) = chroma_u pix (cx * 2, cy * 2 + 1)"
    "v_plane ?A ! (cy * (W div 2) + cx div 2 + W div 4) = chroma_v pix (cx * 2, cy * 2 + 1)" if "cx mod 2 \<noteq> 0"
  proof -
    have px: "px_aux_v W (cy * (W div 2) + cx div 2) = (4 * (cx div 2) + 2, 2 * cy + 1)"
      "px_aux_v W (cy * (W div 2) + cx div 2 + W div 4) = (4 * (cx div 2) + 2, 2 * cy + 1)"
      unfolding px_aux_v_def at' using c(10) by simp_all
    have e: "4 * (cx div 2) + 2 = cx * 2" "2 * cy + 1 = cy * 2 + 1" using that by presburger+
    show "v_plane ?A ! (cy * (W div 2) + cx div 2) = chroma_u pix (cx * 2, cy * 2 + 1)"
      "v_plane ?A ! (cy * (W div 2) + cx div 2 + W div 4) = chroma_v pix (cx * 2, cy * 2 + 1)"
      unfolding view_nth(3) [OF b'(1)] view_nth(3) [OF b'(2)] px e at' using side by (simp_all only: if_True if_False)
  qed
  have ly: "length (y_plane a) = W * H" "length (y_plane ?A) = W * H" and
    lu: "length (u_plane a) = W div 2 * (H div 2)" "length (u_plane ?A) = W div 2 * (H div 2)" and
    lv: "length (v_plane a) = W div 2 * (H div 2)" "length (v_plane ?A) = W div 2 * (H div 2)"
    using len view_len(2) [of W H pix] by (simp_all add: yuv_len_def)
  have "fold (\<lambda>i ys. ys[i := y_plane ?A ! i]) [cy * 2 * W + cx, cy * 2 * W + cx + W div 2,
      (cy * 2 + 1) * W + cx, (cy * 2 + 1) * W + cx + W div 2] (y_plane a) =
    refresh (px_aux_y W) (\<lambda>q. block_of q = (cx, cy)) (y_plane ?A) (y_plane a)"
    using b [OF c(5)] b [OF c(6)] cx by (intro updates_refresh aux_y_block [OF c(8)]) (simp_all add: ly)
  moreover have "fold (\<lambda>i ys. ys[i := u_plane ?A ! i])
      (if cx mod 2 = 0 then [cy * (W div 2) + cx div 2, cy * (W div 2) + cx div 2 + W div 4] else []) (u_plane a) =
    refresh (px_aux_u W) (\<lambda>q. block_of q = (cx, cy)) (u_plane ?A) (u_plane a)"
    using b' by (intro updates_refresh aux_uv_block(1) [OF W cx]) (simp_all add: lu)
  moreover have "fold (\<lambda>i ys. ys[i := v_plane ?A ! i])
      (if cx mod 2 = 0 then [] else [cy * (W div 2) + cx div 2, cy * (W div 2) + cx div 2 + W div 4]) (v_plane a) =
    refresh (px_aux_v W) (\<lambda>q. block_of q = (cx, cy)) (v_plane ?A) (v_plane a)"
    using b' by (intro updates_refresh aux_uv_block(2) [OF W cx]) (simp_all add: lv)
  ultimately show ?thesis
    using y [OF c(5)] y [OF c(6)] u v pix by (cases "cx mod 2 = 0") (simp_all add: receive_aux_def chroma_u_def chroma_v_def)
qed

definition row_is :: "nat \<Rightarrow> byte list \<Rightarrow> (nat \<times> nat \<Rightarrow> byte \<times> byte \<times> byte) \<Rightarrow> nat \<Rightarrow> bool" where
  "row_is W row pix y \<longleftrightarrow> (\<forall>x<W. row_pixel_to_yuv row x = Some (pix (x, y)))"

lemma convert_block_eq:
  assumes W: "W = 4 * n" and cx: "cx < 2 * n" and cy: "cy < hh" and H: "H = 2 * hh"
    and len: "yuv_len W H m" "yuv_len W H a"
    and rows: "row_is W even_row pix (cy * 2)" "row_is W odd_row pix (cy * 2 + 1)"
  shows "convert_block W True True even_row odd_row cy cx (m, a) =
    Some (receive_main W (\<lambda>q. block_of q = (cx, cy)) (main_view W H pix) m,
          receive_aux W (\<lambda>q. block_of q = (cx, cy)) (aux_view W H pix) a)"
proof -
  obtain ya ua va yb ub vb yc uc vc yd ud vd where
    pix: "pix (cx * 2, cy * 2) = (ya, ua, va)" "pix (cx * 2 + 1, cy * 2) = (yb, ub, vb)"
      "pix (cx * 2, cy * 2 + 1) = (yc, uc, vc)" "pix (cx * 2 + 1, cy * 2 + 1) = (yd, ud, vd)"
    by (cases "pix (cx * 2, cy * 2)"; cases "pix (cx * 2 + 1, cy * 2)"; cases "pix (cx * 2, cy * 2 + 1)";
        cases "pix (cx * 2 + 1, cy * 2 + 1)") auto
  have c: "cx * 2 < W" "cx * 2 + 1 < W" "cx < W" "cx + W div 2 < W" "cx < W div 2" "cx div 2 < W div 2"
    "cx div 2 + W div 4 < W div 2" "cy * 2 < H" "cy * 2 + 1 < H" "cy < H div 2"
    using W cx cy H by simp_all
  have px: "row_pixel_to_yuv even_row (cx * 2) = Some (ya, ua, va)" "row_pixel_to_yuv even_row (cx * 2 + 1) = Some (yb, ub, vb)"
    "row_pixel_to_yuv odd_row (cx * 2) = Some (yc, uc, vc)" "row_pixel_to_yuv odd_row (cx * 2 + 1) = Some (yd, ud, vd)"
    using rows c(1,2) pix by (simp_all add: row_is_def)
  have b: "row * W + cx * 2 < W * H" "row * W + cx * 2 + 1 < W * H" "row * W + cx < W * H" "row * W + cx + W div 2 < W * H"
    if "row < H" for row
    using index_bound [OF c(1) that] index_bound [OF c(2) that] index_bound [OF c(3) that] index_bound [OF c(4) that]
    by simp_all
  have b': "cy * (W div 2) + cx < W div 2 * (H div 2)" "cy * (W div 2) + cx div 2 < W div 2 * (H div 2)"
    "cy * (W div 2) + cx div 2 + W div 4 < W div 2 * (H div 2)"
    using index_bound [OF c(5,10)] index_bound [OF c(6,10)] index_bound [OF c(7,10)] by simp_all
  show ?thesis
    unfolding main_block [OF W cx cy H len(1) pix] aux_block [OF W cx cy H len(2) pix(2-4)] convert_block_def prod.case Let_def
    using px b [OF c(8)] b [OF c(9)] b' len by (simp add: put_Some yuv_len_def del: One_nat_def)
qed

lemma receive_len:
  "yuv_len W H p \<Longrightarrow> yuv_len W H (receive_main W P p old)" "yuv_len W H p \<Longrightarrow> yuv_len W H (receive_aux W P p old)"
  by (simp_all add: receive_main_def receive_aux_def yuv_len_def)

lemma receive_twice:
  "receive_main W P p (receive_main W Q p old) = receive_main W (\<lambda>q. P q \<or> Q q) p old"
  "receive_aux W P p (receive_aux W Q p old) = receive_aux W (\<lambda>q. P q \<or> Q q) p old"
  by (simp_all add: receive_main_def receive_aux_def refresh_twice)

lemma receive_none:
  assumes "yuv_len W H p" and "yuv_len W H old"
  shows "receive_main W (\<lambda>_. False) p old = old" "receive_aux W (\<lambda>_. False) p old = old"
  using assms by (simp_all add: receive_main_def receive_aux_def refresh_none yuv_len_def)

text \<open>A loop of steps, each of which fills in a part of both views, fills in the union.\<close>

definition fills :: "nat \<Rightarrow> nat \<Rightarrow> (nat \<times> nat \<Rightarrow> byte \<times> byte \<times> byte) \<Rightarrow> (yuv420 \<times> yuv420 \<Rightarrow> (yuv420 \<times> yuv420) run) \<Rightarrow>
    (nat \<times> nat \<Rightarrow> bool) \<Rightarrow> bool" where
  "fills W H pix f P \<longleftrightarrow> (\<forall>m a. yuv_len W H m \<and> yuv_len W H a \<longrightarrow>
     f (m, a) = Some (receive_main W P (main_view W H pix) m, receive_aux W P (aux_view W H pix) a))"

lemma fills_loop:
  assumes "\<And>x. x \<in> set xs \<Longrightarrow> fills W H pix (f x) (P x)"
  shows "fills W H pix (fold_run f xs) (\<lambda>q. \<exists>x\<in>set xs. P x q)"
  using assms
proof (induction xs)
  case Nil
  then show ?case by (simp add: fills_def receive_none [of W H])
next
  case (Cons x xs)
  have x: "fills W H pix (f x) (P x)" and xs: "fills W H pix (fold_run f xs) (\<lambda>q. \<exists>x\<in>set xs. P x q)"
    using Cons by simp_all
  have "(\<lambda>q. (\<exists>x\<in>set xs. P x q) \<or> P x q) = (\<lambda>q. \<exists>x\<in>set (x # xs). P x q)" by auto
  with x xs show ?case by (simp add: fills_def receive_len receive_twice)
qed

lemma fills_cong:
  assumes "fills W H pix f P" and "\<And>q. P q = Q q"
  shows "fills W H pix f Q"
proof -
  have "P = Q" using assms(2) by (rule ext)
  with assms(1) show ?thesis by simp
qed

lemma convert_row_fills:
  assumes W: "W = 4 * n" and H: "H = 2 * hh" and cy: "cy < hh" and r: "right \<le> W"
    and buf: "4 * W \<le> stride" "stride * H \<le> length bgra"
  shows "fills W H (pixel_yuv bgra stride) (convert_row W bgra stride True True left right cy)
    (\<lambda>(x, y). left div 2 \<le> x div 2 \<and> x div 2 < right div 2 \<and> y div 2 = cy)"
proof -
  have row: "\<exists>r. slice_run (y * stride) ((y + 1) * stride) bgra = Some r \<and> row_is W r (pixel_yuv bgra stride) y" if y: "y < H" for y
  proof -
    have e: "(y + 1) * stride \<le> length bgra"
      using mult_le_mono1 [of "y + 1" H stride] y buf(2) by (simp add: mult.commute)
    have "row_is W (subslice (y * stride) ((y + 1) * stride) bgra) (pixel_yuv bgra stride) y"
      unfolding row_is_def
    proof (intro allI impI)
      fix x
      assume x: "x < W"
      have i: "subslice (y * stride) ((y + 1) * stride) bgra ! (x * 4 + k) = bgra ! (y * stride + x * 4 + k)"
        "x * 4 + k < length (subslice (y * stride) ((y + 1) * stride) bgra)" if "k < 3" for k
        using x buf(1) that e by (simp_all add: nth_subslice length_subslice add.assoc)
      show "row_pixel_to_yuv (subslice (y * stride) ((y + 1) * stride) bgra) x = Some (pixel_yuv bgra stride (x, y))"
        using i [of 0] i [of 1] i [of 2] by (simp add: row_pixel_to_yuv_def index_run_def pixel_yuv_def)
    qed
    then show ?thesis using e by (simp add: slice_run_def)
  qed
  obtain er where er: "slice_run (cy * 2 * stride) ((cy * 2 + 1) * stride) bgra = Some er"
    "row_is W er (pixel_yuv bgra stride) (cy * 2)"
    using row [of "cy * 2"] cy H by auto
  obtain or' where or': "slice_run ((cy * 2 + 1) * stride) ((cy * 2 + 1 + 1) * stride) bgra = Some or'"
    "row_is W or' (pixel_yuv bgra stride) (cy * 2 + 1)"
    using row [of "cy * 2 + 1"] cy H by auto
  have "fills W H (pixel_yuv bgra stride) (fold_run (convert_block W True True er or' cy) [left div 2..<right div 2])
      (\<lambda>q. \<exists>cx\<in>set [left div 2..<right div 2]. block_of q = (cx, cy))"
  proof (rule fills_loop)
    fix cx
    assume "cx \<in> set [left div 2..<right div 2]"
    then have "cx < 2 * n" using r W by auto
    from convert_block_eq [OF W this cy H _ _ er(2) or'(2)]
    show "fills W H (pixel_yuv bgra stride) (convert_block W True True er or' cy cx) (\<lambda>q. block_of q = (cx, cy))"
      by (simp add: fills_def)
  qed
  then have "fills W H (pixel_yuv bgra stride) (fold_run (convert_block W True True er or' cy) [left div 2..<right div 2])
      (\<lambda>(x, y). left div 2 \<le> x div 2 \<and> x div 2 < right div 2 \<and> y div 2 = cy)"
    by (rule fills_cong) (auto simp: block_of_def)
  then show ?thesis using er(1) or'(1) by (simp add: fills_def convert_row_def)
qed

lemma align_aligned: "(a :: int) dvd x \<Longrightarrow> align_down x a = x" "a dvd x \<Longrightarrow> align_up x a = x"
  by (simp_all add: align_down_def align_up_def dvd_imp_mod_0)

lemma convert_region_fills:
  assumes f: "avc444_frame W H" and buf: "4 * W \<le> stride" "stride * H \<le> length bgra" and d: "good_region W H d"
  shows "fills W H (pixel_yuv bgra stride) (convert_region W H bgra stride True True d) (under [d])"
proof -
  obtain n hh where W: "W = 4 * n" and H: "H = 2 * hh" and lim: "int W \<le> i32_max" "int H \<le> i32_max"
    using f by (auto simp: avc444_frame_def elim!: dvdE)
  obtain l t r b where d': "d = box_region (l, t, r, b)" and inside: "l < r" "r \<le> W" "t < b" "b \<le> H"
    "box_inside W H (l, t, r, b)" and al: "4 dvd l" "even t" "4 dvd r" "even b"
    using d by (auto simp: good_region_def box_inside_def aligned_box_def)
  have e: "even l" "even r" using al by (meson dvd_trans even_numeral)+
  have ali: "(4::int) dvd int l" "(4::int) dvd int r" "(2::int) dvd int t" "(2::int) dvd int b"
    using al int_dvd_int_iff [of 4 l] int_dvd_int_iff [of 4 r] by simp_all
  have eq: "convert_region W H bgra stride True True d = fold_run (convert_row W bgra stride True True l r) [t div 2..<b div 2]"
    using clamp_region_box [OF inside(5) lim] inside ali
    by (intro ext) (simp add: convert_region_def d' align_aligned clamp_id Let_def)
  have "fills W H (pixel_yuv bgra stride) (fold_run (convert_row W bgra stride True True l r) [t div 2..<b div 2])
     (\<lambda>q. \<exists>cy\<in>set [t div 2..<b div 2]. (\<lambda>(x, y). l div 2 \<le> x div 2 \<and> x div 2 < r div 2 \<and> y div 2 = cy) q)"
    by (rule fills_loop, rule convert_row_fills [OF W H _ inside(2) buf]) (use inside(4) H in auto)
  then show ?thesis unfolding eq
  proof (rule fills_cong)
    fix q :: "nat \<times> nat"
    obtain x y where q: "q = (x, y)" by (cases q)
    have "(l div 2 \<le> x div 2 \<and> x div 2 < r div 2 \<and> t div 2 \<le> y div 2 \<and> y div 2 < b div 2) \<longleftrightarrow>
        l \<le> x \<and> x < r \<and> t \<le> y \<and> y < b"
      using e al by (auto elim!: evenE)
    then show "(\<exists>cy\<in>set [t div 2..<b div 2]. (\<lambda>(x, y). l div 2 \<le> x div 2 \<and> x div 2 < r div 2 \<and> y div 2 = cy) q) = under [d] q"
      using under_boxes [of "[(l, t, r, b)]" x y] by (auto simp: q d')
  qed
qed

lemma convert_fills:
  assumes f: "avc444_frame W H" and buf: "4 * W \<le> stride" "stride * H \<le> length bgra" and ds: "list_all (good_region W H) ds"
  shows "fills W H (pixel_yuv bgra stride) (bgra_to_plane_regions W H bgra stride ds True True) (under ds)"
proof -
  have "fills W H (pixel_yuv bgra stride) (fold_run (convert_region W H bgra stride True True) ds) (\<lambda>q. \<exists>d\<in>set ds. under [d] q)"
    by (rule fills_loop, rule convert_region_fills [OF f buf]) (use ds in \<open>simp add: list_all_iff\<close>)
  then show ?thesis
    unfolding bgra_to_plane_regions_def [abs_def] by (rule fills_cong) (auto simp: under_def list_ex_iff)
qed

end
