(* ===== verification/OutputQueue.thy ===== *)
theory OutputQueue
  imports Machine
begin

text \<open>
  The output slots of \<open>egfx/output_queue.rs\<close>. The counter is one atomic word and
  \<open>try_reserve\<close> is a compare-and-swap loop, so the model has the atomic steps of every producer:
  any interleaving of the steps of any number of producers is a list of events. A frame's lease is
  an \<open>Arc\<close>; its reference count is the number of fragments (and the lease value itself) that keep
  the slot. A weak compare-and-swap may fail without a cause: both outcomes are events.
\<close>

definition max_queued_output_frames :: nat where
  "max_queued_output_frames = 3"

section \<open>State\<close>

text \<open>Where the producer of one frame is: \<open>Trying n\<close> after reading \<open>n\<close>, \<open>Leased k\<close> with \<open>k\<close> references.\<close>

datatype producer =
    Idle
  | Trying nat
  | Refused
  | Leased nat
  | Released

record output_queue =
  oq_pending :: nat
  oq_producers :: "nat \<Rightarrow> producer"

definition output_queue_default :: output_queue where
  "output_queue_default = \<lparr>oq_pending = 0, oq_producers = (\<lambda>_. Idle)\<rparr>"

section \<open>Atomic steps\<close>

datatype oq_event =
    LoadPending nat
  | GiveUp nat
  | ExchangeSucceeds nat
  | ExchangeFails nat
  | CloneLease nat
  | DropLease nat

definition set_producer :: "nat \<Rightarrow> producer \<Rightarrow> output_queue \<Rightarrow> output_queue" where
  "set_producer f p q = q\<lparr>oq_producers := (oq_producers q)(f := p)\<rparr>"

definition load_pending :: "nat \<Rightarrow> output_queue \<Rightarrow> output_queue" where
  "load_pending f q = (case oq_producers q f of
     Idle \<Rightarrow> set_producer f (Trying (oq_pending q)) q
   | _ \<Rightarrow> q)"

definition give_up :: "nat \<Rightarrow> output_queue \<Rightarrow> output_queue" where
  "give_up f q = (case oq_producers q f of
     Trying n \<Rightarrow> (if max_queued_output_frames \<le> n then set_producer f Refused q else q)
   | _ \<Rightarrow> q)"

definition exchange_succeeds :: "nat \<Rightarrow> output_queue \<Rightarrow> output_queue" where
  "exchange_succeeds f q = (case oq_producers q f of
     Trying n \<Rightarrow> (if n < max_queued_output_frames \<and> oq_pending q = n
                  then set_producer f (Leased 1) (q\<lparr>oq_pending := u32_add n 1\<rparr>) else q)
   | _ \<Rightarrow> q)"

definition exchange_fails :: "nat \<Rightarrow> output_queue \<Rightarrow> output_queue" where
  "exchange_fails f q = (case oq_producers q f of
     Trying n \<Rightarrow> (if n < max_queued_output_frames then set_producer f (Trying (oq_pending q)) q else q)
   | _ \<Rightarrow> q)"

definition clone_lease :: "nat \<Rightarrow> output_queue \<Rightarrow> output_queue" where
  "clone_lease f q = (case oq_producers q f of
     Leased k \<Rightarrow> set_producer f (Leased (k + 1)) q
   | _ \<Rightarrow> q)"

text \<open>Dropping the last reference runs \<open>Drop::drop\<close>, which frees the slot.\<close>

definition drop_lease :: "nat \<Rightarrow> output_queue \<Rightarrow> output_queue" where
  "drop_lease f q = (case oq_producers q f of
     Leased k \<Rightarrow> (if k \<le> 1 then set_producer f Released (q\<lparr>oq_pending := u32_sub (oq_pending q) 1\<rparr>)
                  else set_producer f (Leased (k - 1)) q)
   | _ \<Rightarrow> q)"

fun oq_step :: "output_queue \<Rightarrow> oq_event \<Rightarrow> output_queue" where
  "oq_step q (LoadPending f) = load_pending f q"
| "oq_step q (GiveUp f) = give_up f q"
| "oq_step q (ExchangeSucceeds f) = exchange_succeeds f q"
| "oq_step q (ExchangeFails f) = exchange_fails f q"
| "oq_step q (CloneLease f) = clone_lease f q"
| "oq_step q (DropLease f) = drop_lease f q"

lemmas oq_step_defs = load_pending_def give_up_def exchange_succeeds_def exchange_fails_def
  clone_lease_def drop_lease_def set_producer_def

text \<open>One producer that runs alone: the loop ends after one exchange.\<close>

definition try_reserve :: "nat \<Rightarrow> output_queue \<Rightarrow> output_queue" where
  "try_reserve f q = (let q' = load_pending f q in
     if max_queued_output_frames \<le> oq_pending q then give_up f q' else exchange_succeeds f q')"

section \<open>Retaining the encoded messages\<close>

text \<open>
  \<open>retain_messages\<close> encodes each message, with the foreign encoder \<open>enc\<close>, and stops at the first
  error. Every fragment holds a clone of the lease; on an error the fragments made so far and the
  lease are dropped, which frees the slot; on success the lease value itself is dropped at the end,
  so the fragments alone hold it.
\<close>

fun encode_fragments :: "('m \<Rightarrow> 'e + byte list) \<Rightarrow> 'm list \<Rightarrow> 'e + byte list list" where
  "encode_fragments enc [] = Inr []"
| "encode_fragments enc (m # ms) = (case enc m of
     Inl e \<Rightarrow> Inl e
   | Inr bytes \<Rightarrow> (case encode_fragments enc ms of Inl e \<Rightarrow> Inl e | Inr fs \<Rightarrow> Inr (bytes # fs)))"

fun encoded_before_error :: "('m \<Rightarrow> 'e + byte list) \<Rightarrow> 'm list \<Rightarrow> nat" where
  "encoded_before_error enc [] = 0"
| "encoded_before_error enc (m # ms) = (case enc m of
     Inl e \<Rightarrow> 0
   | Inr bytes \<Rightarrow> Suc (encoded_before_error enc ms))"

definition retain_messages ::
    "('m \<Rightarrow> 'e + byte list) \<Rightarrow> nat \<Rightarrow> 'm list \<Rightarrow> output_queue \<Rightarrow> ('e + byte list list) \<times> output_queue" where
  "retain_messages enc f msgs q =
     (let wrapped = (clone_lease f ^^ encoded_before_error enc msgs) q
      in case encode_fragments enc msgs of
           Inl e \<Rightarrow> (Inl e, (drop_lease f ^^ Suc (encoded_before_error enc msgs)) wrapped)
         | Inr fs \<Rightarrow> (Inr fs, drop_lease f wrapped))"

section \<open>Invariant\<close>

fun leased :: "producer \<Rightarrow> bool" where
  "leased (Leased k) = True"
| "leased _ = False"

definition holders :: "output_queue \<Rightarrow> nat set" where
  "holders q = {f. leased (oq_producers q f)}"

definition oq_inv :: "output_queue \<Rightarrow> bool" where
  "oq_inv q \<longleftrightarrow> finite (holders q) \<and> oq_pending q = card (holders q) \<and>
     oq_pending q \<le> max_queued_output_frames \<and> (\<forall>f k. oq_producers q f = Leased k \<longrightarrow> 1 \<le> k)"

lemma oq_inv_default: "oq_inv output_queue_default"
  by (simp add: oq_inv_def output_queue_default_def holders_def)

lemma holders_set_producer [simp]:
  "holders (set_producer f p q) = (if leased p then insert f (holders q) else holders q - {f})"
  by (auto simp: holders_def set_producer_def)

lemma holders_pending [simp]: "holders (q\<lparr>oq_pending := n\<rparr>) = holders q"
  by (simp add: holders_def)

lemma oq_producers_set_producer [simp]:
  "oq_producers (set_producer f p q) g = (if g = f then p else oq_producers q g)"
  by (simp add: set_producer_def)

lemma oq_pending_set_producer [simp]: "oq_pending (set_producer f p q) = oq_pending q"
  by (simp add: set_producer_def)

lemma oq_inv_move:
  assumes "oq_inv q" and "\<not> leased (oq_producers q f)" and "\<not> leased p"
  shows "oq_inv (set_producer f p q)"
proof -
  have "holders q - {f} = holders q" using assms(2) by (auto simp: holders_def)
  then show ?thesis using assms by (auto simp: oq_inv_def)
qed

lemma oq_inv_exchange:
  assumes "oq_inv q" and "oq_producers q f = Trying n" and "n < max_queued_output_frames" and "oq_pending q = n"
  shows "oq_inv (set_producer f (Leased 1) (q\<lparr>oq_pending := u32_add n 1\<rparr>))"
proof -
  have "f \<notin> holders q" using assms(2) by (simp add: holders_def)
  then show ?thesis using assms by (auto simp: oq_inv_def u32_add_def max_queued_output_frames_def)
qed

lemma oq_inv_share:
  assumes "oq_inv q" and "oq_producers q f = Leased k" and "1 \<le> k'"
  shows "oq_inv (set_producer f (Leased k') q)"
proof -
  have "insert f (holders q) = holders q" using assms(2) by (auto simp: holders_def)
  then show ?thesis using assms by (auto simp: oq_inv_def)
qed

lemma oq_inv_release:
  assumes "oq_inv q" and "oq_producers q f = Leased k"
  shows "oq_inv (set_producer f Released (q\<lparr>oq_pending := u32_sub (oq_pending q) 1\<rparr>))"
proof -
  have f: "f \<in> holders q" using assms(2) by (simp add: holders_def)
  with assms(1) have "1 \<le> oq_pending q" by (auto simp: oq_inv_def Suc_le_eq card_gt_0_iff)
  moreover from this assms(1) have "u32_sub (oq_pending q) 1 = oq_pending q - 1"
    by (intro u32_sub_id) (auto simp: oq_inv_def max_queued_output_frames_def)
  ultimately show ?thesis using assms f by (auto simp: oq_inv_def)
qed

lemma oq_step_keeps: "oq_inv q \<Longrightarrow> oq_inv (oq_step q e)"
proof (cases e)
  case (LoadPending f)
  then show "oq_inv q \<Longrightarrow> ?thesis"
    by (auto simp: load_pending_def split: producer.splits intro: oq_inv_move)
next
  case (GiveUp f)
  then show "oq_inv q \<Longrightarrow> ?thesis"
    by (auto simp: give_up_def split: producer.splits intro: oq_inv_move)
next
  case (ExchangeSucceeds f)
  then show "oq_inv q \<Longrightarrow> ?thesis"
    by (auto simp: exchange_succeeds_def split: producer.splits intro: oq_inv_exchange [simplified])
next
  case (ExchangeFails f)
  then show "oq_inv q \<Longrightarrow> ?thesis"
    by (auto simp: exchange_fails_def split: producer.splits intro: oq_inv_move)
next
  case (CloneLease f)
  then show "oq_inv q \<Longrightarrow> ?thesis"
    by (auto simp: clone_lease_def split: producer.splits intro: oq_inv_share)
next
  case (DropLease f)
  then show "oq_inv q \<Longrightarrow> ?thesis"
    by (auto simp: drop_lease_def split: producer.splits intro: oq_inv_share oq_inv_release [simplified])
qed

interpretation oq: event_system oq_step "\<lambda>_. True" oq_inv
  by unfold_locales (simp add: oq_step_keeps)

lemma oq_reachable: "oq_inv (run_events oq_step output_queue_default es)"
  by (intro oq.run_keeps oq_inv_default) (simp add: list_all_iff)

section \<open>Retained messages hold one slot\<close>

lemma clone_lease_power:
  "oq_producers q f = Leased k \<Longrightarrow> (clone_lease f ^^ n) q = set_producer f (Leased (k + n)) q"
  by (induction n) (auto simp: clone_lease_def set_producer_def fun_upd_idem)

lemma drop_lease_power:
  "n < k \<Longrightarrow> oq_producers q f = Leased k \<Longrightarrow> (drop_lease f ^^ n) q = set_producer f (Leased (k - n)) q"
  by (induction n) (auto simp: drop_lease_def set_producer_def fun_upd_idem)

lemma set_producer_twice [simp]: "set_producer f p (set_producer f p' q) = set_producer f p q"
  by (simp add: set_producer_def)

lemma encode_fragments_Inr:
  "encode_fragments enc msgs = Inr fs \<Longrightarrow> encoded_before_error enc msgs = length msgs \<and> map enc msgs = map Inr fs"
  by (induction msgs arbitrary: fs) (auto split: sum.splits)

lemma drop_all:
  assumes "oq_producers q f = Leased k" and "1 \<le> k"
  shows "(drop_lease f ^^ k) q = set_producer f Released (q\<lparr>oq_pending := u32_sub (oq_pending q) 1\<rparr>)"
proof -
  have "(drop_lease f ^^ k) q = drop_lease f ((drop_lease f ^^ (k - 1)) q)"
    using assms(2) by (cases k) auto
  also have "(drop_lease f ^^ (k - 1)) q = set_producer f (Leased 1) q"
    using drop_lease_power [of "k - 1" k q f] assms by simp
  also have "drop_lease f (set_producer f (Leased 1) q) =
      set_producer f Released (q\<lparr>oq_pending := u32_sub (oq_pending q) 1\<rparr>)"
    by (simp add: drop_lease_def set_producer_def)
  finally show ?thesis .
qed

text \<open>A slot just taken by \<open>f\<close>, held by \<open>k\<close> fragments, and given back.\<close>

definition slot_held :: "nat \<Rightarrow> nat \<Rightarrow> output_queue \<Rightarrow> output_queue" where
  "slot_held f k q = set_producer f (Leased k) (q\<lparr>oq_pending := oq_pending q + 1\<rparr>)"

definition slot_freed :: "nat \<Rightarrow> output_queue \<Rightarrow> output_queue" where
  "slot_freed f q = set_producer f Released q"

lemma try_reserve_held:
  "oq_producers q f = Idle \<Longrightarrow> oq_pending q \<le> 2 \<Longrightarrow> try_reserve f q = slot_held f 1 q"
  by (simp add: try_reserve_def load_pending_def exchange_succeeds_def Let_def u32_add_def set_producer_def
      slot_held_def max_queued_output_frames_def)

lemma drop_held:
  assumes "1 \<le> k" and "oq_pending q \<le> 2"
  shows "(drop_lease f ^^ k) (slot_held f k q) = slot_freed f q"
  using drop_all [of "slot_held f k q" f k] assms
  by (simp add: slot_held_def slot_freed_def u32_sub_def set_producer_def)

lemma drop_held_once: "oq_pending q \<le> 2 \<Longrightarrow> drop_lease f (slot_held f 1 q) = slot_freed f q"
  using drop_held [of 1 q f] by simp

lemma drop_held_some: "n < k \<Longrightarrow> oq_pending ((drop_lease f ^^ n) (slot_held f k q)) = oq_pending q + 1"
  by (subst drop_lease_power) (simp_all add: slot_held_def)

lemma retain_messages_held:
  assumes "oq_pending q \<le> 2"
  shows "retain_messages enc f msgs (slot_held f 1 q) = (case encode_fragments enc msgs of
      Inl e \<Rightarrow> (Inl e, slot_freed f q)
    | Inr fs \<Rightarrow> (Inr fs, if fs = [] then slot_freed f q else slot_held f (length fs) q))"
proof -
  let ?n = "encoded_before_error enc msgs"
  have wrapped: "(clone_lease f ^^ ?n) (slot_held f 1 q) = slot_held f (Suc ?n) q"
    using clone_lease_power [of "slot_held f 1 q" f 1 ?n] by (simp add: slot_held_def)
  show ?thesis
  proof (cases "encode_fragments enc msgs")
    case (Inl e)
    have "(drop_lease f ^^ Suc ?n) (slot_held f (Suc ?n) q) = slot_freed f q"
      by (rule drop_held) (use assms in simp_all)
    with Inl wrapped show ?thesis by (simp add: retain_messages_def)
  next
    case (Inr fs)
    have n: "?n = length fs" using encode_fragments_Inr [OF Inr] by (metis length_map)
    show ?thesis
    proof (cases "fs = []")
      case True
      with Inr n wrapped show ?thesis
        using drop_held_once [OF assms, of f] by (simp add: retain_messages_def)
    next
      case False
      then have "drop_lease f (slot_held f (Suc (length fs)) q) = slot_held f (length fs) q"
        by (simp add: drop_lease_def slot_held_def)
      with Inr n wrapped False show ?thesis by (simp add: retain_messages_def)
    qed
  qed
qed

lemma oq_inv_freed: "oq_inv q \<Longrightarrow> oq_producers q f = Idle \<Longrightarrow> oq_inv (slot_freed f q)"
  unfolding slot_freed_def by (rule oq_inv_move) simp_all

lemma oq_inv_held:
  assumes "oq_inv q" and "oq_producers q f = Idle" and "oq_pending q \<le> 2" and "1 \<le> k"
  shows "oq_inv (slot_held f k q)"
proof -
  have "f \<notin> holders q" using assms(2) by (simp add: holders_def)
  then show ?thesis
    using assms by (auto simp: slot_held_def oq_inv_def max_queued_output_frames_def)
qed

lemma oq_pending_slots [simp]:
  "oq_pending (slot_held f k q) = oq_pending q + 1" "oq_pending (slot_freed f q) = oq_pending q"
  by (simp_all add: slot_held_def slot_freed_def)

section \<open>Properties\<close>

text \<open>
  C7: Under every interleaving of the atomic steps of any number of producers and consumers, the
  counter is the number of frames that still hold a lease, and it never exceeds the three slots: no
  slot is lost and none is granted twice.
\<close>

theorem output_slots_bounded:
  "oq_pending (run_events oq_step output_queue_default es) =
     card (holders (run_events oq_step output_queue_default es)) \<and>
   oq_pending (run_events oq_step output_queue_default es) \<le> 3"
  using oq_reachable [of es] by (simp add: oq_inv_def max_queued_output_frames_def)

text \<open>
  A producer that runs alone gets a slot exactly when fewer than three are taken; after
  \<open>retain_messages\<close> the fragments carry the encoder's bytes and hold the slot until the last of
  them is dropped, and an encoder error frees the slot at once.
\<close>

theorem retained_messages_hold_slot:
  assumes "oq_inv q" and "oq_producers q f = Idle" and "oq_pending q < max_queued_output_frames"
    and "q1 = try_reserve f q" and "retain_messages enc f msgs q1 = (result, q2)" and "msgs \<noteq> []"
  shows "oq_pending q1 = oq_pending q + 1 \<and>
    (case result of
       Inl e \<Rightarrow> oq_pending q2 = oq_pending q \<and> f \<notin> holders q2
     | Inr fs \<Rightarrow> map enc msgs = map Inr fs \<and> oq_pending q2 = oq_pending q + 1 \<and>
         (\<forall>n<length fs. oq_pending ((drop_lease f ^^ n) q2) = oq_pending q + 1) \<and>
         oq_pending ((drop_lease f ^^ length fs) q2) = oq_pending q)"
proof -
  have pending: "oq_pending q \<le> 2" using assms(3) by (simp add: max_queued_output_frames_def)
  have q1: "q1 = slot_held f 1 q" using try_reserve_held [OF assms(2) pending] assms(4) by simp
  note run = retain_messages_held [OF pending, of enc f msgs, folded q1, unfolded assms(5)]
  show ?thesis
  proof (cases "encode_fragments enc msgs")
    case (Inl e)
    with run show ?thesis by (simp add: q1) (simp add: slot_freed_def)
  next
    case (Inr fs)
    have enc: "map enc msgs = map Inr fs" using encode_fragments_Inr [OF Inr] by blast
    then have pos: "fs \<noteq> []" "1 \<le> length fs" using assms(6) by (auto simp: Suc_le_eq)
    show ?thesis
      using run Inr enc pos drop_held_some [of _ "length fs" f q] drop_held [OF pos(2) pending, of f] by (simp add: q1)
  qed
qed

theorem retained_messages_hold_slot_witness:
  "oq_pending ((drop_lease 0 ^^ 2) (snd (retain_messages (Inr :: byte list \<Rightarrow> unit + byte list) 0 [[1], [2]]
     (try_reserve 0 output_queue_default)))) = 0"
  using retained_messages_hold_slot [of output_queue_default 0 "try_reserve 0 output_queue_default"
      "Inr :: byte list \<Rightarrow> unit + byte list" "[[1], [2]]"
      "fst (retain_messages (Inr :: byte list \<Rightarrow> unit + byte list) 0 [[1], [2]] (try_reserve 0 output_queue_default))"
      "snd (retain_messages (Inr :: byte list \<Rightarrow> unit + byte list) 0 [[1], [2]] (try_reserve 0 output_queue_default))"]
    oq_inv_default
  by (simp add: output_queue_default_def max_queued_output_frames_def retain_messages_def Let_def numeral_2_eq_2)

end
