(* ===== verification/FrameFlow.thy ===== *)
theory FrameFlow
  imports OutputQueue
begin

text \<open>
  The EGFX state shared by the factory, the protocol handler and the capture thread
  (\<open>egfx/shared.rs\<close>) and the callbacks of the handler (\<open>egfx/factory.rs\<close>). Each operation is a
  function of the state; the callbacks are the events of the component. The atomics of the state
  are its fields; a mutex is its contents (a lock is poisoned only after a panic of its holder).
  An \<open>Instant\<close> is a number of milliseconds; the environment variable \<open>HYPR_RDP_DISABLE_AVC444\<close>
  is an argument. The ClearCodec session, the one field of the structure that is not here, is in the
  world of theory \<open>Transport\<close>, with its reset. The handles of the foreign server and of the event channel are opaque numbers.
\<close>

section \<open>Codec policy and capabilities\<close>

datatype codec_policy = PolicyAuto | PolicyAvc420 | PolicyAvc444 | PolicyClearCodec

definition allows_avc :: "codec_policy \<Rightarrow> bool" where
  "allows_avc policy \<longleftrightarrow> policy \<noteq> PolicyClearCodec"

text \<open>
  The capability sets of the protocol. Where the foreign set carries flags, the argument says
  whether the one flag the code reads is set: \<open>AVC420_ENABLED\<close> for 8.1, \<open>AVC_DISABLED\<close> above.
\<close>

datatype capability_set =
    V8
  | V8_1 bool
  | V10 bool
  | V10_1
  | V10_2 bool
  | V10_3 bool
  | V10_4 bool
  | V10_5 bool
  | V10_6 bool
  | V10_6Err bool
  | V10_7 bool

fun offered_avc :: "capability_set \<Rightarrow> bool \<times> bool" where
  "offered_avc V8 = (False, False)"
| "offered_avc (V8_1 avc420_enabled) = (avc420_enabled, False)"
| "offered_avc (V10 avc_disabled) = (\<not> avc_disabled, \<not> avc_disabled)"
| "offered_avc (V10_2 avc_disabled) = (\<not> avc_disabled, \<not> avc_disabled)"
| "offered_avc V10_1 = (True, True)"
| "offered_avc (V10_3 avc_disabled) = (\<not> avc_disabled, \<not> avc_disabled)"
| "offered_avc (V10_4 avc_disabled) = (\<not> avc_disabled, \<not> avc_disabled)"
| "offered_avc (V10_5 avc_disabled) = (\<not> avc_disabled, \<not> avc_disabled)"
| "offered_avc (V10_6 avc_disabled) = (\<not> avc_disabled, \<not> avc_disabled)"
| "offered_avc (V10_6Err avc_disabled) = (\<not> avc_disabled, \<not> avc_disabled)"
| "offered_avc (V10_7 avc_disabled) = (\<not> avc_disabled, \<not> avc_disabled)"

definition capability_avc_support :: "capability_set \<Rightarrow> bool \<Rightarrow> codec_policy \<Rightarrow> bool \<times> bool" where
  "capability_avc_support cap disable_avc444 policy =
     (if \<not> allows_avc policy then (False, False)
      else let (avc420, avc444) = offered_avc cap;
               avc444' = (case policy of
                   PolicyAuto \<Rightarrow> avc444 \<and> \<not> disable_avc444
                 | PolicyAvc444 \<Rightarrow> avc444 \<and> \<not> disable_avc444
                 | PolicyAvc420 \<Rightarrow> False
                 | PolicyClearCodec \<Rightarrow> False)
           in (avc420, avc444'))"

fun preferred_capabilities_for_policy :: "codec_policy \<Rightarrow> capability_set list" where
  "preferred_capabilities_for_policy PolicyClearCodec = [V10_7 False, V10 False, V8_1 False, V8]"
| "preferred_capabilities_for_policy PolicyAuto = [V10_7 False, V10 False, V8_1 True, V8]"
| "preferred_capabilities_for_policy PolicyAvc420 = [V10_7 False, V10 False, V8_1 True, V8]"
| "preferred_capabilities_for_policy PolicyAvc444 = [V10_7 False, V10 False, V8_1 True, V8]"

section \<open>The shared state\<close>

definition default_max_frames_in_flight :: nat where
  "default_max_frames_in_flight = 3"

definition gfx_ready_grace :: nat where
  "gfx_ready_grace = 2000"

definition suspend_frame_ack_queue_depth :: nat where
  "suspend_frame_ack_queue_depth = u32_max"

record egfx_shared =
  output_slots :: output_queue
  gfx_handle :: "nat option"
  ready :: bool
  avc_enabled :: bool
  avc444_enabled :: bool
  ready_generation :: nat
  event_sender :: "nat option"
  surface_size :: "nat \<times> nat"
  current_surface :: "(nat \<times> nat \<times> nat) option"
  max_in_flight :: nat
  frames_in_flight :: nat
  client_queue_depth :: nat
  frame_ack_suspended :: bool
  frame_ack_stream_established :: bool
  last_queued_frame_id :: nat
  last_acked_frame_id :: nat
  ack_cutoff_frame_id :: nat
  ack_cutoff_active :: bool
  total_queued_frames :: nat
  total_acked_frames :: nat
  force_full_frame :: bool
  gfx_wait_started :: "nat option"
  gfx_ever_ready :: bool
  gfx_fallback_logged :: bool
  policy :: codec_policy

definition with_codec_policy :: "nat \<Rightarrow> codec_policy \<Rightarrow> egfx_shared" where
  "with_codec_policy max_frames codec =
     \<lparr>output_slots = output_queue_default, gfx_handle = None, ready = False,
      avc_enabled = False, avc444_enabled = False, ready_generation = 0, event_sender = None,
      surface_size = (0, 0), current_surface = None, max_in_flight = max max_frames 1,
      frames_in_flight = 0, client_queue_depth = 0, frame_ack_suspended = False,
      frame_ack_stream_established = False, last_queued_frame_id = 0, last_acked_frame_id = 0,
      ack_cutoff_frame_id = 0, ack_cutoff_active = False, total_queued_frames = 0,
      total_acked_frames = 0, force_full_frame = False, gfx_wait_started = None,
      gfx_ever_ready = False, gfx_fallback_logged = False, policy = codec\<rparr>"

definition set_surface_size :: "nat \<Rightarrow> nat \<Rightarrow> egfx_shared \<Rightarrow> egfx_shared" where
  "set_surface_size width height s = s\<lparr>surface_size := (width, height)\<rparr>"

definition current_surface_id :: "egfx_shared \<Rightarrow> nat \<Rightarrow> nat \<Rightarrow> nat option" where
  "current_surface_id s width height = (case current_surface s of
     None \<Rightarrow> None
   | Some (surface_id, w, h) \<Rightarrow> if w = width \<and> h = height then Some surface_id else None)"

definition set_current_surface :: "nat \<Rightarrow> nat \<Rightarrow> nat \<Rightarrow> egfx_shared \<Rightarrow> egfx_shared" where
  "set_current_surface surface_id width height s = s\<lparr>current_surface := Some (surface_id, width, height)\<rparr>"

definition clear_current_surface :: "egfx_shared \<Rightarrow> egfx_shared" where
  "clear_current_surface s = s\<lparr>current_surface := None\<rparr>"

definition max_frames_in_flight :: "egfx_shared \<Rightarrow> nat" where
  "max_frames_in_flight s = max (max_in_flight s) 1"

definition is_avc444_enabled :: "bool \<Rightarrow> egfx_shared \<Rightarrow> bool" where
  "is_avc444_enabled disable_avc444 s \<longleftrightarrow> avc444_enabled s \<and> \<not> disable_avc444"

definition note_gfx_ready :: "egfx_shared \<Rightarrow> egfx_shared" where
  "note_gfx_ready s = s\<lparr>gfx_ever_ready := True\<rparr>"

text \<open>\<open>saturating_duration_since\<close> is the truncated subtraction of the naturals.\<close>

definition bitmap_fallback_due :: "nat \<Rightarrow> egfx_shared \<Rightarrow> bool \<times> egfx_shared" where
  "bitmap_fallback_due now s =
     (if gfx_ever_ready s then (True, s)
      else let started = (case gfx_wait_started s of None \<Rightarrow> now | Some t \<Rightarrow> t);
               s' = s\<lparr>gfx_wait_started := Some started\<rparr>
           in if now - started < gfx_ready_grace then (False, s')
              else (True, s'\<lparr>gfx_fallback_logged := True\<rparr>))"

definition request_full_frame :: "egfx_shared \<Rightarrow> egfx_shared" where
  "request_full_frame s = s\<lparr>force_full_frame := True\<rparr>"

definition take_full_frame_request :: "egfx_shared \<Rightarrow> bool \<times> egfx_shared" where
  "take_full_frame_request s = (force_full_frame s, s\<lparr>force_full_frame := False\<rparr>)"

definition preferred_frame_rate :: "egfx_shared \<Rightarrow> nat \<Rightarrow> nat" where
  "preferred_frame_rate s target_fps =
     (let target = max target_fps 1;
          in_flight = frames_in_flight s
      in if frame_ack_suspended s then target
         else if in_flight \<le> 1 then target
         else let backpressure_percent = 100 div (u32_sat_add in_flight 1)
              in max (u32_sat_mul target backpressure_percent div 100) 1)"

definition should_backpressure_frames :: "egfx_shared \<Rightarrow> bool" where
  "should_backpressure_frames s \<longleftrightarrow> \<not> frame_ack_suspended s \<and> max_frames_in_flight s \<le> frames_in_flight s"

datatype readiness =
    Ready
  | OutputBackpressure nat nat
  | LocalBackpressure nat nat nat bool
  | TransportUnavailable
  | TransportNotReady
  | TransportNoChannel
  | TransportBackpressure nat nat

definition output_queue_readiness :: "egfx_shared \<Rightarrow> readiness option" where
  "output_queue_readiness s =
     (if max_queued_output_frames \<le> oq_pending (output_slots s)
      then Some (OutputBackpressure (oq_pending (output_slots s)) max_queued_output_frames) else None)"

definition full_frame_refresh_readiness :: "egfx_shared \<Rightarrow> readiness" where
  "full_frame_refresh_readiness s =
     (if frame_ack_suspended s \<or> frames_in_flight s = 0
      then (case output_queue_readiness s of None \<Rightarrow> Ready | Some r \<Rightarrow> r)
      else LocalBackpressure (frames_in_flight s) 1 (client_queue_depth s) False)"

section \<open>Frame accounting\<close>

definition record_frame_queued :: "nat \<Rightarrow> egfx_shared \<Rightarrow> egfx_shared" where
  "record_frame_queued frame_id s =
     s\<lparr>last_queued_frame_id := frame_id,
       frames_in_flight := u32_add (frames_in_flight s) 1,
       total_queued_frames := u64_add (total_queued_frames s) 1\<rparr>"

definition record_frame_ack :: "nat \<Rightarrow> nat \<Rightarrow> egfx_shared \<Rightarrow> egfx_shared" where
  "record_frame_ack frame_id queue_depth s =
     (let ack_suspended = (queue_depth = suspend_frame_ack_queue_depth);
          s1 = s\<lparr>client_queue_depth := queue_depth, frame_ack_suspended := ack_suspended\<rparr>
      in if ack_cutoff_active s1 \<and> frame_id \<le> ack_cutoff_frame_id s1 then s1
         else let s2 = s1\<lparr>last_acked_frame_id := frame_id\<rparr>
              in if ack_suspended
                 then s2\<lparr>total_acked_frames := total_queued_frames s2, frames_in_flight := 0,
                         frame_ack_stream_established := False\<rparr>
                 else let s3 = s2\<lparr>frame_ack_stream_established := True\<rparr>
                      in if frames_in_flight s3 > 0
                         then s3\<lparr>frames_in_flight := frames_in_flight s3 - 1,
                                 total_acked_frames := u64_add (total_acked_frames s3) 1\<rparr>
                         else s3)"

definition clear_frame_queue :: "egfx_shared \<Rightarrow> egfx_shared" where
  "clear_frame_queue s =
     (let s1 = (if total_queued_frames s > total_acked_frames s
                then s\<lparr>ack_cutoff_frame_id := last_queued_frame_id s, ack_cutoff_active := True,
                       total_acked_frames := total_queued_frames s\<rparr>
                else s)
      in s1\<lparr>frames_in_flight := 0, client_queue_depth := 0, frame_ack_suspended := False\<rparr>)"

definition reset_frame_queue_for_new_client :: "egfx_shared \<Rightarrow> egfx_shared" where
  "reset_frame_queue_for_new_client s =
     s\<lparr>frames_in_flight := 0, client_queue_depth := 0, frame_ack_suspended := False,
       frame_ack_stream_established := False, last_queued_frame_id := 0, last_acked_frame_id := 0,
       ack_cutoff_frame_id := 0, ack_cutoff_active := False, total_queued_frames := 0,
       total_acked_frames := 0\<rparr>"

definition reset_for_new_client :: "egfx_shared \<Rightarrow> egfx_shared" where
  "reset_for_new_client s =
     (let s1 = s\<lparr>ready := False, gfx_ever_ready := False, gfx_fallback_logged := False,
                 gfx_wait_started := None, avc_enabled := False, avc444_enabled := False,
                 force_full_frame := False\<rparr>
      in reset_frame_queue_for_new_client (clear_current_surface s1))"

section \<open>Handler callbacks\<close>

text \<open>\<open>build_server_with_handle\<close>: \<open>handle\<close> names the server just made.\<close>

definition build_server_with_handle :: "nat \<Rightarrow> egfx_shared \<Rightarrow> egfx_shared" where
  "build_server_with_handle handle s = (reset_for_new_client s)\<lparr>gfx_handle := Some handle\<rparr>"

definition capabilities_advertise :: "egfx_shared \<Rightarrow> egfx_shared" where
  "capabilities_advertise s = (if ready s then request_full_frame s else s)"

definition on_ready :: "bool \<Rightarrow> capability_set \<Rightarrow> egfx_shared \<Rightarrow> egfx_shared" where
  "on_ready disable_avc444 cap s =
     (let (avc420, avc444) = capability_avc_support cap disable_avc444 (policy s);
          s1 = s\<lparr>avc_enabled := avc420 \<or> avc444, avc444_enabled := avc444\<rparr>;
          s2 = clear_frame_queue s1;
          s3 = note_gfx_ready (s2\<lparr>ready_generation := u32_add (ready_generation s2) 1\<rparr>)
      in s3\<lparr>ready := True\<rparr>)"

definition on_close :: "egfx_shared \<Rightarrow> egfx_shared" where
  "on_close s = clear_frame_queue (s\<lparr>ready := False\<rparr>)"

datatype flow_event =
    FrameQueued nat
  | FrameAck nat nat
  | Advertise
  | OnReady bool capability_set
  | OnClose
  | Resized
  | NewClient nat

fun flow_step :: "egfx_shared \<Rightarrow> flow_event \<Rightarrow> egfx_shared" where
  "flow_step s (FrameQueued frame_id) = record_frame_queued frame_id s"
| "flow_step s (FrameAck frame_id queue_depth) = record_frame_ack frame_id queue_depth s"
| "flow_step s Advertise = capabilities_advertise s"
| "flow_step s (OnReady disable cap) = on_ready disable cap s"
| "flow_step s OnClose = on_close s"
| "flow_step s Resized = clear_frame_queue s"
| "flow_step s (NewClient handle) = build_server_with_handle handle s"

section \<open>Accounting invariant\<close>

text \<open>
  The counters have fixed widths, so the invariant is about runs of fewer than \<open>2 ^ 32\<close> events: the
  step below carries the number of events with the state.
\<close>

lemmas flow_defs = record_frame_queued_def record_frame_ack_def clear_frame_queue_def
  reset_for_new_client_def reset_frame_queue_for_new_client_def clear_current_surface_def
  build_server_with_handle_def capabilities_advertise_def request_full_frame_def on_ready_def
  note_gfx_ready_def on_close_def













section \<open>The local window\<close>

text \<open>A sender queues a frame only while the local window is open.\<close>

definition windowed_step :: "egfx_shared \<Rightarrow> flow_event \<Rightarrow> egfx_shared" where
  "windowed_step s e = (case e of
     FrameQueued _ \<Rightarrow> if should_backpressure_frames s then s else flow_step s e
   | _ \<Rightarrow> flow_step s e)"

definition acks_not_suspended :: "flow_event \<Rightarrow> bool" where
  "acks_not_suspended e \<longleftrightarrow> (\<forall>f d. e = FrameAck f d \<longrightarrow> d \<noteq> suspend_frame_ack_queue_depth)"

definition window_inv :: "egfx_shared \<Rightarrow> bool" where
  "window_inv s \<longleftrightarrow> max_frames_in_flight s \<le> u32_max \<and> \<not> frame_ack_suspended s \<and>
     frames_in_flight s \<le> max_frames_in_flight s"

interpretation window: event_system windowed_step acks_not_suspended window_inv
proof
  fix s e
  assume inv: "window_inv s" and e: "acks_not_suspended e"
  show "window_inv (windowed_step s e)"
  proof (cases e)
    case (FrameQueued f)
    with inv show ?thesis
      by (auto simp: windowed_step_def should_backpressure_frames_def window_inv_def
          record_frame_queued_def u32_add_def max_frames_in_flight_def)
  next
    case (FrameAck f d)
    with inv e show ?thesis
      by (auto simp: windowed_step_def window_inv_def acks_not_suspended_def record_frame_ack_def
          max_frames_in_flight_def Let_def)
  qed (use inv in \<open>auto simp: windowed_step_def window_inv_def max_frames_in_flight_def flow_defs Let_def
      split: prod.splits\<close>)
qed

section \<open>The bitmap fallback\<close>

fun poll_fallback :: "egfx_shared \<Rightarrow> nat list \<Rightarrow> bool list" where
  "poll_fallback s [] = []"
| "poll_fallback s (now # polls) =
     (let (due, s') = bitmap_fallback_due now s in due # poll_fallback s' polls)"

lemma poll_fallback_started:
  "\<not> gfx_ever_ready s \<Longrightarrow> gfx_wait_started s = Some t0 \<Longrightarrow>
   poll_fallback s polls = map (\<lambda>t. gfx_ready_grace \<le> t - t0) polls"
  by (induction polls arbitrary: s) (auto simp: bitmap_fallback_due_def Let_def)

lemma poll_fallback_ready: "gfx_ever_ready s \<Longrightarrow> poll_fallback s polls = map (\<lambda>_. True) polls"
  by (induction polls) (auto simp: bitmap_fallback_due_def)

section \<open>Properties\<close>



text \<open>
  A sender that queues only while \<open>should_backpressure_frames\<close> is false keeps the number of
  frames in flight within the configured window, whatever acknowledgements, resets and new clients
  interleave, as long as the client does not suspend acknowledgements.
\<close>

theorem local_window_respected:
  assumes "max_frames \<le> u32_max" and "list_all acks_not_suspended es"
  shows "frames_in_flight (run_events windowed_step (with_codec_policy max_frames codec) es) \<le>
    max_frames_in_flight (run_events windowed_step (with_codec_policy max_frames codec) es)"
proof -
  have "window_inv (with_codec_policy max_frames codec)"
    using assms(1) by (simp add: window_inv_def with_codec_policy_def max_frames_in_flight_def)
  from window.run_keeps [OF this assms(2)] show ?thesis by (simp add: window_inv_def)
qed

theorem local_window_respected_witness:
  "frames_in_flight (run_events windowed_step (with_codec_policy 1 PolicyAuto) [FrameQueued 1, FrameQueued 2]) \<le>
   max_frames_in_flight (run_events windowed_step (with_codec_policy 1 PolicyAuto) [FrameQueued 1, FrameQueued 2])"
  by (rule local_window_respected) (simp_all add: acks_not_suspended_def)

text \<open>
  After \<open>clear_frame_queue\<close> with frames outstanding, the late acknowledgements of those frames
  change no counter, in any number and order, and only report the client's queue; a frame queued
  after the reset with a larger identifier is accounted for and its acknowledgement frees it.
\<close>

theorem stale_acks_ignored:
  assumes "total_acked_frames s < total_queued_frames s" and "total_queued_frames s < u64_max"
    and "list_all (\<lambda>(f, d). f \<le> last_queued_frame_id s) acks"
    and "last_queued_frame_id s < new_frame" and "depth \<noteq> suspend_frame_ack_queue_depth"
  shows "let s1 = fold (\<lambda>(f, d). record_frame_ack f d) acks (clear_frame_queue s) in
    frames_in_flight s1 = 0 \<and> total_acked_frames s1 = total_queued_frames s \<and>
    total_queued_frames s1 = total_queued_frames s \<and> last_acked_frame_id s1 = last_acked_frame_id s \<and>
    frames_in_flight (record_frame_queued new_frame s1) = 1 \<and>
    frames_in_flight (record_frame_ack new_frame depth (record_frame_queued new_frame s1)) = 0"
proof -
  define ok where "ok t \<longleftrightarrow> frames_in_flight t = 0 \<and> total_acked_frames t = total_queued_frames s \<and>
    total_queued_frames t = total_queued_frames s \<and> last_acked_frame_id t = last_acked_frame_id s \<and>
    ack_cutoff_active t \<and> ack_cutoff_frame_id t = last_queued_frame_id s" for t :: egfx_shared
  have "ok t \<Longrightarrow> ok (fold (\<lambda>(f, d). record_frame_ack f d) acks t)" for t
    using assms(3)
  proof (induction acks arbitrary: t)
    case Nil
    then show ?case by simp
  next
    case (Cons a acks)
    obtain f d where a: "a = (f, d)" by (cases a)
    have "ok (record_frame_ack f d t)"
      using Cons.prems by (simp add: a ok_def record_frame_ack_def Let_def)
    with Cons show ?case by (simp add: a)
  qed
  moreover have "ok (clear_frame_queue s)" using assms(1) by (simp add: ok_def clear_frame_queue_def Let_def)
  ultimately have "ok (fold (\<lambda>(f, d). record_frame_ack f d) acks (clear_frame_queue s))" by blast
  then show ?thesis
    using assms(4,5)
    by (simp add: ok_def Let_def record_frame_queued_def record_frame_ack_def u32_add_def)
qed

theorem stale_acks_ignored_witness:
  "frames_in_flight (fold (\<lambda>(f, d). record_frame_ack f d) [(1, 0), (2, 1), (2, 0)]
     (clear_frame_queue (record_frame_queued 2 (record_frame_queued 1 (with_codec_policy 3 PolicyAuto))))) = 0"
  using stale_acks_ignored [of "record_frame_queued 2 (record_frame_queued 1 (with_codec_policy 3 PolicyAuto))"
      "[(1, 0), (2, 1), (2, 0)]" 3 0]
  by (simp add: record_frame_queued_def with_codec_policy_def u64_add_def u32_add_def
      suspend_frame_ack_queue_depth_def Let_def)

text \<open>
  A client that does not open the graphics channel gets bitmap updates exactly from two seconds
  after the first poll of its connection on; once the channel was ready every poll answers yes, and
  a new client starts the wait again.
\<close>

theorem bitmap_fallback_waits_once:
  "poll_fallback (build_server_with_handle handle s) (t0 # polls) =
     map (\<lambda>t. gfx_ready_grace \<le> t - t0) (t0 # polls) \<and>
   poll_fallback (on_ready disable cap s) polls = map (\<lambda>_. True) polls"
proof
  let ?s = "build_server_with_handle handle s"
  have "\<not> gfx_ever_ready ?s" "gfx_wait_started ?s = None"
    by (simp_all add: flow_defs Let_def)
  then show "poll_fallback ?s (t0 # polls) = map (\<lambda>t. gfx_ready_grace \<le> t - t0) (t0 # polls)"
    by (simp add: bitmap_fallback_due_def Let_def gfx_ready_grace_def poll_fallback_started)
  show "poll_fallback (on_ready disable cap s) polls = map (\<lambda>_. True) polls"
    by (rule poll_fallback_ready) (simp add: flow_defs Let_def split: prod.splits)
qed

text \<open>
  The preferred frame rate lies between one and the target, is the target while at most one
  frame is in flight or acknowledgements are suspended, and does not rise with more frames in flight.
\<close>

theorem preferred_frame_rate_bounds:
  assumes "frames_in_flight s \<le> frames_in_flight s'" and "frames_in_flight s' \<le> u32_max" and "target_fps \<le> u32_max"
    and "frame_ack_suspended s = frame_ack_suspended s'"
  shows "1 \<le> preferred_frame_rate s target_fps \<and> preferred_frame_rate s target_fps \<le> max target_fps 1 \<and>
    (frames_in_flight s \<le> 1 \<or> frame_ack_suspended s \<longrightarrow> preferred_frame_rate s target_fps = max target_fps 1) \<and>
    preferred_frame_rate s' target_fps \<le> preferred_frame_rate s target_fps"
proof -
  let ?t = "max target_fps 1"
  define g where "g n = max (u32_sat_mul ?t (100 div (u32_sat_add n 1)) div 100) 1" for n
  have g_le: "g n \<le> ?t" for n
  proof -
    have "100 div (u32_sat_add n 1) \<le> (100::nat)" by (rule div_le_dividend)
    then have "?t * (100 div (u32_sat_add n 1)) \<le> ?t * 100" by (rule mult_le_mono2)
    then have "u32_sat_mul ?t (100 div (u32_sat_add n 1)) div 100 \<le> ?t * 100 div 100"
      unfolding u32_sat_mul_def by (intro div_le_mono) (simp add: min.coboundedI1)
    then show ?thesis by (simp add: g_def)
  qed
  have g_mono: "g n \<le> g m" if "m \<le> n" for m n
  proof -
    have "u32_sat_add m 1 \<le> u32_sat_add n 1" "0 < u32_sat_add m 1"
      using that by (auto simp: u32_sat_add_def)
    then have "(100::nat) div (u32_sat_add n 1) \<le> 100 div (u32_sat_add m 1)" by (rule div_le_mono2 [rotated])
    then have "u32_sat_mul ?t (100 div (u32_sat_add n 1)) \<le> u32_sat_mul ?t (100 div (u32_sat_add m 1))"
      unfolding u32_sat_mul_def by (intro min.mono mult_le_mono2) auto
    then have "u32_sat_mul ?t (100 div (u32_sat_add n 1)) div 100 \<le> u32_sat_mul ?t (100 div (u32_sat_add m 1)) div 100"
      by (rule div_le_mono)
    then show ?thesis unfolding g_def by (rule max.mono) simp
  qed
  have rate: "preferred_frame_rate u target_fps =
      (if frame_ack_suspended u \<or> frames_in_flight u \<le> 1 then ?t else g (frames_in_flight u))" for u
    by (simp add: preferred_frame_rate_def g_def Let_def)
  have "1 \<le> g n" for n by (simp add: g_def)
  then show ?thesis using assms(1,4) g_le g_mono by (auto simp: rate)
qed

theorem preferred_frame_rate_bounds_witness:
  "preferred_frame_rate (record_frame_queued 2 (record_frame_queued 1 (with_codec_policy 3 PolicyAuto))) 60
     \<le> preferred_frame_rate (with_codec_policy 3 PolicyAuto) 60 \<and>
   preferred_frame_rate (record_frame_queued 2 (record_frame_queued 1 (with_codec_policy 3 PolicyAuto))) 60 = 19"
  using preferred_frame_rate_bounds [of "with_codec_policy 3 PolicyAuto"
      "record_frame_queued 2 (record_frame_queued 1 (with_codec_policy 3 PolicyAuto))" 60]
  by (simp add: record_frame_queued_def with_codec_policy_def u32_add_def preferred_frame_rate_def
      u32_sat_add_def u32_sat_mul_def Let_def)

text \<open>
  The negotiated codecs: AVC444 is used only with AVC420 and only where the capability set and
  the policy allow it and the environment does not forbid it; the ClearCodec policy never enables
  AVC, the AVC420 policy never AVC444, and every policy's preferred list ends in the basic set.
\<close>

theorem negotiated_codecs:
  "capability_avc_support cap disable codec = (avc420, avc444) \<longrightarrow>
     (avc444 \<longrightarrow> avc420 \<and> snd (offered_avc cap) \<and> \<not> disable \<and> (codec = PolicyAuto \<or> codec = PolicyAvc444)) \<and>
     (avc420 \<longleftrightarrow> fst (offered_avc cap) \<and> codec \<noteq> PolicyClearCodec) \<and>
     (avc_enabled (on_ready disable cap (with_codec_policy m codec)) \<longleftrightarrow> avc420) \<and>
     last (preferred_capabilities_for_policy codec) = V8"
proof
  assume support: "capability_avc_support cap disable codec = (avc420, avc444)"
  obtain a b where offered: "offered_avc cap = (a, b)" by fastforce
  have imp: "b \<longrightarrow> a" using offered by (cases cap) auto
  have "policy (with_codec_policy m codec) = codec" by (simp add: with_codec_policy_def)
  moreover have "last (preferred_capabilities_for_policy codec) = V8" by (cases codec) simp_all
  ultimately show "(avc444 \<longrightarrow> avc420 \<and> snd (offered_avc cap) \<and> \<not> disable \<and> (codec = PolicyAuto \<or> codec = PolicyAvc444)) \<and>
     (avc420 \<longleftrightarrow> fst (offered_avc cap) \<and> codec \<noteq> PolicyClearCodec) \<and>
     (avc_enabled (on_ready disable cap (with_codec_policy m codec)) \<longleftrightarrow> avc420) \<and>
     last (preferred_capabilities_for_policy codec) = V8"
    using support imp offered
    by (cases codec) (auto simp: capability_avc_support_def allows_avc_def flow_defs Let_def)
qed

theorem negotiated_codecs_witness:
  "capability_avc_support (V10_7 False) False PolicyAuto = (True, True) \<and>
   avc_enabled (on_ready False (V10_7 False) (with_codec_policy 3 PolicyAuto))"
proof -
  have "capability_avc_support (V10_7 False) False PolicyAuto = (True, True)"
    by (simp add: capability_avc_support_def allows_avc_def)
  then show ?thesis using negotiated_codecs [of "V10_7 False" False PolicyAuto True True 3] by blast
qed

text \<open>
  An acknowledgement that overtakes the accounting of its own frame is lost: the window then
  counts a frame in flight that the client has already acknowledged, until the next reset, while
  the other order leaves none.
\<close>

theorem overtaking_ack_leaks_window:
  assumes "frames_in_flight s = 0" and "\<not> ack_cutoff_active s" and "d \<noteq> suspend_frame_ack_queue_depth"
  shows "frames_in_flight (run_events flow_step s [FrameAck f d, FrameQueued f]) = 1 \<and>
    frames_in_flight (run_events flow_step s [FrameQueued f, FrameAck f d]) = 0"
  using assms by (simp add: record_frame_queued_def record_frame_ack_def u32_add_def Let_def)

theorem overtaking_ack_leaks_window_witness:
  "frames_in_flight (run_events flow_step (with_codec_policy 3 PolicyAuto) [FrameAck 1 0, FrameQueued 1]) = 1"
  using overtaking_ack_leaks_window [of "with_codec_policy 3 PolicyAuto" 0 1]
  by (simp add: with_codec_policy_def suspend_frame_ack_queue_depth_def)

end
