(* ===== verification/Avc420.thy ===== *)
theory Avc420
  imports Regions
begin

text \<open>
  The AVC region metadata of \<open>egfx/avc420.rs\<close>: damage rectangles clipped to the frame, with the
  quantisation parameter and a quality value. The record is the foreign \<open>Avc420Region\<close> with the
  arguments of its constructor; right and bottom are exclusive.
\<close>

unbundle bit_operations_syntax

record avc420_region =
  avc_left :: nat
  avc_top :: nat
  avc_right :: nat
  avc_bottom :: nat
  avc_qp :: byte
  avc_quality :: byte

definition avc420_region_quality :: "byte \<Rightarrow> byte" where
  "avc420_region_quality qp = of_nat (100 - unat (qp AND 0x3f))"

definition avc420_region_new :: "nat \<Rightarrow> nat \<Rightarrow> nat \<Rightarrow> nat \<Rightarrow> byte \<Rightarrow> byte \<Rightarrow> avc420_region" where
  "avc420_region_new l t r b qp quality =
     \<lparr>avc_left = l, avc_top = t, avc_right = r, avc_bottom = b, avc_qp = qp, avc_quality = quality\<rparr>"

definition avc420_full_frame_region :: "nat \<Rightarrow> nat \<Rightarrow> byte \<Rightarrow> avc420_region" where
  "avc420_full_frame_region width height qp =
     avc420_region_new 0 0 width height qp (avc420_region_quality qp)"

definition clip_avc420 :: "nat \<Rightarrow> nat \<Rightarrow> byte \<Rightarrow> region \<Rightarrow> avc420_region option" where
  "clip_avc420 width height qp = (\<lambda>(x, y, w, h).
     if w \<le> 0 \<or> h \<le> 0 then None
     else let left = as_u16 (nat (clamp x 0 (int width)));
              top_y = as_u16 (nat (clamp y 0 (int height)));
              right = as_u16 (nat (clamp (i32_sat_add x w) 0 (int width)));
              bottom = as_u16 (nat (clamp (i32_sat_add y h) 0 (int height)))
          in if right \<le> left \<or> bottom \<le> top_y then None
             else Some (avc420_region_new left top_y right bottom qp (avc420_region_quality qp)))"

definition damage_regions_to_avc420 :: "region list \<Rightarrow> nat \<Rightarrow> nat \<Rightarrow> byte \<Rightarrow> avc420_region list" where
  "damage_regions_to_avc420 damage_regions width height qp =
     filter_map (clip_avc420 width height qp) damage_regions"

section \<open>Clipping\<close>

definition avc_cells :: "avc420_region \<Rightarrow> (nat \<times> nat) set" where
  "avc_cells r = box_cells (avc_left r) (avc_top r) (avc_right r) (avc_bottom r)"

definition u16_frame :: "nat \<Rightarrow> nat \<Rightarrow> bool" where
  "u16_frame width height \<longleftrightarrow> width \<le> u16_max \<and> height \<le> u16_max"

lemma as_u16_clamp: "n \<le> u16_max \<Longrightarrow> as_u16 (nat (clamp c 0 (int n))) = nat (clamp c 0 (int n))"
  by (intro as_u16_id) (auto simp: clamp_def)

lemma clip_avc420_eq:
  assumes "u16_frame width height" and "i32_region (x, y, w, h)"
  shows "clip_avc420 width height qp (x, y, w, h) =
    (let l = nat (clamp x 0 (int width)); t = nat (clamp y 0 (int height));
         r = nat (clamp (x + w) 0 (int width)); b = nat (clamp (y + h) 0 (int height))
     in if w \<le> 0 \<or> h \<le> 0 \<or> r \<le> l \<or> b \<le> t then None
        else Some (avc420_region_new l t r b qp (avc420_region_quality qp)))"
  using assms
  by (simp add: clip_avc420_def u16_frame_def i32_region_def as_u16_clamp clamp_sat_add Let_def)

interpretation avc420_clip: region_clipper "clip_avc420 width height qp" avc_cells "frame_cells width height"
  "\<lambda>d. u16_frame width height \<and> i32_region d" for width height qp
proof
  fix d b
  assume good: "u16_frame width height \<and> i32_region d" and clip: "clip_avc420 width height qp d = Some b"
  obtain x y w h where d: "d = (x, y, w, h)" by (cases d) auto
  show "avc_cells b = cells d \<inter> frame_cells width height \<and> avc_cells b \<noteq> {}"
    using clip good clip_avc420_eq [of width height x y w h qp] clamped_box [of "int width" "int height" x y w h]
    by (auto simp: d avc_cells_def avc420_region_new_def box_cells_empty_iff Let_def split: if_splits)
next
  fix d
  assume good: "u16_frame width height \<and> i32_region d" and clip: "clip_avc420 width height qp d = None"
  obtain x y w h where d: "d = (x, y, w, h)" by (cases d) auto
  show "cells d \<inter> frame_cells width height = {}"
  proof (cases "w \<le> 0 \<or> h \<le> 0")
    case True
    then show ?thesis by (auto simp: d cells_def in_region_def)
  next
    case False
    then show ?thesis
      using clip good clip_avc420_eq [of width height x y w h qp]
        clamped_box [of "int width" "int height" x y w h, symmetric]
      by (auto simp: d box_cells_empty_iff Let_def split: if_splits)
  qed
qed

section \<open>Properties\<close>

text \<open>
  The AVC regions of a frame are not empty, lie inside it, and cover exactly the damaged pixels
  of the frame; they carry the frame's quantisation parameter and a quality of at most 100.
\<close>

theorem avc420_regions_exact:
  assumes "u16_frame width height" and "list_all i32_region damage"
  shows "(\<Union>r\<in>set (damage_regions_to_avc420 damage width height qp). avc_cells r) =
      (\<Union>d\<in>set damage. cells d) \<inter> frame_cells width height \<and>
    (\<forall>r\<in>set (damage_regions_to_avc420 damage width height qp).
       avc_cells r \<noteq> {} \<and> avc_cells r \<subseteq> frame_cells width height \<and> avc_qp r = qp \<and> unat (avc_quality r) \<le> 100)"
proof -
  have good: "list_all (\<lambda>d. u16_frame width height \<and> i32_region d) damage"
    using assms by (simp add: list_all_iff)
  have q: "unat (of_nat (100 - n) :: byte) \<le> 100" for n
    by (simp add: unat_of_nat)
  have "avc_qp r = qp \<and> unat (avc_quality r) \<le> 100" if r: "r \<in> set (damage_regions_to_avc420 damage width height qp)" for r
  proof -
    obtain d where "clip_avc420 width height qp d = Some r"
      using r unfolding damage_regions_to_avc420_def set_filter_map by blast
    then obtain l t r' b where "r = avc420_region_new l t r' b qp (avc420_region_quality qp)"
      by (cases d) (simp add: clip_avc420_def Let_def split: if_splits, metis)
    then show ?thesis using q by (simp add: avc420_region_new_def avc420_region_quality_def)
  qed
  with avc420_clip.clip_all_inside [OF good, folded damage_regions_to_avc420_def]
  show ?thesis
    by (simp add: avc420_clip.clip_all [OF good, folded damage_regions_to_avc420_def])
qed

theorem avc420_regions_exact_witness:
  "(\<Union>r\<in>set (damage_regions_to_avc420 [(-10, 5, 30, 10), (1270, 710, 20, 20)] 1280 720 23). avc_cells r) =
      (\<Union>d\<in>set [(-10, 5, 30, 10), (1270, 710, 20, 20)]. cells d) \<inter> frame_cells 1280 720"
  using avc420_regions_exact [of 1280 720 "[(-10, 5, 30, 10), (1270, 710, 20, 20)]" 23]
  by (simp add: u16_frame_def i32_region_def is_i32_def)

end
