(* ===== verification/ClearCodec.thy ===== *)
theory ClearCodec
  imports Regions "HOL-Library.Product_Lexorder"
begin

text \<open>
  The ClearCodec input packing of \<open>egfx/clearcodec.rs\<close>: validation of the frame, the exact cover
  of the damage by disjoint rectangles of at most 64 by 64 pixels, extraction of their pixels, and
  the encode/commit protocol of a session. The wire encoder belongs to another package: it is the
  parameter \<open>enc\<close> of \<open>clearcodec_encode\<close>, a function of its state and of the pixels.
\<close>

section \<open>Input\<close>

text \<open>The formats the code accepts, and every other one of the foreign enumeration.\<close>

datatype pixel_format = BgrA32 | BgrX32 | RgbA32 | RgbX32 | OtherFormat

datatype clearcodec_error =
    UnsupportedFormat
  | EmptyFrame
  | StrideTooShort
  | LengthOverflow
  | BufferTooShort
  | NotCommitted

text \<open>An \<open>ExclusiveRectangle\<close>: left, top, right, bottom.\<close>

type_synonym xrect = "nat \<times> nat \<times> nat \<times> nat"

definition xrect_cells :: "xrect \<Rightarrow> (nat \<times> nat) set" where
  "xrect_cells = (\<lambda>(l, t, r, b). box_cells l t r b)"

record clearcodec_input =
  cc_data :: "byte list"
  cc_stride :: nat
  cc_pixel_format :: pixel_format
  cc_rectangles :: "xrect list"

definition clip_u16 :: "nat \<Rightarrow> nat \<Rightarrow> region \<Rightarrow> xrect option" where
  "clip_u16 width height = (\<lambda>(x, y, w, h).
     if w \<le> 0 \<or> h \<le> 0 then None
     else let l = as_u16 (nat (clamp x 0 (int width)));
              t = as_u16 (nat (clamp y 0 (int height)));
              r = as_u16 (nat (clamp (x + w) 0 (int width)));
              b = as_u16 (nat (clamp (y + h) 0 (int height)))
          in if l < r \<and> t < b then Some (l, t, r, b) else None)"

definition band_edges :: "xrect list \<Rightarrow> nat list" where
  "band_edges clipped = remdups_adj (sort (concat (map (\<lambda>(l, t, r, b). [t, b]) clipped)))"

definition bands :: "nat list \<Rightarrow> (nat \<times> nat) list" where
  "bands ys = zip ys (tl ys)"

definition band_spans :: "xrect list \<Rightarrow> nat \<Rightarrow> nat \<Rightarrow> (nat \<times> nat) list" where
  "band_spans clipped top_y bottom =
     sort (map (\<lambda>(l, t, r, b). (l, r)) (filter (\<lambda>(l, t, r, b). t \<le> top_y \<and> bottom \<le> b) clipped))"

definition push_span :: "(nat \<times> nat) list \<Rightarrow> nat \<times> nat \<Rightarrow> (nat \<times> nat) list" where
  "push_span merged = (\<lambda>(l, r).
     if merged \<noteq> [] \<and> l \<le> snd (last merged)
     then butlast merged @ [(fst (last merged), max (snd (last merged)) r)]
     else merged @ [(l, r)])"

definition merge_spans :: "(nat \<times> nat) list \<Rightarrow> (nat \<times> nat) list" where
  "merge_spans spans = foldl push_span [] spans"

text \<open>\<open>(start..stop).step_by(64)\<close>.\<close>

function step_by_64 :: "nat \<Rightarrow> nat \<Rightarrow> nat list" where
  "step_by_64 start stop = (if start < stop then start # step_by_64 (start + 64) stop else [])"
  by pat_completeness auto

termination
  by (relation "measure (\<lambda>(start, stop). stop - start)") auto

declare step_by_64.simps [simp del]

definition u16_sat_add :: "nat \<Rightarrow> nat \<Rightarrow> nat" where
  "u16_sat_add a b = min (a + b) u16_max"

definition span_tiles :: "nat \<Rightarrow> nat \<Rightarrow> nat \<Rightarrow> nat \<Rightarrow> xrect list" where
  "span_tiles left right top_y bottom =
     concat (map (\<lambda>y. map (\<lambda>x. (x, y, min right (u16_sat_add x 64), min bottom (u16_sat_add y 64)))
                        (step_by_64 left right))
       (step_by_64 top_y bottom))"

definition band_tiles :: "xrect list \<Rightarrow> nat \<times> nat \<Rightarrow> xrect list" where
  "band_tiles clipped = (\<lambda>(top_y, bottom).
     concat (map (\<lambda>(l, r). span_tiles l r top_y bottom) (merge_spans (band_spans clipped top_y bottom))))"

definition damage_tiles :: "nat \<Rightarrow> nat \<Rightarrow> region list \<Rightarrow> xrect list" where
  "damage_tiles width height damage =
     (let clipped = filter_map (clip_u16 width height) damage
      in concat (map (band_tiles clipped) (bands (band_edges clipped))))"

definition clearcodec_input_new ::
    "byte list \<Rightarrow> nat \<Rightarrow> nat \<Rightarrow> nat \<Rightarrow> region list \<Rightarrow> pixel_format \<Rightarrow> clearcodec_error + clearcodec_input" where
  "clearcodec_input_new data width height stride damage format =
     (if \<not> (format = BgrA32 \<or> format = BgrX32 \<or> format = RgbA32 \<or> format = RgbX32)
      then Inl UnsupportedFormat
      else if \<not> (width > 0 \<and> height > 0) then Inl EmptyFrame
      else if \<not> (stride \<ge> width * 4) then Inl StrideTooShort
      else (case u64_checked_mul stride height of
          None \<Rightarrow> Inl LengthOverflow
        | Some len \<Rightarrow>
            if \<not> (length data \<ge> len) then Inl BufferTooShort
            else Inr \<lparr>cc_data = data, cc_stride = stride, cc_pixel_format = format,
                      cc_rectangles = damage_tiles width height damage\<rparr>))"

section \<open>Pixels of a rectangle\<close>

text \<open>A slice \<open>data[start..stop]\<close> that panics out of range.\<close>

fun concat_run :: "'a list run list \<Rightarrow> 'a list run" where
  "concat_run [] = Some []"
| "concat_run (r # rs) = do { xs \<leftarrow> r; ys \<leftarrow> concat_run rs; Some (xs @ ys) }"

text \<open>\<open>pixel.swap(0, 2)\<close> on every whole chunk of four bytes; a shorter rest stays.\<close>

fun swap_red_blue :: "byte list \<Rightarrow> byte list" where
  "swap_red_blue (b # g # r # a # rest) = r # g # b # a # swap_red_blue rest"
| "swap_red_blue rest = rest"

definition rect_pixels :: "clearcodec_input \<Rightarrow> xrect \<Rightarrow> byte list run" where
  "rect_pixels input = (\<lambda>(l, t, r, b). do {
     let row_bytes = (r - l) * 4;
     result \<leftarrow> concat_run (map (\<lambda>y. let start = y * cc_stride input + l * 4
                                    in slice_run start (start + row_bytes) (cc_data input)) [t..<b]);
     Some (if cc_pixel_format input = RgbA32 \<or> cc_pixel_format input = RgbX32
           then swap_red_blue result else result)
   })"

section \<open>Session state\<close>

record 'e clearcodec_state =
  cc_encoder :: 'e
  cc_uncommitted :: bool

definition clearcodec_default :: "'e \<Rightarrow> 'e clearcodec_state" where
  "clearcodec_default fresh = \<lparr>cc_encoder = fresh, cc_uncommitted = False\<rparr>"

text \<open>The encoder runs over the rectangles in order and carries its state along.\<close>

fun encode_rectangles ::
    "('e \<Rightarrow> byte list \<Rightarrow> nat \<Rightarrow> nat \<Rightarrow> byte list \<times> 'e) \<Rightarrow> clearcodec_input \<Rightarrow> 'e \<Rightarrow> xrect list
      \<Rightarrow> ((xrect \<times> byte list) list \<times> 'e) run" where
  "encode_rectangles enc input e [] = Some ([], e)"
| "encode_rectangles enc input e (rect # rects) = (case rect of (l, t, r, b) \<Rightarrow> do {
     pixels \<leftarrow> rect_pixels input rect;
     let (data, e') = enc e pixels (r - l) (b - t);
     (out, e'') \<leftarrow> encode_rectangles enc input e' rects;
     Some ((rect, data) # out, e'')
   })"

definition clearcodec_encode ::
    "('e \<Rightarrow> byte list \<Rightarrow> nat \<Rightarrow> nat \<Rightarrow> byte list \<times> 'e) \<Rightarrow> clearcodec_input \<Rightarrow> 'e clearcodec_state
      \<Rightarrow> ((clearcodec_error + (xrect \<times> byte list) list) \<times> 'e clearcodec_state) run" where
  "clearcodec_encode enc input s =
     (if cc_uncommitted s then Some (Inl NotCommitted, s)
      else do {
        (out, e') \<leftarrow> encode_rectangles enc input (cc_encoder s) (cc_rectangles input);
        Some (Inr out, \<lparr>cc_encoder = e', cc_uncommitted = True\<rparr>)
      })"

definition clearcodec_commit :: "'e clearcodec_state \<Rightarrow> 'e clearcodec_state" where
  "clearcodec_commit s = s\<lparr>cc_uncommitted := False\<rparr>"

section \<open>Clipping\<close>

interpretation clearcodec_clip: region_clipper "clip_u16 width height" xrect_cells "frame_cells width height"
  "\<lambda>d. width \<le> u16_max \<and> height \<le> u16_max" for width height
proof
  fix d b
  assume fits: "width \<le> u16_max \<and> height \<le> u16_max" and clip: "clip_u16 width height d = Some b"
  obtain x y w h where d: "d = (x, y, w, h)" by (cases d) auto
  have u16: "as_u16 (nat (clamp c 0 (int n))) = nat (clamp c 0 (int n))" if "n \<le> u16_max" for c n
    using that by (intro as_u16_id) (auto simp: clamp_def)
  show "xrect_cells b = cells d \<inter> frame_cells width height \<and> xrect_cells b \<noteq> {}"
    using clip fits clamped_box [of "int width" "int height" x y w h]
    by (auto simp: d clip_u16_def u16 xrect_cells_def box_cells_empty_iff Let_def split: if_splits)
next
  fix d
  assume fits: "width \<le> u16_max \<and> height \<le> u16_max" and clip: "clip_u16 width height d = None"
  obtain x y w h where d: "d = (x, y, w, h)" by (cases d) auto
  have u16: "as_u16 (nat (clamp c 0 (int n))) = nat (clamp c 0 (int n))" if "n \<le> u16_max" for c n
    using that by (intro as_u16_id) (auto simp: clamp_def)
  show "cells d \<inter> frame_cells width height = {}"
  proof (cases "w \<le> 0 \<or> h \<le> 0")
    case True
    then show ?thesis by (auto simp: d cells_def in_region_def)
  next
    case False
    then show ?thesis
      using clip fits clamped_box [of "int width" "int height" x y w h, symmetric]
      by (auto simp: d clip_u16_def u16 box_cells_empty_iff Let_def split: if_splits)
  qed
qed

definition proper_xrect :: "nat \<Rightarrow> nat \<Rightarrow> xrect \<Rightarrow> bool" where
  "proper_xrect width height = (\<lambda>(l, t, r, b). l < r \<and> r \<le> width \<and> t < b \<and> b \<le> height)"

lemma as_u16_clamp_le: "as_u16 (nat (clamp c 0 (int n))) \<le> n"
proof -
  have "nat (clamp c 0 (int n)) \<le> n" by (auto simp: clamp_def)
  then show ?thesis unfolding as_u16_def using mod_less_eq_dividend order_trans by blast
qed

lemma clip_u16_proper:
  assumes "clip_u16 width height d = Some b"
  shows "proper_xrect width height b"
proof -
  obtain x y w h where d: "d = (x, y, w, h)" by (cases d) auto
  show ?thesis
    using assms as_u16_clamp_le [of "x + w" width] as_u16_clamp_le [of "y + h" height]
    by (simp add: d clip_u16_def proper_xrect_def Let_def split: if_splits) auto
qed

section \<open>Disjoint covers\<close>

definition disjoint_rects :: "xrect list \<Rightarrow> bool" where
  "disjoint_rects rs = sorted_wrt (\<lambda>a b. xrect_cells a \<inter> xrect_cells b = {}) rs"

lemma sorted_wrt_concat_map:
  assumes "\<And>x. x \<in> set xs \<Longrightarrow> sorted_wrt P (f x)"
    and "sorted_wrt (\<lambda>x y. \<forall>a\<in>set (f x). \<forall>b\<in>set (f y). P a b) xs"
  shows "sorted_wrt P (concat (map f xs))"
  using assms by (induction xs) (auto simp: sorted_wrt_append)

lemma set_step_by_64:
  "q \<in> set (step_by_64 a b) \<longleftrightarrow> (\<exists>k. q = a + 64 * k \<and> q < b)"
proof (induction a b rule: step_by_64.induct)
  case (1 a b)
  show ?case
  proof (cases "a < b")
    case True
    have "q \<in> set (step_by_64 a b) \<longleftrightarrow> q = a \<or> (\<exists>k. q = a + 64 + 64 * k \<and> q < b)"
      using True 1 by (subst step_by_64.simps) simp
    also have "\<dots> \<longleftrightarrow> (\<exists>k. q = a + 64 * k \<and> q < b)"
    proof
      assume "q = a \<or> (\<exists>k. q = a + 64 + 64 * k \<and> q < b)"
      then show "\<exists>k. q = a + 64 * k \<and> q < b"
      proof
        assume "q = a"
        with True show ?thesis by (intro exI [of _ 0]) simp
      next
        assume "\<exists>k. q = a + 64 + 64 * k \<and> q < b"
        then obtain k where "q = a + 64 + 64 * k" "q < b" by blast
        then show ?thesis by (intro exI [of _ "Suc k"]) simp
      qed
    next
      assume "\<exists>k. q = a + 64 * k \<and> q < b"
      then obtain k where k: "q = a + 64 * k" "q < b" by blast
      then show "q = a \<or> (\<exists>k. q = a + 64 + 64 * k \<and> q < b)"
        by (cases k) auto
    qed
    finally show ?thesis .
  next
    case False
    then show ?thesis by (subst step_by_64.simps) auto
  qed
qed

lemma step_by_64_sorted: "sorted_wrt (\<lambda>x y. x + 64 \<le> y) (step_by_64 a b)"
proof (induction a b rule: step_by_64.induct)
  case (1 a b)
  then show ?case by (subst step_by_64.simps) (auto simp: set_step_by_64)
qed

lemma step_by_64_cover:
  assumes "b \<le> u16_max"
  shows "(\<exists>q\<in>set (step_by_64 a b). q \<le> p \<and> p < min b (u16_sat_add q 64)) \<longleftrightarrow> a \<le> p \<and> p < b"
proof
  assume "\<exists>q\<in>set (step_by_64 a b). q \<le> p \<and> p < min b (u16_sat_add q 64)"
  then show "a \<le> p \<and> p < b" by (auto simp: set_step_by_64)
next
  assume p: "a \<le> p \<and> p < b"
  let ?q = "a + 64 * ((p - a) div 64)"
  have "?q \<le> p" using p times_div_less_eq_dividend [of 64 "p - a"] by linarith
  moreover have "p < ?q + 64" using p div_mod_decomp [of "p - a" 64] by (simp add: mult.commute)
  ultimately show "\<exists>q\<in>set (step_by_64 a b). q \<le> p \<and> p < min b (u16_sat_add q 64)"
    using p assms by (intro bexI [of _ ?q]) (auto simp: set_step_by_64 u16_sat_add_def)
qed

section \<open>One span of one band\<close>

lemma span_tiles_proper:
  assumes "x \<in> set (span_tiles l r t b)" and "r \<le> width" and "b \<le> height"
    and "width \<le> u16_max" and "height \<le> u16_max"
  shows "proper_xrect width height x \<and>
    (case x of (l', t', r', b') \<Rightarrow> l \<le> l' \<and> r' \<le> r \<and> t \<le> t' \<and> b' \<le> b \<and> r' - l' \<le> 64 \<and> b' - t' \<le> 64)"
  using assms by (auto simp: span_tiles_def proper_xrect_def set_step_by_64 u16_sat_add_def)

lemma span_tiles_cover:
  assumes "r \<le> u16_max" and "b \<le> u16_max"
  shows "(\<Union>x\<in>set (span_tiles l r t b). xrect_cells x) = box_cells l t r b"
proof (intro set_eqI, clarify)
  fix p q :: nat
  have "(p, q) \<in> (\<Union>x\<in>set (span_tiles l r t b). xrect_cells x) \<longleftrightarrow>
      (\<exists>y\<in>set (step_by_64 t b). \<exists>x\<in>set (step_by_64 l r).
         (x \<le> p \<and> p < min r (u16_sat_add x 64)) \<and> (y \<le> q \<and> q < min b (u16_sat_add y 64)))"
    by (auto simp: span_tiles_def xrect_cells_def box_cells_def)
  also have "\<dots> \<longleftrightarrow> (p, q) \<in> box_cells l t r b"
    using step_by_64_cover [OF assms(1), of l p] step_by_64_cover [OF assms(2), of t q]
    by (auto simp: box_cells_def)
  finally show "(p, q) \<in> (\<Union>x\<in>set (span_tiles l r t b). xrect_cells x) \<longleftrightarrow> (p, q) \<in> box_cells l t r b" .
qed

lemma span_tiles_disjoint: "disjoint_rects (span_tiles l r t b)"
proof -
  have row: "sorted_wrt (\<lambda>a b. xrect_cells a \<inter> xrect_cells b = {})
      (map (\<lambda>x. (x, y, min r (u16_sat_add x 64), min b (u16_sat_add y 64))) (step_by_64 l r))" for y
    unfolding sorted_wrt_map
    by (rule sorted_wrt_mono_rel [OF _ step_by_64_sorted])
      (auto simp: xrect_cells_def box_cells_def u16_sat_add_def)
  show ?thesis
    unfolding disjoint_rects_def span_tiles_def
    by (rule sorted_wrt_concat_map, rule row, rule sorted_wrt_mono_rel [OF _ step_by_64_sorted])
      (auto simp: xrect_cells_def box_cells_def u16_sat_add_def)
qed

section \<open>Merged spans of one band\<close>

text \<open>The merge of a sorted list of spans, with the span under construction as an argument.\<close>

fun merge_from :: "nat \<Rightarrow> nat \<Rightarrow> (nat \<times> nat) list \<Rightarrow> (nat \<times> nat) list" where
  "merge_from a b [] = [(a, b)]"
| "merge_from a b ((l, r) # xs) =
     (if l \<le> b then merge_from a (max b r) xs else (a, b) # merge_from l r xs)"

lemma foldl_push_span: "foldl push_span (ms @ [(a, b)]) xs = ms @ merge_from a b xs"
proof (induction xs arbitrary: ms a b)
  case Nil
  then show ?case by simp
next
  case (Cons s xs)
  obtain l r where s: "s = (l, r)" by (cases s)
  show ?case
    using Cons [of ms a "max b r"] Cons [of "ms @ [(a, b)]" l r] by (simp add: s push_span_def)
qed

lemma merge_spans_Cons: "merge_spans ((l, r) # xs) = merge_from l r xs"
  using foldl_push_span [of "[]" l r xs] by (simp add: merge_spans_def push_span_def)

definition span_cells :: "nat \<times> nat \<Rightarrow> nat set" where
  "span_cells = (\<lambda>(l, r). {l..<r})"

lemma merge_from_cover:
  "a \<le> b \<Longrightarrow> \<forall>(l, r)\<in>set xs. a \<le> l \<and> l < r \<Longrightarrow> sorted (map fst xs) \<Longrightarrow>
   (\<Union>s\<in>set (merge_from a b xs). span_cells s) = {a..<b} \<union> (\<Union>s\<in>set xs. span_cells s)"
proof (induction a b xs rule: merge_from.induct)
  case (1 a b)
  then show ?case by (simp add: span_cells_def)
next
  case (2 a b l r xs)
  show ?case
  proof (cases "l \<le> b")
    case True
    have eq: "{a..<max b r} = {a..<b} \<union> {l..<r}" using 2(3,4) True by auto
    have "(\<Union>s\<in>set (merge_from a (max b r) xs). span_cells s) = {a..<max b r} \<union> (\<Union>s\<in>set xs. span_cells s)"
      using 2(3-5) by (intro 2(1) [OF True]) auto
    with True show ?thesis by (simp add: eq span_cells_def Un_assoc)
  next
    case False
    have "(\<Union>s\<in>set (merge_from l r xs). span_cells s) = {l..<r} \<union> (\<Union>s\<in>set xs. span_cells s)"
      using 2(3-5) by (intro 2(2) [OF False]) auto
    with False show ?thesis by (simp add: span_cells_def)
  qed
qed

lemma merge_from_separated:
  "a < b \<Longrightarrow> \<forall>(l, r)\<in>set xs. a \<le> l \<and> l < r \<Longrightarrow> sorted (map fst xs) \<Longrightarrow>
   (\<forall>(l, r)\<in>set (merge_from a b xs). a \<le> l \<and> l < r) \<and>
   sorted_wrt (\<lambda>s s'. snd s < fst s') (merge_from a b xs)"
proof (induction a b xs rule: merge_from.induct)
  case (1 a b)
  then show ?case by simp
next
  case (2 a b l r xs)
  show ?case
  proof (cases "l \<le> b")
    case True
    with 2 show ?thesis by (auto simp: less_max_iff_disj)
  next
    case False
    have "l < r" "a \<le> l" "\<forall>(l', r')\<in>set xs. l \<le> l' \<and> l' < r'" "sorted (map fst xs)"
      using 2(4,5) by auto
    from 2(2) [OF False this(1,3,4)] show ?thesis
      using False \<open>a < b\<close> \<open>a \<le> l\<close> by fastforce
  qed
qed

lemma merge_spans_spec:
  assumes "sorted (map fst xs)" and "\<forall>(l, r)\<in>set xs. l < r"
  shows "(\<Union>s\<in>set (merge_spans xs). span_cells s) = (\<Union>s\<in>set xs. span_cells s) \<and>
    (\<forall>(l, r)\<in>set (merge_spans xs). l < r) \<and> sorted_wrt (\<lambda>s s'. snd s < fst s') (merge_spans xs)"
proof (cases xs)
  case Nil
  then show ?thesis by (simp add: merge_spans_def)
next
  case (Cons s ys)
  obtain l r where s: "s = (l, r)" by (cases s)
  have ok: "l < r" "\<forall>(l', r')\<in>set ys. l \<le> l' \<and> l' < r'" "sorted (map fst ys)"
    using assms by (auto simp: Cons s)
  show ?thesis
    using merge_from_cover [OF less_imp_le [OF ok(1)] ok(2,3)] merge_from_separated [OF ok]
    by (auto simp: Cons s merge_spans_Cons span_cells_def)
qed

lemma sorted_fst: "sorted xs \<Longrightarrow> sorted (map fst xs)" for xs :: "(nat \<times> nat) list"
  unfolding sorted_map by (rule sorted_wrt_mono_rel) (auto simp: less_eq_prod_def)

section \<open>Bands\<close>

lemma strictly_sorted_remdups_adj: "sorted xs \<Longrightarrow> sorted_wrt (<) (remdups_adj xs)"
  by (induction xs rule: remdups_adj.induct) auto

lemma strictly_sorted_band_edges: "sorted_wrt (<) (band_edges clipped)"
  unfolding band_edges_def by (simp add: strictly_sorted_remdups_adj)

lemma set_band_edges: "(l, t, r, b) \<in> set clipped \<Longrightarrow> t \<in> set (band_edges clipped) \<and> b \<in> set (band_edges clipped)"
  unfolding band_edges_def by force

lemma band_edges_bound: "list_all (proper_xrect width height) clipped \<Longrightarrow> y \<in> set (band_edges clipped) \<Longrightarrow> y \<le> height"
  by (fastforce simp: band_edges_def proper_xrect_def list_all_iff)

lemma bands_Cons: "bands (a # b # ys) = (a, b) # bands (b # ys)"
  by (simp add: bands_def)

lemma set_bands: "(a, b) \<in> set (bands ys) \<Longrightarrow> a \<in> set ys \<and> b \<in> set ys"
  by (cases ys) (auto simp: bands_def dest: set_zip_leftD set_zip_rightD)

lemma bands_separated:
  "sorted_wrt (<) ys \<Longrightarrow> (\<forall>(a, b)\<in>set (bands ys). a < b) \<and> sorted_wrt (\<lambda>p q. snd p \<le> fst q) (bands ys)"
proof (induction ys)
  case Nil
  then show ?case by (simp add: bands_def)
next
  case (Cons a ys)
  show ?case
  proof (cases ys)
    case Nil
    then show ?thesis by (simp add: bands_def)
  next
    case [simp]: (Cons b zs)
    have "\<forall>p\<in>set (bands (b # zs)). b \<le> fst p"
      using Cons.prems by (auto simp: le_less dest!: set_bands)
    with Cons.IH Cons.prems show ?thesis by (auto simp: bands_Cons)
  qed
qed

lemma band_of_row:
  "sorted_wrt (<) ys \<Longrightarrow> t \<in> set ys \<Longrightarrow> b \<in> set ys \<Longrightarrow> t \<le> q \<Longrightarrow> q < b \<Longrightarrow>
   \<exists>(lo, hi)\<in>set (bands ys). lo \<le> q \<and> q < hi \<and> t \<le> lo \<and> hi \<le> b"
proof (induction ys arbitrary: t)
  case Nil
  then show ?case by simp
next
  case (Cons a ys)
  show ?case
  proof (cases ys)
    case Nil
    with Cons.prems show ?thesis by simp
  next
    case [simp]: (Cons c zs)
    show ?thesis
    proof (cases "q < c")
      case True
      then have "t = a" "c \<le> b" using Cons.prems by auto
      with True Cons.prems show ?thesis by (auto simp: bands_Cons)
    next
      case False
      define t' where "t' = max t c"
      have "t' \<in> set ys" "b \<in> set ys" "t' \<le> q"
        using Cons.prems False by (auto simp: t'_def max_def)
      from Cons.IH [OF _ this(1,2,3)] Cons.prems show ?thesis
        by (fastforce simp: bands_Cons t'_def)
    qed
  qed
qed

section \<open>The cover of one band and of the damage\<close>

lemma band_spans_ok:
  assumes "list_all (proper_xrect width height) clipped"
  shows "sorted (map fst (band_spans clipped t b)) \<and> (\<forall>(l, r)\<in>set (band_spans clipped t b). l < r)"
  using assms by (auto simp: band_spans_def sorted_fst proper_xrect_def list_all_iff)

lemma merged_band:
  assumes "list_all (proper_xrect width height) clipped"
  shows "(\<Union>s\<in>set (merge_spans (band_spans clipped t b)). span_cells s) = (\<Union>s\<in>set (band_spans clipped t b). span_cells s)"
    and "\<forall>(l, r)\<in>set (merge_spans (band_spans clipped t b)). l < r"
    and "sorted_wrt (\<lambda>s s'. snd s < fst s') (merge_spans (band_spans clipped t b))"
  using merge_spans_spec [of "band_spans clipped t b"] band_spans_ok [OF assms, of t b] by simp_all

lemma merged_right_bound:
  assumes ok: "list_all (proper_xrect width height) clipped"
    and lr: "(l, r) \<in> set (merge_spans (band_spans clipped t b))"
  shows "l < r \<and> r \<le> width"
proof -
  have "l < r" using merged_band(2) [OF ok, of t b] lr by blast
  then have "r - 1 \<in> span_cells (l, r)" by (auto simp: span_cells_def)
  then have "r - 1 \<in> (\<Union>s\<in>set (band_spans clipped t b). span_cells s)"
    using merged_band(1) [OF ok, of t b] lr by blast
  then have "r - 1 < width"
    using ok by (fastforce simp: band_spans_def span_cells_def proper_xrect_def list_all_iff)
  with \<open>l < r\<close> show ?thesis by simp
qed

lemma band_tiles_proper:
  assumes ok: "list_all (proper_xrect width height) clipped" and "hi \<le> height"
    and "width \<le> u16_max" and "height \<le> u16_max" and x: "x \<in> set (band_tiles clipped (lo, hi))"
  shows "proper_xrect width height x \<and>
    (case x of (l', t', r', b') \<Rightarrow> lo \<le> t' \<and> b' \<le> hi \<and> r' - l' \<le> 64 \<and> b' - t' \<le> 64)"
proof -
  obtain l r where lr: "(l, r) \<in> set (merge_spans (band_spans clipped lo hi))"
    and x: "x \<in> set (span_tiles l r lo hi)" using x by (auto simp: band_tiles_def)
  show ?thesis using span_tiles_proper [OF x _ assms(2-4)] merged_right_bound [OF ok lr] by auto
qed

lemma band_tiles_disjoint:
  assumes ok: "list_all (proper_xrect width height) clipped" and "width \<le> u16_max" and "height \<le> u16_max"
    and "hi \<le> height"
  shows "disjoint_rects (band_tiles clipped (lo, hi))"
proof -
  let ?spans = "merge_spans (band_spans clipped lo hi)"
  have inner: "sorted_wrt (\<lambda>a b. xrect_cells a \<inter> xrect_cells b = {}) ((\<lambda>(l, r). span_tiles l r lo hi) s)" for s
    using span_tiles_disjoint by (cases s) (simp add: disjoint_rects_def)
  have sub: "xrect_cells a \<subseteq> {l..<r} \<times> UNIV" if "(l, r) \<in> set ?spans" "a \<in> set (span_tiles l r lo hi)" for a l r
    using span_tiles_proper [OF that(2) _ assms(4,2,3)] merged_right_bound [OF ok that(1)]
    by (auto simp: xrect_cells_def box_cells_def)
  have "sorted_wrt (\<lambda>s s'. snd s < fst s') ?spans"
    by (rule merged_band(3) [OF ok])
  then have "sorted_wrt (\<lambda>s s'. \<forall>a\<in>set ((\<lambda>(l, r). span_tiles l r lo hi) s).
      \<forall>b\<in>set ((\<lambda>(l, r). span_tiles l r lo hi) s'). xrect_cells a \<inter> xrect_cells b = {}) ?spans"
  proof (rule sorted_wrt_mono_rel [rotated])
    fix s s'
    assume s: "s \<in> set ?spans" "s' \<in> set ?spans" "snd s < fst s'"
    obtain l r l' r' where eq: "s = (l, r)" "s' = (l', r')" by (cases s; cases s') auto
    have "xrect_cells a \<inter> xrect_cells b = {}"
      if "a \<in> set (span_tiles l r lo hi)" "b \<in> set (span_tiles l' r' lo hi)" for a b
    proof -
      have "xrect_cells a \<subseteq> {l..<r} \<times> UNIV" "xrect_cells b \<subseteq> {l'..<r'} \<times> UNIV"
        using sub that s by (simp_all add: eq)
      moreover have "({l..<r} \<times> UNIV) \<inter> ({l'..<r'} \<times> UNIV) = {}" using s(3) by (auto simp: eq)
      ultimately show ?thesis by blast
    qed
    then show "\<forall>a\<in>set ((\<lambda>(l, r). span_tiles l r lo hi) s).
      \<forall>b\<in>set ((\<lambda>(l, r). span_tiles l r lo hi) s'). xrect_cells a \<inter> xrect_cells b = {}"
      by (simp add: eq)
  qed
  then show ?thesis
    unfolding disjoint_rects_def band_tiles_def prod.case by (rule sorted_wrt_concat_map [OF inner])
qed

lemma UN_box_cells:
  "(\<Union>(l, r)\<in>set S. box_cells l lo r hi) = {(p, q). lo \<le> q \<and> q < hi \<and> p \<in> (\<Union>s\<in>set S. span_cells s)}"
  by (induction S) (auto simp: box_cells_def span_cells_def)

lemma band_tiles_cover:
  assumes ok: "list_all (proper_xrect width height) clipped" and "width \<le> u16_max" and "hi \<le> u16_max"
  shows "(\<Union>x\<in>set (band_tiles clipped (lo, hi)). xrect_cells x) =
    {(p, q). lo \<le> q \<and> q < hi \<and> (\<exists>(l, t, r, b)\<in>set clipped. t \<le> lo \<and> hi \<le> b \<and> l \<le> p \<and> p < r)}"
proof -
  let ?spans = "merge_spans (band_spans clipped lo hi)"
  have "(\<Union>x\<in>set (band_tiles clipped (lo, hi)). xrect_cells x) =
      (\<Union>(l, r)\<in>set ?spans. (\<Union>x\<in>set (span_tiles l r lo hi). xrect_cells x))"
    by (auto simp: band_tiles_def)
  also have "\<dots> = (\<Union>(l, r)\<in>set ?spans. box_cells l lo r hi)"
  proof (intro SUP_cong refl, clarify)
    fix l r
    assume "(l, r) \<in> set ?spans"
    then have "r \<le> u16_max" using merged_right_bound [OF ok] assms(2) order_trans by blast
    then show "(\<Union>x\<in>set (span_tiles l r lo hi). xrect_cells x) = box_cells l lo r hi"
      using assms(3) by (rule span_tiles_cover)
  qed
  also have "\<dots> = {(p, q). lo \<le> q \<and> q < hi \<and> p \<in> (\<Union>s\<in>set ?spans. span_cells s)}"
    by (rule UN_box_cells)
  also have "(\<Union>s\<in>set ?spans. span_cells s) = (\<Union>s\<in>set (band_spans clipped lo hi). span_cells s)"
    by (rule merged_band(1) [OF ok])
  also have "(\<Union>s\<in>set (band_spans clipped lo hi). span_cells s) =
      {p. \<exists>(l, t, r, b)\<in>set clipped. t \<le> lo \<and> hi \<le> b \<and> l \<le> p \<and> p < r}"
    unfolding band_spans_def by (induction clipped) (auto simp: span_cells_def)
  finally show ?thesis by simp
qed

lemma damage_tiles_disjoint:
  assumes "width \<le> u16_max" and "height \<le> u16_max"
  shows "disjoint_rects (damage_tiles width height damage) \<and>
    (\<forall>x\<in>set (damage_tiles width height damage). proper_xrect width height x \<and>
       (case x of (l, t, r, b) \<Rightarrow> r - l \<le> 64 \<and> b - t \<le> 64))"
proof -
  let ?clipped = "filter_map (clip_u16 width height) damage"
  have ok: "list_all (proper_xrect width height) ?clipped"
    by (auto simp: list_all_iff set_filter_map intro: clip_u16_proper)
  have hi: "hi \<le> height" if "(lo, hi) \<in> set (bands (band_edges ?clipped))" for lo hi
    using that band_edges_bound [OF ok] set_bands by blast
  note proper = band_tiles_proper [OF ok hi assms]
  have inner: "sorted_wrt (\<lambda>a b. xrect_cells a \<inter> xrect_cells b = {}) (band_tiles ?clipped s)"
    if "s \<in> set (bands (band_edges ?clipped))" for s
    using that hi band_tiles_disjoint [OF ok assms, of "snd s" "fst s"]
    by (metis disjoint_rects_def prod.collapse)
  have "sorted_wrt (\<lambda>p q. snd p \<le> fst q) (bands (band_edges ?clipped))"
    using bands_separated [OF strictly_sorted_band_edges] by blast
  then have "sorted_wrt (\<lambda>s s'. \<forall>a\<in>set (band_tiles ?clipped s). \<forall>b\<in>set (band_tiles ?clipped s').
      xrect_cells a \<inter> xrect_cells b = {}) (bands (band_edges ?clipped))"
  proof (rule sorted_wrt_mono_rel [rotated])
    fix s s'
    assume s: "s \<in> set (bands (band_edges ?clipped))" "s' \<in> set (bands (band_edges ?clipped))" "snd s \<le> fst s'"
    obtain lo hi lo' hi' where eq: "s = (lo, hi)" "s' = (lo', hi')" by (cases s; cases s') auto
    have "xrect_cells a \<inter> xrect_cells b = {}"
      if a: "a \<in> set (band_tiles ?clipped (lo, hi))" and b: "b \<in> set (band_tiles ?clipped (lo', hi'))" for a b
    proof -
      have "xrect_cells a \<subseteq> UNIV \<times> {lo..<hi}" "xrect_cells b \<subseteq> UNIV \<times> {lo'..<hi'}"
        using proper [OF s(1) [unfolded eq] a] proper [OF s(2) [unfolded eq] b]
        by (auto simp: xrect_cells_def box_cells_def)
      moreover have "(UNIV \<times> {lo..<hi}) \<inter> (UNIV \<times> {lo'..<hi'}) = {}" using s(3) by (auto simp: eq)
      ultimately show ?thesis by blast
    qed
    then show "\<forall>a\<in>set (band_tiles ?clipped s). \<forall>b\<in>set (band_tiles ?clipped s'). xrect_cells a \<inter> xrect_cells b = {}"
      by (simp add: eq)
  qed
  then have "disjoint_rects (damage_tiles width height damage)"
    unfolding disjoint_rects_def damage_tiles_def Let_def by (intro sorted_wrt_concat_map inner)
  moreover have "\<forall>x\<in>set (damage_tiles width height damage). proper_xrect width height x \<and>
       (case x of (l, t, r, b) \<Rightarrow> r - l \<le> 64 \<and> b - t \<le> 64)"
    unfolding damage_tiles_def Let_def using proper by fastforce
  ultimately show ?thesis by blast
qed

lemma damage_tiles_cover:
  assumes "width \<le> u16_max" and "height \<le> u16_max"
  shows "(\<Union>x\<in>set (damage_tiles width height damage). xrect_cells x) =
    (\<Union>d\<in>set damage. cells d) \<inter> frame_cells width height"
proof -
  let ?clipped = "filter_map (clip_u16 width height) damage"
  have ok: "list_all (proper_xrect width height) ?clipped"
    by (auto simp: list_all_iff set_filter_map intro: clip_u16_proper)
  have hi: "hi \<le> u16_max" if "(lo, hi) \<in> set (bands (band_edges ?clipped))" for lo hi
    using that band_edges_bound [OF ok] set_bands assms(2) order_trans by blast
  have "(\<Union>x\<in>set (damage_tiles width height damage). xrect_cells x) =
      (\<Union>(lo, hi)\<in>set (bands (band_edges ?clipped)). (\<Union>x\<in>set (band_tiles ?clipped (lo, hi)). xrect_cells x))"
    by (auto simp: damage_tiles_def Let_def)
  also have "\<dots> = (\<Union>(lo, hi)\<in>set (bands (band_edges ?clipped)).
      {(p, q). lo \<le> q \<and> q < hi \<and> (\<exists>(l, t, r, b)\<in>set ?clipped. t \<le> lo \<and> hi \<le> b \<and> l \<le> p \<and> p < r)})"
    using band_tiles_cover [OF ok assms(1) hi]
    by (intro SUP_cong refl) (simp only: split_paired_all prod.case)
  also have "\<dots> = (\<Union>x\<in>set ?clipped. xrect_cells x)"
  proof (intro set_eqI iffI; clarify)
    fix p q l t r b
    assume x: "(l, t, r, b) \<in> set ?clipped" and pq: "(p, q) \<in> xrect_cells (l, t, r, b)"
    obtain lo hi where "(lo, hi) \<in> set (bands (band_edges ?clipped))" "lo \<le> q" "q < hi" "t \<le> lo" "hi \<le> b"
      using band_of_row [OF strictly_sorted_band_edges, of t ?clipped b q] set_band_edges [OF x] pq
      by (auto simp: xrect_cells_def box_cells_def)
    with x pq show "(p, q) \<in> (\<Union>(lo, hi)\<in>set (bands (band_edges ?clipped)).
        {(p, q). lo \<le> q \<and> q < hi \<and> (\<exists>(l, t, r, b)\<in>set ?clipped. t \<le> lo \<and> hi \<le> b \<and> l \<le> p \<and> p < r)})"
      by (fastforce simp: xrect_cells_def box_cells_def)
  next
    fix p q lo hi l t r b
    assume "(l, t, r, b) \<in> set ?clipped" "lo \<le> q" "q < hi" "t \<le> lo" "hi \<le> b" "l \<le> p" "p < r"
    then show "(p, q) \<in> (\<Union>x\<in>set ?clipped. xrect_cells x)"
      by (intro UN_I [of "(l, t, r, b)"]) (auto simp: xrect_cells_def box_cells_def)
  qed
  also have "\<dots> = (\<Union>d\<in>set damage. cells d) \<inter> frame_cells width height"
    using assms by (intro clearcodec_clip.clip_all) (simp add: list_all_iff)
  finally show ?thesis .
qed

section \<open>Pixels\<close>

text \<open>The source channel of output channel \<open>c\<close>: the code swaps red and blue of the RGB formats.\<close>

definition source_channel :: "pixel_format \<Rightarrow> nat \<Rightarrow> nat" where
  "source_channel format c = (if (format = RgbA32 \<or> format = RgbX32) \<and> (c = 0 \<or> c = 2) then 2 - c else c)"

lemma concat_run_Some: "(\<And>x. x \<in> set xs \<Longrightarrow> f x = Some (g x)) \<Longrightarrow> concat_run (map f xs) = Some (concat (map g xs))"
  by (induction xs) auto

lemma length_concat_rows: "\<forall>r\<in>set rows. length r = n \<Longrightarrow> length (concat rows) = length rows * n"
  by (induction rows) auto

lemma nth_concat_rows:
  "\<forall>r\<in>set rows. length r = n \<Longrightarrow> i < length rows \<Longrightarrow> j < n \<Longrightarrow> concat rows ! (i * n + j) = rows ! i ! j"
proof (induction rows arbitrary: i)
  case Nil
  then show ?case by simp
next
  case (Cons row rows)
  show ?case
  proof (cases i)
    case 0
    with Cons.prems show ?thesis by (simp add: nth_append)
  next
    case (Suc i')
    with Cons.prems Cons.IH [of i'] show ?thesis by (simp add: nth_append add.assoc)
  qed
qed

lemma length_swap_red_blue [simp]: "length (swap_red_blue xs) = length xs"
  by (induction xs rule: swap_red_blue.induct) auto

lemma nth_swap_red_blue:
  "4 * i + 3 < length xs \<Longrightarrow> c < 4 \<Longrightarrow>
   swap_red_blue xs ! (4 * i + c) = xs ! (4 * i + (if c = 0 \<or> c = 2 then 2 - c else c))"
proof (induction xs arbitrary: i rule: swap_red_blue.induct)
  case (1 b g r a rest)
  show ?case
  proof (cases i)
    case 0
    then show ?thesis using 1(3) by (auto simp: less_Suc_eq numeral_eq_Suc)
  next
    case (Suc j)
    with 1(2) have "4 * j + 3 < length rest" by simp
    from 1(1) [OF this 1(3)] show ?thesis by (simp add: Suc nth_Cons' numeral_eq_Suc)
  qed
qed auto

lemma clearcodec_input_new_Inr:
  assumes "clearcodec_input_new data width height stride damage format = Inr input"
  shows "cc_data input = data \<and> cc_stride input = stride \<and> cc_pixel_format input = format \<and>
    cc_rectangles input = damage_tiles width height damage \<and> width * 4 \<le> stride \<and> stride * height \<le> length data"
  using assms by (auto simp: clearcodec_input_new_def u64_checked_mul_def split: if_splits)

lemma row_in_data:
  fixes stride :: nat
  assumes "r \<le> width" and "y < height" and "width * 4 \<le> stride" and "stride * height \<le> length data"
  shows "y * stride + r * 4 \<le> length data"
proof -
  have "y * stride + r * 4 \<le> y * stride + stride" using assms(1,3) by simp
  also have "\<dots> = stride * (y + 1)" by (simp add: algebra_simps)
  also have "\<dots> \<le> stride * height" using assms(2) by (intro mult_le_mono2) simp
  finally show ?thesis using assms(4) by simp
qed

lemma row_index_bound:
  fixes n m :: nat
  assumes "x < n" and "y < m"
  shows "4 * (y * n + x) + 3 < m * (n * 4)"
proof -
  have "y * n + x < (y + 1) * n" using assms by simp
  also have "\<dots> \<le> m * n" using assms by (intro mult_le_mono1) simp
  finally show ?thesis by simp
qed

lemma rect_pixels_total:
  assumes new: "clearcodec_input_new data width height stride damage format = Inr input"
    and fits: "width \<le> u16_max" "height \<le> u16_max" and rect: "(l, t, r, b) \<in> set (cc_rectangles input)"
  shows "\<exists>px. rect_pixels input (l, t, r, b) = Some px \<and> length px = (b - t) * ((r - l) * 4) \<and>
    (\<forall>x y c. x < r - l \<and> y < b - t \<and> c < 4 \<longrightarrow>
       px ! (y * ((r - l) * 4) + (4 * x + c)) =
       data ! ((t + y) * stride + (l + x) * 4 + source_channel format c))"
proof -
  note input = clearcodec_input_new_Inr [OF new]
  have proper: "l < r" "r \<le> width" "t < b" "b \<le> height"
    using damage_tiles_disjoint [OF fits, of damage] rect input by (auto simp: proper_xrect_def)
  let ?row = "\<lambda>y. subslice (y * stride + l * 4) (y * stride + l * 4 + (r - l) * 4) data"
  let ?rows = "map ?row [t..<b]"
  have bound: "y * stride + l * 4 + (r - l) * 4 \<le> length data" if "y < b" for y
    using row_in_data [of r width y height stride data] proper input that by (simp add: diff_mult_distrib)
  have run: "concat_run (map (\<lambda>y. let start = y * cc_stride input + l * 4
      in slice_run start (start + (r - l) * 4) (cc_data input)) [t..<b]) = Some (concat ?rows)"
    by (rule concat_run_Some) (use bound input in \<open>auto simp: slice_run_def Let_def\<close>)
  have len: "\<forall>row\<in>set ?rows. length row = (r - l) * 4" using bound by (auto simp: length_subslice)
  have total: "length (concat ?rows) = (b - t) * ((r - l) * 4)" using length_concat_rows [OF len] by simp
  have at: "concat ?rows ! (y * ((r - l) * 4) + (4 * x + c)) = data ! ((t + y) * stride + (l + x) * 4 + c)"
    if "x < r - l" "y < b - t" "c < 4" for x y c
  proof -
    have j: "4 * x + c < (r - l) * 4" using that by linarith
    have "concat ?rows ! (y * ((r - l) * 4) + (4 * x + c)) = ?row (t + y) ! (4 * x + c)"
      using nth_concat_rows [OF len _ j, of y] that by simp
    also have "\<dots> = data ! ((t + y) * stride + l * 4 + (4 * x + c))"
      using bound [of "t + y"] j that by (subst nth_subslice) auto
    finally show ?thesis by (simp add: algebra_simps)
  qed
  show ?thesis
  proof (cases "format = RgbA32 \<or> format = RgbX32")
    case False
    then show ?thesis using run total at input by (auto simp: rect_pixels_def source_channel_def)
  next
    case True
    have swapped: "swap_red_blue (concat ?rows) ! (y * ((r - l) * 4) + (4 * x + c)) =
        data ! ((t + y) * stride + (l + x) * 4 + source_channel format c)"
      if xy: "x < r - l" "y < b - t" "c < 4" for x y c
    proof -
      let ?i = "y * (r - l) + x"
      have i: "y * ((r - l) * 4) + (4 * x + k) = 4 * ?i + k" for k by (simp add: algebra_simps)
      have "4 * ?i + 3 < length (concat ?rows)"
        unfolding total using row_index_bound [OF xy(1,2)] by simp
      from nth_swap_red_blue [OF this xy(3)] show ?thesis
        using at [OF xy(1,2), of "source_channel format c"] True xy(3)
        unfolding i source_channel_def by (auto split: if_splits)
    qed
    from True show ?thesis using run total swapped input by (auto simp: rect_pixels_def)
  qed
qed

lemma rect_pixels_not_None:
  assumes "clearcodec_input_new data width height stride damage format = Inr input"
    and "width \<le> u16_max" "height \<le> u16_max" and "rect \<in> set (cc_rectangles input)"
  shows "rect_pixels input rect \<noteq> None"
proof -
  obtain l t r b where rect: "rect = (l, t, r, b)" by (cases rect) auto
  from rect_pixels_total [OF assms [unfolded rect]] obtain px where "rect_pixels input rect = Some px"
    unfolding rect by blast
  then show ?thesis by simp
qed

section \<open>Sessions\<close>

lemma encode_rectangles_total:
  assumes "\<And>rect. rect \<in> set rects \<Longrightarrow> rect_pixels input rect \<noteq> None"
  shows "\<exists>out e'. encode_rectangles enc input e rects = Some (out, e') \<and> map fst out = rects"
  using assms
proof (induction rects arbitrary: e)
  case Nil
  then show ?case by simp
next
  case (Cons rect rects)
  obtain l t r b where rect: "rect = (l, t, r, b)" by (cases rect) auto
  obtain px where px: "rect_pixels input rect = Some px"
    using Cons.prems [of rect] by auto
  obtain data e' where enc: "enc e px (r - l) (b - t) = (data, e')" by fastforce
  from Cons.IH [of e'] Cons.prems obtain out e'' where
    "encode_rectangles enc input e' rects = Some (out, e'')" "map fst out = rects" by auto
  with px enc show ?case by (simp add: rect)
qed

section \<open>Properties\<close>

text \<open>
  C14: An input is accepted exactly when its format is one of the four 32-bit ones, the frame is not
  empty, a row fits in the stride, the buffer length does not overflow and the buffer holds it; its
  rectangles are then pairwise disjoint, not empty, inside the frame, at most 64 pixels wide and
  high, and together they cover exactly the damaged pixels of the frame.
\<close>

theorem clearcodec_rectangles_exact:
  assumes "width \<le> u16_max" and "height \<le> u16_max"
  shows "case clearcodec_input_new data width height stride damage format of
      Inl _ \<Rightarrow> format = OtherFormat \<or> width = 0 \<or> height = 0 \<or> stride < width * 4 \<or>
        stride * height > u64_max \<or> length data < stride * height
    | Inr input \<Rightarrow> disjoint_rects (cc_rectangles input) \<and>
        (\<forall>x\<in>set (cc_rectangles input). proper_xrect width height x \<and>
           (case x of (l, t, r, b) \<Rightarrow> r - l \<le> 64 \<and> b - t \<le> 64)) \<and>
        (\<Union>x\<in>set (cc_rectangles input). xrect_cells x) = (\<Union>d\<in>set damage. cells d) \<inter> frame_cells width height"
proof (cases "clearcodec_input_new data width height stride damage format")
  case (Inl e)
  then show ?thesis
    by (cases format) (auto simp: clearcodec_input_new_def u64_checked_mul_def split: if_splits)
next
  case (Inr input)
  then show ?thesis
    using clearcodec_input_new_Inr [OF Inr] damage_tiles_disjoint [OF assms, of damage]
      damage_tiles_cover [OF assms, of damage] by simp
qed

theorem clearcodec_rectangles_exact_witness:
  "\<exists>input. clearcodec_input_new (replicate 320 0) 10 8 40 [(1, 2, 3, 4), (2, 2, 3, 4)] BgrA32 = Inr input \<and>
    (\<Union>x\<in>set (cc_rectangles input). xrect_cells x) =
      (\<Union>d\<in>set [(1, 2, 3, 4), (2, 2, 3, 4)]. cells d) \<inter> frame_cells 10 8"
proof -
  have "\<exists>input. clearcodec_input_new (replicate 320 0) 10 8 40 [(1, 2, 3, 4), (2, 2, 3, 4)] BgrA32 = Inr input"
    by (simp add: clearcodec_input_new_def u64_checked_mul_def)
  then show ?thesis
    using clearcodec_rectangles_exact [where width = 10 and height = 8 and data = "replicate 320 0" and stride = 40
        and damage = "[(1, 2, 3, 4), (2, 2, 3, 4)]" and format = BgrA32]
    by fastforce
qed

text \<open>
  The pixels of every rectangle of an accepted input are read without a panic: row by row they
  are the source pixels of the rectangle in blue, green, red, alpha order.
\<close>

theorem clearcodec_pixels_exact:
  assumes "clearcodec_input_new data width height stride damage format = Inr input"
    and "width \<le> u16_max" and "height \<le> u16_max" and "(l, t, r, b) \<in> set (cc_rectangles input)"
  shows "\<exists>px. rect_pixels input (l, t, r, b) = Some px \<and> length px = (b - t) * ((r - l) * 4) \<and>
    (\<forall>x y c. x < r - l \<and> y < b - t \<and> c < 4 \<longrightarrow>
       px ! (y * ((r - l) * 4) + (4 * x + c)) =
       data ! ((t + y) * stride + (l + x) * 4 + source_channel format c))"
  by (rule rect_pixels_total [OF assms])

theorem clearcodec_pixels_exact_witness:
  "\<exists>input px. clearcodec_input_new (map of_nat [0..<32]) 2 2 16 [(1, 0, 1, 2)] RgbA32 = Inr input \<and>
    rect_pixels input (1, 0, 2, 2) = Some px \<and> px ! 4 = 22"
proof -
  obtain input where new: "clearcodec_input_new (map of_nat [0..<32]) 2 2 16 [(1, 0, 1, 2)] RgbA32 = Inr input"
    by (simp add: clearcodec_input_new_def u64_checked_mul_def)
  have clip: "clip_u16 2 2 (1, 0, 1, 2) = Some (1, 0, 2, 2)"
    by (simp add: clip_u16_def clamp_def as_u16_def)
  have steps: "step_by_64 (Suc 0) 2 = [1]" "step_by_64 0 2 = [0]"
    by (simp_all add: step_by_64.simps)
  have "damage_tiles 2 2 [(1, 0, 1, 2)] = [(1, 0, 2, 2)]"
    by (simp add: damage_tiles_def clip band_edges_def bands_def band_tiles_def band_spans_def merge_spans_def
        push_span_def span_tiles_def steps u16_sat_add_def)
  then have rect: "(1, 0, 2, 2) \<in> set (cc_rectangles input)" using clearcodec_input_new_Inr [OF new] by simp
  have fits: "(2::nat) \<le> u16_max" by simp
  from clearcodec_pixels_exact [OF new fits fits rect] obtain px where
    px: "rect_pixels input (1, 0, 2, 2) = Some px"
      "\<forall>x y c. x < (2 - 1 :: nat) \<and> y < (2 - 0 :: nat) \<and> c < 4 \<longrightarrow>
       px ! (y * ((2 - 1) * 4) + (4 * x + c)) =
       map of_nat [0..<32] ! ((0 + y) * 16 + (1 + x) * 4 + source_channel RgbA32 c)"
    by blast
  from px(2) [rule_format, of 0 1 0] have "px ! 4 = 22" by (simp add: source_channel_def)
  with new px(1) show ?thesis by blast
qed

text \<open>
  A session whose last frame was committed encodes an accepted input without a panic, one output
  for each rectangle in order; until the frame is committed every further encode is refused and
  leaves the encoder alone; after the commit the session encodes again.
\<close>

theorem clearcodec_encode_needs_commit:
  assumes "clearcodec_input_new data width height stride damage format = Inr input"
    and "width \<le> u16_max" and "height \<le> u16_max" and "\<not> cc_uncommitted s"
  shows "\<exists>out s'. clearcodec_encode enc input s = Some (Inr out, s') \<and>
    map fst out = cc_rectangles input \<and>
    clearcodec_encode enc input' s' = Some (Inl NotCommitted, s') \<and>
    (\<exists>out' s''. clearcodec_encode enc input (clearcodec_commit s') = Some (Inr out', s''))"
proof -
  note total = rect_pixels_not_None [OF assms(1-3)]
  have runs: "\<exists>out e'. encode_rectangles enc input e (cc_rectangles input) = Some (out, e') \<and>
      map fst out = cc_rectangles input" for e
    by (rule encode_rectangles_total [OF total])
  from runs [of "cc_encoder s"] obtain out e' where
    out: "encode_rectangles enc input (cc_encoder s) (cc_rectangles input) = Some (out, e')"
      "map fst out = cc_rectangles input" by blast
  from runs [of e'] obtain out' e'' where
    "encode_rectangles enc input e' (cc_rectangles input) = Some (out', e'')" by blast
  with out assms(4) show ?thesis by (simp add: clearcodec_encode_def clearcodec_commit_def)
qed

theorem clearcodec_encode_needs_commit_witness:
  "\<exists>input out s'. clearcodec_input_new (replicate 16 7) 2 2 8 [(0, 0, 2, 2)] BgrX32 = Inr input \<and>
    clearcodec_encode (\<lambda>n px w h. (of_nat n # px, n + 1)) input (clearcodec_default (0::nat)) = Some (Inr out, s') \<and>
    clearcodec_encode (\<lambda>n px w h. (of_nat n # px, n + 1)) input s' = Some (Inl NotCommitted, s')"
proof -
  obtain input where new: "clearcodec_input_new (replicate 16 7) 2 2 8 [(0, 0, 2, 2)] BgrX32 = Inr input"
    by (simp add: clearcodec_input_new_def u64_checked_mul_def)
  from clearcodec_encode_needs_commit [OF new, of "clearcodec_default (0::nat)" "\<lambda>n px w h. (of_nat n # px, n + 1)" input]
  show ?thesis using new by (auto simp: clearcodec_default_def)
qed

end
