(* ===== verification/Transport.thy ===== *)
theory Transport
  imports FrameFlow Avc420 ClearCodec
begin

text \<open>
  Sending frames over the graphics channel (\<open>egfx/rdpegfx.rs\<close>): readiness, surfaces, the three send
  paths (AVC420, AVC444, ClearCodec) and the capture thread's session. The protocol server, the DVC
  and SVC encoders belong to other packages: they are the fields of the record \<open>gfx_ops\<close>, arguments
  of every operation. The world is the shared state, the ClearCodec session, the server's own state
  and the event channel. A frame's lease is named by the number \<open>f\<close> of its producer.
\<close>

section \<open>The world\<close>

datatype avc444_encoding = LumaAndChroma | Luma | Chroma

record ('srv, 'msg, 'svc, 'err) gfx_ops =
  srv_ready :: "'srv \<Rightarrow> bool"
  srv_backpressure :: "'srv \<Rightarrow> bool"
  srv_in_flight :: "'srv \<Rightarrow> nat"
  srv_queue_depth :: "'srv \<Rightarrow> nat"
  srv_channel_id :: "'srv \<Rightarrow> nat option"
  srv_surface :: "'srv \<Rightarrow> nat \<Rightarrow> (nat \<times> nat) option"
  srv_drain :: "'srv \<Rightarrow> 'msg list \<times> 'srv"
  srv_send_avc420 :: "nat \<Rightarrow> byte list \<Rightarrow> avc420_region list \<Rightarrow> nat \<Rightarrow> 'srv \<Rightarrow> nat option \<times> 'srv"
  srv_send_avc444 :: "nat \<Rightarrow> avc444_encoding \<Rightarrow> byte list \<Rightarrow> avc420_region list \<Rightarrow> byte list option
    \<Rightarrow> avc420_region list option \<Rightarrow> nat \<Rightarrow> 'srv \<Rightarrow> nat option \<times> 'srv"
  srv_send_mixed :: "nat \<Rightarrow> (xrect \<times> byte list) list \<Rightarrow> nat \<Rightarrow> 'srv \<Rightarrow> nat option \<times> 'srv"
  srv_resize :: "nat \<Rightarrow> nat \<Rightarrow> 'srv \<Rightarrow> 'srv"
  srv_set_output_dimensions :: "nat \<Rightarrow> nat \<Rightarrow> 'srv \<Rightarrow> 'srv"
  srv_create_surface :: "nat \<Rightarrow> nat \<Rightarrow> 'srv \<Rightarrow> nat option \<times> 'srv"
  srv_map_surface :: "nat \<Rightarrow> 'srv \<Rightarrow> 'srv"
  encode_dvc :: "nat \<Rightarrow> 'msg list \<Rightarrow> 'err + 'svc list"
  encode_svc :: "'svc \<Rightarrow> 'err + byte list"

datatype 'svc wire_batch = SetupBatch "'svc list" | FrameBatch nat "byte list list"

record ('srv, 'svc, 'e) egfx_world =
  shared :: egfx_shared
  codec :: "'e clearcodec_state"
  server :: 'srv
  channel_closed :: bool
  sent :: "'svc wire_batch list"

definition set_slots :: "(output_queue \<Rightarrow> output_queue) \<Rightarrow> ('srv, 'svc, 'e) egfx_world \<Rightarrow> ('srv, 'svc, 'e) egfx_world" where
  "set_slots g w = w\<lparr>shared := (shared w)\<lparr>output_slots := g (output_slots (shared w))\<rparr>\<rparr>"

text \<open>The reset that \<open>build_server_with_handle\<close> makes, with the ClearCodec session it replaces.\<close>

definition new_client :: "'e \<Rightarrow> 'srv \<Rightarrow> nat \<Rightarrow> ('srv, 'svc, 'e) egfx_world \<Rightarrow> ('srv, 'svc, 'e) egfx_world" where
  "new_client fresh srv handle w =
     w\<lparr>shared := build_server_with_handle handle (shared w), codec := clearcodec_default fresh, server := srv\<rparr>"

section \<open>Readiness\<close>

definition transport_frame_readiness :: "('srv, 'msg, 'svc, 'err) gfx_ops \<Rightarrow> 'srv \<Rightarrow> readiness" where
  "transport_frame_readiness ops srv =
     (if \<not> srv_ready ops srv then TransportNotReady
      else if srv_channel_id ops srv = None then TransportNoChannel
      else if srv_backpressure ops srv then TransportBackpressure (srv_in_flight ops srv) (srv_queue_depth ops srv)
      else Ready)"

definition frame_readiness :: "('srv, 'msg, 'svc, 'err) gfx_ops \<Rightarrow> ('srv, 'svc, 'e) egfx_world \<Rightarrow> readiness" where
  "frame_readiness ops w =
     (let s = shared w in
      if should_backpressure_frames s
      then LocalBackpressure (frames_in_flight s) (max_frames_in_flight s) (client_queue_depth s) (frame_ack_suspended s)
      else (case output_queue_readiness s of
          Some r \<Rightarrow> r
        | None \<Rightarrow> transport_frame_readiness ops (server w)))"

definition can_send_frame :: "('srv, 'msg, 'svc, 'err) gfx_ops \<Rightarrow> ('srv, 'svc, 'e) egfx_world \<Rightarrow> bool" where
  "can_send_frame ops w \<longleftrightarrow> frame_readiness ops w = Ready"

section \<open>Queueing and sending one frame\<close>

definition reserve_slot :: "nat \<Rightarrow> ('srv, 'svc, 'e) egfx_world \<Rightarrow> ('srv, 'svc, 'e) egfx_world option" where
  "reserve_slot f w =
     (if max_queued_output_frames \<le> oq_pending (output_slots (shared w)) then None
      else Some (set_slots (try_reserve f) w))"

text \<open>\<open>queue_rdpegfx_frame\<close>, with the frame's own send operation as \<open>queue_frame\<close>.\<close>

definition queue_rdpegfx_frame :: "('srv, 'msg, 'svc, 'err) gfx_ops \<Rightarrow> ('srv \<Rightarrow> nat option \<times> 'srv) \<Rightarrow> 'srv
    \<Rightarrow> (nat \<times> 'msg list \<times> nat) option \<times> 'srv" where
  "queue_rdpegfx_frame ops queue_frame srv =
     (if \<not> srv_ready ops srv then (None, srv)
      else if srv_backpressure ops srv then (None, srv)
      else (case srv_channel_id ops srv of
          None \<Rightarrow> (None, srv)
        | Some channel_id \<Rightarrow>
            (let (sent_id, srv1) = queue_frame srv in
             case sent_id of
               None \<Rightarrow> (None, srv1)
             | Some frame_id \<Rightarrow>
                 (let (msgs, srv2) = srv_drain ops srv1
                  in (if msgs = [] then None else Some (frame_id, msgs, channel_id), srv2)))))"

definition send_rdpegfx_dvc_messages :: "('srv, 'msg, 'svc, 'err) gfx_ops \<Rightarrow> nat \<Rightarrow> nat \<times> 'msg list \<times> nat
    \<Rightarrow> ('srv, 'svc, 'e) egfx_world \<Rightarrow> bool \<times> ('srv, 'svc, 'e) egfx_world" where
  "send_rdpegfx_dvc_messages ops f = (\<lambda>(frame_id, msgs, channel_id) w.
     (case encode_dvc ops channel_id msgs of
        Inl _ \<Rightarrow> (False, set_slots (drop_lease f) w)
      | Inr svc \<Rightarrow>
          (let (retained, slots) = retain_messages (encode_svc ops) f svc (output_slots (shared w));
               w1 = set_slots (\<lambda>_. slots) w
           in case retained of
                Inl _ \<Rightarrow> (False, w1)
              | Inr fragments \<Rightarrow>
                  if channel_closed w1 then (False, set_slots (drop_lease f ^^ length fragments) w1)
                  else (True, w1\<lparr>sent := sent w1 @ [FrameBatch frame_id fragments]\<rparr>))))"

text \<open>What both AVC paths do after their checks: reserve, queue, send, and account for the frame.\<close>

definition queue_and_send :: "('srv, 'msg, 'svc, 'err) gfx_ops \<Rightarrow> nat \<Rightarrow> ('srv \<Rightarrow> nat option \<times> 'srv)
    \<Rightarrow> ('srv, 'svc, 'e) egfx_world \<Rightarrow> bool \<times> ('srv, 'svc, 'e) egfx_world" where
  "queue_and_send ops f queue_frame w =
     (case reserve_slot f w of
        None \<Rightarrow> (False, w)
      | Some w1 \<Rightarrow>
          (case queue_rdpegfx_frame ops queue_frame (server w1) of
             (None, srv) \<Rightarrow> (False, set_slots (drop_lease f) (w1\<lparr>server := srv\<rparr>))
           | (Some queued, srv) \<Rightarrow>
               (case send_rdpegfx_dvc_messages ops f queued (w1\<lparr>server := srv\<rparr>) of
                  (False, w2) \<Rightarrow> (False, w2)
                | (True, w2) \<Rightarrow> (True, w2\<lparr>shared := record_frame_queued (fst queued) (shared w2)\<rparr>))))"

definition send_tracked_avc420 :: "('srv, 'msg, 'svc, 'err) gfx_ops \<Rightarrow> nat \<Rightarrow> nat \<Rightarrow> byte list
    \<Rightarrow> avc420_region list \<Rightarrow> nat \<Rightarrow> ('srv, 'svc, 'e) egfx_world \<Rightarrow> bool \<times> ('srv, 'svc, 'e) egfx_world" where
  "send_tracked_avc420 ops f surface_id h264_data regions timestamp w =
     (if \<not> can_send_frame ops w then (False, w)
      else if regions = [] then (False, w)
      else queue_and_send ops f (srv_send_avc420 ops surface_id h264_data regions timestamp) w)"

fun validate_avc444_send_shape :: "avc444_encoding \<Rightarrow> avc420_region list \<Rightarrow> byte list option
    \<Rightarrow> avc420_region list option \<Rightarrow> avc444_encoding option" where
  "validate_avc444_send_shape LumaAndChroma stream1_regions stream2_data stream2_regions =
     (if stream2_data = None \<or> stream2_regions = None \<or> stream2_regions = Some [] then None
      else if stream1_regions = [] then None else Some LumaAndChroma)"
| "validate_avc444_send_shape encoding stream1_regions stream2_data stream2_regions =
     (if stream2_data \<noteq> None \<or> stream2_regions \<noteq> None then None
      else if stream1_regions = [] then None else Some encoding)"

definition send_tracked_avc444 :: "('srv, 'msg, 'svc, 'err) gfx_ops \<Rightarrow> nat \<Rightarrow> nat \<Rightarrow> avc444_encoding \<Rightarrow> byte list
    \<Rightarrow> avc420_region list \<Rightarrow> byte list option \<Rightarrow> avc420_region list option \<Rightarrow> nat
    \<Rightarrow> ('srv, 'svc, 'e) egfx_world \<Rightarrow> bool \<times> ('srv, 'svc, 'e) egfx_world" where
  "send_tracked_avc444 ops f surface_id encoding stream1 regions1 stream2 regions2 timestamp w =
     (if channel_closed w then (False, w)
      else if \<not> can_send_frame ops w then (False, w)
      else (case validate_avc444_send_shape encoding regions1 stream2 regions2 of
          None \<Rightarrow> (False, w)
        | Some enc \<Rightarrow>
            queue_and_send ops f (srv_send_avc444 ops surface_id enc stream1 regions1 stream2 regions2 timestamp) w))"

text \<open>Encoded frames: \<open>sendable\<close> is \<open>state() = Sendable\<close>.\<close>

datatype encoded_frame =
    FrameAvc420 "byte list"
  | FrameAvc444 avc444_encoding "byte list" "region list" "byte list" "region list"

definition send_tracked_encoded_frame :: "('srv, 'msg, 'svc, 'err) gfx_ops \<Rightarrow> nat \<Rightarrow> nat \<Rightarrow> bool \<Rightarrow> encoded_frame
    \<Rightarrow> region list \<Rightarrow> nat \<Rightarrow> nat \<Rightarrow> nat \<Rightarrow> byte \<Rightarrow> ('srv, 'svc, 'e) egfx_world \<Rightarrow> bool \<times> ('srv, 'svc, 'e) egfx_world" where
  "send_tracked_encoded_frame ops f surface_id sendable frame damage timestamp width height quality w =
     (if \<not> sendable then (False, w)
      else (case frame of
          FrameAvc420 h264_data \<Rightarrow>
            (let regions = damage_regions_to_avc420 damage width height quality in
             if regions = []
             then send_tracked_avc420 ops f surface_id h264_data [avc420_full_frame_region width height quality] timestamp w
             else send_tracked_avc420 ops f surface_id h264_data regions timestamp w)
        | FrameAvc444 encoding stream1 damage1 stream2 damage2 \<Rightarrow>
            send_tracked_avc444 ops f surface_id encoding stream1
              (damage_regions_to_avc420 damage1 width height quality)
              (if damage2 = [] then None else Some stream2)
              (if damage2 = [] then None else Some (damage_regions_to_avc420 damage2 width height quality))
              timestamp w))"

section \<open>The ClearCodec path\<close>

datatype clear_error =
    BadInput clearcodec_error
  | SurfaceSizeMismatch
  | RejectedAfterEncode
  | ClosedAfterEncode

text \<open>
  The result: an error, \<open>None\<close> (retry later), or the number of bytes. The outer option is a panic
  while reading pixels.
\<close>

definition send_clearcodec_damage :: "('srv, 'msg, 'svc, 'err) gfx_ops
    \<Rightarrow> ('e \<Rightarrow> byte list \<Rightarrow> nat \<Rightarrow> nat \<Rightarrow> byte list \<times> 'e) \<Rightarrow> nat \<Rightarrow> nat \<Rightarrow> byte list \<Rightarrow> nat \<Rightarrow> nat \<Rightarrow> nat
    \<Rightarrow> region list \<Rightarrow> nat \<Rightarrow> pixel_format \<Rightarrow> ('srv, 'svc, 'e) egfx_world
    \<Rightarrow> ((clear_error + nat option) \<times> ('srv, 'svc, 'e) egfx_world) run" where
  "send_clearcodec_damage ops enc f surface_id data width height stride damage timestamp format w =
     (case clearcodec_input_new data width height stride damage format of
        Inl e \<Rightarrow> Some (Inl (BadInput e), w)
      | Inr input \<Rightarrow>
          if cc_rectangles input = [] \<or> channel_closed w \<or> \<not> ready (shared w) \<or> avc_enabled (shared w)
             \<or> should_backpressure_frames (shared w)
          then Some (Inr None, w)
          else if \<not> srv_ready ops (server w) \<or> srv_backpressure ops (server w) \<or> channel_closed w
          then Some (Inr None, w)
          else (case srv_channel_id ops (server w) of
              None \<Rightarrow> Some (Inr None, w)
            | Some channel_id \<Rightarrow>
                (case srv_surface ops (server w) surface_id of
                   None \<Rightarrow> Some (Inr None, w)
                 | Some (sw, sh) \<Rightarrow>
                     if \<not> (sw = width \<and> sh = height) then Some (Inl SurfaceSizeMismatch, w)
                     else (case reserve_slot f w of
                         None \<Rightarrow> Some (Inr None, w)
                       | Some w1 \<Rightarrow> do {
                           (encoded, codec') \<leftarrow> clearcodec_encode enc input (codec w1);
                           (case encoded of
                              Inl e \<Rightarrow> Some (Inl (BadInput e), set_slots (drop_lease f) (w1\<lparr>codec := codec'\<rparr>))
                            | Inr tiles \<Rightarrow>
                                (let w2 = w1\<lparr>codec := codec'\<rparr>;
                                     bytes = sum_list (map (length \<circ> snd) tiles);
                                     (sent_id, srv1) = srv_send_mixed ops surface_id tiles timestamp (server w2)
                                 in case sent_id of
                                      None \<Rightarrow> Some (Inl RejectedAfterEncode,
                                        set_slots (drop_lease f) (w2\<lparr>server := srv1\<rparr>))
                                    | Some frame_id \<Rightarrow>
                                        (let (msgs, srv2) = srv_drain ops srv1
                                         in case send_rdpegfx_dvc_messages ops f (frame_id, msgs, channel_id)
                                                   (w2\<lparr>server := srv2\<rparr>) of
                                              (False, w3) \<Rightarrow> Some (Inl ClosedAfterEncode, w3)
                                            | (True, w3) \<Rightarrow> Some (Inr (Some bytes),
                                                w3\<lparr>codec := clearcodec_commit (codec w3),
                                                   shared := record_frame_queued frame_id (shared w3)\<rparr>))))
                         }))))"

section \<open>Surfaces and resizing\<close>

definition send_setup :: "('srv, 'msg, 'svc, 'err) gfx_ops \<Rightarrow> nat \<Rightarrow> 'msg list \<Rightarrow> ('srv, 'svc, 'e) egfx_world
    \<Rightarrow> bool \<times> ('srv, 'svc, 'e) egfx_world" where
  "send_setup ops channel_id msgs w = (case encode_dvc ops channel_id msgs of
     Inl _ \<Rightarrow> (False, w)
   | Inr svc \<Rightarrow> if channel_closed w then (False, w) else (True, w\<lparr>sent := sent w @ [SetupBatch svc]\<rparr>))"

definition prepare_for_resize :: "('srv, 'msg, 'svc, 'err) gfx_ops \<Rightarrow> nat \<Rightarrow> nat \<Rightarrow> ('srv, 'svc, 'e) egfx_world
    \<Rightarrow> ('srv, 'svc, 'e) egfx_world" where
  "prepare_for_resize ops width height w =
     (if gfx_handle (shared w) = None \<or> event_sender (shared w) = None then w
      else if \<not> srv_ready ops (server w) then w
      else (case srv_channel_id ops (server w) of
          None \<Rightarrow> w
        | Some channel_id \<Rightarrow>
            (let (msgs, srv) = srv_drain ops (srv_resize ops width height (server w));
                 w1 = w\<lparr>server := srv, shared := clear_current_surface (shared w)\<rparr>;
                 bump = (\<lambda>s. let s' = clear_frame_queue s
                             in s'\<lparr>ready_generation := u32_add (ready_generation s') 1\<rparr>)
             in if msgs \<noteq> []
                then (case send_setup ops channel_id msgs w1 of
                    (False, w2) \<Rightarrow> w2
                  | (True, w2) \<Rightarrow> w2\<lparr>shared := bump (shared w2)\<rparr>)
                else w1\<lparr>shared := bump (shared w1)\<rparr>)))"

definition init_surface :: "('srv, 'msg, 'svc, 'err) gfx_ops \<Rightarrow> nat \<Rightarrow> nat \<Rightarrow> ('srv, 'svc, 'e) egfx_world
    \<Rightarrow> nat option \<times> ('srv, 'svc, 'e) egfx_world" where
  "init_surface ops width height w =
     (if channel_closed w then (None, w)
      else if \<not> srv_ready ops (server w) then (None, w)
      else (case srv_channel_id ops (server w) of
          None \<Rightarrow> (None, w)
        | Some channel_id \<Rightarrow>
            (let (created, srv1) = srv_create_surface ops width height
                   (srv_set_output_dimensions ops width height (server w))
             in case created of
                  None \<Rightarrow> (None, w\<lparr>server := srv1\<rparr>)
                | Some sid \<Rightarrow>
                    (let (msgs, srv2) = srv_drain ops (srv_map_surface ops sid srv1);
                         w1 = w\<lparr>server := srv2\<rparr>
                     in if msgs \<noteq> []
                        then (case send_setup ops channel_id msgs w1 of
                            (False, w2) \<Rightarrow> (None, w2)
                          | (True, w2) \<Rightarrow> (Some sid, w2))
                        else (Some sid, w1)))))"

definition init_or_reuse_surface :: "('srv, 'msg, 'svc, 'err) gfx_ops \<Rightarrow> nat \<Rightarrow> nat \<Rightarrow> ('srv, 'svc, 'e) egfx_world
    \<Rightarrow> nat option \<times> ('srv, 'svc, 'e) egfx_world" where
  "init_or_reuse_surface ops width height w =
     (let fresh = (\<lambda>w. case init_surface ops width height w of
            (None, w1) \<Rightarrow> (None, w1)
          | (Some sid, w1) \<Rightarrow> (Some sid, w1\<lparr>shared := set_current_surface sid width height (shared w1)\<rparr>))
      in case current_surface_id (shared w) width height of
           Some sid \<Rightarrow>
             if srv_ready ops (server w) \<and> srv_surface ops (server w) sid \<noteq> None then (Some sid, w)
             else fresh (w\<lparr>shared := clear_current_surface (shared w)\<rparr>)
         | None \<Rightarrow> fresh w)"

section \<open>The capture thread's session\<close>

record frame_session =
  fs_ready :: bool
  fs_generation :: nat
  fs_handle :: "nat option"
  fs_sender :: "nat option"
  fs_surface_id :: "nat option"

definition frame_session_new :: frame_session where
  "frame_session_new = \<lparr>fs_ready = False, fs_generation = 0, fs_handle = None, fs_sender = None, fs_surface_id = None\<rparr>"

definition reset_transport :: "frame_session \<Rightarrow> frame_session" where
  "reset_transport fs = fs\<lparr>fs_handle := None, fs_sender := None, fs_surface_id := None\<rparr>"

text \<open>The result is (ready, became unready, generation changed).\<close>

definition session_refresh :: "egfx_shared \<Rightarrow> frame_session \<Rightarrow> (bool \<times> bool \<times> bool) \<times> frame_session" where
  "session_refresh s fs =
     (let now_ready = (ready s \<and> avc_enabled s);
          became_unready = (fs_ready fs \<and> \<not> now_ready);
          generation_changed = (ready_generation s \<noteq> fs_generation fs);
          fs1 = fs\<lparr>fs_ready := now_ready\<rparr>;
          fs2 = (if became_unready then reset_transport fs1 else fs1);
          fs3 = (if generation_changed
                 then fs2\<lparr>fs_generation := ready_generation s, fs_surface_id := None\<rparr> else fs2);
          fs4 = (if now_ready \<and> (fs_handle fs3 = None \<or> fs_sender fs3 = None)
                 then fs3\<lparr>fs_handle := gfx_handle s, fs_sender := event_sender s\<rparr> else fs3)
      in ((now_ready, became_unready, generation_changed), fs4))"

definition session_ensure_surface :: "('srv, 'msg, 'svc, 'err) gfx_ops \<Rightarrow> nat \<Rightarrow> nat \<Rightarrow> frame_session
    \<Rightarrow> ('srv, 'svc, 'e) egfx_world \<Rightarrow> bool \<times> frame_session \<times> ('srv, 'svc, 'e) egfx_world" where
  "session_ensure_surface ops width height fs w =
     (if \<not> fs_ready fs then (False, fs, w)
      else if fs_surface_id fs \<noteq> None then (True, fs, w)
      else if fs_handle fs = None \<or> fs_sender fs = None then (False, fs, w)
      else (let (sid, w1) = init_or_reuse_surface ops width height w
            in (sid \<noteq> None, fs\<lparr>fs_surface_id := sid\<rparr>, w1)))"

definition session_send_encoded_frame :: "('srv, 'msg, 'svc, 'err) gfx_ops \<Rightarrow> nat \<Rightarrow> frame_session \<Rightarrow> bool
    \<Rightarrow> encoded_frame \<Rightarrow> region list \<Rightarrow> nat \<Rightarrow> nat \<Rightarrow> nat \<Rightarrow> byte \<Rightarrow> ('srv, 'svc, 'e) egfx_world
    \<Rightarrow> bool \<times> ('srv, 'svc, 'e) egfx_world" where
  "session_send_encoded_frame ops f fs sendable frame damage timestamp width height quality w =
     (case (fs_handle fs, fs_sender fs, fs_surface_id fs) of
        (Some _, Some _, Some surface_id) \<Rightarrow>
          send_tracked_encoded_frame ops f surface_id sendable frame damage timestamp width height quality w
      | _ \<Rightarrow> (False, w))"

section \<open>Slots along a send\<close>

definition slots :: "('srv, 'svc, 'e) egfx_world \<Rightarrow> output_queue" where
  "slots w = output_slots (shared w)"

text \<open>A world that differs in its slots and in the server's own state only.\<close>

definition with_slots :: "output_queue \<Rightarrow> 'srv \<Rightarrow> ('srv, 'svc, 'e) egfx_world \<Rightarrow> ('srv, 'svc, 'e) egfx_world" where
  "with_slots q srv w = w\<lparr>shared := (shared w)\<lparr>output_slots := q\<rparr>, server := srv\<rparr>"

lemma with_slots_simps [simp]:
  "shared (with_slots q srv w) = (shared w)\<lparr>output_slots := q\<rparr>"
  "server (with_slots q srv w) = srv"
  "codec (with_slots q srv w) = codec w"
  "sent (with_slots q srv w) = sent w"
  "channel_closed (with_slots q srv w) = channel_closed w"
  "set_slots g (with_slots q srv w) = with_slots (g q) srv w"
  by (simp_all add: with_slots_def set_slots_def)

lemma with_slots_updates [simp]:
  "(with_slots q srv w)\<lparr>codec := c\<rparr> = with_slots q srv (w\<lparr>codec := c\<rparr>)"
  "(with_slots q srv w)\<lparr>server := srv'\<rparr> = with_slots q srv' w"
  by (cases w; simp add: with_slots_def)+

definition fresh_producer :: "nat \<Rightarrow> ('srv, 'svc, 'e) egfx_world \<Rightarrow> bool" where
  "fresh_producer f w \<longleftrightarrow> oq_inv (slots w) \<and> oq_producers (slots w) f = Idle"

lemma reserve_slot_cases:
  assumes "fresh_producer f w"
  shows "reserve_slot f w = (if oq_pending (slots w) \<le> 2
    then Some (with_slots (slot_held f 1 (slots w)) (server w) w) else None)"
  using assms try_reserve_held [of "slots w" f]
  by (auto simp: reserve_slot_def fresh_producer_def slots_def max_queued_output_frames_def with_slots_def set_slots_def)

lemma send_messages_cases:
  assumes "oq_pending q \<le> 2"
  shows "send_rdpegfx_dvc_messages ops f (frame_id, msgs, channel_id) (with_slots (slot_held f 1 q) srv w) =
        (False, with_slots (slot_freed f q) srv w) \<or>
    (\<exists>fs. send_rdpegfx_dvc_messages ops f (frame_id, msgs, channel_id) (with_slots (slot_held f 1 q) srv w) =
        (True, (with_slots (if fs = [] then slot_freed f q else slot_held f (length fs) q) srv w)
                 \<lparr>sent := sent w @ [FrameBatch frame_id fs]\<rparr>))"
proof (cases "encode_dvc ops channel_id msgs")
  case (Inl e)
  then show ?thesis using drop_held_once [OF assms, of f] by (simp add: send_rdpegfx_dvc_messages_def)
next
  case (Inr svc)
  note retained = retain_messages_held [OF assms, of "encode_svc ops" f svc]
  show ?thesis
  proof (cases "encode_fragments (encode_svc ops) svc")
    case Inl': (Inl e)
    with Inr retained show ?thesis by (simp add: send_rdpegfx_dvc_messages_def)
  next
    case Inr': (Inr fs)
    show ?thesis
    proof (cases "channel_closed w")
      case True
      have "(drop_lease f ^^ length fs) (if fs = [] then slot_freed f q else slot_held f (length fs) q) = slot_freed f q"
        using drop_held [OF _ assms, of "length fs" f] by (cases fs) simp_all
      with Inr Inr' retained True show ?thesis by (simp add: send_rdpegfx_dvc_messages_def)
    next
      case False
      with Inr Inr' retained show ?thesis by (simp add: send_rdpegfx_dvc_messages_def) blast
    qed
  qed
qed

text \<open>What a refused send leaves, and what a sent frame does.\<close>

definition refused :: "nat \<Rightarrow> ('srv, 'svc, 'e) egfx_world \<Rightarrow> ('srv, 'svc, 'e) egfx_world \<Rightarrow> bool" where
  "refused f w w' \<longleftrightarrow> (\<exists>srv q. w' = with_slots q srv w \<and> (q = slots w \<or> q = slot_freed f (slots w)))"

definition frame_sent :: "nat \<Rightarrow> nat \<Rightarrow> ('srv, 'svc, 'e) egfx_world \<Rightarrow> ('srv, 'svc, 'e) egfx_world \<Rightarrow> bool" where
  "frame_sent f frame_id w w' \<longleftrightarrow> (\<exists>fs q. sent w' = sent w @ [FrameBatch frame_id fs] \<and>
     q = (if fs = [] then slot_freed f (slots w) else slot_held f (length fs) (slots w)) \<and> slots w' = q \<and>
     shared w' = record_frame_queued frame_id ((shared w)\<lparr>output_slots := q\<rparr>))"

definition send_outcome :: "nat \<Rightarrow> ('srv, 'svc, 'e) egfx_world \<Rightarrow> bool \<Rightarrow> ('srv, 'svc, 'e) egfx_world \<Rightarrow> bool" where
  "send_outcome f w ok w' \<longleftrightarrow>
     (if ok then oq_pending (slots w) \<le> 2 \<and> codec w' = codec w \<and> (\<exists>frame_id. frame_sent f frame_id w w')
      else refused f w w')"

lemma with_slots_same: "with_slots (slots w) (server w) w = w"
  by (simp add: with_slots_def slots_def)

lemma refused_outcome [simp]: "send_outcome f w False w"
  unfolding refused_def send_outcome_def by (metis with_slots_same)

lemma queue_and_send_cases:
  assumes fresh: "fresh_producer f w" and run: "queue_and_send ops f queue_frame w = (ok, w')"
  shows "send_outcome f w ok w'"
proof (cases "oq_pending (slots w) \<le> 2")
  case False
  then show ?thesis using run reserve_slot_cases [OF fresh] by (auto simp: queue_and_send_def)
next
  case True
  let ?q = "slots w"
  have reserve: "reserve_slot f w = Some (with_slots (slot_held f 1 ?q) (server w) w)"
    using reserve_slot_cases [OF fresh] True by simp
  have server_set: "(with_slots q s w)\<lparr>server := s'\<rparr> = with_slots q s' w" for q s s'
    by (simp add: with_slots_def)
  obtain queued srv where queue: "queue_rdpegfx_frame ops queue_frame (server w) = (queued, srv)" by fastforce
  show ?thesis
  proof (cases queued)
    case None
    then have "ok = False" "w' = with_slots (slot_freed f ?q) srv w"
      using run reserve queue drop_held_once [OF True, of f]
      by (simp_all add: queue_and_send_def server_set)
    then show ?thesis unfolding send_outcome_def refused_def by auto
  next
    case (Some job)
    obtain frame_id msgs channel_id where job: "job = (frame_id, msgs, channel_id)" by (cases job) auto
    from send_messages_cases [OF True, of ops f frame_id msgs channel_id srv w] show ?thesis
    proof (elim disjE exE)
      assume "send_rdpegfx_dvc_messages ops f (frame_id, msgs, channel_id) (with_slots (slot_held f 1 ?q) srv w) =
        (False, with_slots (slot_freed f ?q) srv w)"
      with run reserve queue Some have "ok = False" "w' = with_slots (slot_freed f ?q) srv w"
        by (simp_all add: queue_and_send_def server_set job)
      then show ?thesis unfolding send_outcome_def refused_def by auto
    next
      fix fs :: "byte list list"
      let ?q' = "if fs = [] then slot_freed f ?q else slot_held f (length fs) ?q"
      let ?w = "(with_slots ?q' srv w)\<lparr>sent := sent w @ [FrameBatch frame_id fs]\<rparr>"
      assume "send_rdpegfx_dvc_messages ops f (frame_id, msgs, channel_id) (with_slots (slot_held f 1 ?q) srv w) =
        (True, ?w)"
      with run reserve queue Some have "ok = True" and w': "w' = ?w\<lparr>shared := record_frame_queued frame_id (shared ?w)\<rparr>"
        by (simp_all add: queue_and_send_def server_set job)
      moreover have "frame_sent f frame_id w w'"
        unfolding frame_sent_def w' by (simp add: slots_def record_frame_queued_def)
      ultimately show ?thesis using True unfolding send_outcome_def by auto
    qed
  qed
qed

lemma send_tracked_avc420_cases:
  assumes "fresh_producer f w" and "send_tracked_avc420 ops f surface_id data regions timestamp w = (ok, w')"
  shows "send_outcome f w ok w' \<and> (ok \<longrightarrow> can_send_frame ops w \<and> regions \<noteq> [])"
  using assms(2) queue_and_send_cases [OF assms(1)]
  by (simp add: send_tracked_avc420_def split: if_splits) auto

lemma send_tracked_avc444_cases:
  assumes "fresh_producer f w"
    and "send_tracked_avc444 ops f surface_id encoding s1 r1 s2 r2 timestamp w = (ok, w')"
  shows "send_outcome f w ok w' \<and>
    (ok \<longrightarrow> can_send_frame ops w \<and> validate_avc444_send_shape encoding r1 s2 r2 \<noteq> None)"
  using assms(2) queue_and_send_cases [OF assms(1)]
  by (simp add: send_tracked_avc444_def split: if_splits option.splits) auto

lemma send_tracked_encoded_cases:
  assumes "fresh_producer f w"
    and "send_tracked_encoded_frame ops f surface_id sendable frame damage timestamp width height quality w = (ok, w')"
  shows "send_outcome f w ok w' \<and> (ok \<longrightarrow> sendable \<and> can_send_frame ops w)"
proof (cases "\<not> sendable")
  case True
  with assms(2) show ?thesis by (simp add: send_tracked_encoded_frame_def)
next
  case False
  show ?thesis
  proof (cases frame)
    case (FrameAvc420 data)
    with False assms(2) show ?thesis
      using send_tracked_avc420_cases [OF assms(1), of ops surface_id data _ timestamp ok w']
      by (simp add: send_tracked_encoded_frame_def Let_def split: if_splits) blast+
  next
    case (FrameAvc444 encoding s1 d1 s2 d2)
    with False assms(2) show ?thesis
      using send_tracked_avc444_cases [OF assms(1), of ops surface_id encoding s1 _ _ _ timestamp ok w']
      by (simp add: send_tracked_encoded_frame_def Let_def) blast
  qed
qed

lemma can_send_frame_open:
  "can_send_frame ops w \<Longrightarrow> \<not> should_backpressure_frames (shared w) \<and> oq_pending (slots w) < max_queued_output_frames \<and>
     srv_ready ops (server w) \<and> srv_channel_id ops (server w) \<noteq> None \<and> \<not> srv_backpressure ops (server w)"
  by (auto simp: can_send_frame_def frame_readiness_def output_queue_readiness_def transport_frame_readiness_def
      slots_def Let_def split: if_splits)

section \<open>The session's invariant\<close>

datatype ('srv, 'msg, 'svc, 'err, 'e) session_event =
    Refresh egfx_shared
  | EnsureSurface "('srv, 'msg, 'svc, 'err) gfx_ops" nat nat "('srv, 'svc, 'e) egfx_world"

fun session_step :: "frame_session \<Rightarrow> ('srv, 'msg, 'svc, 'err, 'e) session_event \<Rightarrow> frame_session" where
  "session_step fs (Refresh s) = snd (session_refresh s fs)"
| "session_step fs (EnsureSurface ops width height w) = fst (snd (session_ensure_surface ops width height fs w))"

definition session_inv :: "frame_session \<Rightarrow> bool" where
  "session_inv fs \<longleftrightarrow>
     (\<not> fs_ready fs \<longrightarrow> fs_handle fs = None \<and> fs_sender fs = None \<and> fs_surface_id fs = None)"

lemma session_step_keeps: "session_inv fs \<Longrightarrow> session_inv (session_step fs e)"
  by (cases e)
    (auto simp: session_inv_def session_refresh_def session_ensure_surface_def reset_transport_def Let_def
      split: prod.splits)

interpretation session: event_system session_step "\<lambda>_. True" session_inv
  by unfold_locales (rule session_step_keeps)

section \<open>Properties\<close>

text \<open>
  C11: Sending an encoded frame is all or nothing: a frame is sent only while the local window, the
  output slots and the transport are open, and then exactly one batch is appended, the frame is
  accounted for, and its fragments hold one slot; a refused frame changes neither the accounting nor
  the channel and keeps no slot. Neither touches the ClearCodec session.
\<close>

theorem encoded_frame_send_atomic:
  assumes "oq_inv (output_slots (shared w))" and "oq_producers (output_slots (shared w)) f = Idle"
    and "send_tracked_encoded_frame ops f surface_id sendable frame damage timestamp width height quality w = (ok, w')"
  shows "codec w' = codec w \<and> oq_inv (output_slots (shared w')) \<and>
    (if ok then sendable \<and> \<not> should_backpressure_frames (shared w) \<and> srv_ready ops (server w) \<and>
        (\<exists>frame_id fragments. sent w' = sent w @ [FrameBatch frame_id fragments] \<and>
           last_queued_frame_id (shared w') = frame_id \<and>
           frames_in_flight (shared w') = u32_add (frames_in_flight (shared w)) 1 \<and>
           oq_pending (output_slots (shared w')) = oq_pending (output_slots (shared w)) + (if fragments = [] then 0 else 1))
     else sent w' = sent w \<and> oq_pending (output_slots (shared w')) = oq_pending (output_slots (shared w)) \<and>
        frames_in_flight (shared w') = frames_in_flight (shared w) \<and>
        total_queued_frames (shared w') = total_queued_frames (shared w))"
proof -
  have fresh: "fresh_producer f w" using assms(1,2) by (simp add: fresh_producer_def slots_def)
  note outcome = send_tracked_encoded_cases [OF fresh assms(3)]
  show ?thesis
  proof (cases ok)
    case False
    then obtain srv q where "w' = with_slots q srv w" "q = slots w \<or> q = slot_freed f (slots w)"
      using outcome by (auto simp: send_outcome_def refused_def)
    then show ?thesis
      using False assms(1,2) oq_inv_freed [OF assms(1,2)] by (auto simp: slots_def)
  next
    case True
    then have open': "sendable" "can_send_frame ops w" "oq_pending (slots w) \<le> 2" "codec w' = codec w"
      and "\<exists>frame_id. frame_sent f frame_id w w'" using outcome by (simp_all add: send_outcome_def)
    then obtain frame_id fs where s: "sent w' = sent w @ [FrameBatch frame_id fs]"
      "slots w' = (if fs = [] then slot_freed f (slots w) else slot_held f (length fs) (slots w))"
      "shared w' = record_frame_queued frame_id ((shared w)\<lparr>output_slots := slots w'\<rparr>)"
      unfolding frame_sent_def by metis
    have inv: "oq_inv (slots w')"
      using oq_inv_freed [OF assms(1,2)] oq_inv_held [OF assms(1,2), of "length fs"] open'(3) s(2)
      by (simp add: slots_def Suc_le_eq)
    have shared': "frames_in_flight (shared w') = u32_add (frames_in_flight (shared w)) 1"
      "last_queued_frame_id (shared w') = frame_id"
      by (subst s(3), simp add: record_frame_queued_def)+
    have pending: "oq_pending (slots w') = oq_pending (slots w) + (if fs = [] then 0 else 1)"
      using s(2) by simp
    note gates = can_send_frame_open [OF open'(2)]
    have "\<exists>frame_id fragments. sent w' = sent w @ [FrameBatch frame_id fragments] \<and>
           last_queued_frame_id (shared w') = frame_id \<and>
           frames_in_flight (shared w') = u32_add (frames_in_flight (shared w)) 1 \<and>
           oq_pending (output_slots (shared w')) = oq_pending (output_slots (shared w)) + (if fragments = [] then 0 else 1)"
      by (intro exI conjI, rule s(1), rule shared'(2), rule shared'(1), rule pending [unfolded slots_def])
    with True open' inv gates show ?thesis by (simp add: slots_def)
  qed
qed

text \<open>A concrete server: always ready, one message per frame, identifiers counted up.\<close>

definition loopback_ops :: "(nat, nat, byte list, unit) gfx_ops" where
  "loopback_ops = \<lparr>srv_ready = (\<lambda>_. True), srv_backpressure = (\<lambda>_. False), srv_in_flight = (\<lambda>_. 0),
     srv_queue_depth = (\<lambda>_. 0), srv_channel_id = (\<lambda>_. Some 7), srv_surface = (\<lambda>_ _. Some (2, 2)),
     srv_drain = (\<lambda>n. ([n], n)), srv_send_avc420 = (\<lambda>_ _ _ _ n. (Some n, n + 1)),
     srv_send_avc444 = (\<lambda>_ _ _ _ _ _ _ n. (Some n, n + 1)), srv_send_mixed = (\<lambda>_ _ _ n. (Some n, n + 1)),
     srv_resize = (\<lambda>_ _ n. n), srv_set_output_dimensions = (\<lambda>_ _ n. n),
     srv_create_surface = (\<lambda>_ _ n. (Some 1, n)), srv_map_surface = (\<lambda>_ n. n),
     encode_dvc = (\<lambda>_ msgs. Inr (map (\<lambda>m. [of_nat m]) msgs)), encode_svc = Inr\<rparr>"

definition loopback_world :: "(nat, byte list, nat) egfx_world" where
  "loopback_world = \<lparr>shared = on_ready False V8 (with_codec_policy 3 PolicyAuto), codec = clearcodec_default 0,
     server = 1, channel_closed = False, sent = []\<rparr>"

lemmas loopback_defs = loopback_ops_def loopback_world_def flow_defs with_codec_policy_def
  capability_avc_support_def allows_avc_def

lemma loopback_slots: "output_slots (shared loopback_world) = output_queue_default"
  by (simp add: loopback_defs Let_def)

theorem encoded_frame_send_atomic_witness:
  "\<exists>w'. send_tracked_encoded_frame loopback_ops 0 1 True (FrameAvc420 [1, 2]) [] 5 2 2 23 loopback_world = (True, w') \<and>
     frames_in_flight (shared w') = 1"
proof -
  have open': "can_send_frame loopback_ops loopback_world"
    by (simp add: can_send_frame_def frame_readiness_def transport_frame_readiness_def output_queue_readiness_def
        should_backpressure_frames_def max_frames_in_flight_def loopback_defs output_queue_default_def
        max_queued_output_frames_def Let_def)
  obtain ok w' where run: "send_tracked_encoded_frame loopback_ops 0 1 True (FrameAvc420 [1, 2]) [] 5 2 2 23 loopback_world = (ok, w')"
    by fastforce
  have ok
  proof -
    have fresh: "fresh_producer 0 loopback_world"
      unfolding fresh_producer_def slots_def loopback_slots using oq_inv_default
      by (simp add: output_queue_default_def)
    have room: "oq_pending output_queue_default \<le> 2" by (simp add: output_queue_default_def)
    have reserve: "reserve_slot 0 loopback_world = Some (with_slots (slot_held 0 1 output_queue_default) 1 loopback_world)"
      using reserve_slot_cases [OF fresh] room by (simp add: slots_def loopback_slots) (simp add: loopback_world_def)
    note retained = retain_messages_held [OF room, of "Inr :: byte list \<Rightarrow> unit + byte list" 0 "[[2]]"]
    show ?thesis
      using run open' reserve retained
      by (simp add: send_tracked_encoded_frame_def damage_regions_to_avc420_def send_tracked_avc420_def
          queue_and_send_def queue_rdpegfx_frame_def send_rdpegfx_dvc_messages_def with_slots_def set_slots_def
          loopback_ops_def loopback_world_def Let_def)
  qed
  have slots: "oq_inv (output_slots (shared loopback_world))" "oq_producers (output_slots (shared loopback_world)) 0 = Idle"
    unfolding loopback_slots using oq_inv_default by (simp_all add: output_queue_default_def)
  have "frames_in_flight (shared loopback_world) = 0" by (simp add: loopback_defs Let_def)
  with encoded_frame_send_atomic [OF slots run] \<open>ok\<close> have "frames_in_flight (shared w') = 1"
    by (simp only: if_True u32_add_def) auto
  with run \<open>ok\<close> show ?thesis by simp
qed

lemma clearcodec_send_cases:
  assumes fresh: "fresh_producer f w" and "width \<le> u16_max" and "height \<le> u16_max"
  shows "\<exists>result w'. send_clearcodec_damage ops enc f surface_id data width height stride damage timestamp format w =
      Some (result, w') \<and>
    (case result of
       Inr None \<Rightarrow> w' = w
     | Inr (Some bytes) \<Rightarrow> \<not> cc_uncommitted (codec w) \<and> \<not> cc_uncommitted (codec w') \<and>
         (\<exists>frame_id fragments. sent w' = sent w @ [FrameBatch frame_id fragments]) \<and>
         frames_in_flight (shared w') = u32_add (frames_in_flight (shared w)) 1
     | Inl e \<Rightarrow> sent w' = sent w \<and> frames_in_flight (shared w') = frames_in_flight (shared w) \<and>
         oq_pending (output_slots (shared w')) = oq_pending (output_slots (shared w)) \<and>
         (codec w' = codec w \<or> cc_uncommitted (codec w') \<and> \<not> cc_uncommitted (codec w)) \<and>
         (e = RejectedAfterEncode \<or> e = ClosedAfterEncode \<longrightarrow> cc_uncommitted (codec w')))"
    (is "\<exists>result w'. ?run = Some (result, w') \<and> ?post result w'")
proof -
  have stop: ?thesis if "?run = Some (result, w)" "case result of Inr None \<Rightarrow> True | Inr (Some _) \<Rightarrow> False
      | Inl e \<Rightarrow> \<not> (e = RejectedAfterEncode \<or> e = ClosedAfterEncode)" for result
    using that by (intro exI [of _ result] exI [of _ w]) (auto split: sum.splits option.splits)
  show ?thesis
  proof (cases "clearcodec_input_new data width height stride damage format")
    case (Inl e)
    then show ?thesis by (intro stop [of "Inl (BadInput e)"]) (simp_all add: send_clearcodec_damage_def)
  next
    case (Inr input)
    note input = Inr
    let ?early = "cc_rectangles input = [] \<or> channel_closed w \<or> \<not> ready (shared w) \<or> avc_enabled (shared w)
        \<or> should_backpressure_frames (shared w) \<or> \<not> srv_ready ops (server w) \<or> srv_backpressure ops (server w)
        \<or> srv_channel_id ops (server w) = None \<or> srv_surface ops (server w) surface_id = None"
    show ?thesis
    proof (cases ?early)
      case True
      then show ?thesis by (intro stop [of "Inr None"]) (auto simp: send_clearcodec_damage_def input split: option.splits)
    next
      case False
      then obtain channel_id sw sh where srv: "srv_channel_id ops (server w) = Some channel_id"
        "srv_surface ops (server w) surface_id = Some (sw, sh)" by auto
      show ?thesis
      proof (cases "sw = width \<and> sh = height")
        case mismatch: False
        then show ?thesis
          using False by (intro stop [of "Inl SurfaceSizeMismatch"]) (auto simp: send_clearcodec_damage_def input srv)
      next
        case size: True
        show ?thesis
        proof (cases "oq_pending (slots w) \<le> 2")
          case full: False
          then show ?thesis
            using False size reserve_slot_cases [OF fresh]
            by (intro stop [of "Inr None"]) (auto simp: send_clearcodec_damage_def input srv)
        next
          case room: True
          let ?q = "slots w"
          let ?w1 = "with_slots (slot_held f 1 ?q) (server w) w"
          have reserve: "reserve_slot f w = Some ?w1" using reserve_slot_cases [OF fresh] room by simp
          note run = send_clearcodec_damage_def [of ops enc f surface_id data width height stride damage timestamp format w,
              unfolded input sum.case srv option.case prod.case reserve]
          have pending: "oq_pending (output_slots (shared w)) = oq_pending ?q" by (simp add: slots_def)
          show ?thesis
          proof (cases "cc_uncommitted (codec w)")
            case True
            then have "clearcodec_encode enc input (codec w) = Some (Inl NotCommitted, codec w)"
              by (simp add: clearcodec_encode_def)
            then have "?run = Some (Inl (BadInput NotCommitted), with_slots (slot_freed f ?q) (server w) w)"
              using run False size drop_held_once [OF room, of f]
              by (simp add: with_slots_def set_slots_def)
            then show ?thesis by (auto simp: pending)
          next
            case committed: False
            note total = rect_pixels_not_None [OF input assms(2,3)]
            have "\<exists>out e'. encode_rectangles enc input (cc_encoder (codec w)) (cc_rectangles input) = Some (out, e') \<and>
                map fst out = cc_rectangles input" by (rule encode_rectangles_total [OF total])
            then obtain out e' where "encode_rectangles enc input (cc_encoder (codec w)) (cc_rectangles input) = Some (out, e')"
              by blast
            then obtain codec' where encode: "clearcodec_encode enc input (codec w) = Some (Inr out, codec')"
              and dirty: "cc_uncommitted codec'"
              using committed by (simp add: clearcodec_encode_def)
            obtain sent_id srv1 where mixed: "srv_send_mixed ops surface_id out timestamp (server w) = (sent_id, srv1)"
              by fastforce
            show ?thesis
            proof (cases sent_id)
              case None
              have "?run = Some (Inl RejectedAfterEncode, with_slots (slot_freed f ?q) srv1 (w\<lparr>codec := codec'\<rparr>))"
                using run False size encode mixed None drop_held_once [OF room, of f] by (simp add: Let_def)
              then show ?thesis by (auto simp: pending dirty committed)
            next
              case (Some frame_id)
              obtain msgs srv2 where drain: "srv_drain ops srv1 = (msgs, srv2)" by fastforce
              let ?w = "w\<lparr>codec := codec'\<rparr>"
              let ?bytes = "sum_list (map (length \<circ> snd) out)"
              have slots_w: "slots ?w = ?q" by (simp add: slots_def)
              have run2: "?run = (case send_rdpegfx_dvc_messages ops f (frame_id, msgs, channel_id)
                    (with_slots (slot_held f 1 ?q) srv2 ?w) of
                  (False, w3) \<Rightarrow> Some (Inl ClosedAfterEncode, w3)
                | (True, w3) \<Rightarrow> Some (Inr (Some ?bytes), w3\<lparr>codec := clearcodec_commit (codec w3),
                      shared := record_frame_queued frame_id (shared w3)\<rparr>))"
                using run False size encode mixed Some drain by (simp add: Let_def)
              from send_messages_cases [OF room, of ops f frame_id msgs channel_id srv2 ?w] show ?thesis
              proof (elim disjE exE)
                assume "send_rdpegfx_dvc_messages ops f (frame_id, msgs, channel_id)
                    (with_slots (slot_held f 1 ?q) srv2 ?w) = (False, with_slots (slot_freed f ?q) srv2 ?w)"
                then show ?thesis unfolding run2 by (auto simp: pending dirty committed)
              next
                fix fs :: "byte list list"
                assume "send_rdpegfx_dvc_messages ops f (frame_id, msgs, channel_id)
                    (with_slots (slot_held f 1 ?q) srv2 ?w) =
                  (True, (with_slots (if fs = [] then slot_freed f ?q else slot_held f (length fs) ?q) srv2 ?w)
                     \<lparr>sent := sent ?w @ [FrameBatch frame_id fs]\<rparr>)"
                then show ?thesis unfolding run2
                  by (auto simp: committed clearcodec_commit_def record_frame_queued_def)
              qed
            qed
          qed
        qed
      qed
    qed
  qed
qed

text \<open>
  C2: The ClearCodec send never panics and never lets the encoder run ahead of the wire: asking to
  retry changes nothing at all, a sent frame is committed, accounted for and appended once, an error
  after encoding leaves the session uncommitted with nothing sent, and an uncommitted session never
  sends or encodes again.
\<close>

theorem clearcodec_send_never_skips:
  assumes "oq_inv (output_slots (shared w))" and "oq_producers (output_slots (shared w)) f = Idle"
    and "width \<le> u16_max" and "height \<le> u16_max"
  shows "\<exists>result w'. send_clearcodec_damage ops enc f surface_id data width height stride damage timestamp format w =
      Some (result, w') \<and>
    (case result of
       Inr None \<Rightarrow> w' = w
     | Inr (Some bytes) \<Rightarrow> \<not> cc_uncommitted (codec w) \<and> \<not> cc_uncommitted (codec w') \<and>
         (\<exists>frame_id fragments. sent w' = sent w @ [FrameBatch frame_id fragments]) \<and>
         frames_in_flight (shared w') = u32_add (frames_in_flight (shared w)) 1
     | Inl e \<Rightarrow> sent w' = sent w \<and> frames_in_flight (shared w') = frames_in_flight (shared w) \<and>
         oq_pending (output_slots (shared w')) = oq_pending (output_slots (shared w)) \<and>
         (codec w' = codec w \<or> cc_uncommitted (codec w') \<and> \<not> cc_uncommitted (codec w)) \<and>
         (e = RejectedAfterEncode \<or> e = ClosedAfterEncode \<longrightarrow> cc_uncommitted (codec w')))"
  by (rule clearcodec_send_cases [OF _ assms(3,4)]) (use assms(1,2) in \<open>simp add: fresh_producer_def slots_def\<close>)

theorem clearcodec_send_never_skips_witness:
  "\<exists>result w'. send_clearcodec_damage loopback_ops (\<lambda>n px w h. (of_nat n # px, n + 1)) 0 1 (replicate 16 9) 2 2 8
      [(0, 0, 2, 2)] 5 BgrA32 loopback_world = Some (result, w') \<and> (result = Inr None \<longrightarrow> w' = loopback_world)"
proof -
  have "oq_inv (output_slots (shared loopback_world))" "oq_producers (output_slots (shared loopback_world)) 0 = Idle"
    unfolding loopback_slots using oq_inv_default by (simp_all add: output_queue_default_def)
  from clearcodec_send_never_skips [OF this, of 2 2 loopback_ops "\<lambda>n px w h. (of_nat n # px, n + 1)" 1 "replicate 16 9" 8
      "[(0, 0, 2, 2)]" 5 BgrA32]
  show ?thesis by fastforce
qed

text \<open>
  The shape check of an AVC444 frame accepts exactly the three protocol shapes: both streams with
  regions, or one stream alone, and always a non-empty region list for the first stream.
\<close>

theorem avc444_shape_exact:
  "validate_avc444_send_shape encoding regions1 data2 regions2 =
     (if regions1 \<noteq> [] \<and>
        (if encoding = LumaAndChroma then data2 \<noteq> None \<and> (\<exists>r rs. regions2 = Some (r # rs))
         else data2 = None \<and> regions2 = None)
      then Some encoding else None)"
proof (cases encoding)
  case LumaAndChroma
  then show ?thesis by (cases regions2; cases "the regions2") auto
qed auto

text \<open>
  The capture thread's session holds a transport only while the graphics channel is ready with
  AVC; once a refresh sees the channel closed, AVC off, or a new generation, nothing is sent until
  a surface is made again.
\<close>

theorem session_never_sends_stale:
  assumes "fs = run_events session_step frame_session_new es"
    and "session_refresh s fs = ((now_ready, became_unready, generation_changed), fs')"
    and "\<not> (ready s \<and> avc_enabled s) \<or> ready_generation s \<noteq> fs_generation fs"
  shows "session_send_encoded_frame ops f fs' sendable frame damage timestamp width height quality w = (False, w) \<and>
    fs_generation fs' = ready_generation s \<and> (now_ready \<longleftrightarrow> ready s \<and> avc_enabled s)"
proof -
  have "session_inv frame_session_new" by (simp add: session_inv_def frame_session_new_def)
  then have inv: "session_inv fs" unfolding assms(1) by (rule session.run_keeps) (simp add: list_all_iff)
  have "fs_surface_id fs' = None"
    using assms(2,3) inv by (auto simp: session_refresh_def session_inv_def reset_transport_def Let_def split: if_splits)
  moreover have "fs_generation fs' = ready_generation s \<and> (now_ready \<longleftrightarrow> ready s \<and> avc_enabled s)"
    using assms(2) by (auto simp: session_refresh_def reset_transport_def Let_def split: if_splits)
  ultimately show ?thesis by (simp add: session_send_encoded_frame_def split: option.splits)
qed

theorem session_never_sends_stale_witness:
  "session_send_encoded_frame loopback_ops 0 (snd (session_refresh (with_codec_policy 3 PolicyAuto) frame_session_new))
     True (FrameAvc420 [1]) [] 0 2 2 23 loopback_world = (False, loopback_world)"
  using session_never_sends_stale [of frame_session_new "[]" "with_codec_policy 3 PolicyAuto"
      "fst (fst (session_refresh (with_codec_policy 3 PolicyAuto) frame_session_new))"
      "fst (snd (fst (session_refresh (with_codec_policy 3 PolicyAuto) frame_session_new)))"
      "snd (snd (fst (session_refresh (with_codec_policy 3 PolicyAuto) frame_session_new)))"
      "snd (session_refresh (with_codec_policy 3 PolicyAuto) frame_session_new)"
      loopback_ops 0 True "FrameAvc420 [1]" "[]" 0 2 2 23 loopback_world]
  by (simp add: with_codec_policy_def)

end
