(* ===== verification/H264.thy ===== *)
theory H264
  imports YuvConversion Transport
begin

text \<open>
  The software H.264 encoder of \<open>src/src/egfx/h264.rs\<close> around OpenH264, which is a parameter: the scan
  for start codes, the extraction of the parameter sets, their cache, and the encoding of a BGRA buffer
  and of prepared planes.

  \<open>parameter_sets_exact\<close> shows what the scans return on a well-formed Annex B stream (\<open>nal_clean\<close>
  payloads behind start codes of three or four bytes).
\<close>

section \<open>H.264 bit streams\<close>

text \<open>The start code at an index: its length, or \<open>None\<close>.\<close>

definition start_code_at :: "byte list \<Rightarrow> nat \<Rightarrow> nat option" where
  "start_code_at data i =
     (if i + 4 \<le> length data \<and> subslice i (i + 4) data = [0, 0, 0, 1] then Some 4
      else if i + 3 \<le> length data \<and> subslice i (i + 3) data = [0, 0, 1] then Some 3
      else None)"

definition nal_type_of :: "byte \<Rightarrow> nat" where
  "nal_type_of b = unat b mod 32"

text \<open>The inner search of \<open>extract_sps_pps\<close>: the end of the unit that starts before \<open>j\<close>.\<close>

function nal_end_from :: "byte list \<Rightarrow> nat \<Rightarrow> nat" where
  "nal_end_from data j =
     (if j + 2 < length data
      then if subslice j (j + 3) data = [0, 0, 1] \<or> (j + 3 < length data \<and> subslice j (j + 4) data = [0, 0, 0, 1])
           then if 0 < j \<and> data ! (j - 1) = 0 then j - 1 else j
           else nal_end_from data (j + 1)
      else length data)"
  by pat_completeness auto
termination
  by (relation "measure (\<lambda>(data, j). length data - j)") auto

declare nal_end_from.simps [simp del]

lemma nal_end_from_ge: "j \<le> length data \<Longrightarrow> j \<le> Suc (nal_end_from data j) \<and> nal_end_from data j \<le> length data"
proof (induction data j rule: nal_end_from.induct)
  case (1 data j)
  then show ?case by (subst nal_end_from.simps, subst (2) nal_end_from.simps) auto
qed

function extract_loop :: "byte list \<Rightarrow> nat \<Rightarrow> byte list \<Rightarrow> byte list" where
  "extract_loop data i acc =
     (if length data \<le> i then acc
      else case start_code_at data i of
          None \<Rightarrow> extract_loop data (i + 1) acc
        | Some start_code_len \<Rightarrow>
            (let nal_start = i + start_code_len in
             if length data \<le> nal_start then acc
             else let nal_type = nal_type_of (data ! nal_start);
                      nal_end = nal_end_from data (nal_start + 1)
                  in extract_loop data nal_end
                       (if nal_type = 7 \<or> nal_type = 8 then acc @ subslice i nal_end data else acc)))"
  by pat_completeness auto
termination
proof (relation "measure (\<lambda>(data, i, acc). length data - i)")
  fix data :: "byte list" and i acc n nal_start nal_type nal_end
  assume "\<not> length data \<le> i" "start_code_at data i = Some n" "nal_start = i + n" "\<not> length data \<le> nal_start"
    "nal_end = nal_end_from data (nal_start + 1)"
  moreover from this have "0 < n" by (auto simp: start_code_at_def split: if_splits)
  moreover have "nal_start + 1 \<le> Suc nal_end" using nal_end_from_ge [of "nal_start + 1" data] calculation by auto
  ultimately show "((data, nal_end, if nal_type = 7 \<or> nal_type = 8 then acc @ subslice i nal_end data else acc), (data, i, acc))
      \<in> measure (\<lambda>(data, i, acc). length data - i)" by auto
qed auto

declare extract_loop.simps [simp del]

definition extract_sps_pps :: "byte list \<Rightarrow> byte list option" where
  "extract_sps_pps data = (let sps_pps = extract_loop data 0 [] in if sps_pps = [] then None else Some sps_pps)"

function nal_types_loop :: "byte list \<Rightarrow> nat \<Rightarrow> nat list" where
  "nal_types_loop data i =
     (if length data \<le> i then []
      else case start_code_at data i of
          None \<Rightarrow> nal_types_loop data (i + 1)
        | Some start_code_len \<Rightarrow>
            (let nal_start = i + start_code_len in
             if length data \<le> nal_start then []
             else nal_type_of (data ! nal_start) # nal_types_loop data (nal_start + 1)))"
  by pat_completeness auto
termination
  by (relation "measure (\<lambda>(data, i). length data - i)") auto

declare nal_types_loop.simps [simp del]

definition annex_b_nal_types :: "byte list \<Rightarrow> nat list" where
  "annex_b_nal_types data = nal_types_loop data 0"

section \<open>The encoder\<close>

text \<open>
  OpenH264 is a parameter: \<open>oh_encode\<close> takes the planes and returns the bit stream with its type, or
  \<open>None\<close> on an error; \<open>oh_force_intra\<close> makes the next frame an IDR. The conversion of the \<open>yuv\<close>
  package is the parameter \<open>convert\<close> of \<open>h264_encode\<close>.
\<close>

datatype openh264_type = OhInvalid | OhIdr | OhI | OhP | OhSkip | OhIPMixed

datatype h264_frame_type = SkipFrame | IdrFrame | IFrame | PFrame

record encoded_h264 =
  eh_data :: "byte list"
  eh_type :: h264_frame_type

record 'o openh264 =
  oh_encode :: "yuv420 \<Rightarrow> 'o \<Rightarrow> (byte list \<times> openh264_type) option \<times> 'o"
  oh_force_intra :: "'o \<Rightarrow> 'o"

record 'o h264_encoder =
  he_encoder :: 'o
  he_width :: nat
  he_height :: nat
  he_planes :: yuv420
  he_sps_pps :: "byte list option"

definition empty_h264 :: encoded_h264 where
  "empty_h264 = \<lparr>eh_data = [], eh_type = SkipFrame\<rparr>"

definition is_h264_keyframe :: "h264_frame_type \<Rightarrow> bool" where
  "is_h264_keyframe t \<longleftrightarrow> t = IdrFrame \<or> t = IFrame"

fun frame_type_of :: "openh264_type \<Rightarrow> h264_frame_type" where
  "frame_type_of OhSkip = SkipFrame"
| "frame_type_of OhInvalid = SkipFrame"
| "frame_type_of OhIdr = IdrFrame"
| "frame_type_of OhI = IFrame"
| "frame_type_of OhP = PFrame"
| "frame_type_of OhIPMixed = PFrame"

definition apply_sps_pps_cache :: "h264_frame_type \<Rightarrow> byte list \<Rightarrow> bool \<Rightarrow> byte list option \<Rightarrow> byte list \<times> byte list option" where
  "apply_sps_pps_cache t data prepend cached =
     (if data = [] then (data, cached)
      else if is_h264_keyframe t
      then (data, case extract_sps_pps data of Some s \<Rightarrow> Some s | None \<Rightarrow> cached)
      else if prepend
      then (case cached of Some s \<Rightarrow> (s @ data, cached) | None \<Rightarrow> (data, cached))
      else (data, cached))"

definition encode_yuv_source :: "'o openh264 \<Rightarrow> bool \<Rightarrow> yuv420 \<Rightarrow> 'o h264_encoder \<Rightarrow> encoded_h264 option \<times> 'o h264_encoder" where
  "encode_yuv_source oh prepend yuv s =
     (case oh_encode oh yuv (he_encoder s) of
        (None, st) \<Rightarrow> (None, s\<lparr>he_encoder := st\<rparr>)
      | (Some (bits, t), st) \<Rightarrow>
          (let frame_type = frame_type_of t;
               (data, cached) = apply_sps_pps_cache frame_type bits prepend (he_sps_pps s)
           in (Some \<lparr>eh_data = data, eh_type = frame_type\<rparr>, s\<lparr>he_encoder := st, he_sps_pps := cached\<rparr>)))"

definition encode_yuv420_with_options :: "'o openh264 \<Rightarrow> bool \<Rightarrow> yuv420 \<Rightarrow> 'o h264_encoder \<Rightarrow> encoded_h264 option \<times> 'o h264_encoder" where
  "encode_yuv420_with_options oh prepend p s =
     (let y_len = he_width s * he_height s; uv_len = (he_width s div 2) * (he_height s div 2)
      in if length (y_plane p) < y_len \<or> length (u_plane p) < uv_len \<or> length (v_plane p) < uv_len then (None, s)
         else encode_yuv_source oh prepend \<lparr>y_plane = take y_len (y_plane p), u_plane = take uv_len (u_plane p),
                v_plane = take uv_len (v_plane p)\<rparr> s)"

definition encode_yuv420_raw :: "'o openh264 \<Rightarrow> yuv420 \<Rightarrow> 'o h264_encoder \<Rightarrow> encoded_h264 option \<times> 'o h264_encoder" where
  "encode_yuv420_raw oh p s = encode_yuv420_with_options oh False p s"

definition validate_bgra_buffer :: "nat \<Rightarrow> nat \<Rightarrow> nat \<Rightarrow> nat \<Rightarrow> bool" where
  "validate_bgra_buffer width height stride len \<longleftrightarrow>
     (case u64_checked_mul width 4 of None \<Rightarrow> False
      | Some minimum_stride \<Rightarrow> minimum_stride \<le> stride \<and>
          (case u64_checked_mul height stride of None \<Rightarrow> False | Some required_len \<Rightarrow> required_len \<le> len))"

definition convert_to_yuv420 :: "(byte list \<Rightarrow> nat \<Rightarrow> yuv420 \<Rightarrow> bool \<times> yuv420) \<Rightarrow> nat \<Rightarrow> nat \<Rightarrow> byte list \<Rightarrow> nat \<Rightarrow> yuv420 \<Rightarrow> bool \<times> yuv420" where
  "convert_to_yuv420 convert width height bgra stride buf =
     (case (u64_checked_mul width height, u64_checked_mul (width div 2) (height div 2)) of
        (Some y_len, Some uv_len) \<Rightarrow>
          if length (y_plane buf) < y_len \<or> length (u_plane buf) < uv_len \<or> length (v_plane buf) < uv_len then (False, buf)
          else convert bgra stride buf
      | _ \<Rightarrow> (False, buf))"

definition h264_encode :: "'o openh264 \<Rightarrow> (byte list \<Rightarrow> nat \<Rightarrow> yuv420 \<Rightarrow> bool \<times> yuv420) \<Rightarrow> byte list \<Rightarrow> nat \<Rightarrow> 'o h264_encoder \<Rightarrow>
    byte list option \<times> 'o h264_encoder" where
  "h264_encode oh convert bgra stride s =
     (if \<not> validate_bgra_buffer (he_width s) (he_height s) stride (length bgra) then (None, s)
      else (case convert_to_yuv420 convert (he_width s) (he_height s) bgra stride (he_planes s) of
          (False, buf) \<Rightarrow> (None, s\<lparr>he_planes := buf\<rparr>)
        | (True, buf) \<Rightarrow>
            (let (encoded, s') = encode_yuv_source oh True buf (s\<lparr>he_planes := buf\<rparr>)
             in (map_option eh_data encoded, s'))))"

definition h264_force_idr :: "'o openh264 \<Rightarrow> 'o h264_encoder \<Rightarrow> 'o h264_encoder" where
  "h264_force_idr oh s = s\<lparr>he_encoder := oh_force_intra oh (he_encoder s)\<rparr>"

text \<open>A new encoder; \<open>created\<close> is what \<open>Encoder::with_api_config\<close> returned.\<close>

definition h264_new :: "'o option \<Rightarrow> nat \<Rightarrow> nat \<Rightarrow> 'o h264_encoder option" where
  "h264_new created width height =
     (if width = 0 \<or> height = 0 \<or> width mod 2 \<noteq> 0 \<or> height mod 2 \<noteq> 0 then None
      else map_option (\<lambda>e. \<lparr>he_encoder = e, he_width = width, he_height = height,
        he_planes = \<lparr>y_plane = replicate (width * height) 0,
          u_plane = replicate ((width div 2) * (height div 2)) 0,
          v_plane = replicate ((width div 2) * (height div 2)) 0\<rparr>,
        he_sps_pps = None\<rparr>) created)"

section \<open>Well-formed Annex B streams\<close>

text \<open>
  A stream of units, each a start code of four or three bytes and a payload. A payload has no start
  code inside and does not end in a zero byte, as the emulation prevention of H.264 guarantees.
\<close>

type_synonym nal_unit = "bool \<times> byte list"

definition unit_bytes :: "nal_unit \<Rightarrow> byte list" where
  "unit_bytes u = (if fst u then [0, 0, 0, 1] else [0, 0, 1]) @ snd u"

fun nal_clean :: "byte list \<Rightarrow> bool" where
  "nal_clean [] = False"
| "nal_clean [b] = (b \<noteq> 0)"
| "nal_clean [b, c] = (c \<noteq> 0)"
| "nal_clean (b # c # d # s) = (\<not> (b = 0 \<and> c = 0 \<and> (d = 0 \<or> d = 1)) \<and> nal_clean (c # d # s))"

definition annex_b :: "nal_unit list \<Rightarrow> byte list" where
  "annex_b units = concat (map unit_bytes units)"

definition parameter_set :: "nal_unit \<Rightarrow> bool" where
  "parameter_set u \<longleftrightarrow> nal_type_of (hd (snd u)) = 7 \<or> nal_type_of (hd (snd u)) = 8"

lemma nal_clean_last: "nal_clean s \<Longrightarrow> s \<noteq> [] \<and> last s \<noteq> 0"
  by (induction s rule: nal_clean.induct) auto

lemma nal_clean_tl: "nal_clean (b # s) \<Longrightarrow> s = [] \<or> nal_clean s"
  by (cases "b # s" rule: nal_clean.cases) auto

lemma subslice_append: "subslice (length pre) (length pre + n) (pre @ t) = take n t"
  by (simp add: subslice_def)

lemma nal_end_step:
  "nal_end_from (pre @ t) (length pre) =
    (if 2 < length t
     then if take 3 t = [0, 0, 1] \<or> take 4 t = [0, 0, 0, 1] then if pre \<noteq> [] \<and> last pre = 0 then length pre - 1 else length pre
          else nal_end_from (pre @ t) (length pre + 1)
     else length pre + length t)"
proof -
  have four: "3 < length t" if "take 4 t = [0, 0, 0, 1 :: byte]"
    using arg_cong [OF that, of length] by simp
  have last: "(pre @ t) ! (length pre - 1) = last pre" if "pre \<noteq> []"
    using that by (simp add: last_conv_nth nth_append)
  show ?thesis
    by (subst nal_end_from.simps) (use four last in \<open>auto simp: subslice_append simp del: One_nat_def\<close>)
qed

lemma clean_no_code: "nal_clean (s :: byte list) \<Longrightarrow> take 3 (s @ rest) \<noteq> [0, 0, 1] \<and> take 4 (s @ rest) \<noteq> [0, 0, 0, 1]"
  by (cases s rule: nal_clean.cases) auto

definition code_or_end :: "byte list \<Rightarrow> bool" where
  "code_or_end rest \<longleftrightarrow> rest = [] \<or> (2 < length rest \<and> (take 3 rest = [0, 0, 1] \<or> take 4 rest = [0, 0, 0, 1]))"

lemma annex_b_code: "code_or_end (annex_b units)"
  by (cases units) (auto simp: code_or_end_def annex_b_def unit_bytes_def)

lemma nal_end_scan:
  assumes "s = [] \<or> nal_clean s" and "pre \<noteq> []" and "s = [] \<Longrightarrow> last pre \<noteq> 0" and rest: "code_or_end rest"
  shows "nal_end_from (pre @ s @ rest) (length pre) = length pre + length s"
  using assms(1-3)
proof (induction s arbitrary: pre)
  case Nil
  then show ?case using rest nal_end_step [of pre rest] by (auto simp: code_or_end_def)
next
  case (Cons b s)
  then have clean: "nal_clean (b # s)" by simp
  have IH: "nal_end_from ((pre @ [b]) @ s @ rest) (length (pre @ [b])) = length (pre @ [b]) + length s"
    using nal_clean_tl [OF clean] clean by (intro Cons.IH) auto
  show ?case
  proof (cases "2 < length ((b # s) @ rest)")
    case True
    then have "nal_end_from (pre @ (b # s) @ rest) (length pre) = nal_end_from (pre @ (b # s) @ rest) (length pre + 1)"
      using nal_end_step [of pre "(b # s) @ rest"] clean_no_code [OF clean, of rest] by (simp only: if_True if_False simp_thms)
    then show ?thesis using IH by simp
  next
    case False
    then have "rest = []" using rest by (auto simp: code_or_end_def)
    then show ?thesis using nal_end_step [of pre "(b # s) @ rest"] False by simp
  qed
qed

lemma start_code_unit:
  assumes "nal_clean (snd u)"
  shows "start_code_at (pre @ unit_bytes u @ rest) (length pre) = Some (length (unit_bytes u) - length (snd u))"
proof -
  have "snd u \<noteq> []" using nal_clean_last [OF assms] by simp
  then show ?thesis
    by (cases "snd u") (auto simp: start_code_at_def subslice_append unit_bytes_def)
qed

lemma types_skip:
  assumes "s = [] \<or> nal_clean s" and rest: "code_or_end rest"
  shows "nal_types_loop (pre @ s @ rest) (length pre) = nal_types_loop (pre @ s @ rest) (length (pre @ s))"
  using assms(1)
proof (induction s arbitrary: pre)
  case Nil
  then show ?case by simp
next
  case (Cons b s)
  then have clean: "nal_clean (b # s)" by simp
  have "start_code_at (pre @ (b # s) @ rest) (length pre) = None"
    using clean_no_code [OF clean, of rest] unfolding start_code_at_def subslice_append by simp
  then have "nal_types_loop (pre @ (b # s) @ rest) (length pre) = nal_types_loop (pre @ (b # s) @ rest) (length (pre @ [b]))"
    by (subst nal_types_loop.simps) simp
  also have "\<dots> = nal_types_loop ((pre @ [b]) @ s @ rest) (length ((pre @ [b]) @ s))"
    using Cons.IH [of "pre @ [b]"] nal_clean_tl [OF clean] by simp
  finally show ?case by simp
qed

lemma extract_loop_units:
  assumes "list_all (\<lambda>u. nal_clean (snd u)) units"
  shows "extract_loop (pre @ annex_b units) (length pre) acc = acc @ concat (map unit_bytes (filter parameter_set units))"
  using assms
proof (induction units arbitrary: pre acc)
  case Nil
  then show ?case by (simp add: annex_b_def extract_loop.simps)
next
  case (Cons u units)
  obtain h t where p: "snd u = h # t" using nal_clean_last [of "snd u"] Cons.prems by (cases "snd u") auto
  define code where "code = (if fst u then [0, 0, 0, 1] else [0, 0, 1 :: byte])"
  have ub: "unit_bytes u = code @ h # t" by (simp add: unit_bytes_def code_def p)
  let ?data = "pre @ annex_b (u # units)"
  have data: "?data = (pre @ code) @ h # t @ annex_b units" "?data = pre @ unit_bytes u @ annex_b units"
    by (simp_all add: annex_b_def ub)
  have clean: "nal_clean (h # t)" using Cons.prems p by simp
  have start: "start_code_at ?data (length pre) = Some (length code)"
    using start_code_unit [of u pre "annex_b units"] clean by (simp add: data(2) p ub)
  have fin: "nal_end_from ?data (length pre + length code + 1) = length (pre @ unit_bytes u)"
    using nal_end_scan [OF nal_clean_tl [OF clean], of "pre @ code @ [h]" "annex_b units"] clean annex_b_code
    by (cases t) (simp_all add: data(1) ub add.assoc)
  have head: "?data ! (length pre + length code) = h" by (simp add: data(1) nth_append)
  have lim: "\<not> length ?data \<le> length pre" "\<not> length ?data \<le> length pre + length code" by (simp_all add: data(1))
  have cut: "subslice (length pre) (length (pre @ unit_bytes u)) ?data = unit_bytes u"
    using subslice_append [of pre "length (unit_bytes u)" "unit_bytes u @ annex_b units"] by (simp add: data(2))
  have "extract_loop ?data (length pre) acc =
      extract_loop ?data (length (pre @ unit_bytes u)) (if parameter_set u then acc @ unit_bytes u else acc)"
    by (subst extract_loop.simps)
      (use start fin head cut lim in \<open>simp only: if_False option.case Let_def parameter_set_def p list.sel\<close>)
  also have "\<dots> = (if parameter_set u then acc @ unit_bytes u else acc) @ concat (map unit_bytes (filter parameter_set units))"
    using Cons.IH [of "pre @ unit_bytes u"] Cons.prems by (simp add: data(2))
  finally show ?case by simp
qed

lemma types_units:
  assumes "list_all (\<lambda>u. nal_clean (snd u)) units"
  shows "nal_types_loop (pre @ annex_b units) (length pre) = map (\<lambda>u. nal_type_of (hd (snd u))) units"
  using assms
proof (induction units arbitrary: pre)
  case Nil
  then show ?case by (simp add: annex_b_def nal_types_loop.simps)
next
  case (Cons u units)
  obtain h t where p: "snd u = h # t" using nal_clean_last [of "snd u"] Cons.prems by (cases "snd u") auto
  define code where "code = (if fst u then [0, 0, 0, 1] else [0, 0, 1 :: byte])"
  have ub: "unit_bytes u = code @ h # t" by (simp add: unit_bytes_def code_def p)
  let ?data = "pre @ annex_b (u # units)"
  have data: "?data = (pre @ code @ [h]) @ t @ annex_b units" "?data = (pre @ unit_bytes u) @ annex_b units"
    by (simp_all add: annex_b_def ub)
  have clean: "nal_clean (h # t)" using Cons.prems p by simp
  have start: "start_code_at ?data (length pre) = Some (length code)"
    using start_code_unit [of u pre "annex_b units"] clean by (simp add: annex_b_def p ub)
  have head: "?data ! (length pre + length code) = h" by (simp add: data(1) nth_append)
  have len: "length pre + length code + 1 = length (pre @ code @ [h])" by simp
  have "nal_types_loop ?data (length pre) = nal_type_of h # nal_types_loop ?data (length (pre @ code @ [h]))"
    by (subst nal_types_loop.simps) (use start head len in \<open>auto simp: Let_def annex_b_def ub\<close>)
  also have "nal_types_loop ?data (length (pre @ code @ [h])) = nal_types_loop ?data (length (pre @ unit_bytes u))"
    using types_skip [of t "annex_b units" "pre @ code @ [h]"] nal_clean_tl [OF clean] annex_b_code by (auto simp: data(1) ub)
  also have "\<dots> = map (\<lambda>u. nal_type_of (hd (snd u))) units"
    using Cons.IH [of "pre @ unit_bytes u"] Cons.prems by (simp add: data(2))
  finally show ?case by (simp add: p)
qed

section \<open>Properties\<close>

text \<open>
  C36: On a well-formed Annex B stream the scan finds exactly the units: the types in order, and as
  parameter sets the units of type 7 and 8, with their start codes. A predicted frame that follows a
  keyframe in the cache is sent behind the parameter sets of that keyframe and is otherwise unchanged.
\<close>

theorem parameter_sets_exact:
  assumes "list_all (\<lambda>u. nal_clean (snd u)) units" and "key = annex_b units" and "key \<noteq> []"
  shows "annex_b_nal_types key = map (\<lambda>u. nal_type_of (hd (snd u))) units \<and>
    extract_sps_pps key = (let sets = concat (map unit_bytes (filter parameter_set units)) in
      if sets = [] then None else Some sets) \<and>
    (\<forall>t sets. is_h264_keyframe t \<and> extract_sps_pps key = Some sets \<longrightarrow>
      apply_sps_pps_cache t key prepend cached = (key, Some sets) \<and>
      (\<forall>p. p \<noteq> [] \<longrightarrow> apply_sps_pps_cache PFrame p prepend (Some sets) = (if prepend then sets @ p else p, Some sets)))"
proof -
  have "annex_b_nal_types key = map (\<lambda>u. nal_type_of (hd (snd u))) units"
    using types_units [OF assms(1), of "[]"] assms(2) by (simp add: annex_b_nal_types_def)
  moreover have "extract_sps_pps key = (let sets = concat (map unit_bytes (filter parameter_set units)) in
      if sets = [] then None else Some sets)"
    using extract_loop_units [OF assms(1), of "[]" "[]"] assms(2) unfolding extract_sps_pps_def by simp
  ultimately show ?thesis using assms(3) by (auto simp: apply_sps_pps_cache_def is_h264_keyframe_def)
qed

theorem parameter_sets_exact_witness:
  "annex_b_nal_types [0, 0, 0, 1, 103, 1, 0, 0, 1, 104, 2, 0, 0, 1, 101, 3] = [7, 8, 5] \<and>
   extract_sps_pps [0, 0, 0, 1, 103, 1, 0, 0, 1, 104, 2, 0, 0, 1, 101, 3] = Some [0, 0, 0, 1, 103, 1, 0, 0, 1, 104, 2] \<and>
   apply_sps_pps_cache PFrame [9] True (Some [0, 0, 0, 1, 103, 1, 0, 0, 1, 104, 2]) = ([0, 0, 0, 1, 103, 1, 0, 0, 1, 104, 2, 9], Some [0, 0, 0, 1, 103, 1, 0, 0, 1, 104, 2])"
proof -
  let ?u = "[(True, [103, 1]), (False, [104, 2]), (False, [101, 3])] :: nal_unit list"
  have u: "list_all (\<lambda>u. nal_clean (snd u)) ?u" by simp
  have k: "[0, 0, 0, 1, 103, 1, 0, 0, 1, 104, 2, 0, 0, 1, 101, 3] = annex_b ?u" by (simp add: annex_b_def unit_bytes_def)
  note facts = parameter_sets_exact [OF u k, simplified]
  have sets: "extract_sps_pps [0, 0, 0, 1, 103, 1, 0, 0, 1, 104, 2, 0, 0, 1, 101, 3] = Some [0, 0, 0, 1, 103, 1, 0, 0, 1, 104, 2]"
    using facts by (simp add: parameter_set_def nal_type_of_def unit_bytes_def)
  moreover have "\<forall>p. p \<noteq> [] \<longrightarrow> apply_sps_pps_cache PFrame p True (Some [0, 0, 0, 1, 103, 1, 0, 0, 1, 104, 2]) =
      ([0, 0, 0, 1, 103, 1, 0, 0, 1, 104, 2] @ p, Some [0, 0, 0, 1, 103, 1, 0, 0, 1, 104, 2])"
    using sets parameter_sets_exact [OF u k, of True None] by (auto simp: is_h264_keyframe_def)
  ultimately show ?thesis using facts by (simp add: nal_type_of_def)
qed

end
