(* ===== verification/Avc444.thy ===== *)
theory Avc444
  imports H264
begin

text \<open>
  The AVC444v2 encoder of \<open>src/src/egfx/avc444.rs\<close>: one frame is converted into its two views, the
  changed tiles of each are found against the reference of the last frame that was sent, the views are
  encoded as one or two H.264 streams, and after a successful send the references are committed.

  \<open>client_receives\<close> states what the client holds after a frame, \<open>in_sync\<close> that the references of the
  encoder are that picture. The lemma \<open>encode_detects\<close> describes an encoded frame up to the calls of
  OpenH264, \<open>commit_sent\<close> the commit, and \<open>encode_shows\<close> the picture of the client.
\<close>

section \<open>The AVC444 encoder\<close>

definition avc444_dimensions_supported :: "nat \<Rightarrow> nat \<Rightarrow> bool" where
  "avc444_dimensions_supported width height \<longleftrightarrow> width \<noteq> 0 \<and> height \<noteq> 0 \<and> width mod 4 = 0 \<and> height mod 2 = 0"

record avc444_frame_data =
  af_encoding :: avc444_encoding
  af_stream1 :: "byte list"
  af_stream2 :: "byte list"
  af_stream1_regions :: "region list"
  af_stream2_regions :: "region list"

record 'o avc444_encoder =
  ae_encoder :: "'o h264_encoder"
  ae_width :: nat
  ae_height :: nat
  ae_main :: yuv420
  ae_aux :: yuv420
  ae_luma_reference :: "yuv420 option"
  ae_chroma_reference :: "yuv420 option"
  ae_last_chroma_encoded :: bool
  ae_last_luma_regions :: "region list"
  ae_last_chroma_regions :: "region list"
  ae_frame_index :: nat
  ae_force_chroma :: bool

definition avc444_new :: "'o h264_encoder option \<Rightarrow> nat \<Rightarrow> nat \<Rightarrow> 'o avc444_encoder option" where
  "avc444_new created width height =
     (if \<not> avc444_dimensions_supported width height then None
      else (let y_len = width * height; uv_len = (width div 2) * (height div 2)
            in map_option (\<lambda>e. \<lparr>ae_encoder = e, ae_width = width, ae_height = height,
                 ae_main = \<lparr>y_plane = replicate y_len 0, u_plane = replicate uv_len 128, v_plane = replicate uv_len 128\<rparr>,
                 ae_aux = \<lparr>y_plane = replicate y_len 128, u_plane = replicate uv_len 128, v_plane = replicate uv_len 128\<rparr>,
                 ae_luma_reference = None, ae_chroma_reference = None, ae_last_chroma_encoded = False,
                 ae_last_luma_regions = [], ae_last_chroma_regions = [], ae_frame_index = 0, ae_force_chroma = True\<rparr>) created))"

definition empty_frame_data :: avc444_frame_data where
  "empty_frame_data = \<lparr>af_encoding = Luma, af_stream1 = [], af_stream2 = [], af_stream1_regions = [], af_stream2_regions = []\<rparr>"

definition normalize_encoded_frame :: "avc444_encoding \<Rightarrow> encoded_h264 \<Rightarrow> encoded_h264 \<Rightarrow> region list \<Rightarrow> region list \<Rightarrow>
    avc444_frame_data \<times> bool" where
  "normalize_encoded_frame encoding stream1 stream2 regions1 regions2 =
     (let one = \<lparr>af_encoding = encoding, af_stream1 = eh_data stream1, af_stream2 = [], af_stream1_regions = regions1,
                 af_stream2_regions = []\<rparr>
      in if regions1 = [] \<or> eh_data stream1 = [] then (empty_frame_data, False)
         else (case encoding of
             Luma \<Rightarrow> (one, False)
           | Chroma \<Rightarrow> (one, True)
           | LumaAndChroma \<Rightarrow>
               if regions2 = [] \<or> eh_data stream2 = [] then (one\<lparr>af_encoding := Luma\<rparr>, False)
               else (one\<lparr>af_stream2 := eh_data stream2, af_stream2_regions := regions2\<rparr>, True)))"

text \<open>
  The part of \<open>encode\<close> after the detection: the calls of the H.264 encoder and the end of the function.
  The result is \<open>None\<close> for an error of the encoder.
\<close>

definition encode_plane :: "'o openh264 \<Rightarrow> yuv420 \<Rightarrow> 'o avc444_encoder \<Rightarrow> encoded_h264 option \<times> 'o avc444_encoder" where
  "encode_plane oh p s = (let (r, e) = encode_yuv420_raw oh p (ae_encoder s) in (r, s\<lparr>ae_encoder := e\<rparr>))"

definition finish_frame :: "avc444_encoding \<Rightarrow> encoded_h264 \<Rightarrow> encoded_h264 \<Rightarrow> region list \<Rightarrow> region list \<Rightarrow> 'o avc444_encoder \<Rightarrow>
    avc444_frame_data option \<times> 'o avc444_encoder" where
  "finish_frame encoding stream1 stream2 regions1 regions2 s =
     (let (frame, commit) = normalize_encoded_frame encoding stream1 stream2 regions1 regions2
      in (Some frame, s\<lparr>ae_last_chroma_encoded := commit, ae_frame_index := u64_add (ae_frame_index s) 1\<rparr>))"

definition encode_views :: "'o openh264 \<Rightarrow> region list \<Rightarrow> region list \<Rightarrow> 'o avc444_encoder \<Rightarrow>
    avc444_frame_data option \<times> 'o avc444_encoder" where
  "encode_views oh luma_regions protocol_regions s =
     (if luma_regions \<noteq> [] then
        (case encode_plane oh (ae_main s) s of
           (None, s1) \<Rightarrow> (None, s1)
         | (Some luma, s1) \<Rightarrow>
             if protocol_regions = []
             then finish_frame Luma luma empty_h264 luma_regions [] (s1\<lparr>ae_last_chroma_encoded := False\<rparr>)
             else (case encode_plane oh (ae_aux s1) s1 of
                 (None, s2) \<Rightarrow> (None, s2)
               | (Some chroma, s2) \<Rightarrow>
                   finish_frame LumaAndChroma luma chroma luma_regions protocol_regions (s2\<lparr>ae_last_chroma_encoded := True\<rparr>)))
      else
        (case encode_plane oh (ae_aux s) s of
           (None, s1) \<Rightarrow> (None, s1)
         | (Some chroma, s1) \<Rightarrow>
             finish_frame Chroma chroma empty_h264 protocol_regions [] (s1\<lparr>ae_last_chroma_encoded := True\<rparr>)))"

text \<open>\<open>full_env\<close>: the variable \<open>HYPR_RDP_AVC444_FULL_FRAME\<close> is set. The outer option is a panic.\<close>

definition avc444_encode :: "'o openh264 \<Rightarrow> bool \<Rightarrow> byte list \<Rightarrow> nat \<Rightarrow> region list \<Rightarrow> 'o avc444_encoder \<Rightarrow>
    (avc444_frame_data option \<times> 'o avc444_encoder) run" where
  "avc444_encode oh full_env bgra stride candidate_regions s =
     (let width = ae_width s; height = ae_height s; full = [full_frame width height] in
      if length bgra < u64_mul height stride then Some (None, s)
      else (let aligned = align_protocol_regions width height candidate_regions;
                force_full_frame = full_env \<or> ae_force_chroma s;
                s1 = s\<lparr>ae_force_chroma := False\<rparr>;
                candidates = (if force_full_frame then full else aligned)
            in do {
              (main, aux) \<leftarrow> bgra_to_plane_regions width height bgra stride candidates True True (ae_main s1, ae_aux s1);
              let s2 = s1\<lparr>ae_main := main, ae_aux := aux\<rparr>;
              detected_luma \<leftarrow> detect_yuv420_regions width height main (ae_luma_reference s2) candidates;
              (detected_chroma, detected_protocol) \<leftarrow> detect_chroma_regions width height aux (ae_chroma_reference s2) candidates;
              let luma_regions = (if force_full_frame then full else detected_luma);
              let detected_chroma = (if force_full_frame then full else detected_chroma);
              let detected_protocol = (if force_full_frame then full else detected_protocol);
              let encode_chroma = (detected_protocol \<noteq> []);
              let chroma_regions = (if encode_chroma then detected_chroma else []);
              let protocol_regions = (if encode_chroma then detected_protocol else []);
              if luma_regions = [] \<and> protocol_regions = []
              then Some (Some (empty_frame_data\<lparr>af_stream1_regions := luma_regions, af_stream2_regions := protocol_regions\<rparr>),
                         s2\<lparr>ae_last_chroma_encoded := False, ae_last_luma_regions := [], ae_last_chroma_regions := []\<rparr>)
              else Some (encode_views oh luma_regions protocol_regions
                     (s2\<lparr>ae_last_luma_regions := luma_regions, ae_last_chroma_regions := chroma_regions\<rparr>))
            }))"

definition commit_reference :: "'o avc444_encoder \<Rightarrow> 'o avc444_encoder run" where
  "commit_reference s = do {
     luma \<leftarrow> update_yuv420_reference_regions (ae_width s) (ae_height s) (ae_main s) (ae_last_luma_regions s) (ae_luma_reference s);
     let s1 = s\<lparr>ae_luma_reference := luma\<rparr>;
     if \<not> ae_last_chroma_encoded s1 then Some s1
     else do {
       chroma \<leftarrow> update_yuv420_reference_regions (ae_width s) (ae_height s) (ae_aux s) (ae_last_chroma_regions s1) (ae_chroma_reference s1);
       Some (s1\<lparr>ae_chroma_reference := chroma\<rparr>)
     }
   }"

definition avc444_force_full_frame :: "'o avc444_encoder \<Rightarrow> 'o avc444_encoder" where
  "avc444_force_full_frame s = s\<lparr>ae_force_chroma := True\<rparr>"

definition avc444_force_idr :: "'o openh264 \<Rightarrow> 'o avc444_encoder \<Rightarrow> 'o avc444_encoder" where
  "avc444_force_idr oh s = avc444_force_full_frame (s\<lparr>ae_encoder := h264_force_idr oh (ae_encoder s)\<rparr>)"

section \<open>The client's picture\<close>

text \<open>
  The client keeps the last main and auxiliary view it decoded, and a stream replaces the samples of
  the pixels under its rectangles. \<open>main\<close> and \<open>aux\<close> are the views the encoder was given: what the
  decoder returns, up to the loss of the H.264 coding.
\<close>

definition client_receives :: "nat \<Rightarrow> avc444_frame_data \<Rightarrow> yuv420 \<Rightarrow> yuv420 \<Rightarrow> yuv420 \<times> yuv420 \<Rightarrow> yuv420 \<times> yuv420" where
  "client_receives width frame main aux = (\<lambda>(cm, ca).
     case af_encoding frame of
       Luma \<Rightarrow> (receive_main width (under (af_stream1_regions frame)) main cm, ca)
     | Chroma \<Rightarrow> (cm, receive_aux width (under (af_stream1_regions frame)) aux ca)
     | LumaAndChroma \<Rightarrow> (receive_main width (under (af_stream1_regions frame)) main cm,
                         receive_aux width (under (af_stream2_regions frame)) aux ca))"

definition in_sync :: "'o avc444_encoder \<Rightarrow> yuv420 \<times> yuv420 \<Rightarrow> bool" where
  "in_sync s = (\<lambda>(cm, ca). (case ae_luma_reference s of None \<Rightarrow> True | Some r \<Rightarrow> r = cm) \<and>
     (case ae_chroma_reference s of None \<Rightarrow> True | Some r \<Rightarrow> r = ca))"

definition avc444_inv :: "'o avc444_encoder \<Rightarrow> bool" where
  "avc444_inv s \<longleftrightarrow> avc444_frame (ae_width s) (ae_height s) \<and>
     yuv_len (ae_width s) (ae_height s) (ae_main s) \<and> yuv_len (ae_width s) (ae_height s) (ae_aux s) \<and>
     (\<forall>r. ae_luma_reference s = Some r \<longrightarrow> yuv_len (ae_width s) (ae_height s) r) \<and>
     (\<forall>r. ae_chroma_reference s = Some r \<longrightarrow> yuv_len (ae_width s) (ae_height s) r)"

lemma under_full: "under [full_frame W H] (x, y) \<longleftrightarrow> x < W \<and> y < H" if "avc444_frame W H" for W H
  using that by (auto simp: under_def full_frame_def in_region_def avc444_frame_def i32_wrap_id is_i32_def)

lemma full_good: "avc444_frame W H \<Longrightarrow> good_region W H (full_frame W H)"
  unfolding good_region_def
  by (intro exI [of _ "(0, 0, W, H)"])
    (auto simp: full_frame_def box_region_def box_inside_def aligned_box_def avc444_frame_def i32_wrap_id is_i32_def elim!: dvdE)

lemma receive_full:
  assumes f: "avc444_frame W H" and len: "yuv_len W H p"
  shows "receive_main W (under [full_frame W H]) p old = p" "receive_aux W (under [full_frame W H]) p old = p"
proof -
  obtain n k where W: "W = 4 * n" "0 < n" and H: "H = 2 * k" using f by (auto simp: avc444_frame_def elim!: dvdE)
  have full: "refresh px (under [full_frame W H]) new old = new"
    if "\<And>i. i < length new \<Longrightarrow> fst (px i) < W \<and> snd (px i) < H" for px new old
  proof (rule refresh_eqI [symmetric])
    fix i
    assume "i < length new"
    with that [of i] show "new ! i = (if under [full_frame W H] (px i) then new ! i else old ! i)"
      using under_full [OF f] by (cases "px i") simp
  qed simp
  have row: "i mod W < W \<and> i div W < H" if "i < W * H" for i
    using that W by (simp add: less_mult_imp_div_less mult.commute)
  have block: "i mod (W div 2) < W div 2 \<and> i div (W div 2) < H div 2" if "i < W div 2 * (H div 2)" for i
    using that W by (simp add: less_mult_imp_div_less mult.commute)
  have q: "i mod (W div 2) mod (W div 4) < W div 4" "i mod W mod (W div 2) < W div 2" for i using W by simp_all
  have px: "fst (px_luma W i) < W \<and> snd (px_luma W i) < H" "fst (px_aux_y W i) < W \<and> snd (px_aux_y W i) < H" if "i < W * H" for i
  proof -
    have "W = 2 * (W div 2)" using W(1) by simp
    then have "2 * (i mod W mod (W div 2)) + 1 < W" using q(2) [of i] by linarith
    with row [OF that] show "fst (px_luma W i) < W \<and> snd (px_luma W i) < H" "fst (px_aux_y W i) < W \<and> snd (px_aux_y W i) < H"
      by (simp_all only: px_luma_def px_aux_y_def fst_conv snd_conv simp_thms)
  qed
  have px': "fst (px_block W i) < W \<and> snd (px_block W i) < H" "fst (px_aux_u W i) < W \<and> snd (px_aux_u W i) < H"
    "fst (px_aux_v W i) < W \<and> snd (px_aux_v W i) < H" if "i < W div 2 * (H div 2)" for i
  proof -
    have "W = 4 * (W div 4)" "W = 2 * (W div 2)" "H = 2 * (H div 2)" using W(1) H by simp_all
    then have "4 * (i mod (W div 2) mod (W div 4)) + 2 < W" "2 * (i mod (W div 2)) < W" "2 * (i div (W div 2)) + 1 < H"
      using q(1) [of i] block [OF that] by linarith+
    then show "fst (px_block W i) < W \<and> snd (px_block W i) < H" "fst (px_aux_u W i) < W \<and> snd (px_aux_u W i) < H"
      "fst (px_aux_v W i) < W \<and> snd (px_aux_v W i) < H"
      unfolding px_block_def px_aux_u_def px_aux_v_def fst_conv snd_conv by linarith+
  qed
  show "receive_main W (under [full_frame W H]) p old = p" "receive_aux W (under [full_frame W H]) p old = p"
    using len px px' by (simp_all add: receive_main_def receive_aux_def full yuv_len_def)
qed

lemma patched_full:
  assumes f: "avc444_frame W H" and len: "yuv_len W H p" and r': "patched W H [full_frame W H] p r r'"
  shows "r' = p"
proof -
  have lim: "int W \<le> i32_max" "int H \<le> i32_max" using f by (simp_all add: avc444_frame_def)
  have "even_regions W H [full_frame W H]" using good_aligned(2) [OF f] full_good [OF f] by simp
  from main_mirrors [OF lim this len r'] receive_full(1) [OF f len] show ?thesis by simp
qed

text \<open>Candidates under which the auxiliary reference is brought up to date.\<close>

lemma half_under:
  assumes al: "aligned_box bx" and q: "under [box_region bx] q"
  shows "\<exists>tb\<in>set (tile_boxes (packed_box W False bx)). under [box_region (unpack_box tb)] q"
proof -
  obtain l t r b where bx: "bx = (l, t, r, b)" by (cases bx) auto
  obtain x y where xy: "q = (x, y)" by (cases q)
  have "even l" "even r" using al by (auto simp: bx aligned_box_def elim!: dvdE)
  moreover have "l \<le> x" "x < r" "t \<le> y" "y < b" using q under_boxes [of "[bx]" x y] by (simp_all add: xy bx)
  ultimately have "l div 2 \<le> x div 2" "x div 2 < r div 2" "t \<le> y" "y < b" by (auto elim!: evenE)
  from tile_boxes_cover [OF this] obtain l' t' r' b' where
    "(l', t', r', b') \<in> set (tile_boxes (packed_box W False bx))" "l' \<le> x div 2" "x div 2 < r'" "t' \<le> y" "y < b'"
    by (auto simp: bx packed_box_def Let_def)
  then show ?thesis
    using under_boxes [of "[unpack_box (l', t', r', b')]" x y]
    by (intro bexI [of _ "(l', t', r', b')"]) (auto simp: xy unpack_box_def)
qed

lemma unpack_under:
  assumes al: "aligned_box bx" and tb: "tb \<in> set (tile_boxes (packed_box W False bx))" and q: "under [box_region (unpack_box tb)] q"
  shows "under [box_region bx] q"
proof -
  obtain l t r b l' t' r' b' where eq: "bx = (l, t, r, b)" "tb = (l', t', r', b')" by (cases bx; cases tb)
  obtain x y where xy: "q = (x, y)" by (cases q)
  have "even l" "even r" using al by (auto simp: eq aligned_box_def elim!: dvdE)
  moreover have "l div 2 \<le> l'" "r' \<le> r div 2" "t \<le> t'" "b' \<le> b"
    using tile_boxes_sub [OF tb] by (simp_all add: eq subbox_def packed_box_def Let_def)
  moreover have "2 * l' \<le> x" "x < 2 * r'" "t' \<le> y" "y < b'"
    using q under_boxes [of "[unpack_box tb]" x y] by (simp_all add: xy eq unpack_box_def)
  ultimately show ?thesis using under_boxes [of "[bx]" x y] by (auto simp: xy eq elim!: evenE)
qed

lemma plane_up_to_date:
  assumes f: "avc444_frame width height" and al: "aligned_regions width height cs"
    and ch: "tile_changes width height p r cs packed protocol"
    and of: "plane_of width at px side n height" and i: "i < n"
    and new: "q' = (if covered_by width height at packed i then new else old)"
    and same: "\<And>tb. at width tb i \<Longrightarrow> \<not> box_differs width p r tb \<Longrightarrow> new = old"
  shows "q' = (if under cs (px i) then new else old)"
proof -
  have cs: "\<exists>bx. clamp_region width height c = Some bx \<and> c = box_region bx \<and> aligned_box bx" if "c \<in> set cs" for c
    using al that by (auto simp: aligned_regions_def)
  have under_cs: "under cs q \<longleftrightarrow> (\<exists>c\<in>set cs. under [c] q)" for q by (cases q) (simp add: under_def list_ex_iff)
  note cov = covered_packed [OF f al ch, of at i]
  have mirror: "q' = (if under protocol (px i) then new else old)"
    by (rule plane_mirrors [OF f al ch of i new same])
  have "under cs (px i)" if p: "under protocol (px i)"
  proof -
    obtain tb s where "(tb, s) \<in> changed_halves width height p r cs" and u: "under [box_region (unpack_box tb)] (px i)"
      using p under_protocol [OF ch, of "px i"] by blast
    then obtain c where c: "c \<in> set cs" "tb \<in> half_tiles width height c" by (auto simp: changed_halves_def)
    with cs [OF c(1)] u show ?thesis unfolding under_cs
      by (intro bexI [OF _ c(1)]) (auto simp: half_tiles_def intro: unpack_under)
  qed
  moreover have "new = old" if u: "under cs (px i)" and n: "\<not> under protocol (px i)"
  proof -
    obtain c where c: "c \<in> set cs" "under [c] (px i)" using u unfolding under_cs by blast
    obtain bx where bx: "clamp_region width height c = Some bx" "c = box_region bx" "aligned_box bx" using cs [OF c(1)] by blast
    obtain tb where tb: "tb \<in> half_tiles width height c" "under [box_region (unpack_box tb)] (px i)"
      using half_under [OF bx(3), of "px i" width] c(2) by (auto simp: bx(1) half_tiles_def bx(2) [symmetric])
    have "(tb, s) \<notin> changed_halves width height p r cs" for s
      using n tb(2) under_protocol [OF ch, of "px i"] by blast
    then have "\<not> box_differs width p r (half_shift width (side i) tb)" using c(1) tb(1) by (auto simp: changed_halves_def)
    moreover obtain l t r' b where t: "tb = (l, t, r', b)" "even_box tb" "l < r'" "r' \<le> width div 2" "t < b" "b \<le> height"
      by (rule half_tile [OF f al c(1) tb(1)])
    then have "at width (half_shift width (side i) tb) i" using of i tb(2) unfolding plane_of_def by blast
    ultimately show ?thesis using same by blast
  qed
  ultimately show ?thesis using mirror by auto
qed

lemma aux_up_to_date:
  assumes f: "avc444_frame width height" and al: "aligned_regions width height cs"
    and ch: "tile_changes width height p r cs packed protocol"
    and len: "yuv_len width height p" and r': "patched width height packed p r r'"
  shows "r' = receive_aux width (under cs) p r"
  by (rule aux_receives [OF f len r' plane_up_to_date [OF f al ch]])

section \<open>Committing a frame\<close>

text \<open>What the detection of one view returned, or the whole frame.\<close>

definition luma_found :: "nat \<Rightarrow> nat \<Rightarrow> yuv420 \<Rightarrow> yuv420 option \<Rightarrow> region list \<Rightarrow> region list \<Rightarrow> bool" where
  "luma_found W H p reference cs regions \<longleftrightarrow> regions = [full_frame W H] \<or>
     (\<exists>r. reference = Some r \<and> set regions = changed_in W H p r cs)"

definition chroma_found :: "nat \<Rightarrow> nat \<Rightarrow> yuv420 \<Rightarrow> yuv420 option \<Rightarrow> region list \<Rightarrow> region list \<Rightarrow> region list \<Rightarrow> bool" where
  "chroma_found W H p reference cs packed protocol \<longleftrightarrow>
     (packed = [full_frame W H] \<and> protocol = [full_frame W H]) \<or>
     (\<exists>r. reference = Some r \<and> tile_changes W H p r cs packed protocol)"

lemma changed_even:
  assumes f: "avc444_frame W H" and cs: "aligned_regions W H cs" and out: "set out = changed_in W H p r cs"
  shows "even_regions W H out"
  unfolding even_regions_def
proof
  fix d
  assume "d \<in> set out"
  then obtain c bx tb where c: "c \<in> set cs" "clamp_region W H c = Some bx" "tb \<in> set (tile_boxes bx)" "d = box_region tb"
    using out by (fastforce simp: changed_in_def changed_tiles_def split: option.splits)
  have "aligned_box bx" using cs c(1,2) by (auto simp: aligned_regions_def)
  then have "even_box bx" by (cases bx) (auto simp: aligned_box_def even_box_def elim!: dvdE)
  then show "\<exists>bx. d = box_region bx \<and> box_inside W H bx \<and> even_box bx"
    using c(4) tile_boxes_even [OF _ c(3)] subbox_inside [OF tile_boxes_sub [OF c(3)] clamp_region_inside [OF c(2)]] by blast
qed

lemma full_even: "avc444_frame W H \<Longrightarrow> even_regions W H [full_frame W H]"
  using good_aligned(2) full_good by simp

text \<open>One reference and the client's copy of the same view.\<close>

definition mirrors :: "yuv420 option \<Rightarrow> yuv420 \<Rightarrow> bool" where
  "mirrors reference shown \<longleftrightarrow> (case reference of None \<Rightarrow> True | Some r \<Rightarrow> r = shown)"

lemma update_reference_full:
  assumes f: "avc444_frame W H" and len: "yuv_len W H p" and ref: "\<forall>r. reference = Some r \<longrightarrow> yuv_len W H r"
    and regions: "reference = None \<or> regions = [full_frame W H]"
  shows "update_yuv420_reference_regions W H p regions reference = Some (Some p)"
proof (cases reference)
  case None
  then show ?thesis using copy_reference_copies [OF len] by (simp add: update_yuv420_reference_regions_def)
next
  case (Some r)
  obtain r' where "fold_run (update_yuv420_region W H p) regions r = Some r'" "patched W H regions p r r'"
    using update_regions_patch [OF avc444_even [OF f] len] ref Some by blast
  with patched_full [OF f len] regions Some show ?thesis by (simp add: update_yuv420_reference_regions_def)
qed

lemma commit_luma:
  assumes f: "avc444_frame W H" and cs: "aligned_regions W H cs" and len: "yuv_len W H p"
    and ref: "\<forall>r. reference = Some r \<longrightarrow> yuv_len W H r" and m: "mirrors reference shown"
    and found: "luma_found W H p reference cs regions"
  shows "update_yuv420_reference_regions W H p regions reference = Some (Some (receive_main W (under regions) p shown))"
    and "cs = [full_frame W H] \<or> (\<exists>r. reference = Some r \<and> set regions = changed_in W H p r cs) \<Longrightarrow>
      receive_main W (under regions) p shown = receive_main W (under cs) p shown"
proof -
  have lim: "int W \<le> i32_max" "int H \<le> i32_max" using f by (simp_all add: avc444_frame_def)
  note full = receive_full(1) [OF f len]
  have "update_yuv420_reference_regions W H p regions reference = Some (Some (receive_main W (under regions) p shown)) \<and>
    (cs = [full_frame W H] \<or> (\<exists>r. reference = Some r \<and> set regions = changed_in W H p r cs) \<longrightarrow>
      receive_main W (under regions) p shown = receive_main W (under cs) p shown)"
  proof (cases "\<exists>r. reference = Some r \<and> set regions = changed_in W H p r cs")
    case False
    then have "regions = [full_frame W H]" using found by (auto simp: luma_found_def)
    with False full update_reference_full [OF f len ref] show ?thesis by auto
  next
    case True
    then obtain r where r: "reference = Some r" "set regions = changed_in W H p r cs" by blast
    obtain r' where r': "fold_run (update_yuv420_region W H p) regions r = Some r'" "patched W H regions p r r'"
      using update_regions_patch [OF avc444_even [OF f] len] ref r(1) by blast
    have eq: "r = shown" using m r(1) by (simp add: mirrors_def)
    have "even_regions W H cs"
      using cs by (fastforce simp: aligned_regions_def even_regions_def aligned_box_def even_box_def dest: clamp_region_inside elim!: dvdE)
    from main_mirrors [OF lim this len patched_changes [OF avc444_even [OF f] r(2) r'(2)]]
      main_mirrors [OF lim changed_even [OF f cs r(2)] len r'(2)]
    show ?thesis using r(1) r'(1) eq by (simp add: update_yuv420_reference_regions_def)
  qed
  then show "update_yuv420_reference_regions W H p regions reference = Some (Some (receive_main W (under regions) p shown))"
    and "cs = [full_frame W H] \<or> (\<exists>r. reference = Some r \<and> set regions = changed_in W H p r cs) \<Longrightarrow>
      receive_main W (under regions) p shown = receive_main W (under cs) p shown" by simp_all
qed

lemma commit_chroma:
  assumes f: "avc444_frame W H" and cs: "aligned_regions W H cs" and len: "yuv_len W H p"
    and ref: "\<forall>r. reference = Some r \<longrightarrow> yuv_len W H r" and m: "mirrors reference shown"
    and found: "chroma_found W H p reference cs packed protocol"
  shows "update_yuv420_reference_regions W H p packed reference = Some (Some (receive_aux W (under protocol) p shown))"
    and "cs = [full_frame W H] \<or> (\<exists>r. reference = Some r \<and> tile_changes W H p r cs packed protocol) \<Longrightarrow>
      receive_aux W (under protocol) p shown = receive_aux W (under cs) p shown"
proof -
  note full = receive_full(2) [OF f len]
  have "update_yuv420_reference_regions W H p packed reference = Some (Some (receive_aux W (under protocol) p shown)) \<and>
    (cs = [full_frame W H] \<or> (\<exists>r. reference = Some r \<and> tile_changes W H p r cs packed protocol) \<longrightarrow>
      receive_aux W (under protocol) p shown = receive_aux W (under cs) p shown)"
  proof (cases "\<exists>r. reference = Some r \<and> tile_changes W H p r cs packed protocol")
    case False
    then have "packed = [full_frame W H]" "protocol = [full_frame W H]" using found by (auto simp: chroma_found_def)
    with False full update_reference_full [OF f len ref] show ?thesis by auto
  next
    case True
    then obtain r where r: "reference = Some r" "tile_changes W H p r cs packed protocol" by blast
    obtain r' where r': "fold_run (update_yuv420_region W H p) packed r = Some r'" "patched W H packed p r r'"
      using update_regions_patch [OF avc444_even [OF f] len] ref r(1) by blast
    have eq: "r = shown" using m r(1) by (simp add: mirrors_def)
    from aux_mirrors [OF f cs r(2) len r'(2)] aux_up_to_date [OF f cs r(2) len r'(2)]
    show ?thesis using r(1) r'(1) eq by (simp add: update_yuv420_reference_regions_def)
  qed
  then show "update_yuv420_reference_regions W H p packed reference = Some (Some (receive_aux W (under protocol) p shown))"
    and "cs = [full_frame W H] \<or> (\<exists>r. reference = Some r \<and> tile_changes W H p r cs packed protocol) \<Longrightarrow>
      receive_aux W (under protocol) p shown = receive_aux W (under cs) p shown" by simp_all
qed

section \<open>One frame\<close>

definition avc444_candidates :: "bool \<Rightarrow> region list \<Rightarrow> 'o avc444_encoder \<Rightarrow> region list" where
  "avc444_candidates full_env ds s = (if full_env \<or> ae_force_chroma s then [full_frame (ae_width s) (ae_height s)]
     else align_protocol_regions (ae_width s) (ae_height s) ds)"

definition picture_buffer :: "'o avc444_encoder \<Rightarrow> nat \<Rightarrow> byte list \<Rightarrow> bool" where
  "picture_buffer s stride bgra \<longleftrightarrow> frame_buffer (ae_width s) (ae_height s) stride bgra"

lemma candidates_good:
  assumes "avc444_inv s" and "list_all i32_region ds"
  shows "list_all (good_region (ae_width s) (ae_height s)) (avc444_candidates full_env ds s)"
  using assms full_good align_protocol_good(1) by (auto simp: avc444_candidates_def avc444_inv_def)

text \<open>The state between detection and the H.264 encoder.\<close>

definition converted :: "bool \<Rightarrow> byte list \<Rightarrow> nat \<Rightarrow> region list \<Rightarrow> 'o avc444_encoder \<Rightarrow> 'o avc444_encoder" where
  "converted full_env bgra stride ds s =
     (let W = ae_width s; H = ae_height s; cs = avc444_candidates full_env ds s; pix = pixel_yuv bgra stride
      in s\<lparr>ae_force_chroma := False, ae_main := receive_main W (under cs) (main_view W H pix) (ae_main s),
           ae_aux := receive_aux W (under cs) (aux_view W H pix) (ae_aux s)\<rparr>)"

lemma encode_detects:
  assumes inv: "avc444_inv s" and ds: "list_all i32_region ds" and buf: "picture_buffer s stride bgra"
    and W: "W = ae_width s" and H: "H = ae_height s" and cs: "cs = avc444_candidates full_env ds s"
    and s2: "s2 = converted full_env bgra stride ds s"
  obtains luma packed protocol where
    "luma_found W H (ae_main s2) (ae_luma_reference s) cs luma"
    "chroma_found W H (ae_aux s2) (ae_chroma_reference s) cs packed protocol"
    "(full_env \<or> ae_force_chroma s) \<or> (\<forall>r. ae_luma_reference s = Some r \<longrightarrow> set luma = changed_in W H (ae_main s2) r cs) \<and>
       (\<forall>r. ae_chroma_reference s = Some r \<longrightarrow> tile_changes W H (ae_aux s2) r cs packed protocol)"
    "ae_luma_reference s = None \<longrightarrow> luma \<noteq> []"
    "avc444_encode oh full_env bgra stride ds s = Some (if luma = [] \<and> protocol = []
       then (Some empty_frame_data, s2\<lparr>ae_last_chroma_encoded := False, ae_last_luma_regions := [], ae_last_chroma_regions := []\<rparr>)
       else encode_views oh luma protocol (s2\<lparr>ae_last_luma_regions := luma, ae_last_chroma_regions := packed\<rparr>))"
proof -
  note i = inv [unfolded avc444_inv_def, folded W H]
  have f: "avc444_frame W H" using i by simp
  have good: "list_all (good_region W H) cs" using candidates_good [OF inv ds] by (simp add: W H cs)
  note al = good_aligned(1) [OF f good]
  have b: "4 * W \<le> stride" "stride * H \<le> length bgra" "length bgra \<le> u64_max"
    using buf by (simp_all add: picture_buffer_def frame_buffer_def W H)
  have len: "\<not> length bgra < u64_mul H stride" using b(2,3) by (simp add: u64_mul_def mult.commute)
  have conv: "bgra_to_plane_regions W H bgra stride cs True True (ae_main s, ae_aux s) = Some (ae_main s2, ae_aux s2)"
    using convert_fills [OF f b(1,2) good] i by (simp add: fills_def s2 converted_def Let_def W H cs)
  have l2: "yuv_len W H (ae_main s2)" "yuv_len W H (ae_aux s2)"
    using receive_len view_len by (simp_all add: s2 converted_def Let_def W H)
  obtain luma where luma: "detect_yuv420_regions W H (ae_main s2) (ae_luma_reference s) cs = Some luma"
    "ae_luma_reference s = None \<longrightarrow> luma = [full_frame W H]"
    "\<forall>r. ae_luma_reference s = Some r \<longrightarrow> set luma = changed_in W H (ae_main s2) r cs"
  proof (cases "ae_luma_reference s")
    case None
    then show thesis using that by (simp add: detect_yuv420_regions_def)
  next
    case (Some r)
    then show thesis using detect_regions_eq [OF avc444_even [OF f] l2(1), of r cs] i that by (auto simp: changed_in_def)
  qed
  obtain packed protocol where chroma: "detect_chroma_regions W H (ae_aux s2) (ae_chroma_reference s) cs = Some (packed, protocol)"
    "ae_chroma_reference s = None \<longrightarrow> packed = [full_frame W H] \<and> protocol = [full_frame W H]"
    "\<forall>r. ae_chroma_reference s = Some r \<longrightarrow> tile_changes W H (ae_aux s2) r cs packed protocol"
  proof (cases "ae_chroma_reference s")
    case None
    then show thesis using that by (simp add: detect_chroma_regions_def)
  next
    case (Some r)
    then show thesis using detect_chroma_eq [OF f l2(2) _ al, of r] i that by (auto simp: tile_changes_def)
  qed
  have none: "protocol = [] \<Longrightarrow> packed = []"
    using chroma(2,3) by (cases "ae_chroma_reference s") (auto simp: tile_changes_def)
  let ?force = "full_env \<or> ae_force_chroma s"
  let ?luma = "if ?force then [full_frame W H] else luma" and ?packed = "if ?force then [full_frame W H] else packed"
    and ?protocol = "if ?force then [full_frame W H] else protocol"
  have s2': "s\<lparr>ae_force_chroma := False, ae_main := ae_main s2, ae_aux := ae_aux s2\<rparr> = s2"
    by (simp add: s2 converted_def Let_def)
  have refs: "ae_luma_reference s2 = ae_luma_reference s" "ae_chroma_reference s2 = ae_chroma_reference s"
    by (simp_all add: s2 converted_def Let_def)
  have cs': "(if ?force then [full_frame W H] else align_protocol_regions W H ds) = cs"
    by (simp add: cs avc444_candidates_def W H)
  have "avc444_encode oh full_env bgra stride ds s = Some (if ?luma = [] \<and> ?protocol = []
       then (Some empty_frame_data, s2\<lparr>ae_last_chroma_encoded := False, ae_last_luma_regions := [], ae_last_chroma_regions := []\<rparr>)
       else encode_views oh ?luma ?protocol (s2\<lparr>ae_last_luma_regions := ?luma, ae_last_chroma_regions := ?packed\<rparr>))"
    unfolding avc444_encode_def Let_def W [symmetric] H [symmetric] cs' using len conv luma(1) chroma(1) none
    by (simp add: s2' refs) (auto simp: empty_frame_data_def)
  moreover have "luma_found W H (ae_main s2) (ae_luma_reference s) cs ?luma"
    using luma(2,3) by (cases "ae_luma_reference s") (auto simp: luma_found_def)
  moreover have "chroma_found W H (ae_aux s2) (ae_chroma_reference s) cs ?packed ?protocol"
    using chroma(2,3) by (cases "ae_chroma_reference s") (auto simp: chroma_found_def)
  ultimately show thesis
    using that [of ?luma ?packed ?protocol] luma(2,3) chroma(3) by simp
qed

text \<open>What the encoder changes besides its H.264 state: the flag of the commit and the frame index.\<close>

definition same_views :: "'o avc444_encoder \<Rightarrow> 'o avc444_encoder \<Rightarrow> bool" where
  "same_views s s' \<longleftrightarrow> (\<exists>e c n. s' = s\<lparr>ae_encoder := e, ae_last_chroma_encoded := c, ae_frame_index := n\<rparr>)"

definition never_skips :: "'o openh264 \<Rightarrow> bool" where
  "never_skips oh \<longleftrightarrow> (\<forall>p st bits t. fst (oh_encode oh p st) = Some (bits, t) \<longrightarrow> bits \<noteq> [])"

lemma raw_never_skips:
  assumes "never_skips oh" and "encode_yuv420_raw oh p e = (Some r, e')"
  shows "eh_data r \<noteq> []"
proof -
  have "\<exists>q bits t st. oh_encode oh q (he_encoder e) = (Some (bits, t), st) \<and> eh_data r = bits"
    using assms(2)
    by (auto simp: encode_yuv420_raw_def encode_yuv420_with_options_def encode_yuv_source_def apply_sps_pps_cache_def Let_def
        split: if_splits option.splits prod.splits; blast)
  then show ?thesis using assms(1) unfolding never_skips_def by (metis fst_conv)
qed

lemma same_viewsI [simp]: "same_views s (s\<lparr>ae_encoder := e, ae_last_chroma_encoded := c, ae_frame_index := n\<rparr>)"
  by (auto simp: same_views_def)

lemma encode_plane_views:
  "encode_plane oh p s = (Some r, s') \<Longrightarrow> \<exists>e. s' = s\<lparr>ae_encoder := e\<rparr> \<and> (never_skips oh \<longrightarrow> eh_data r \<noteq> [])"
  using raw_never_skips [of oh p "ae_encoder s"] by (auto simp: encode_plane_def split: prod.splits)

lemma finish_frame_views:
  "finish_frame encoding stream1 stream2 regions1 regions2 s = (Some frame, s') \<Longrightarrow>
   frame = fst (normalize_encoded_frame encoding stream1 stream2 regions1 regions2) \<and>
   s' = s\<lparr>ae_last_chroma_encoded := snd (normalize_encoded_frame encoding stream1 stream2 regions1 regions2),
          ae_frame_index := u64_add (ae_frame_index s) 1\<rparr>"
  by (auto simp: finish_frame_def split: prod.splits)

lemma encode_views_cases:
  assumes "encode_views oh luma protocol s = (Some frame, s')"
  obtains (luma) l c where "luma \<noteq> []" "protocol = []" "never_skips oh \<longrightarrow> eh_data l \<noteq> []"
      "(frame, c) = normalize_encoded_frame Luma l empty_h264 luma []" "ae_last_chroma_encoded s' = c" "same_views s s'"
  | (both) l r c where "luma \<noteq> []" "protocol \<noteq> []" "never_skips oh \<longrightarrow> eh_data l \<noteq> [] \<and> eh_data r \<noteq> []"
      "(frame, c) = normalize_encoded_frame LumaAndChroma l r luma protocol" "ae_last_chroma_encoded s' = c" "same_views s s'"
  | (chroma) r c where "luma = []" "never_skips oh \<longrightarrow> eh_data r \<noteq> []"
      "(frame, c) = normalize_encoded_frame Chroma r empty_h264 protocol []" "ae_last_chroma_encoded s' = c" "same_views s s'"
proof (cases "luma = []")
  case True
  then obtain r s1 where r: "encode_plane oh (ae_aux s) s = (Some r, s1)"
    using assms by (cases "encode_plane oh (ae_aux s) s"; cases "fst (encode_plane oh (ae_aux s) s)") (auto simp: encode_views_def)
  then have "finish_frame Chroma r empty_h264 protocol [] (s1\<lparr>ae_last_chroma_encoded := True\<rparr>) = (Some frame, s')"
    using True assms by (simp add: encode_views_def)
  from finish_frame_views [OF this] encode_plane_views [OF r] True show thesis
    by (intro chroma [of r "ae_last_chroma_encoded s'"]) (auto simp: prod_eq_iff)
next
  case False
  then obtain l s1 where l: "encode_plane oh (ae_main s) s = (Some l, s1)"
    using assms by (cases "encode_plane oh (ae_main s) s"; cases "fst (encode_plane oh (ae_main s) s)") (auto simp: encode_views_def)
  show thesis
  proof (cases "protocol = []")
    case True
    then have "finish_frame Luma l empty_h264 luma [] (s1\<lparr>ae_last_chroma_encoded := False\<rparr>) = (Some frame, s')"
      using l False assms by (simp add: encode_views_def)
    from finish_frame_views [OF this] encode_plane_views [OF l] True False show thesis
      by (intro luma [of l "ae_last_chroma_encoded s'"]) (auto simp: prod_eq_iff)
  next
    case p: False
    obtain r s2 where r: "encode_plane oh (ae_aux s1) s1 = (Some r, s2)"
      using assms l False p
      by (cases "encode_plane oh (ae_aux s1) s1"; cases "fst (encode_plane oh (ae_aux s1) s1)") (auto simp: encode_views_def)
    then have "finish_frame LumaAndChroma l r luma protocol (s2\<lparr>ae_last_chroma_encoded := True\<rparr>) = (Some frame, s')"
      using l False p assms by (simp add: encode_views_def)
    from finish_frame_views [OF this] encode_plane_views [OF l] encode_plane_views [OF r] p False show thesis
      by (intro both [of l r "ae_last_chroma_encoded s'"]) (auto simp: prod_eq_iff)
  qed
qed

lemma encode_views_sent:
  assumes "encode_views oh luma protocol s = (Some frame, s')"
  shows "same_views s s' \<and>
    (af_stream1 frame \<noteq> [] \<longrightarrow>
      (luma \<noteq> [] \<and> af_encoding frame = Luma \<and> af_stream1_regions frame = luma \<and> \<not> ae_last_chroma_encoded s' \<and>
         (protocol = [] \<or> \<not> never_skips oh)) \<or>
      (luma = [] \<and> af_encoding frame = Chroma \<and> af_stream1_regions frame = protocol \<and> ae_last_chroma_encoded s') \<or>
      (luma \<noteq> [] \<and> af_encoding frame = LumaAndChroma \<and> af_stream1_regions frame = luma \<and> af_stream2_regions frame = protocol \<and>
         ae_last_chroma_encoded s')) \<and>
    (af_stream1 frame = [] \<longrightarrow> \<not> ae_last_chroma_encoded s' \<and> (never_skips oh \<longrightarrow> luma = [] \<and> protocol = []))"
  using assms
  by (cases rule: encode_views_cases) (auto simp: normalize_encoded_frame_def empty_frame_data_def Let_def split: if_splits)

lemma same_views_simps:
  assumes "same_views s s'"
  shows "ae_width s' = ae_width s" "ae_height s' = ae_height s" "ae_main s' = ae_main s" "ae_aux s' = ae_aux s"
    "ae_luma_reference s' = ae_luma_reference s" "ae_chroma_reference s' = ae_chroma_reference s"
    "ae_last_luma_regions s' = ae_last_luma_regions s" "ae_last_chroma_regions s' = ae_last_chroma_regions s"
    "ae_force_chroma s' = ae_force_chroma s"
  using assms by (auto simp: same_views_def)

lemma converted_simps:
  "ae_width (converted env bgra stride ds s) = ae_width s" "ae_height (converted env bgra stride ds s) = ae_height s"
  "ae_luma_reference (converted env bgra stride ds s) = ae_luma_reference s"
  "ae_chroma_reference (converted env bgra stride ds s) = ae_chroma_reference s"
  by (simp_all add: converted_def Let_def)

lemma under_Nil: "under [] = (\<lambda>_. False)"
  by (auto simp: under_def)

text \<open>A frame with data: the views it was made of, and its commit.\<close>

lemma commit_sent:
  assumes inv: "avc444_inv s" and ds: "list_all i32_region ds" and buf: "picture_buffer s stride bgra"
    and sync: "in_sync s (cm, ca)" and enc: "avc444_encode oh env bgra stride ds s = Some (Some frame, s')"
    and data: "af_stream1 frame \<noteq> []"
  shows "\<exists>s''. commit_reference s' = Some s'' \<and> avc444_inv s'' \<and> ae_width s'' = ae_width s \<and> ae_height s'' = ae_height s \<and>
    ae_luma_reference s'' \<noteq> None \<and>
    in_sync s'' (client_receives (ae_width s) frame (ae_main s') (ae_aux s') (cm, ca))"
proof -
  define W H cs s2 where W: "W = ae_width s" and H: "H = ae_height s" and cs: "cs = avc444_candidates env ds s"
    and s2: "s2 = converted env bgra stride ds s"
  obtain luma packed protocol where found: "luma_found W H (ae_main s2) (ae_luma_reference s) cs luma"
    "chroma_found W H (ae_aux s2) (ae_chroma_reference s) cs packed protocol"
    "(env \<or> ae_force_chroma s) \<or> (\<forall>r. ae_luma_reference s = Some r \<longrightarrow> set luma = changed_in W H (ae_main s2) r cs) \<and>
       (\<forall>r. ae_chroma_reference s = Some r \<longrightarrow> tile_changes W H (ae_aux s2) r cs packed protocol)"
    and first: "ae_luma_reference s = None \<longrightarrow> luma \<noteq> []"
    and run: "avc444_encode oh env bgra stride ds s = Some (if luma = [] \<and> protocol = []
       then (Some empty_frame_data, s2\<lparr>ae_last_chroma_encoded := False, ae_last_luma_regions := [], ae_last_chroma_regions := []\<rparr>)
       else encode_views oh luma protocol (s2\<lparr>ae_last_luma_regions := luma, ae_last_chroma_regions := packed\<rparr>))"
    by (rule encode_detects [OF inv ds buf W H cs s2, where oh = oh])
  have views: "encode_views oh luma protocol (s2\<lparr>ae_last_luma_regions := luma, ae_last_chroma_regions := packed\<rparr>) = (Some frame, s')"
    using run enc data by (auto simp: empty_frame_data_def split: if_splits)
  note sent = encode_views_sent [OF views]
  note s' = same_views_simps [OF conjunct1 [OF sent], simplified]
  note i = inv [unfolded avc444_inv_def, folded W H]
  have f: "avc444_frame W H" using i by simp
  have al: "aligned_regions W H cs" using good_aligned(1) [OF f] candidates_good [OF inv ds] by (simp add: W H cs)
  have len: "yuv_len W H (ae_main s2)" "yuv_len W H (ae_aux s2)"
    using receive_len view_len by (simp_all add: s2 converted_def Let_def W H)
  have m: "mirrors (ae_luma_reference s) cm" "mirrors (ae_chroma_reference s) ca"
    using sync by (simp_all add: in_sync_def mirrors_def)
  have refs: "\<forall>r. ae_luma_reference s = Some r \<longrightarrow> yuv_len W H r" "\<forall>r. ae_chroma_reference s = Some r \<longrightarrow> yuv_len W H r"
    using i by simp_all
  note luma = commit_luma(1) [OF f al len(1) refs(1) m(1) found(1)]
    and chroma = commit_chroma(1) [OF f al len(2) refs(2) m(2) found(2)]
  have s2': "ae_width s2 = W" "ae_height s2 = H" "ae_luma_reference s2 = ae_luma_reference s" "ae_chroma_reference s2 = ae_chroma_reference s"
    by (simp_all add: s2 converted_simps W H)
  have still: "receive_main W (under []) (ae_main s2) cm = cm" if e: "luma = []"
  proof -
    obtain r where "ae_luma_reference s = Some r" using first e by (cases "ae_luma_reference s") auto
    then have "yuv_len W H cm" using refs m by (simp add: mirrors_def)
    from receive_none(1) [OF len(1) this] show ?thesis by (simp only: under_Nil)
  qed
  define s'' where "s'' = s'\<lparr>ae_luma_reference := Some (receive_main W (under luma) (ae_main s2) cm),
    ae_chroma_reference := (if ae_last_chroma_encoded s' then Some (receive_aux W (under protocol) (ae_aux s2) ca) else ae_chroma_reference s)\<rparr>"
  have "commit_reference s' = Some s''"
    using luma chroma s' s2' by (simp add: commit_reference_def s''_def)
  moreover have "avc444_inv s''"
    using i len receive_len [OF len(1)] receive_len [OF len(2)] s' s2' by (simp add: avc444_inv_def s''_def)
  moreover have "in_sync s'' (client_receives W frame (ae_main s') (ae_aux s') (cm, ca))"
    using sent data still m s' s2' by (auto simp: in_sync_def s''_def client_receives_def mirrors_def)
  ultimately show ?thesis using s' s2' by (auto simp: s''_def W H)
qed

lemma view_outside:
  assumes f: "avc444_frame W H" and good: "list_all (good_region W H) cs"
    and same: "\<And>x y. x < W \<Longrightarrow> y < H \<Longrightarrow> \<not> under cs (x, y) \<Longrightarrow> pix0 (x, y) = pix (x, y)"
  shows "receive_main W (under cs) (main_view W H pix) (main_view W H pix0) = main_view W H pix"
    and "receive_aux W (under cs) (aux_view W H pix) (aux_view W H pix0) = aux_view W H pix"
proof -
  obtain n k where W: "W = 4 * n" "0 < n" and H: "H = 2 * k" using f by (auto simp: avc444_frame_def elim!: dvdE)
  have row: "i mod W < W" "i div W < H" if "i < W * H" for i
    using that W by (simp_all add: less_mult_imp_div_less mult.commute)
  have block: "i mod (W div 2) < W div 2" "i div (W div 2) < H div 2" if "i < W div 2 * (H div 2)" for i
    using that W by (simp_all add: less_mult_imp_div_less mult.commute)
  have q: "i mod (W div 2) mod (W div 4) < W div 4" "i mod W mod (W div 2) < W div 2" for i using W by simp_all
  have even: "W = 4 * (W div 4)" "W = 2 * (W div 2)" "H = 2 * (H div 2)" using W(1) H by simp_all
  have px: "fst (px_luma W i) < W" "snd (px_luma W i) < H" "fst (px_aux_y W i) < W" "snd (px_aux_y W i) < H" if "i < W * H" for i
    using row [OF that] q(2) [of i] even unfolding px_luma_def px_aux_y_def fst_conv snd_conv by linarith+
  have px': "fst (px_block W i) + 1 < W" "snd (px_block W i) + 1 < H" "fst (px_aux_u W i) < W" "snd (px_aux_u W i) < H"
    "fst (px_aux_v W i) < W" "snd (px_aux_v W i) < H" if "i < W div 2 * (H div 2)" for i
    using block [OF that] q(1) [of i] even unfolding px_block_def px_aux_u_def px_aux_v_def fst_conv snd_conv by linarith+
  have same': "pix0 p = pix p" if "fst p < W" "snd p < H" "\<not> under cs p" for p
    using same [of "fst p" "snd p"] that by (cases p) simp
  have uv: "chroma_u pix0 p = chroma_u pix p" "chroma_v pix0 p = chroma_v pix p" if "fst p < W" "snd p < H" "\<not> under cs p" for p
    using same' [OF that] by (simp_all add: chroma_u_def chroma_v_def)
  have corner: "\<not> under cs (x + a, y + b)" if n: "\<not> under cs (x, y)" and e: "even x" "even y" and ab: "a < 2" "b < 2" for x y a b
  proof
    assume "under cs (x + a, y + b)"
    then obtain c where c: "c \<in> set cs" "under [c] (x + a, y + b)" by (auto simp: under_def list_ex_iff)
    obtain l t r b' where bx: "c = box_region (l, t, r, b')" "aligned_box (l, t, r, b')"
      using good c(1) by (fastforce simp: list_all_iff good_region_def)
    then have "even l" "even t" "even r" "even b'" by (auto simp: aligned_box_def elim!: dvdE)
    moreover have "l \<le> x + a" "x + a < r" "t \<le> y + b" "y + b < b'" using c(2) under_boxes [of "[(l, t, r, b')]"] by (simp_all add: bx(1))
    ultimately have "l \<le> x" "x < r" "t \<le> y" "y < b'" using e ab by (auto elim!: evenE)
    then have "under [c] (x, y)" using under_boxes [of "[(l, t, r, b')]"] by (simp add: bx(1))
    then show False using n c(1) by (auto simp: under_def list_ex_iff)
  qed
  have avg: "block_avg (chroma_u pix0) p = block_avg (chroma_u pix) p \<and> block_avg (chroma_v pix0) p = block_avg (chroma_v pix) p"
    if "fst p + 1 < W" "snd p + 1 < H" "\<not> under cs p" "even (fst p)" "even (snd p)" for p
  proof -
    obtain x y where p: "p = (x, y)" by (cases p)
    have "pix0 (x + a, y + b) = pix (x + a, y + b)" if "a < 2" "b < 2" for a b
      using same [of "x + a" "y + b"] corner [of x y a b] that \<open>fst p + 1 < W\<close> \<open>snd p + 1 < H\<close> \<open>\<not> under cs p\<close>
        \<open>even (fst p)\<close> \<open>even (snd p)\<close> by (simp add: p)
    from this [of 0 0] this [of 1 0] this [of 0 1] this [of 1 1] show ?thesis
      by (simp add: p block_avg_def chroma_u_def chroma_v_def)
  qed
  have ev: "even (fst (px_block W i))" "even (snd (px_block W i))" for i by (simp_all add: px_block_def)
  show "receive_main W (under cs) (main_view W H pix) (main_view W H pix0) = main_view W H pix"
    using px same' px' avg ev
    by (auto simp: receive_main_def main_view_def refresh_def intro!: map_cong)
  show "receive_aux W (under cs) (aux_view W H pix) (aux_view W H pix0) = aux_view W H pix"
    using px px' uv by (auto simp: receive_aux_def aux_view_def refresh_def intro!: map_cong)
qed

lemma encode_shows:
  assumes inv: "avc444_inv s" and ds: "list_all i32_region ds" and buf: "picture_buffer s stride bgra"
    and sync: "in_sync s (cm, ca)" and skips: "never_skips oh"
    and refs: "(env \<or> ae_force_chroma s) \<or> ae_luma_reference s \<noteq> None \<and> ae_chroma_reference s \<noteq> None"
    and len: "yuv_len (ae_width s) (ae_height s) cm" "yuv_len (ae_width s) (ae_height s) ca"
    and enc: "avc444_encode oh env bgra stride ds s = Some (Some frame, s')"
    and cs: "cs = avc444_candidates env ds s" and pix: "pix = pixel_yuv bgra stride"
  shows "(if af_stream1 frame = [] then (cm, ca) else client_receives (ae_width s) frame (ae_main s') (ae_aux s') (cm, ca)) =
    (receive_main (ae_width s) (under cs) (main_view (ae_width s) (ae_height s) pix) cm,
     receive_aux (ae_width s) (under cs) (aux_view (ae_width s) (ae_height s) pix) ca)"
proof -
  define W H s2 where W: "W = ae_width s" and H: "H = ae_height s" and s2: "s2 = converted env bgra stride ds s"
  obtain luma packed protocol where found: "luma_found W H (ae_main s2) (ae_luma_reference s) cs luma"
    "chroma_found W H (ae_aux s2) (ae_chroma_reference s) cs packed protocol"
    "(env \<or> ae_force_chroma s) \<or> (\<forall>r. ae_luma_reference s = Some r \<longrightarrow> set luma = changed_in W H (ae_main s2) r cs) \<and>
       (\<forall>r. ae_chroma_reference s = Some r \<longrightarrow> tile_changes W H (ae_aux s2) r cs packed protocol)"
    and first: "ae_luma_reference s = None \<longrightarrow> luma \<noteq> []"
    and run: "avc444_encode oh env bgra stride ds s = Some (if luma = [] \<and> protocol = []
       then (Some empty_frame_data, s2\<lparr>ae_last_chroma_encoded := False, ae_last_luma_regions := [], ae_last_chroma_regions := []\<rparr>)
       else encode_views oh luma protocol (s2\<lparr>ae_last_luma_regions := luma, ae_last_chroma_regions := packed\<rparr>))"
    by (rule encode_detects [OF inv ds buf W H cs s2, where oh = oh])
  note i = inv [unfolded avc444_inv_def, folded W H]
  have f: "avc444_frame W H" using i by simp
  have al: "aligned_regions W H cs" using good_aligned(1) [OF f] candidates_good [OF inv ds] by (simp add: W H cs)
  have l2: "yuv_len W H (ae_main s2)" "yuv_len W H (ae_aux s2)"
    using receive_len view_len by (simp_all add: s2 converted_def Let_def W H)
  have m: "mirrors (ae_luma_reference s) cm" "mirrors (ae_chroma_reference s) ca"
    using sync by (simp_all add: in_sync_def mirrors_def)
  have lens: "\<forall>r. ae_luma_reference s = Some r \<longrightarrow> yuv_len W H r" "\<forall>r. ae_chroma_reference s = Some r \<longrightarrow> yuv_len W H r"
    using i by simp_all
  have full: "cs = [full_frame W H] \<or> (\<exists>r. ae_luma_reference s = Some r \<and> set luma = changed_in W H (ae_main s2) r cs)"
    "cs = [full_frame W H] \<or> (\<exists>r. ae_chroma_reference s = Some r \<and> tile_changes W H (ae_aux s2) r cs packed protocol)"
    using refs found(3) by (auto simp: cs avc444_candidates_def W H)
  have main: "receive_main W (under luma) (ae_main s2) cm = receive_main W (under cs) (main_view W H pix) cm"
    unfolding commit_luma(2) [OF f al l2(1) lens(1) m(1) found(1) full(1)]
    by (simp add: s2 converted_def Let_def W H pix cs [symmetric] receive_main_def refresh_def cong: map_cong)
  have aux: "receive_aux W (under protocol) (ae_aux s2) ca = receive_aux W (under cs) (aux_view W H pix) ca"
    unfolding commit_chroma(2) [OF f al l2(2) lens(2) m(2) found(2) full(2)]
    by (simp add: s2 converted_def Let_def W H pix cs [symmetric] receive_aux_def refresh_def cong: map_cong)
  have none: "luma = [] \<Longrightarrow> receive_main W (under luma) (ae_main s2) cm = cm" "protocol = [] \<Longrightarrow> receive_aux W (under protocol) (ae_aux s2) ca = ca"
    using receive_none [OF l2(1)] receive_none [OF l2(2)] len by (simp_all add: under_Nil W H)
  show ?thesis
  proof (cases "luma = [] \<and> protocol = []")
    case True
    then have "frame = empty_frame_data" using enc run by simp
    then show ?thesis using main aux none True by (simp add: empty_frame_data_def W H)
  next
    case False
    then have "encode_views oh luma protocol (s2\<lparr>ae_last_luma_regions := luma, ae_last_chroma_regions := packed\<rparr>) = (Some frame, s')"
      using run enc by auto
    note sent = encode_views_sent [OF this]
    have views: "ae_main s' = ae_main s2" "ae_aux s' = ae_aux s2" using same_views_simps [OF conjunct1 [OF sent]] by simp_all
    have "af_stream1 frame \<noteq> []" using sent skips False by blast
    moreover have "client_receives W frame (ae_main s2) (ae_aux s2) (cm, ca) =
        (receive_main W (under luma) (ae_main s2) cm, receive_aux W (under protocol) (ae_aux s2) ca)"
      using sent skips False none calculation by (auto simp: client_receives_def)
    ultimately show ?thesis using main aux views by (simp add: W H)
  qed
qed

lemma encode_total:
  assumes "avc444_inv s" and "list_all i32_region ds" and "picture_buffer s stride bgra"
  shows "\<exists>r s'. avc444_encode oh env bgra stride ds s = Some (r, s')"
proof -
  define s2 cs where s2: "s2 = converted env bgra stride ds s" and cs: "cs = avc444_candidates env ds s"
  obtain luma packed protocol where "avc444_encode oh env bgra stride ds s = Some (if luma = [] \<and> protocol = []
       then (Some empty_frame_data, s2\<lparr>ae_last_chroma_encoded := False, ae_last_luma_regions := [], ae_last_chroma_regions := []\<rparr>)
       else encode_views oh luma protocol (s2\<lparr>ae_last_luma_regions := luma, ae_last_chroma_regions := packed\<rparr>))"
    by (rule encode_detects [OF assms refl refl cs s2, where oh = oh])
  then show ?thesis by (metis surj_pair)
qed

section \<open>Properties\<close>

text \<open>
  C5: Once a frame with data is sent and committed, the encoder's references are exactly the main and
  the auxiliary view the client holds after it decoded the streams under their rectangles: no later
  comparison runs against something the client does not show. Committing never panics.
\<close>

theorem avc444_references_mirror_client:
  assumes "avc444_inv s" and "list_all i32_region ds" and "picture_buffer s stride bgra"
    and "in_sync s (cm, ca)" and "avc444_encode oh env bgra stride ds s = Some (Some frame, s')"
    and "af_stream1 frame \<noteq> []"
  shows "\<exists>s''. commit_reference s' = Some s'' \<and> avc444_inv s'' \<and> ae_luma_reference s'' \<noteq> None \<and>
    in_sync s'' (client_receives (ae_width s) frame (ae_main s') (ae_aux s') (cm, ca))"
  using commit_sent [OF assms] by blast

text \<open>
  C3: A frame brings the client's picture up to date: where the client showed the previous picture
  and the new one differs from it only under the damage, or where the whole frame is forced, the
  client then holds both views of the new picture, whichever tiles and streams were found to send.
  Encoding never panics. The hypothesis on OpenH264 is that it never skips a frame, which the options
  of the AVC444 encoder ask for.
\<close>

theorem avc444_client_shows_screen:
  assumes inv: "avc444_inv s" and ds: "list_all i32_region ds" and buf: "picture_buffer s stride bgra"
    and "never_skips oh" and sync: "in_sync s (cm, ca)"
    and WH: "W = ae_width s" "H = ae_height s" and "yuv_len W H cm" and "yuv_len W H ca"
    and old: "env \<or> ae_force_chroma s \<or> (ae_luma_reference s \<noteq> None \<and> ae_chroma_reference s \<noteq> None \<and>
      cm = main_view W H old \<and> ca = aux_view W H old \<and>
      (\<forall>x<W. \<forall>y<H. \<not> under ds (x, y) \<longrightarrow> old (x, y) = pixel_yuv bgra stride (x, y)))"
  shows "\<exists>r s'. avc444_encode oh env bgra stride ds s = Some (r, s') \<and>
    (case r of None \<Rightarrow> True
     | Some frame \<Rightarrow>
         (if af_stream1 frame = [] then (cm, ca) else client_receives W frame (ae_main s') (ae_aux s') (cm, ca)) =
         (main_view W H (pixel_yuv bgra stride), aux_view W H (pixel_yuv bgra stride)))"
proof -
  obtain r s' where enc: "avc444_encode oh env bgra stride ds s = Some (r, s')"
    using encode_total [OF inv ds buf] by blast
  let ?pix = "pixel_yuv bgra stride" and ?cs = "avc444_candidates env ds s"
  have f: "avc444_frame W H" using inv by (simp add: avc444_inv_def WH)
  have good: "list_all (good_region W H) ?cs" using candidates_good [OF inv ds] by (simp add: WH)
  have full: "receive_main W (under ?cs) (main_view W H ?pix) cm = main_view W H ?pix \<and>
      receive_aux W (under ?cs) (aux_view W H ?pix) ca = aux_view W H ?pix"
  proof (cases "env \<or> ae_force_chroma s")
    case True
    then have "?cs = [full_frame W H]" by (simp add: avc444_candidates_def WH)
    then show ?thesis using receive_full [OF f] view_len by simp
  next
    case False
    then have "?cs = align_protocol_regions W H ds" by (simp add: avc444_candidates_def WH)
    then have "old (x, y) = ?pix (x, y)" if "x < W" "y < H" "\<not> under ?cs (x, y)" for x y
      using old False that align_protocol_good(2) [OF f ds] by auto
    note kept = view_outside [where ?pix0.0 = old and pix = ?pix, OF f good this]
    from kept old False show ?thesis by simp
  qed
  have refs: "(env \<or> ae_force_chroma s) \<or> ae_luma_reference s \<noteq> None \<and> ae_chroma_reference s \<noteq> None" using old by blast
  have "(if af_stream1 frame = [] then (cm, ca) else client_receives W frame (ae_main s') (ae_aux s') (cm, ca)) =
      (main_view W H ?pix, aux_view W H ?pix)" if "r = Some frame" for frame
    using full encode_shows [OF inv ds buf sync assms(4) refs _ _ enc [unfolded that] refl refl, folded WH, OF assms(8,9)]
    by simp
  then have "case r of None \<Rightarrow> True
     | Some frame \<Rightarrow>
         (if af_stream1 frame = [] then (cm, ca) else client_receives W frame (ae_main s') (ae_aux s') (cm, ca)) =
         (main_view W H ?pix, aux_view W H ?pix)"
    by (cases r) (simp_all only: option.case)
  with enc show ?thesis by blast
qed

definition combined_chroma :: "nat \<Rightarrow> yuv420 \<Rightarrow> yuv420 \<Rightarrow> nat \<times> nat \<Rightarrow> byte \<times> byte" where
  "combined_chroma width main aux = (\<lambda>(x, y).
     let chroma_w = width div 2; quarter_w = width div 4 in
     if odd x then (y_plane aux ! (y * width + x div 2), y_plane aux ! (y * width + x div 2 + chroma_w))
     else if odd y
     then (let src = y div 2 * chroma_w + x div 4; plane = (if x mod 4 = 0 then u_plane aux else v_plane aux)
           in (plane ! src, plane ! (src + quarter_w)))
     else (u_plane main ! (y div 2 * chroma_w + x div 2), v_plane main ! (y div 2 * chroma_w + x div 2)))"


lemma chroma_of_views:
  assumes f: "avc444_frame W H" and x: "x < W" and y: "y < H"
  shows "combined_chroma W (main_view W H pix) (aux_view W H pix) (x, y) =
    (if odd x \<or> odd y then (chroma_u pix (x, y), chroma_v pix (x, y))
     else (block_avg (chroma_u pix) (x, y), block_avg (chroma_v pix) (x, y)))"
proof -
  obtain n hh where W: "W = 4 * n" and H: "H = 2 * hh" using f by (auto simp: avc444_frame_def elim!: dvdE)
  have c: "x div 2 < W div 2" "x div 2 + W div 2 < W" "x div 2 < W" "x div 4 < W div 2" "x div 4 + W div 4 < W div 2" "x div 4 < W div 4"
    "y div 2 < H div 2" using x y W H by simp_all
  have b: "y * W + x div 2 < W * H" "y * W + x div 2 + W div 2 < W * H"
    "y div 2 * (W div 2) + x div 4 < W div 2 * (H div 2)" "y div 2 * (W div 2) + x div 4 + W div 4 < W div 2 * (H div 2)"
    "y div 2 * (W div 2) + x div 2 < W div 2 * (H div 2)"
    using index_bound [OF c(3) y] index_bound [OF c(2) y] index_bound [OF c(4,7)] index_bound [OF c(5,7)] index_bound [OF c(1,7)]
    by (simp_all only: add.assoc)
  have px: "px_aux_y W (y * W + x div 2) = (2 * (x div 2) + 1, y)" "px_aux_y W (y * W + x div 2 + W div 2) = (2 * (x div 2) + 1, y)"
    "px_block W (y div 2 * (W div 2) + x div 2) = (2 * (x div 2), 2 * (y div 2))"
    using c(1) unfolding px_aux_y_def px_block_def add.assoc row_divmod [OF c(3)] row_divmod [OF c(2)] row_divmod [OF c(1)] by simp_all
  have pu: "px_aux_u W (y div 2 * (W div 2) + x div 4) = (4 * (x div 4), 2 * (y div 2) + 1)"
    "px_aux_u W (y div 2 * (W div 2) + x div 4 + W div 4) = (4 * (x div 4), 2 * (y div 2) + 1)"
    "px_aux_v W (y div 2 * (W div 2) + x div 4) = (4 * (x div 4) + 2, 2 * (y div 2) + 1)"
    "px_aux_v W (y div 2 * (W div 2) + x div 4 + W div 4) = (4 * (x div 4) + 2, 2 * (y div 2) + 1)"
    using c(6) unfolding px_aux_u_def px_aux_v_def add.assoc row_divmod [OF c(4)] row_divmod [OF c(5)] by simp_all
  have side: "(y * W + x div 2) mod W < W div 2" "\<not> (y * W + x div 2 + W div 2) mod W < W div 2"
    "(y div 2 * (W div 2) + x div 4) mod (W div 2) < W div 4" "\<not> (y div 2 * (W div 2) + x div 4 + W div 4) mod (W div 2) < W div 4"
    using c(1,6) unfolding add.assoc row_divmod [OF c(2)] row_divmod [OF c(3)] row_divmod [OF c(4)] row_divmod [OF c(5)] by simp_all
  note nth = view_nth(1) [OF b(1)] view_nth(1) [OF b(2)] view_nth(2,3) [OF b(3)] view_nth(2,3) [OF b(4)] view_nth(4,5) [OF b(5)]
  have "odd x \<Longrightarrow> 2 * (x div 2) + 1 = x" "even x \<Longrightarrow> 2 * (x div 2) = x" "odd y \<Longrightarrow> 2 * (y div 2) + 1 = y" "even y \<Longrightarrow> 2 * (y div 2) = y"
    "x mod 4 = 0 \<Longrightarrow> 4 * (x div 4) = x" "even x \<Longrightarrow> x mod 4 \<noteq> 0 \<Longrightarrow> 4 * (x div 4) + 2 = x"
    by presburger+
  note whole = this
  show ?thesis
    unfolding combined_chroma_def Let_def prod.case nth px pu if_P [OF side(1)] if_not_P [OF side(2)] if_P [OF side(3)] if_not_P [OF side(4)]
    using whole by (cases "odd x"; cases "odd y"; cases "x mod 4 = 0") (simp_all only: nth px pu if_True if_False simp_thms side if_P if_not_P)
qed

text \<open>
  C35: The packing of the chroma loses nothing but one sample in four. After the conversion of a whole
  frame the two views hold, at the places where the client looks, the chroma of every pixel whose
  column or row is odd, and for the others the average of their block of four. The conversion never
  leaves the planes or the buffer.
\<close>

theorem avc444_chroma_survives:
  assumes f: "avc444_frame W H" and buf: "4 * W \<le> stride" "stride * H \<le> length bgra"
    and len: "yuv_len W H m" "yuv_len W H a"
  shows "\<exists>m' a'. bgra_to_plane_regions W H bgra stride [full_frame W H] True True (m, a) = Some (m', a') \<and>
    (\<forall>x<W. \<forall>y<H. y_plane m' ! (y * W + x) = fst (pixel_yuv bgra stride (x, y)) \<and>
      combined_chroma W m' a' (x, y) =
        (let pix = pixel_yuv bgra stride in
         if odd x \<or> odd y then (chroma_u pix (x, y), chroma_v pix (x, y))
         else (block_avg (chroma_u pix) (x, y), block_avg (chroma_v pix) (x, y))))"
proof -
  let ?m = "main_view W H (pixel_yuv bgra stride)" and ?a = "aux_view W H (pixel_yuv bgra stride)"
  have "fills W H (pixel_yuv bgra stride) (bgra_to_plane_regions W H bgra stride [full_frame W H] True True) (under [full_frame W H])"
    using convert_fills [OF f buf] full_good [OF f] by simp
  then have "bgra_to_plane_regions W H bgra stride [full_frame W H] True True (m, a) = Some (?m, ?a)"
    using len receive_full [OF f] view_len by (simp add: fills_def)
  moreover have "y_plane ?m ! (y * W + x) = fst (pixel_yuv bgra stride (x, y))" if "x < W" "y < H" for x y
    using index_bound [OF that] row_divmod [OF that(1), of y] by (simp add: main_view_def px_luma_def)
  ultimately show ?thesis using chroma_of_views [OF f] by (auto simp: Let_def)
qed

section \<open>Examples\<close>

definition sample_oh :: "unit openh264" where
  "sample_oh = \<lparr>oh_encode = \<lambda>p st. (Some ([1], OhIdr), st), oh_force_intra = id\<rparr>"

definition sample_picture :: "byte list" where
  "sample_picture = map (\<lambda>i. word_of_nat (i * 7)) [0..<32]"

definition sample_start :: "unit avc444_encoder" where
  "sample_start = the (avc444_new (h264_new (Some ()) 4 2) 4 2)"

definition sample_blank :: yuv420 where
  "sample_blank = main_view 4 2 (\<lambda>_. (0, 0, 0))"

lemma sample_facts:
  "avc444_inv sample_start" "picture_buffer sample_start 16 sample_picture" "in_sync sample_start (p, q)"
  "ae_width sample_start = 4" "ae_height sample_start = 2" "ae_force_chroma sample_start"
  "never_skips sample_oh" "yuv_len 4 2 sample_blank"
  by (simp_all add: sample_start_def avc444_new_def h264_new_def avc444_dimensions_supported_def avc444_inv_def avc444_frame_def
      yuv_len_def picture_buffer_def frame_buffer_def sample_picture_def in_sync_def never_skips_def sample_oh_def
      sample_blank_def main_view_def)

theorem avc444_chroma_survives_witness:
  "\<exists>m a. bgra_to_plane_regions 4 2 sample_picture 16 [full_frame 4 2] True True (sample_blank, sample_blank) = Some (m, a) \<and>
    combined_chroma 4 m a (3, 0) = (chroma_u (pixel_yuv sample_picture 16) (3, 0), chroma_v (pixel_yuv sample_picture 16) (3, 0))"
proof -
  have "avc444_frame 4 2" "4 * 4 \<le> (16 :: nat)" "16 * 2 \<le> length sample_picture"
    by (simp_all add: avc444_frame_def sample_picture_def)
  from avc444_chroma_survives [OF this sample_facts(8,8)] show ?thesis
    by (elim exE conjE) (drule spec [of _ 3], drule mp, simp, drule spec [of _ 0], auto simp: Let_def)
qed

theorem avc444_client_shows_screen_witness:
  "\<exists>r s'. avc444_encode sample_oh False sample_picture 16 [] sample_start = Some (r, s') \<and>
    (case r of None \<Rightarrow> True
     | Some frame \<Rightarrow>
         (if af_stream1 frame = [] then (sample_blank, sample_blank)
          else client_receives 4 frame (ae_main s') (ae_aux s') (sample_blank, sample_blank)) =
         (main_view 4 2 (pixel_yuv sample_picture 16), aux_view 4 2 (pixel_yuv sample_picture 16)))"
  by (rule avc444_client_shows_screen [OF sample_facts(1) _ sample_facts(2,7,3) sample_facts(4,5) [symmetric] sample_facts(8,8)])
    (simp_all add: sample_facts)

lemma sample_plane:
  assumes "yuv_len 4 2 p" and "ae_encoder s = ae_encoder sample_start"
  shows "encode_plane sample_oh p s = (Some \<lparr>eh_data = [1], eh_type = IdrFrame\<rparr>, s)"
proof -
  have e: "he_width (ae_encoder s) = 4" "he_height (ae_encoder s) = 2" "he_sps_pps (ae_encoder s) = None"
    using assms(2) by (simp_all add: sample_start_def avc444_new_def h264_new_def avc444_dimensions_supported_def)
  have "apply_sps_pps_cache IdrFrame [1] False None = ([1], None)" by code_simp
  then show ?thesis
    using assms(1) e
    by (simp add: encode_plane_def encode_yuv420_raw_def encode_yuv420_with_options_def encode_yuv_source_def sample_oh_def
        yuv_len_def)
qed

theorem avc444_references_mirror_client_witness:
  "\<exists>frame s' s''. avc444_encode sample_oh False sample_picture 16 [] sample_start = Some (Some frame, s') \<and>
    af_stream1 frame \<noteq> [] \<and> commit_reference s' = Some s'' \<and> avc444_inv s'' \<and> ae_luma_reference s'' \<noteq> None \<and>
    in_sync s'' (client_receives 4 frame (ae_main s') (ae_aux s') (sample_blank, sample_blank))"
proof -
  define s2 where s2: "s2 = converted False sample_picture 16 [] sample_start"
  obtain luma packed protocol where first: "ae_luma_reference sample_start = None \<longrightarrow> luma \<noteq> []"
    and run: "avc444_encode sample_oh False sample_picture 16 [] sample_start = Some (if luma = [] \<and> protocol = []
       then (Some empty_frame_data, s2\<lparr>ae_last_chroma_encoded := False, ae_last_luma_regions := [], ae_last_chroma_regions := []\<rparr>)
       else encode_views sample_oh luma protocol (s2\<lparr>ae_last_luma_regions := luma, ae_last_chroma_regions := packed\<rparr>))"
    by (rule encode_detects [OF sample_facts(1) _ sample_facts(2) refl refl refl s2, where oh = sample_oh]) simp_all
  have luma: "luma \<noteq> []"
    using first by (simp add: sample_start_def avc444_new_def h264_new_def avc444_dimensions_supported_def)
  have len: "yuv_len 4 2 (ae_main s2)" "yuv_len 4 2 (ae_aux s2)" "ae_encoder s2 = ae_encoder sample_start"
    by (simp_all add: s2 converted_def Let_def sample_facts receive_len)
  have "\<exists>frame s'. encode_views sample_oh luma protocol (s2\<lparr>ae_last_luma_regions := luma, ae_last_chroma_regions := packed\<rparr>) = (Some frame, s') \<and>
      af_stream1 frame \<noteq> []"
    using luma len by (auto simp: encode_views_def sample_plane finish_frame_def normalize_encoded_frame_def Let_def)
  then obtain frame s' where enc: "avc444_encode sample_oh False sample_picture 16 [] sample_start = Some (Some frame, s')"
    "af_stream1 frame \<noteq> []" using run luma by auto
  from avc444_references_mirror_client [OF sample_facts(1) _ sample_facts(2,3) enc] enc show ?thesis
    by (auto simp: sample_facts)
qed

end
