(* ===== verification/FrameEncoder.thy ===== *)
theory FrameEncoder
  imports Avc444
begin

text \<open>
  The encoder behind one interface, \<open>FrameEncoder\<close> of \<open>src/src/egfx/backend.rs\<close>, and the encoded
  frame it hands to the transport, \<open>EncodedEgfxFrame\<close> of \<open>src/src/egfx/frame.rs\<close>. The VA-API encoder
  is a parameter (its state \<open>'v\<close> and its two calls), and so are the results of the constructors of the
  two packages; bitrate, quality and rate control only reach those constructors.

  \<open>encoder_ok\<close> is the invariant an encoder keeps for its picture size; \<open>encode_frame_runs\<close> shows that
  encoding a frame does not panic and keeps it.
\<close>

section \<open>Encoders\<close>

datatype rate_control = Vbr | Cqp

datatype backend_policy = BackendAuto | BackendSoftware | BackendVaapi

definition allows_vaapi :: "backend_policy \<Rightarrow> bool" where
  "allows_vaapi p \<longleftrightarrow> p \<noteq> BackendSoftware"

definition allows_software :: "backend_policy \<Rightarrow> bool" where
  "allows_software p \<longleftrightarrow> p \<noteq> BackendVaapi"

definition allows_runtime_software_fallback :: "backend_policy \<Rightarrow> bool" where
  "allows_runtime_software_fallback p \<longleftrightarrow> p = BackendAuto"

datatype frame_codec = CodecAvc420 | CodecAvc444

text \<open>\<open>'v\<close> is the state of the VA-API encoder, \<open>'o\<close> that of OpenH264.\<close>

datatype ('o, 'v) frame_encoder =
    Vaapi 'v
  | Software "'o h264_encoder"
  | SoftwareAvc444 "'o avc444_encoder"

record ('o, 'v) encoder_ops =
  eo_openh264 :: "'o openh264"
  eo_convert :: "byte list \<Rightarrow> nat \<Rightarrow> yuv420 \<Rightarrow> bool \<times> yuv420"
  eo_vaapi_encode :: "byte list \<Rightarrow> nat \<Rightarrow> 'v \<Rightarrow> byte list option \<times> 'v"
  eo_vaapi_force_idr :: "'v \<Rightarrow> 'v"
  eo_full_env :: bool

text \<open>\<open>vaapi\<close> and \<open>openh264\<close> are what the constructors of the two packages return.\<close>

definition encoder_software_only :: "frame_codec \<Rightarrow> 'o option \<Rightarrow> nat \<Rightarrow> nat \<Rightarrow> ('o, 'v) frame_encoder option" where
  "encoder_software_only chosen openh264 width height =
     (case chosen of
        CodecAvc420 \<Rightarrow> map_option Software (h264_new openh264 width height)
      | CodecAvc444 \<Rightarrow>
          map_option SoftwareAvc444 (avc444_new (h264_new openh264 width height) width height))"

definition encoder_new :: "backend_policy \<Rightarrow> 'v option \<Rightarrow> 'o option \<Rightarrow> nat \<Rightarrow> nat \<Rightarrow> ('o, 'v) frame_encoder option" where
  "encoder_new p vaapi openh264 width height =
     (if allows_vaapi p \<and> vaapi \<noteq> None then map_option Vaapi vaapi
      else if \<not> allows_software p then None
      else map_option Software (h264_new openh264 width height))"

definition encoder_for_codec :: "backend_policy \<Rightarrow> frame_codec \<Rightarrow> 'v option \<Rightarrow> 'o option \<Rightarrow> nat \<Rightarrow> nat \<Rightarrow>
    ('o, 'v) frame_encoder option" where
  "encoder_for_codec p chosen vaapi openh264 width height =
     (case chosen of
        CodecAvc420 \<Rightarrow> encoder_new p vaapi openh264 width height
      | CodecAvc444 \<Rightarrow>
          if \<not> allows_software p then None else encoder_software_only CodecAvc444 openh264 width height)"

definition encoder_encode :: "('o, 'v) encoder_ops \<Rightarrow> byte list \<Rightarrow> nat \<Rightarrow> ('o, 'v) frame_encoder \<Rightarrow>
    byte list option \<times> ('o, 'v) frame_encoder" where
  "encoder_encode ops bgra stride e =
     (case e of
        Vaapi v \<Rightarrow> (let (r, v') = eo_vaapi_encode ops bgra stride v in (r, Vaapi v'))
      | Software h \<Rightarrow> (let (r, h') = h264_encode (eo_openh264 ops) (eo_convert ops) bgra stride h in (r, Software h'))
      | SoftwareAvc444 a \<Rightarrow> (None, e))"

definition encoder_encode_avc444 :: "('o, 'v) encoder_ops \<Rightarrow> byte list \<Rightarrow> nat \<Rightarrow> region list \<Rightarrow> ('o, 'v) frame_encoder \<Rightarrow>
    (avc444_frame_data option \<times> ('o, 'v) frame_encoder) run" where
  "encoder_encode_avc444 ops bgra stride candidates e =
     (case e of
        SoftwareAvc444 a \<Rightarrow> map_option (\<lambda>(r, a'). (r, SoftwareAvc444 a'))
          (avc444_encode (eo_openh264 ops) (eo_full_env ops) bgra stride candidates a)
      | _ \<Rightarrow> Some (None, e))"

text \<open>The \<open>Avc444EncodedFrame\<close> inside an \<open>EncodedEgfxFrame\<close>.\<close>

definition frame_of_avc444 :: "avc444_frame_data \<Rightarrow> encoded_frame" where
  "frame_of_avc444 d = FrameAvc444 (af_encoding d) (af_stream1 d) (af_stream1_regions d) (af_stream2 d) (af_stream2_regions d)"

definition encode_egfx_frame :: "('o, 'v) encoder_ops \<Rightarrow> frame_codec \<Rightarrow> byte list \<Rightarrow> nat \<Rightarrow> region list \<Rightarrow>
    ('o, 'v) frame_encoder \<Rightarrow> (encoded_frame option \<times> ('o, 'v) frame_encoder) run" where
  "encode_egfx_frame ops chosen bgra stride candidates e =
     (case chosen of
        CodecAvc420 \<Rightarrow> (let (r, e') = encoder_encode ops bgra stride e in Some (map_option FrameAvc420 r, e'))
      | CodecAvc444 \<Rightarrow> map_option (\<lambda>(r, e'). (map_option frame_of_avc444 r, e'))
          (encoder_encode_avc444 ops bgra stride candidates e))"

definition encoder_commit :: "('o, 'v) frame_encoder \<Rightarrow> ('o, 'v) frame_encoder run" where
  "encoder_commit e = (case e of SoftwareAvc444 a \<Rightarrow> map_option SoftwareAvc444 (commit_reference a) | _ \<Rightarrow> Some e)"

definition encoder_force_idr :: "('o, 'v) encoder_ops \<Rightarrow> ('o, 'v) frame_encoder \<Rightarrow> ('o, 'v) frame_encoder" where
  "encoder_force_idr ops e =
     (case e of
        Vaapi v \<Rightarrow> Vaapi (eo_vaapi_force_idr ops v)
      | Software h \<Rightarrow> Software (h264_force_idr (eo_openh264 ops) h)
      | SoftwareAvc444 a \<Rightarrow> SoftwareAvc444 (avc444_force_idr (eo_openh264 ops) a))"

definition encoder_force_full_frame :: "('o, 'v) frame_encoder \<Rightarrow> ('o, 'v) frame_encoder" where
  "encoder_force_full_frame e = (case e of SoftwareAvc444 a \<Rightarrow> SoftwareAvc444 (avc444_force_full_frame a) | _ \<Rightarrow> e)"

definition is_vaapi :: "('o, 'v) frame_encoder \<Rightarrow> bool" where
  "is_vaapi e = (case e of Vaapi v \<Rightarrow> True | _ \<Rightarrow> False)"

section \<open>Encoded frames\<close>

datatype frame_state = Sendable | Skipped | Invalid

definition frame_state :: "encoded_frame \<Rightarrow> frame_state" where
  "frame_state frame = (case frame of
     FrameAvc420 data \<Rightarrow> if data = [] then Skipped else if length data > 32 then Sendable else Invalid
   | FrameAvc444 encoding stream1 regions1 stream2 regions2 \<Rightarrow>
       if stream1 = [] \<and> stream2 = [] \<and> regions1 = [] \<and> regions2 = [] then Skipped
       else if (encoding = Luma \<or> encoding = Chroma) \<and> regions1 \<noteq> [] \<and> regions2 = [] \<and> stream2 = []
       then (if stream1 \<noteq> [] then Sendable else Skipped)
       else if encoding = LumaAndChroma \<and> regions1 \<noteq> [] \<and> regions2 \<noteq> []
       then (if stream1 \<noteq> [] \<and> stream2 \<noteq> [] then Sendable else Skipped)
       else Invalid)"

definition commit_after_send :: "encoded_frame \<Rightarrow> ('o, 'v) frame_encoder \<Rightarrow> ('o, 'v) frame_encoder run" where
  "commit_after_send frame e = (case frame of FrameAvc444 _ _ _ _ _ \<Rightarrow> encoder_commit e | FrameAvc420 _ \<Rightarrow> Some e)"


section \<open>Encoders keep their invariant\<close>

definition encoder_ok :: "nat \<Rightarrow> nat \<Rightarrow> ('o, 'v) frame_encoder \<Rightarrow> bool" where
  "encoder_ok W H e = (case e of SoftwareAvc444 a \<Rightarrow> avc444_inv a \<and> ae_width a = W \<and> ae_height a = H | _ \<Rightarrow> True)"

lemma encoder_ok_simps [simp]:
  "encoder_ok W H (Vaapi v)" "encoder_ok W H (Software h)"
  "encoder_ok W H (SoftwareAvc444 a) \<longleftrightarrow> avc444_inv a \<and> ae_width a = W \<and> ae_height a = H"
  by (simp_all add: encoder_ok_def)

lemma avc444_inv_same:
  "ae_width s' = ae_width s \<Longrightarrow> ae_height s' = ae_height s \<Longrightarrow> ae_main s' = ae_main s \<Longrightarrow> ae_aux s' = ae_aux s \<Longrightarrow>
   ae_luma_reference s' = ae_luma_reference s \<Longrightarrow> ae_chroma_reference s' = ae_chroma_reference s \<Longrightarrow> avc444_inv s' = avc444_inv s"
  by (simp add: avc444_inv_def)

definition same_planes :: "'o avc444_encoder \<Rightarrow> 'o avc444_encoder \<Rightarrow> bool" where
  "same_planes s s' \<longleftrightarrow> ae_width s' = ae_width s \<and> ae_height s' = ae_height s \<and> ae_main s' = ae_main s \<and> ae_aux s' = ae_aux s \<and>
     ae_luma_reference s' = ae_luma_reference s \<and> ae_chroma_reference s' = ae_chroma_reference s"

lemma encode_views_planes: "encode_views oh luma protocol s = (r, s') \<Longrightarrow> same_planes s s'"
  by (auto simp: encode_views_def encode_plane_def finish_frame_def same_planes_def Let_def
      split: if_splits option.splits prod.splits)

lemma converted_inv:
  assumes "avc444_inv s"
  shows "avc444_inv (converted env bgra stride ds s)"
  using assms view_len receive_len by (simp add: avc444_inv_def converted_def Let_def)

lemma encode_keeps_inv:
  assumes inv: "avc444_inv s" and ds: "list_all i32_region ds" and buf: "picture_buffer s stride bgra"
    and run: "avc444_encode oh env bgra stride ds s = Some (r, s')"
  shows "avc444_inv s' \<and> ae_width s' = ae_width s \<and> ae_height s' = ae_height s"
proof -
  define s2 cs where s2: "s2 = converted env bgra stride ds s" and cs: "cs = avc444_candidates env ds s"
  obtain luma packed protocol where eq: "avc444_encode oh env bgra stride ds s = Some (if luma = [] \<and> protocol = []
       then (Some empty_frame_data, s2\<lparr>ae_last_chroma_encoded := False, ae_last_luma_regions := [], ae_last_chroma_regions := []\<rparr>)
       else encode_views oh luma protocol (s2\<lparr>ae_last_luma_regions := luma, ae_last_chroma_regions := packed\<rparr>))"
    by (rule encode_detects [OF inv ds buf refl refl cs s2, where oh = oh])
  have "same_planes s2 s'"
  proof (cases "luma = [] \<and> protocol = []")
    case True
    then show ?thesis using eq run by (auto simp: same_planes_def)
  next
    case False
    then have "encode_views oh luma protocol (s2\<lparr>ae_last_luma_regions := luma, ae_last_chroma_regions := packed\<rparr>) = (r, s')"
      using eq run by auto
    from encode_views_planes [OF this] show ?thesis by (simp add: same_planes_def)
  qed
  then have "avc444_inv s' = avc444_inv s2" "ae_width s' = ae_width s2" "ae_height s' = ae_height s2"
    using avc444_inv_same [of s' s2] by (simp_all add: same_planes_def)
  with converted_inv [OF inv] show ?thesis by (simp add: s2 converted_simps)
qed

lemma commit_runs:
  assumes "avc444_inv s" and "list_all i32_region ds" and "picture_buffer s stride bgra"
    and "avc444_encode oh env bgra stride ds s = Some (Some frame, s')" and "af_stream1 frame \<noteq> []"
  shows "\<exists>s''. commit_reference s' = Some s'' \<and> avc444_inv s'' \<and> ae_width s'' = ae_width s \<and> ae_height s'' = ae_height s"
proof -
  have "in_sync s (case ae_luma_reference s of Some r \<Rightarrow> r | None \<Rightarrow> ae_main s, case ae_chroma_reference s of Some r \<Rightarrow> r | None \<Rightarrow> ae_aux s)"
    by (simp add: in_sync_def split: option.splits)
  from commit_sent [OF assms(1-3) this assms(4,5)] show ?thesis by blast
qed

lemma encode_frame_runs:
  assumes ok: "encoder_ok W H e" and buf: "frame_buffer W H stride data" and ds: "list_all i32_region ds"
  obtains encoded e' where "encode_egfx_frame eops chosen data stride ds e = Some (encoded, e')" "encoder_ok W H e'"
    "\<And>frame. encoded = Some frame \<Longrightarrow> frame_state frame = Sendable \<Longrightarrow>
       \<exists>e''. commit_after_send frame e' = Some e'' \<and> encoder_ok W H e''"
proof (cases chosen)
  case CodecAvc420
  obtain r e' where r: "encoder_encode eops data stride e = (r, e')" by fastforce
  have "encoder_ok W H e'" using ok r by (cases e) (auto simp: encoder_encode_def split: prod.splits)
  moreover have "encode_egfx_frame eops chosen data stride ds e = Some (map_option FrameAvc420 r, e')"
    using r CodecAvc420 by (simp add: encode_egfx_frame_def)
  moreover have "\<exists>e''. commit_after_send frame e' = Some e'' \<and> encoder_ok W H e''" if "map_option FrameAvc420 r = Some frame" for frame
    using that \<open>encoder_ok W H e'\<close> by (auto simp: commit_after_send_def)
  ultimately show thesis using that by blast
next
  case CodecAvc444
  show thesis
  proof (cases e)
    case (SoftwareAvc444 a)
    then have inv: "avc444_inv a" "ae_width a = W" "ae_height a = H" using ok by simp_all
    have pb: "picture_buffer a stride data" using buf inv by (simp add: picture_buffer_def)
    obtain r a' where run: "avc444_encode (eo_openh264 eops) (eo_full_env eops) data stride ds a = Some (r, a')"
      using encode_total [OF inv(1) ds pb] by blast
    have keep: "encoder_ok W H (SoftwareAvc444 a')" using encode_keeps_inv [OF inv(1) ds pb run] inv by simp
    have "\<exists>e''. commit_after_send frame (SoftwareAvc444 a') = Some e'' \<and> encoder_ok W H e''"
      if made: "map_option frame_of_avc444 r = Some frame" and sendable: "frame_state frame = Sendable" for frame
    proof -
      obtain d where d: "r = Some d" "frame = frame_of_avc444 d" using made by (cases r) auto
      then have "af_stream1 d \<noteq> []"
        using sendable by (auto simp: frame_of_avc444_def frame_state_def split: if_splits)
      from commit_runs [OF inv(1) ds pb run [unfolded d(1)] this] obtain a'' where
        "commit_reference a' = Some a''" "avc444_inv a''" "ae_width a'' = W" "ae_height a'' = H" using inv by auto
      then show ?thesis by (simp add: d(2) frame_of_avc444_def commit_after_send_def encoder_commit_def)
    qed
    moreover have "encode_egfx_frame eops chosen data stride ds e = Some (map_option frame_of_avc444 r, SoftwareAvc444 a')"
      using run by (simp add: CodecAvc444 SoftwareAvc444 encode_egfx_frame_def encoder_encode_avc444_def)
    ultimately show thesis using keep that by blast
  qed (use ok that [of None e] CodecAvc444 in \<open>simp_all add: encode_egfx_frame_def encoder_encode_avc444_def\<close>)
qed

lemma force_idr_ok: "encoder_ok W H e \<Longrightarrow> encoder_ok W H (encoder_force_idr ops e)"
  by (cases e) (auto simp: encoder_force_idr_def avc444_force_idr_def avc444_force_full_frame_def avc444_inv_def)

lemma force_full_ok: "encoder_ok W H e \<Longrightarrow> encoder_ok W H (encoder_force_full_frame e)"
  by (cases e) (auto simp: encoder_force_full_frame_def avc444_force_full_frame_def avc444_inv_def)

lemma avc444_new_inv:
  assumes "avc444_new created W H = Some a" and "int W \<le> i32_max" and "int H \<le> i32_max"
  shows "avc444_inv a \<and> ae_width a = W \<and> ae_height a = H"
  using assms
  by (auto simp: avc444_new_def avc444_dimensions_supported_def avc444_inv_def avc444_frame_def yuv_len_def Let_def
      split: if_splits)

lemma encoder_new_ok:
  assumes "int W \<le> i32_max" and "int H \<le> i32_max"
  shows "encoder_software_only chosen oh W H = Some e \<Longrightarrow> encoder_ok W H e"
    "encoder_for_codec p chosen va oh W H = Some e \<Longrightarrow> encoder_ok W H e"
  by (auto dest!: avc444_new_inv [OF _ assms] simp: encoder_software_only_def encoder_for_codec_def encoder_new_def split: frame_codec.splits if_splits)

end
