(* ===== verification/FrameProcessor.thy ===== *)
theory FrameProcessor
  imports FrameEncoder
begin

text \<open>
  The frame processor of \<open>src/src/capture/frame.rs\<close>: from a captured picture and the damage reported
  with it to a frame on the graphics channel or a bitmap update. One call of \<open>process_at\<close> is one step
  on the processor and on the world of \<open>Transport\<close>; the other threads that touch the shared channel
  state act between steps. \<open>surroundings\<close> holds what a step finds around it: the instants, the identity
  of the producer of output slots, the environment variable against AVC444, what the constructors of
  the encoders return, and whether the display channel still has a receiver. Statistics and log
  messages are left out.
\<close>

section \<open>The frame processor\<close>

definition max_encode_failures :: nat where
  "max_encode_failures = 5"

record ('o, 'v) processor =
  fp_egfx :: bool
  fp_encoder :: "('o, 'v) frame_encoder option"
  fp_handle :: "nat option"
  fp_sender :: "nat option"
  fp_surface_id :: "nat option"
  fp_active :: bool
  fp_ready :: bool
  fp_generation :: nat
  fp_codec :: "frame_codec option"
  fp_width :: nat
  fp_height :: nat
  fp_pixel_format :: pixel_format
  fp_stride :: nat
  fp_quality :: byte
  fp_rate_control :: rate_control
  fp_backend :: backend_policy
  fp_fps :: nat
  fp_sent_first :: bool
  fp_failures :: nat
  fp_pending :: "region list"
  fp_detector :: detector
  fp_initial_resize :: "(nat \<times> nat) option"

definition processor_new :: "bool \<Rightarrow> nat \<Rightarrow> nat \<Rightarrow> pixel_format \<Rightarrow> nat \<Rightarrow> byte \<Rightarrow> rate_control \<Rightarrow> nat \<Rightarrow> backend_policy \<Rightarrow>
    ('o, 'v) processor" where
  "processor_new egfx width height format stride quality rate fps backend =
     \<lparr>fp_egfx = egfx, fp_encoder = None, fp_handle = None, fp_sender = None, fp_surface_id = None, fp_active = False,
      fp_ready = False, fp_generation = 0, fp_codec = None, fp_width = width, fp_height = height,
      fp_pixel_format = format, fp_stride = stride, fp_quality = quality, fp_rate_control = rate, fp_backend = backend,
      fp_fps = fps, fp_sent_first = False, fp_failures = 0, fp_pending = [], fp_detector = detector_new,
      fp_initial_resize = None\<rparr>"

definition set_pending_initial_resize :: "(nat \<times> nat) option \<Rightarrow> ('o, 'v) processor \<Rightarrow> ('o, 'v) processor" where
  "set_pending_initial_resize resize s = s\<lparr>fp_initial_resize := resize\<rparr>"

definition has_pending_damage :: "('o, 'v) processor \<Rightarrow> bool" where
  "has_pending_damage s \<longleftrightarrow> fp_pending s \<noteq> []"

definition pacing_fps :: "('o, 'v) processor \<Rightarrow> egfx_shared \<Rightarrow> nat" where
  "pacing_fps s sh = (if fp_egfx s then preferred_frame_rate sh (fp_fps s) else max (fp_fps s) 1)"

definition metadata_qp :: "('o, 'v) processor \<Rightarrow> byte" where
  "metadata_qp s = (case fp_rate_control s of Vbr \<Rightarrow> 0 | Cqp \<Rightarrow> min (fp_quality s) 51)"

definition queue_damage :: "region list \<Rightarrow> ('o, 'v) processor \<Rightarrow> ('o, 'v) processor" where
  "queue_damage damage_regions s = fold (\<lambda>(x, y, w, h) s.
     case clamp_damage_region x y w h (fp_width s) (fp_height s) of
       None \<Rightarrow> s
     | Some region \<Rightarrow> s\<lparr>fp_pending := merge_damage_region (fp_pending s) region\<rparr>) damage_regions s"

text \<open>What one captured frame finds around it.\<close>

record ('o, 'v) surroundings =
  sr_now :: nat
  sr_timestamp :: nat
  sr_producer :: nat
  sr_disable_avc444 :: bool
  sr_vaapi :: "'v option"
  sr_openh264 :: "'o option"
  sr_openh264_again :: "'o option"
  sr_updates_open :: bool

datatype display_update = ResizeUpdate "nat \<times> nat" | BitmapUpdate "byte list"

definition whole :: "('o, 'v) processor \<Rightarrow> region" where
  "whole s = full_frame (fp_width s) (fp_height s)"

definition detect_damage :: "byte list \<Rightarrow> region list \<Rightarrow> ('o, 'v) processor \<Rightarrow> region list run" where
  "detect_damage data candidates s = detect (fp_detector s) data (fp_width s) (fp_height s) (fp_stride s) candidates"

definition update_detector :: "byte list \<Rightarrow> region list \<Rightarrow> ('o, 'v) processor \<Rightarrow> ('o, 'v) processor" where
  "update_detector data damage s =
     s\<lparr>fp_detector := update_reference_regions (fp_detector s) data (fp_width s) (fp_height s) (fp_stride s) damage\<rparr>"

subsection \<open>The ClearCodec path\<close>

definition observe_clearcodec :: "egfx_shared \<Rightarrow> ('o, 'v) processor \<Rightarrow> ('o, 'v) processor" where
  "observe_clearcodec sh s =
     (if ready_generation sh \<noteq> fp_generation s \<or> \<not> Option.is_none (fp_encoder s)
      then s\<lparr>fp_generation := ready_generation sh, fp_encoder := None, fp_codec := None, fp_active := False,
             fp_surface_id := None, fp_sent_first := False, fp_detector := invalidate (fp_detector s)\<rparr>
      else s)"

definition process_clearcodec :: "('srv, 'msg, 'svc, 'err) gfx_ops \<Rightarrow> ('e \<Rightarrow> byte list \<Rightarrow> nat \<Rightarrow> nat \<Rightarrow> byte list \<times> 'e) \<Rightarrow>
    ('o, 'v) surroundings \<Rightarrow> byte list \<Rightarrow> ('o, 'v) processor \<Rightarrow> ('srv, 'svc, 'e) egfx_world \<Rightarrow>
    (bool \<times> ('o, 'v) processor \<times> ('srv, 'svc, 'e) egfx_world) run" where
  "process_clearcodec ops enc sr data s0 w =
     (let s = observe_clearcodec (shared w) s0; requested = force_full_frame (shared w) in
      if gfx_handle (shared w) = None \<or> event_sender (shared w) = None then Some (True, s, w)
      else if channel_closed w then Some (False, s, w)
      else if (if requested then full_frame_refresh_readiness (shared w) else frame_readiness ops w) \<noteq> Ready
      then Some (True, s, w)
      else if fp_width s > u16_max \<or> fp_height s > u16_max then Some (False, s, w)
      else do {
        damage \<leftarrow> (if requested \<or> \<not> fp_sent_first s then Some [whole s] else detect_damage data (fp_pending s) s);
        if damage = [] then Some (True, s\<lparr>fp_pending := []\<rparr>, w)
        else (case init_or_reuse_surface ops (fp_width s) (fp_height s) w of
            (None, w1) \<Rightarrow> Some (True, s, w1)
          | (Some sid, w1) \<Rightarrow> do {
              (result, w2) \<leftarrow> send_clearcodec_damage ops enc (sr_producer sr) sid data (fp_width s) (fp_height s)
                (fp_stride s) damage 0 (fp_pixel_format s) w1;
              Some (case result of
                  Inr (Some bytes) \<Rightarrow>
                    (True, (update_detector data damage (s\<lparr>fp_sent_first := True, fp_surface_id := Some sid\<rparr>))\<lparr>fp_pending := []\<rparr>,
                     w2\<lparr>shared := snd (take_full_frame_request (shared w2))\<rparr>)
                | Inr None \<Rightarrow> (True, s, w2)
                | Inl e \<Rightarrow> (False, s, w2))
            })
      })"

subsection \<open>The H.264 path\<close>

definition graphics_ready :: "egfx_shared \<Rightarrow> bool" where
  "graphics_ready sh \<longleftrightarrow> ready sh \<and> avc_enabled sh"

definition graphics_codec :: "bool \<Rightarrow> egfx_shared \<Rightarrow> ('o, 'v) processor \<Rightarrow> frame_codec option" where
  "graphics_codec disable_avc444 sh s =
     (if is_avc444_enabled disable_avc444 sh \<and> avc444_dimensions_supported (fp_width s) (fp_height s) then Some CodecAvc444
      else if avc_enabled sh then Some CodecAvc420 else None)"

definition observe_ready :: "egfx_shared \<Rightarrow> ('o, 'v) processor \<Rightarrow> ('o, 'v) processor" where
  "observe_ready sh s =
     (if graphics_ready sh = fp_ready s then s
      else if graphics_ready sh then s\<lparr>fp_ready := True\<rparr>
      else s\<lparr>fp_ready := False, fp_active := False, fp_handle := None, fp_sender := None, fp_surface_id := None,
             fp_encoder := None, fp_codec := None, fp_sent_first := False, fp_detector := invalidate (fp_detector s)\<rparr>)"

definition observe_codec :: "('o, 'v) surroundings \<Rightarrow> egfx_shared \<Rightarrow> ('o, 'v) processor \<Rightarrow> ('o, 'v) processor" where
  "observe_codec sr sh s =
     (let chosen = graphics_codec (sr_disable_avc444 sr) sh s in
      if ready_generation sh \<noteq> fp_generation s \<or> (graphics_ready sh \<and> chosen \<noteq> fp_codec s)
      then (let s1 = s\<lparr>fp_generation := ready_generation sh, fp_surface_id := None, fp_encoder := None, fp_codec := None,
                       fp_sent_first := False, fp_detector := invalidate (fp_detector s)\<rparr>;
                selected = (case chosen of None \<Rightarrow> CodecAvc420 | Some c \<Rightarrow> c)
            in if \<not> graphics_ready sh then s1
               else (case encoder_for_codec (fp_backend s) selected (sr_vaapi sr) (sr_openh264 sr) (fp_width s) (fp_height s) of
                   None \<Rightarrow> s1
                 | Some e \<Rightarrow> s1\<lparr>fp_codec := Some selected, fp_encoder := Some e\<rparr>))
      else s)"

definition attach_transport :: "egfx_shared \<Rightarrow> ('o, 'v) processor \<Rightarrow> ('o, 'v) processor" where
  "attach_transport sh s =
     (if graphics_ready sh \<and> \<not> fp_active s
      then (let s1 = s\<lparr>fp_handle := gfx_handle sh, fp_sender := event_sender sh\<rparr>
            in if \<not> Option.is_none (fp_encoder s1) \<and> fp_handle s1 \<noteq> None \<and> fp_sender s1 \<noteq> None
               then s1\<lparr>fp_active := True\<rparr> else s1)
      else s)"

definition ensure_surface :: "('srv, 'msg, 'svc, 'err) gfx_ops \<Rightarrow> ('o, 'v) processor \<Rightarrow> ('srv, 'svc, 'e) egfx_world \<Rightarrow>
    ('o, 'v) processor \<times> ('srv, 'svc, 'e) egfx_world" where
  "ensure_surface ops s w =
     (if fp_surface_id s = None \<and> fp_handle s \<noteq> None \<and> fp_sender s \<noteq> None
      then (let (sid, w1) = init_or_reuse_surface ops (as_u16 (fp_width s)) (as_u16 (fp_height s)) w
            in (s\<lparr>fp_surface_id := sid\<rparr>, w1))
      else (s, w))"

text \<open>The arms of the match on the encoded frame: whether it was sent.\<close>

definition encode_failed :: "('o, 'v) encoder_ops \<Rightarrow> ('o, 'v) processor \<Rightarrow> ('o, 'v) processor" where
  "encode_failed eops s =
     s\<lparr>fp_failures := u32_add (fp_failures s) 1, fp_encoder := map_option (encoder_force_idr eops) (fp_encoder s)\<rparr>"

definition deliver :: "('srv, 'msg, 'svc, 'err) gfx_ops \<Rightarrow> ('o, 'v) encoder_ops \<Rightarrow> ('o, 'v) surroundings \<Rightarrow> byte list \<Rightarrow>
    region list \<Rightarrow> nat \<Rightarrow> encoded_frame \<Rightarrow> ('o, 'v) processor \<Rightarrow> ('srv, 'svc, 'e) egfx_world \<Rightarrow>
    (bool \<times> ('o, 'v) processor \<times> ('srv, 'svc, 'e) egfx_world) run" where
  "deliver ops eops sr data damage sid frame s w =
     (if fp_handle s = None \<or> fp_sender s = None then Some (False, s, w)
      else (let (sent_via_egfx, w1) = send_tracked_encoded_frame ops (sr_producer sr) sid (frame_state frame = Sendable) frame
                  damage (sr_timestamp sr) (as_u16 (fp_width s)) (as_u16 (fp_height s)) (metadata_qp s) w
            in if \<not> sent_via_egfx
               then Some (False, s\<lparr>fp_encoder := map_option (encoder_force_idr eops) (fp_encoder s)\<rparr>, w1)
               else do {
                 committed \<leftarrow> (case fp_encoder s of None \<Rightarrow> Some None
                   | Some e \<Rightarrow> map_option Some (commit_after_send frame e));
                 Some (True, update_detector data damage (s\<lparr>fp_encoder := committed\<rparr>), w1)
               }))"

definition handle_encoded :: "('srv, 'msg, 'svc, 'err) gfx_ops \<Rightarrow> ('o, 'v) encoder_ops \<Rightarrow> ('o, 'v) surroundings \<Rightarrow> byte list \<Rightarrow>
    region list \<Rightarrow> nat \<Rightarrow> encoded_frame option \<Rightarrow> ('o, 'v) processor \<Rightarrow> ('srv, 'svc, 'e) egfx_world \<Rightarrow>
    (bool \<times> ('o, 'v) processor \<times> ('srv, 'svc, 'e) egfx_world) run" where
  "handle_encoded ops eops sr data damage sid encoded s w =
     (case encoded of
        None \<Rightarrow> Some (False, encode_failed eops s, w)
      | Some frame \<Rightarrow>
          (case frame_state frame of
             Sendable \<Rightarrow> deliver ops eops sr data damage sid frame (s\<lparr>fp_failures := 0\<rparr>) w
           | Skipped \<Rightarrow> Some (False, s\<lparr>fp_failures := 0\<rparr>, w)
           | Invalid \<Rightarrow> Some (False, encode_failed eops s, w)))"

definition recover_from_failures :: "('o, 'v) surroundings \<Rightarrow> ('o, 'v) processor \<Rightarrow> ('o, 'v) processor" where
  "recover_from_failures sr s =
     (if max_encode_failures \<le> fp_failures s \<and> (case fp_encoder s of None \<Rightarrow> False | Some e \<Rightarrow> is_vaapi e)
      then if allows_runtime_software_fallback (fp_backend s)
           then (case encoder_software_only (case fp_codec s of None \<Rightarrow> CodecAvc420 | Some c \<Rightarrow> c) (sr_openh264_again sr)
                     (fp_width s) (fp_height s) of
               Some e \<Rightarrow> s\<lparr>fp_encoder := Some e, fp_failures := 0, fp_surface_id := None\<rparr>
             | None \<Rightarrow> s\<lparr>fp_encoder := None, fp_active := False\<rparr>)
           else s\<lparr>fp_encoder := None, fp_active := False\<rparr>
      else s)"

definition encode_and_send :: "('srv, 'msg, 'svc, 'err) gfx_ops \<Rightarrow> ('o, 'v) encoder_ops \<Rightarrow> ('o, 'v) surroundings \<Rightarrow> byte list \<Rightarrow>
    bool \<Rightarrow> region list \<Rightarrow> nat \<Rightarrow> ('o, 'v) processor \<Rightarrow> ('srv, 'svc, 'e) egfx_world \<Rightarrow>
    (bool \<times> ('o, 'v) processor \<times> ('srv, 'svc, 'e) egfx_world) run" where
  "encode_and_send ops eops sr data force damage sid s w = do {
     let s1 = (if force then s\<lparr>fp_encoder := map_option encoder_force_full_frame (fp_encoder s)\<rparr> else s);
     (sent_via_egfx, s2, w1) \<leftarrow> (case fp_encoder s1 of
         None \<Rightarrow> Some (False, s1, w)
       | Some e \<Rightarrow> do {
           (encoded, e1) \<leftarrow> encode_egfx_frame eops (case fp_codec s1 of None \<Rightarrow> CodecAvc420 | Some c \<Rightarrow> c) data (fp_stride s1) damage e;
           handle_encoded ops eops sr data damage sid encoded (s1\<lparr>fp_encoder := Some e1\<rparr>) w
         });
     let w2 = (if force \<and> \<not> sent_via_egfx then w1\<lparr>shared := request_full_frame (shared w1)\<rparr> else w1);
     Some (sent_via_egfx, recover_from_failures sr s2, w2)
   }"

text \<open>
  The block of \<open>process_at\<close> for a session with a graphics channel. \<open>None\<close> is its early return;
  otherwise the result is \<open>sent_via_egfx\<close>.
\<close>

definition frame_damage :: "bool \<Rightarrow> byte list \<Rightarrow> ('o, 'v) processor \<Rightarrow> region list run" where
  "frame_damage force data s =
     (if force then Some [whole s]
      else if fp_sent_first s then detect_damage data (fp_pending s) s
      else detect_damage data [whole s] s)"

definition process_avc :: "('srv, 'msg, 'svc, 'err) gfx_ops \<Rightarrow> ('o, 'v) encoder_ops \<Rightarrow> ('o, 'v) surroundings \<Rightarrow> byte list \<Rightarrow>
    ('o, 'v) processor \<Rightarrow> ('srv, 'svc, 'e) egfx_world \<Rightarrow>
    (bool option \<times> ('o, 'v) processor \<times> ('srv, 'svc, 'e) egfx_world) run" where
  "process_avc ops eops sr data s0 w0 =
     (let is_ready = graphics_ready (shared w0);
          s = observe_codec sr (shared w0) (observe_ready (shared w0) s0)
      in if is_ready \<and> force_full_frame (shared w0) \<and> full_frame_refresh_readiness (shared w0) \<noteq> Ready
         then Some (None, s, w0)
         else (let (force, w) = (if is_ready
                     then let (taken, sh) = take_full_frame_request (shared w0) in (taken, w0\<lparr>shared := sh\<rparr>)
                     else (False, w0))
               in do {
                 damage \<leftarrow> frame_damage force data s;
                 if fp_sent_first s \<and> damage = [] then Some (None, s\<lparr>fp_pending := []\<rparr>, w)
                 else let s1 = attach_transport (shared w) s in
                   if \<not> fp_active s1 then Some (Some False, s1, w)
                   else let (s2, w1) = ensure_surface ops s1 w in
                     (case fp_surface_id s2 of
                        None \<Rightarrow> Some (Some False, s2, w1)
                      | Some sid \<Rightarrow>
                          if fp_handle s2 \<noteq> None \<and> frame_readiness ops w1 \<noteq> Ready then Some (None, s2, w1)
                          else map_option (\<lambda>(sent_via_egfx, s3, w2). (Some sent_via_egfx, s3, w2))
                            (encode_and_send ops eops sr data force damage sid s2 w1))
               }))"

text \<open>The end of \<open>process_at\<close>: the bookkeeping of a sent frame, or the bitmap fallback.\<close>

definition bitmap_wanted :: "nat \<Rightarrow> ('o, 'v) processor \<Rightarrow> ('srv, 'svc, 'e) egfx_world \<Rightarrow> bool \<times> ('srv, 'svc, 'e) egfx_world" where
  "bitmap_wanted now s w =
     (if \<not> fp_egfx s then (True, w)
      else if \<not> ready (shared w)
      then (let (due, sh) = bitmap_fallback_due now (shared w) in (due, w\<lparr>shared := sh\<rparr>))
      else (\<not> avc_enabled (shared w) \<or>
            \<not> (fp_active s \<and> \<not> Option.is_none (fp_encoder s) \<and> fp_surface_id s \<noteq> None), w))"

definition send_bitmap :: "('o, 'v) surroundings \<Rightarrow> byte list \<Rightarrow> ('o, 'v) processor \<Rightarrow> (bool \<times> ('o, 'v) processor \<times> display_update list) run" where
  "send_bitmap sr data s =
     (let s1 = s\<lparr>fp_sent_first := True\<rparr> in
      if as_u16 (fp_width s) = 0 \<or> as_u16 (fp_height s) = 0 \<or> fp_stride s = 0 then None
      else if \<not> sr_updates_open sr then Some (False, s1, [])
      else Some (True, s1\<lparr>fp_detector := update_reference (fp_detector s1) data (fp_height s1) (fp_stride s1), fp_pending := []\<rparr>,
                 [BitmapUpdate data]))"

definition finish_process :: "('o, 'v) surroundings \<Rightarrow> byte list \<Rightarrow> bool \<Rightarrow> ('o, 'v) processor \<Rightarrow> ('srv, 'svc, 'e) egfx_world \<Rightarrow>
    (bool \<times> ('o, 'v) processor \<times> ('srv, 'svc, 'e) egfx_world \<times> display_update list) run" where
  "finish_process sr data sent_via_egfx s w =
     (let s1 = (if sent_via_egfx then s\<lparr>fp_sent_first := True, fp_pending := []\<rparr> else s);
          (should_send_bitmap, w1) = bitmap_wanted (sr_now sr) s1 w
      in if \<not> sent_via_egfx \<and> should_send_bitmap
         then map_option (\<lambda>(go_on, s2, updates). (go_on, s2, w1, updates)) (send_bitmap sr data s1)
         else Some (True, s1, w1, []))"

definition process_at :: "('srv, 'msg, 'svc, 'err) gfx_ops \<Rightarrow> ('e \<Rightarrow> byte list \<Rightarrow> nat \<Rightarrow> nat \<Rightarrow> byte list \<times> 'e) \<Rightarrow>
    ('o, 'v) encoder_ops \<Rightarrow> ('o, 'v) surroundings \<Rightarrow> byte list \<Rightarrow> ('o, 'v) processor \<Rightarrow> ('srv, 'svc, 'e) egfx_world \<Rightarrow>
    (bool \<times> ('o, 'v) processor \<times> ('srv, 'svc, 'e) egfx_world \<times> display_update list) run" where
  "process_at ops enc eops sr data s w =
     (if fp_sent_first s \<and> \<not> has_pending_damage s \<and> \<not> (fp_egfx s \<and> force_full_frame (shared w))
      then Some (True, s, w, [])
      else if fp_initial_resize s \<noteq> None \<and> (\<not> fp_egfx s \<or> ready (shared w))
      then Some (False, s\<lparr>fp_initial_resize := None\<rparr>, w,
             if sr_updates_open sr then [ResizeUpdate (the (fp_initial_resize s))] else [])
      else if fp_egfx s \<and> ready (shared w) \<and> \<not> avc_enabled (shared w)
      then map_option (\<lambda>(go_on, s1, w1). (go_on, s1, w1, [])) (process_clearcodec ops enc sr data s w)
      else if \<not> fp_egfx s then finish_process sr data False s w
      else do {
        (outcome, s1, w1) \<leftarrow> process_avc ops eops sr data s w;
        (case outcome of
           None \<Rightarrow> Some (True, s1, w1, [])
         | Some sent_via_egfx \<Rightarrow> finish_process sr data sent_via_egfx s1 w1)
      })"


end
