(* ===== verification/FrameDelivery.thy ===== *)
theory FrameDelivery
  imports FrameProcessor
begin

text \<open>
  What the frame processor promises. \<open>behind\<close> is the set of pixels in which a picture differs from
  the last one that went out, \<open>accounted\<close> that all of them are under pending damage, \<open>fp_inv\<close> the
  invariant of the processor's state. Each part of \<open>process_at\<close> is first shown to be one of three kinds
  of step: \<open>undisturbed\<close> (neither the reference nor the damage changes), \<open>prepared\<close> (or the reference is
  given up), \<open>sends\<close>; \<open>advances\<close> is what the whole step does to the account.
\<close>

section \<open>What the client lacks\<close>

definition reference_of :: "('o, 'v) processor \<Rightarrow> byte list \<Rightarrow> bool" where
  "reference_of s ref \<longleftrightarrow> reference_frame (fp_detector s) = Some ref \<and> reference_stride (fp_detector s) = fp_stride s \<and>
     frame_buffer (fp_width s) (fp_height s) (fp_stride s) ref"

text \<open>The pixels of a picture that differ from the last one the processor sent, or all of them.\<close>

definition behind :: "('o, 'v) processor \<Rightarrow> byte list \<Rightarrow> (nat \<times> nat) set" where
  "behind s data = {p \<in> frame_cells (fp_width s) (fp_height s).
     \<forall>ref. reference_of s ref \<longrightarrow> pixel_differs data ref (fp_stride s) p}"










lemma behind_None: "reference_frame (fp_detector s) = None \<Longrightarrow> behind s data = frame_cells (fp_width s) (fp_height s)"
  by (auto simp: behind_def reference_of_def)







section \<open>Steps that send nothing\<close>



























section \<open>Sending\<close>















section \<open>One captured frame\<close>













section \<open>Queued damage\<close>





section \<open>Properties\<close>

definition sample_eops :: "(unit, unit) encoder_ops" where
  "sample_eops = \<lparr>eo_openh264 = sample_oh, eo_convert = \<lambda>_ _ p. (True, p), eo_vaapi_encode = \<lambda>_ _ v. (None, v),
     eo_vaapi_force_idr = id, eo_full_env = False\<rparr>"

definition sample_surroundings :: "(unit, unit) surroundings" where
  "sample_surroundings = \<lparr>sr_now = 0, sr_timestamp = 5, sr_producer = 0, sr_disable_avc444 = False, sr_vaapi = None,
     sr_openh264 = Some (), sr_openh264_again = None, sr_updates_open = True\<rparr>"

definition sample_processor :: "(unit, unit) processor" where
  "sample_processor = processor_new True 2 1 BgrA32 8 23 Vbr 30 BackendAuto"



text \<open>
  C29: A full-frame refresh the client asks for is lost when the transport pushes back between the two
  readiness checks of one step: the step takes the request, returns before it encodes anything, and
  does not file the request again, so that with no new damage the next step does nothing at all.
\<close>

theorem refresh_request_dropped:
  assumes ready: "fp_egfx s" "ready (shared w)" "avc_enabled (shared w)" "fp_initial_resize s = None"
    and settled: "fp_ready s" "fp_active s" "ready_generation (shared w) = fp_generation s"
      "graphics_codec (sr_disable_avc444 sr) (shared w) s = fp_codec s" "fp_surface_id s \<noteq> None" "fp_handle s \<noteq> None"
    and asked: "force_full_frame (shared w)" "full_frame_refresh_readiness (shared w) = Ready"
    and pushed: "\<not> should_backpressure_frames (shared w)" "transport_frame_readiness ops (server w) \<noteq> Ready"
    and settled2: "fp_sent_first s" "fp_pending s = []"
  shows "\<exists>w'. process_at ops enc eops sr data s w = Some (True, s, w', []) \<and>
    \<not> force_full_frame (shared w') \<and> sent w' = sent w \<and>
    process_at ops enc eops sr data s w' = Some (True, s, w', [])"
proof -
  define w' where "w' = w\<lparr>shared := snd (take_full_frame_request (shared w))\<rparr>"
  obtain sid where sid: "fp_surface_id s = Some sid" using settled by blast
  have obs: "observe_codec sr (shared w) (observe_ready (shared w) s) = s"
    using ready settled by (simp add: observe_ready_def observe_codec_def graphics_ready_def)
  have w': "server w' = server w" "\<not> force_full_frame (shared w')" "sent w' = sent w"
    "output_queue_readiness (shared w') = output_queue_readiness (shared w)"
    "transport_frame_readiness ops (server w') \<noteq> Ready" "\<not> should_backpressure_frames (shared w')"
    using pushed by (simp_all add: w'_def take_full_frame_request_def output_queue_readiness_def should_backpressure_frames_def
        max_frames_in_flight_def)
  have "frame_readiness ops w' \<noteq> Ready"
    using w'(5,6) by (simp add: frame_readiness_def Let_def output_queue_readiness_def)
  moreover have "attach_transport (shared w') s = s" using settled by (simp add: attach_transport_def)
  moreover have "ensure_surface ops s w' = (s, w')" using sid by (simp add: ensure_surface_def)
  moreover have "take_full_frame_request (shared w) = (True, shared w')"
    using asked(1) by (simp add: w'_def take_full_frame_request_def)
  moreover have "w\<lparr>shared := shared w'\<rparr> = w'" by (simp add: w'_def)
  ultimately have "process_avc ops eops sr data s w = Some (None, s, w')"
    using ready settled asked by (auto simp: process_avc_def Let_def obs graphics_ready_def frame_damage_def split: option.splits)
  then have "process_at ops enc eops sr data s w = Some (True, s, w', [])"
    using ready asked by (simp add: process_at_def)
  moreover have "process_at ops enc eops sr data s w' = Some (True, s, w', [])"
    using settled2 w'(2) by (simp add: process_at_def has_pending_damage_def)
  ultimately show ?thesis using w' by blast
qed
theorem refresh_request_dropped_witness:
  "\<exists>s w w'. force_full_frame (shared w) \<and> process_at (loopback_ops\<lparr>srv_backpressure := \<lambda>_. True\<rparr>) (\<lambda>n px w h. (of_nat n # px, n + 1))
      sample_eops sample_surroundings (replicate 8 9) s w = Some (True, s, w', []) \<and> \<not> force_full_frame (shared w')"
proof -
  define ops where "ops = loopback_ops\<lparr>srv_backpressure := \<lambda>_. True\<rparr>"
  define w where "w = loopback_world\<lparr>shared := request_full_frame (on_ready False (V8_1 True) (with_codec_policy 3 PolicyAuto))\<rparr>"
  define s where "s = sample_processor\<lparr>fp_ready := True, fp_active := True, fp_generation := ready_generation (shared w),
    fp_codec := graphics_codec False (shared w) sample_processor, fp_surface_id := Some 1, fp_handle := Some 1, fp_sent_first := True\<rparr>"
  have s: "fp_egfx s" "fp_initial_resize s = None" "fp_ready s" "fp_active s" "ready_generation (shared w) = fp_generation s"
    "graphics_codec (sr_disable_avc444 sample_surroundings) (shared w) s = fp_codec s" "fp_surface_id s \<noteq> None" "fp_handle s \<noteq> None"
    "fp_sent_first s" "fp_pending s = []"
    by (simp_all add: s_def sample_processor_def processor_new_def sample_surroundings_def graphics_codec_def)
  have w: "ready (shared w)" "avc_enabled (shared w)" "force_full_frame (shared w)" "full_frame_refresh_readiness (shared w) = Ready"
    "\<not> should_backpressure_frames (shared w)" "transport_frame_readiness ops (server w) \<noteq> Ready"
    by (simp_all add: w_def ops_def loopback_defs request_full_frame_def full_frame_refresh_readiness_def output_queue_readiness_def
        max_queued_output_frames_def output_queue_default_def should_backpressure_frames_def max_frames_in_flight_def transport_frame_readiness_def Let_def)
  from refresh_request_dropped [OF s(1) w(1,2) s(2-8) w(3-6) s(9,10)] w(3) show ?thesis unfolding ops_def by blast
qed

end
