(* ===== verification/FramePacer.thy ===== *)
theory FramePacer
  imports Machine
begin

text \<open>
  The frame pacer of \<open>src/src/capture/frame.rs\<close>: when the capture loop may send the next frame.
  \<open>paced\<close> is the invariant of its schedule, \<open>paced_step\<close> what one tick does to it.
\<close>

section \<open>The frame pacer\<close>
















end
