(* ===== verification/RemoteTree.thy ===== *)
theory RemoteTree
  imports Machine
begin

text \<open>
  The tree a client advertises (\<open>clipboard/inbound/tree.rs\<close>): the flat list of file descriptors is
  rebuilt into directories and files with fresh inode numbers. Names are character lists; a
  \<open>SystemTime\<close> is a number of nanoseconds since the epoch, and the time a tree is built at is an
  argument. The descriptor record holds the fields the code reads.
\<close>

section \<open>Data\<close>

definition max_directory_depth :: nat where
  "max_directory_depth = 128"

definition root_inode :: nat where
  "root_inode = 1"

definition first_inode :: nat where
  "first_inode = root_inode + 1"

record file_descriptor =
  fd_name :: string
  fd_relative_path :: "string option"
  fd_directory :: bool
  fd_read_only :: bool
  fd_size :: "nat option"
  fd_last_write_time :: "nat option"

datatype node_kind = Directory | File nat

record remote_node =
  rn_name :: string
  rn_parent :: nat
  rn_size :: "nat option"
  rn_modified :: int
  rn_kind :: node_kind
  rn_read_only :: bool
  rn_children :: "nat list"

record remote_entry =
  re_kind :: node_kind
  re_size :: "nat option"
  re_modified :: "int option"
  re_read_only :: bool

record remote_tree =
  tr_base :: nat
  tr_nodes :: "remote_node list"
  tr_by_name :: "nat \<times> string \<Rightarrow> nat option"
  tr_built_at :: int

definition windows_epoch_offset_secs :: int where
  "windows_epoch_offset_secs = 11644473600"

text \<open>A time the platform can represent: its seconds fit in 64 bits.\<close>

definition checked_time :: "int \<Rightarrow> int option" where
  "checked_time t = (if i64_min \<le> t div 1000000000 \<and> t div 1000000000 \<le> i64_max then Some t else None)"

definition system_time :: "nat \<Rightarrow> int option" where
  "system_time filetime =
     (case checked_time (- windows_epoch_offset_secs * 1000000000) of
        None \<Rightarrow> None
      | Some epoch \<Rightarrow> (case checked_time (epoch + int (filetime mod 10000000 * 100)) of
          None \<Rightarrow> None
        | Some t \<Rightarrow> checked_time (t + int (filetime div 10000000) * 1000000000)))"

definition node_is_directory :: "remote_node \<Rightarrow> bool" where
  "node_is_directory n \<longleftrightarrow> rn_kind n = Directory"

definition permissions :: "remote_node \<Rightarrow> nat" where
  "permissions n = (case (node_is_directory n, rn_read_only n) of
     (True, False) \<Rightarrow> 493
   | (True, True) \<Rightarrow> 365
   | (False, False) \<Rightarrow> 420
   | (False, True) \<Rightarrow> 292)"

definition synthesized_directory :: remote_entry where
  "synthesized_directory = \<lparr>re_kind = Directory, re_size = Some 0, re_modified = None, re_read_only = False\<rparr>"

section \<open>Reading the tree\<close>

definition vec_get :: "'a list \<Rightarrow> nat \<Rightarrow> 'a option" where
  "vec_get xs i = (if i < length xs then Some (xs ! i) else None)"

definition entries :: "remote_tree \<Rightarrow> nat" where
  "entries t = length (tr_nodes t) - 1"

definition is_full :: "remote_tree \<Rightarrow> nat \<Rightarrow> bool" where
  "is_full t max_entries \<longleftrightarrow> max_entries \<le> entries t"

definition next_base :: "remote_tree \<Rightarrow> nat" where
  "next_base t = u64_sat_add (tr_base t) (entries t)"

text \<open>The index of an inode in the node list: \<open>inode.checked_sub(base)? + 1\<close>.\<close>

definition node_offset :: "remote_tree \<Rightarrow> nat \<Rightarrow> nat option" where
  "node_offset t inode = (if tr_base t \<le> inode then Some (inode - tr_base t + 1) else None)"

definition node :: "remote_tree \<Rightarrow> nat \<Rightarrow> remote_node option" where
  "node t inode =
     (if inode = root_inode then vec_get (tr_nodes t) 0
      else case node_offset t inode of None \<Rightarrow> None | Some offset \<Rightarrow> vec_get (tr_nodes t) offset)"

definition node_lookup :: "remote_tree \<Rightarrow> nat \<Rightarrow> string \<Rightarrow> nat option" where
  "node_lookup t parent name = tr_by_name t (parent, name)"

definition children :: "remote_tree \<Rightarrow> nat \<Rightarrow> nat list" where
  "children t inode = (case node t inode of None \<Rightarrow> [] | Some n \<Rightarrow> rn_children n)"

definition roots :: "remote_tree \<Rightarrow> nat list" where
  "roots t = children t root_inode"

definition dir_at :: "remote_tree \<Rightarrow> nat \<Rightarrow> bool" where
  "dir_at t inode = (case node t inode of None \<Rightarrow> False | Some n \<Rightarrow> node_is_directory n)"

definition link_count :: "remote_tree \<Rightarrow> nat \<Rightarrow> nat" where
  "link_count t inode = (case node t inode of
     None \<Rightarrow> 1
   | Some n \<Rightarrow> if \<not> node_is_directory n then 1
       else u32_sat_add 2 (min (length (filter (dir_at t) (children t inode))) u32_max))"

fun resolve_from :: "remote_tree \<Rightarrow> nat \<Rightarrow> string list \<Rightarrow> nat option" where
  "resolve_from t inode [] = Some inode"
| "resolve_from t inode (c # cs) = (case node_lookup t inode c of
     None \<Rightarrow> None | Some i \<Rightarrow> resolve_from t i cs)"

section \<open>Changing the tree\<close>

definition rooted :: "int \<Rightarrow> nat \<Rightarrow> remote_tree" where
  "rooted built_at base =
     \<lparr>tr_base = base,
      tr_nodes = [\<lparr>rn_name = '''', rn_parent = root_inode, rn_size = Some 0, rn_modified = built_at,
                   rn_kind = Directory, rn_read_only = True, rn_children = []\<rparr>],
      tr_by_name = Map.empty, tr_built_at = built_at\<rparr>"

definition empty_tree :: "int \<Rightarrow> remote_tree" where
  "empty_tree built_at = rooted built_at first_inode"

definition update_node :: "nat \<Rightarrow> (remote_node \<Rightarrow> remote_node) \<Rightarrow> remote_tree \<Rightarrow> remote_tree" where
  "update_node offset g t = t\<lparr>tr_nodes := (tr_nodes t)[offset := g (tr_nodes t ! offset)]\<rparr>"

definition set_size :: "nat \<Rightarrow> nat \<Rightarrow> remote_tree \<Rightarrow> bool \<times> remote_tree" where
  "set_size inode new_size t = (case node_offset t inode of
     None \<Rightarrow> (False, t)
   | Some offset \<Rightarrow> (case vec_get (tr_nodes t) offset of
       None \<Rightarrow> (False, t)
     | Some n \<Rightarrow> if node_is_directory n then (False, t)
                 else (True, update_node offset (\<lambda>n. n\<lparr>rn_size := Some new_size\<rparr>) t)))"

definition describe_directory :: "nat \<Rightarrow> remote_entry \<Rightarrow> remote_tree \<Rightarrow> nat option \<times> remote_tree" where
  "describe_directory inode entry t = (case node_offset t inode of
     None \<Rightarrow> (None, t)
   | Some offset \<Rightarrow>
       if offset < length (tr_nodes t)
       then let t1 = (case re_modified entry of
                  None \<Rightarrow> t | Some m \<Rightarrow> update_node offset (\<lambda>n. n\<lparr>rn_modified := m\<rparr>) t);
                t2 = (if re_read_only entry then update_node offset (\<lambda>n. n\<lparr>rn_read_only := True\<rparr>) t1 else t1)
            in (Some inode, t2)
       else if re_modified entry \<noteq> None \<or> re_read_only entry then (None, t) else (Some inode, t))"

definition entry_node :: "remote_tree \<Rightarrow> nat \<Rightarrow> string \<Rightarrow> remote_entry \<Rightarrow> remote_node" where
  "entry_node t parent name entry =
     \<lparr>rn_name = name, rn_parent = parent, rn_size = re_size entry,
      rn_modified = (case re_modified entry of None \<Rightarrow> tr_built_at t | Some m \<Rightarrow> m),
      rn_kind = re_kind entry, rn_read_only = re_read_only entry, rn_children = []\<rparr>"

definition insert_node :: "nat \<Rightarrow> string \<Rightarrow> remote_entry \<Rightarrow> nat \<Rightarrow> remote_tree \<Rightarrow> nat option \<times> remote_tree" where
  "insert_node parent name entry max_entries t =
     (case node_lookup t parent name of
        Some inode \<Rightarrow> (case node t inode of
            None \<Rightarrow> (None, t)
          | Some n \<Rightarrow> if \<not> node_is_directory n \<or> re_kind entry \<noteq> Directory then (None, t)
                      else describe_directory inode entry t)
      | None \<Rightarrow>
          if is_full t max_entries then (None, t)
          else (case u64_checked_add (tr_base t) (entries t) of
              None \<Rightarrow> (None, t)
            | Some inode \<Rightarrow>
                (let t1 = t\<lparr>tr_nodes := tr_nodes t @ [entry_node t parent name entry],
                            tr_by_name := (tr_by_name t)((parent, name) \<mapsto> inode)\<rparr>;
                     parent_offset = (if parent = root_inode then Some 0 else node_offset t1 parent)
                 in case parent_offset of
                      None \<Rightarrow> (None, t1)
                    | Some offset \<Rightarrow>
                        if offset < length (tr_nodes t1)
                        then (Some inode, update_node offset (\<lambda>n. n\<lparr>rn_children := rn_children n @ [inode]\<rparr>) t1)
                        else (None, t1))))"

definition directory :: "nat \<Rightarrow> string \<Rightarrow> nat \<Rightarrow> remote_tree \<Rightarrow> nat option \<times> remote_tree" where
  "directory parent name max_entries t =
     (case node_lookup t parent name of
        Some inode \<Rightarrow> if dir_at t inode then (Some inode, t) else (None, t)
      | None \<Rightarrow> insert_node parent name synthesized_directory max_entries t)"

section \<open>Path components\<close>

definition is_separator :: "char \<Rightarrow> bool" where
  "is_separator c \<longleftrightarrow> c = CHR 0x5C \<or> c = CHR ''/''"

text \<open>\<open>str::split\<close> on the separators: always at least one piece.\<close>

fun split_path :: "string \<Rightarrow> string list" where
  "split_path [] = [[]]"
| "split_path (c # cs) =
     (if is_separator c then [] # split_path cs
      else (case split_path cs of [] \<Rightarrow> [[c]] | p # ps \<Rightarrow> (c # p) # ps))"

definition usable_component :: "string \<Rightarrow> bool" where
  "usable_component c \<longleftrightarrow> c \<noteq> ''.'' \<and> c \<noteq> ''..'' \<and> CHR 0x00 \<notin> set c"

definition path_components :: "file_descriptor \<Rightarrow> string list option" where
  "path_components file =
     (let relative = (case fd_relative_path file of None \<Rightarrow> '''' | Some p \<Rightarrow> p);
          components = filter (\<lambda>c. c \<noteq> []) (split_path relative @ split_path (fd_name file));
          depth = length components - 1
      in if components \<noteq> [] \<and> depth \<le> max_directory_depth \<and> list_all usable_component components
         then Some components else None)"

definition file_size :: "file_descriptor \<Rightarrow> nat option" where
  "file_size file = (if fd_directory file then Some 0 else fd_size file)"

definition entry_of :: "nat \<Rightarrow> file_descriptor \<Rightarrow> remote_entry" where
  "entry_of index file =
     \<lparr>re_kind = (if fd_directory file then Directory else File index),
      re_size = file_size file,
      re_modified = (case fd_last_write_time file of None \<Rightarrow> None | Some ft \<Rightarrow> system_time ft),
      re_read_only = fd_read_only file\<rparr>"

section \<open>Building\<close>

fun make_parents :: "nat \<Rightarrow> string list \<Rightarrow> nat \<Rightarrow> remote_tree \<Rightarrow> nat option \<times> remote_tree" where
  "make_parents parent [] max_entries t = (Some parent, t)"
| "make_parents parent (c # cs) max_entries t =
     (case directory parent c max_entries t of
        (None, t1) \<Rightarrow> (None, t1)
      | (Some inode, t1) \<Rightarrow> make_parents inode cs max_entries t1)"

definition add_file :: "nat \<Rightarrow> file_descriptor \<Rightarrow> nat \<Rightarrow> remote_tree \<Rightarrow> remote_tree" where
  "add_file index file max_entries t =
     (case path_components file of
        None \<Rightarrow> t
      | Some components \<Rightarrow>
          if components = [] then t
          else (case make_parents root_inode (butlast components) max_entries t of
              (None, t1) \<Rightarrow> t1
            | (Some parent, t1) \<Rightarrow>
                snd (insert_node parent (last components) (entry_of index file) max_entries t1)))"

fun build_from :: "nat \<Rightarrow> file_descriptor list \<Rightarrow> nat \<Rightarrow> remote_tree \<Rightarrow> remote_tree" where
  "build_from index [] max_entries t = t"
| "build_from index (file # files) max_entries t =
     (if is_full t max_entries \<or> max_entries \<le> index then t
      else if i32_try_from index = None then t
      else build_from (index + 1) files max_entries (add_file index file max_entries t))"

definition build :: "int \<Rightarrow> file_descriptor list \<Rightarrow> nat \<Rightarrow> nat \<Rightarrow> remote_tree" where
  "build built_at files max_entries base = build_from 0 files max_entries (rooted built_at base)"

section \<open>Inodes and positions\<close>

text \<open>The inode of the node at a position of the node list.\<close>

definition inode_at :: "remote_tree \<Rightarrow> nat \<Rightarrow> nat" where
  "inode_at t k = (if k = 0 then root_inode else tr_base t + k - 1)"

definition parent_ok :: "remote_tree \<Rightarrow> nat \<Rightarrow> bool" where
  "parent_ok t k \<longleftrightarrow> (\<exists>j<k. rn_parent (tr_nodes t ! k) = inode_at t j \<and> node_is_directory (tr_nodes t ! j))"

definition safe_name :: "string \<Rightarrow> bool" where
  "safe_name c \<longleftrightarrow> c \<noteq> [] \<and> c \<noteq> ''.'' \<and> c \<noteq> ''..'' \<and>
     list_all (\<lambda>x. x \<noteq> CHR ''/'' \<and> x \<noteq> CHR 0x5C \<and> x \<noteq> CHR 0x00) c"

definition child_of :: "remote_tree \<Rightarrow> nat \<Rightarrow> nat \<Rightarrow> bool" where
  "child_of t j k \<longleftrightarrow> 0 < k \<and> k < length (tr_nodes t) \<and> rn_parent (tr_nodes t ! k) = inode_at t j"

definition tree_inv :: "remote_tree \<Rightarrow> bool" where
  "tree_inv t \<longleftrightarrow>
     2 \<le> tr_base t \<and> tr_base t + entries t \<le> u64_max + 1 \<and>
     tr_nodes t \<noteq> [] \<and> node_is_directory (tr_nodes t ! 0) \<and>
     (\<forall>p n i. tr_by_name t (p, n) = Some i \<longleftrightarrow>
        (\<exists>k. 0 < k \<and> k < length (tr_nodes t) \<and> i = inode_at t k \<and>
             rn_name (tr_nodes t ! k) = n \<and> rn_parent (tr_nodes t ! k) = p)) \<and>
     (\<forall>k. 0 < k \<and> k < length (tr_nodes t) \<longrightarrow> parent_ok t k \<and> safe_name (rn_name (tr_nodes t ! k))) \<and>
     (\<forall>j<length (tr_nodes t). distinct (rn_children (tr_nodes t ! j)) \<and>
        (\<forall>i. i \<in> set (rn_children (tr_nodes t ! j)) \<longleftrightarrow> (\<exists>k. child_of t j k \<and> i = inode_at t k)))"

lemma tree_invD:
  assumes "tree_inv t"
  shows "2 \<le> tr_base t" and "tr_base t + entries t \<le> u64_max + 1" and "tr_nodes t \<noteq> []"
    and "node_is_directory (tr_nodes t ! 0)"
    and "tr_by_name t (p, n) = Some i \<longleftrightarrow>
        (\<exists>k. 0 < k \<and> k < length (tr_nodes t) \<and> i = inode_at t k \<and>
             rn_name (tr_nodes t ! k) = n \<and> rn_parent (tr_nodes t ! k) = p)"
    and "0 < k \<Longrightarrow> k < length (tr_nodes t) \<Longrightarrow> parent_ok t k \<and> safe_name (rn_name (tr_nodes t ! k))"
    and "j < length (tr_nodes t) \<Longrightarrow> distinct (rn_children (tr_nodes t ! j))"
    and "j < length (tr_nodes t) \<Longrightarrow>
      i \<in> set (rn_children (tr_nodes t ! j)) \<longleftrightarrow> (\<exists>k. child_of t j k \<and> i = inode_at t k)"
  using assms unfolding tree_inv_def by blast+

lemma inode_at_eq: "2 \<le> tr_base t \<Longrightarrow> inode_at t j = inode_at t k \<longleftrightarrow> j = k"
  by (auto simp: inode_at_def root_inode_def)

lemma node_iff:
  assumes "2 \<le> tr_base t"
  shows "node t i = Some n \<longleftrightarrow> (\<exists>k<length (tr_nodes t). i = inode_at t k \<and> n = tr_nodes t ! k)"
proof
  assume "node t i = Some n"
  then consider "i = root_inode" "0 < length (tr_nodes t)" "n = tr_nodes t ! 0"
    | "i \<noteq> root_inode" "tr_base t \<le> i" "i - tr_base t + 1 < length (tr_nodes t)" "n = tr_nodes t ! (i - tr_base t + 1)"
    by (auto simp: node_def node_offset_def vec_get_def split: if_splits)
  then show "\<exists>k<length (tr_nodes t). i = inode_at t k \<and> n = tr_nodes t ! k"
  proof cases
    case 1
    then show ?thesis by (intro exI [of _ 0]) (simp add: inode_at_def)
  next
    case 2
    then show ?thesis by (intro exI [of _ "i - tr_base t + 1"]) (simp add: inode_at_def)
  qed
next
  assume "\<exists>k<length (tr_nodes t). i = inode_at t k \<and> n = tr_nodes t ! k"
  then obtain k where "k < length (tr_nodes t)" "i = inode_at t k" "n = tr_nodes t ! k" by blast
  with assms show "node t i = Some n"
    by (cases k) (auto simp: node_def node_offset_def vec_get_def inode_at_def root_inode_def)
qed

lemma node_at: "2 \<le> tr_base t \<Longrightarrow> k < length (tr_nodes t) \<Longrightarrow> node t (inode_at t k) = Some (tr_nodes t ! k)"
  using node_iff by blast

lemma dir_at_iff:
  "2 \<le> tr_base t \<Longrightarrow> dir_at t i \<longleftrightarrow> (\<exists>k<length (tr_nodes t). i = inode_at t k \<and> node_is_directory (tr_nodes t ! k))"
proof -
  assume base: "2 \<le> tr_base t"
  have "dir_at t i \<longleftrightarrow> (\<exists>n. node t i = Some n \<and> node_is_directory n)"
    by (auto simp: dir_at_def split: option.splits)
  then show ?thesis unfolding node_iff [OF base] by blast
qed

lemma offset_inode_at: "2 \<le> tr_base t \<Longrightarrow> 0 < k \<Longrightarrow> node_offset t (inode_at t k) = Some k"
  by (auto simp: node_offset_def inode_at_def)

lemma inode_at_cong: "tr_base t' = tr_base t \<Longrightarrow> inode_at t' k = inode_at t k"
  by (simp add: inode_at_def)

section \<open>Extension\<close>

text \<open>A tree that keeps every node of another: its place, name, kind and size.\<close>

definition same_node :: "remote_node \<Rightarrow> remote_node \<Rightarrow> bool" where
  "same_node n n' \<longleftrightarrow> rn_name n = rn_name n' \<and> rn_parent n = rn_parent n' \<and> rn_kind n = rn_kind n' \<and>
     rn_size n = rn_size n'"

definition extends :: "remote_tree \<Rightarrow> remote_tree \<Rightarrow> bool" where
  "extends t t' \<longleftrightarrow> tr_base t' = tr_base t \<and> length (tr_nodes t) \<le> length (tr_nodes t') \<and>
     (\<forall>k<length (tr_nodes t). same_node (tr_nodes t ! k) (tr_nodes t' ! k))"

lemma same_node_refl [simp]: "same_node n n"
  by (simp add: same_node_def)

lemma extends_refl [simp]: "extends t t"
  by (simp add: extends_def)

lemma extends_trans: "extends t t' \<Longrightarrow> extends t' t'' \<Longrightarrow> extends t t''"
  by (auto simp: extends_def same_node_def)

lemma extends_node:
  assumes "extends t t'" and "2 \<le> tr_base t" and "node t i = Some n"
  shows "\<exists>n'. node t' i = Some n' \<and> same_node n n'"
proof -
  obtain k where k: "k < length (tr_nodes t)" "i = inode_at t k" "n = tr_nodes t ! k"
    using assms(3) node_iff [OF assms(2)] by blast
  have "node t' (inode_at t' k) = Some (tr_nodes t' ! k)"
    using assms(1,2) k(1) by (intro node_at) (auto simp: extends_def)
  moreover have "inode_at t' k = i" "same_node n (tr_nodes t' ! k)"
    using assms(1) k inode_at_cong [of t' t] by (simp_all add: extends_def)
  ultimately show ?thesis by metis
qed

lemma extends_dir:
  assumes "extends t t'" and "2 \<le> tr_base t" and "dir_at t i"
  shows "dir_at t' i"
proof -
  obtain n where n: "node t i = Some n" "rn_kind n = Directory"
    using assms(3) by (auto simp: dir_at_def node_is_directory_def split: option.splits)
  from extends_node [OF assms(1,2) n(1)] obtain n' where "node t' i = Some n'" "same_node n n'" by blast
  with n(2) show ?thesis by (simp add: dir_at_def node_is_directory_def same_node_def)
qed

text \<open>The path of a node: the names from the root down to it.\<close>

inductive path_to :: "remote_tree \<Rightarrow> nat \<Rightarrow> string list \<Rightarrow> bool" for t where
  path_root: "path_to t root_inode []"
| path_step: "node t i = Some n \<Longrightarrow> i \<noteq> root_inode \<Longrightarrow> path_to t (rn_parent n) cs \<Longrightarrow> path_to t i (cs @ [rn_name n])"

inductive_cases path_to_rootE: "path_to t root_inode cs"

lemma extends_path: "path_to t i cs \<Longrightarrow> extends t t' \<Longrightarrow> 2 \<le> tr_base t \<Longrightarrow> path_to t' i cs"
proof (induction rule: path_to.induct)
  case path_root
  show ?case by (rule path_to.path_root)
next
  case (path_step i n cs)
  obtain n' where n': "node t' i = Some n'" "same_node n n'"
    using extends_node path_step.hyps(1) path_step.prems by blast
  have "path_to t' i (cs @ [rn_name n'])"
    using n' path_step by (intro path_to.path_step) (auto simp: same_node_def)
  with n'(2) show ?case by (simp add: same_node_def)
qed

section \<open>Steps that keep the shape\<close>

lemma tree_inv_same_shape:
  assumes inv: "tree_inv t" and base: "tr_base t' = tr_base t" and names: "tr_by_name t' = tr_by_name t"
    and len: "length (tr_nodes t') = length (tr_nodes t)"
    and same: "\<And>k. k < length (tr_nodes t) \<Longrightarrow> rn_name (tr_nodes t' ! k) = rn_name (tr_nodes t ! k) \<and>
      rn_parent (tr_nodes t' ! k) = rn_parent (tr_nodes t ! k) \<and> rn_kind (tr_nodes t' ! k) = rn_kind (tr_nodes t ! k) \<and>
      rn_children (tr_nodes t' ! k) = rn_children (tr_nodes t ! k)"
  shows "tree_inv t'"
proof -
  note at = inode_at_cong [OF base]
  have dir: "node_is_directory (tr_nodes t' ! k) \<longleftrightarrow> node_is_directory (tr_nodes t ! k)" if "k < length (tr_nodes t)" for k
    using same [OF that] by (simp add: node_is_directory_def)
  have parent: "parent_ok t' k \<longleftrightarrow> parent_ok t k" if "k < length (tr_nodes t)" for k
    unfolding parent_ok_def at using same [OF that] dir that by (metis less_trans)
  have child: "child_of t' j k \<longleftrightarrow> child_of t j k" for j k
    unfolding child_of_def at len using same by metis
  have ne: "tr_nodes t' \<noteq> []" using inv len by (auto simp: tree_inv_def)
  show ?thesis
    unfolding tree_inv_def
  proof (intro conjI allI impI)
    show "tr_base t' + entries t' \<le> u64_max + 1"
      using tree_invD(2) [OF inv] base len by (simp add: entries_def)
    show "node_is_directory (tr_nodes t' ! 0)" using tree_invD(3,4) [OF inv] dir [of 0] by simp
    show "(tr_by_name t' (p, n) = Some i) = (\<exists>k>0. k < length (tr_nodes t') \<and> i = inode_at t' k \<and>
        rn_name (tr_nodes t' ! k) = n \<and> rn_parent (tr_nodes t' ! k) = p)" for p n i
      unfolding names len at tree_invD(5) [OF inv] using same by metis
  next
    fix k
    assume k: "0 < k \<and> k < length (tr_nodes t')"
    then show "parent_ok t' k" "safe_name (rn_name (tr_nodes t' ! k))"
      using tree_invD(6) [OF inv, of k] same [of k] parent len by auto
  next
    fix j
    assume j: "j < length (tr_nodes t')"
    then show "distinct (rn_children (tr_nodes t' ! j))"
      using tree_invD(7) [OF inv] same len by simp
    fix i
    show "(i \<in> set (rn_children (tr_nodes t' ! j))) = (\<exists>k. child_of t' j k \<and> i = inode_at t' k)"
      using tree_invD(8) [OF inv, of j i] same [of j] j len unfolding child at by simp
  qed (use tree_invD(1) [OF inv] base ne in simp_all)
qed

lemma tr_update_node [simp]:
  "tr_base (update_node k g t) = tr_base t" "tr_by_name (update_node k g t) = tr_by_name t"
  "length (tr_nodes (update_node k g t)) = length (tr_nodes t)" "tr_built_at (update_node k g t) = tr_built_at t"
  by (simp_all add: update_node_def)

lemma nth_update_node: "j < length (tr_nodes t) \<Longrightarrow>
    tr_nodes (update_node k g t) ! j = (if j = k then g (tr_nodes t ! k) else tr_nodes t ! j)"
  by (simp add: update_node_def)

lemma tree_inv_update:
  assumes "tree_inv t" and "\<And>n. rn_name (g n) = rn_name n \<and> rn_parent (g n) = rn_parent n \<and>
    rn_kind (g n) = rn_kind n \<and> rn_children (g n) = rn_children n"
  shows "tree_inv (update_node k g t)"
  by (rule tree_inv_same_shape [OF assms(1)]) (auto simp: nth_update_node assms(2))

lemma extends_update:
  assumes "\<And>n. rn_name (g n) = rn_name n \<and> rn_parent (g n) = rn_parent n \<and> rn_kind (g n) = rn_kind n \<and> rn_size (g n) = rn_size n"
  shows "extends t (update_node k g t)"
  using assms by (auto simp: extends_def nth_update_node same_node_def)

lemma describe_directory_keeps:
  assumes "tree_inv t"
  shows "tree_inv (snd (describe_directory inode entry t)) \<and> extends t (snd (describe_directory inode entry t)) \<and>
    length (tr_nodes (snd (describe_directory inode entry t))) = length (tr_nodes t)"
proof -
  let ?m = "\<lambda>m. update_node (inode - tr_base t + 1) (\<lambda>n. n\<lparr>rn_modified := m\<rparr>)"
  let ?r = "update_node (inode - tr_base t + 1) (\<lambda>n. n\<lparr>rn_read_only := True\<rparr>)"
  have keep: "tree_inv u \<Longrightarrow> extends t u \<Longrightarrow> tree_inv (?m m u) \<and> extends t (?m m u)"
    "tree_inv u \<Longrightarrow> extends t u \<Longrightarrow> tree_inv (?r u) \<and> extends t (?r u)" for u m
    by (auto intro!: tree_inv_update extends_trans [OF _ extends_update])
  show ?thesis
    using assms keep [OF assms extends_refl] keep(2)
    by (auto simp: describe_directory_def node_offset_def Let_def split: option.splits)
qed

lemma set_size_keeps:
  assumes "tree_inv t"
  shows "tree_inv (snd (set_size inode new_size t))"
  using assms by (auto simp: set_size_def Let_def split: option.splits intro!: tree_inv_update)

section \<open>Inserting a node\<close>

text \<open>The tree after a new node was appended and entered in its parent's children.\<close>

definition grown :: "nat \<Rightarrow> string \<Rightarrow> remote_entry \<Rightarrow> remote_tree \<Rightarrow> remote_tree" where
  "grown j name entry t =
     (let len = length (tr_nodes t); inode = inode_at t len;
          t1 = t\<lparr>tr_nodes := tr_nodes t @ [entry_node t (inode_at t j) name entry],
                 tr_by_name := (tr_by_name t)((inode_at t j, name) \<mapsto> inode)\<rparr>
      in update_node j (\<lambda>n. n\<lparr>rn_children := rn_children n @ [inode]\<rparr>) t1)"

lemma insert_node_new:
  assumes inv: "tree_inv t" and j: "j < length (tr_nodes t)" and absent: "node_lookup t (inode_at t j) name = None"
  shows "insert_node (inode_at t j) name entry max_entries t =
    (if is_full t max_entries \<or> u64_max < tr_base t + entries t then (None, t)
     else (Some (inode_at t (length (tr_nodes t))), grown j name entry t))"
proof -
  note base = tree_invD(1) [OF inv]
  have len: "0 < length (tr_nodes t)" using tree_invD(3) [OF inv] by simp
  then have inode: "tr_base t + entries t = inode_at t (length (tr_nodes t))"
    by (cases "tr_nodes t") (simp_all add: inode_at_def entries_def)
  let ?t1 = "t\<lparr>tr_nodes := tr_nodes t @ [entry_node t (inode_at t j) name entry],
    tr_by_name := (tr_by_name t)((inode_at t j, name) \<mapsto> inode_at t (length (tr_nodes t)))\<rparr>"
  have "(if inode_at t j = root_inode then Some 0 else node_offset ?t1 (inode_at t j)) = Some j"
    using base by (cases j) (auto simp: inode_at_def node_offset_def root_inode_def)
  then show ?thesis
    using absent j inode by (auto simp: insert_node_def u64_checked_add_def grown_def Let_def)
qed

lemma grown_simps:
  assumes "j < length (tr_nodes t)"
  shows "tr_base (grown j name entry t) = tr_base t"
    and "length (tr_nodes (grown j name entry t)) = Suc (length (tr_nodes t))"
    and "tr_by_name (grown j name entry t) = (tr_by_name t)((inode_at t j, name) \<mapsto> inode_at t (length (tr_nodes t)))"
    and "k < length (tr_nodes t) \<Longrightarrow> tr_nodes (grown j name entry t) ! k =
      (if k = j then (tr_nodes t ! k)\<lparr>rn_children := rn_children (tr_nodes t ! k) @ [inode_at t (length (tr_nodes t))]\<rparr>
       else tr_nodes t ! k)"
    and "tr_nodes (grown j name entry t) ! length (tr_nodes t) = entry_node t (inode_at t j) name entry"
    and "inode_at (grown j name entry t) k = inode_at t k"
  using assms by (auto simp: grown_def update_node_def Let_def nth_append nth_list_update inode_at_def)

lemma extends_grown: "j < length (tr_nodes t) \<Longrightarrow> extends t (grown j name entry t)"
  by (auto simp: extends_def grown_simps same_node_def)

lemma tree_inv_grown:
  assumes inv: "tree_inv t" and j: "j < length (tr_nodes t)" and dir: "node_is_directory (tr_nodes t ! j)"
    and name: "safe_name name" and absent: "node_lookup t (inode_at t j) name = None"
    and room: "tr_base t + entries t \<le> u64_max"
  shows "tree_inv (grown j name entry t)"
proof -
  let ?t = "grown j name entry t" and ?len = "length (tr_nodes t)"
  note base = tree_invD(1) [OF inv]
  note g = grown_simps [OF j, where name = name and entry = entry]
  have old: "rn_name (tr_nodes ?t ! k) = rn_name (tr_nodes t ! k)" "rn_parent (tr_nodes ?t ! k) = rn_parent (tr_nodes t ! k)"
    "rn_kind (tr_nodes ?t ! k) = rn_kind (tr_nodes t ! k)" if "k < ?len" for k
    using g(4) [OF that] by simp_all
  have new: "rn_name (tr_nodes ?t ! ?len) = name" "rn_parent (tr_nodes ?t ! ?len) = inode_at t j"
    "rn_children (tr_nodes ?t ! ?len) = []"
    by (simp_all add: g(5) entry_node_def)
  have dir': "node_is_directory (tr_nodes ?t ! k) \<longleftrightarrow> node_is_directory (tr_nodes t ! k)" if "k < ?len" for k
    using old [OF that] by (simp add: node_is_directory_def)
  have len0: "0 < ?len" using j by (cases "tr_nodes t") simp_all
  have child: "child_of ?t i k \<longleftrightarrow> child_of t i k \<or> i = j \<and> k = ?len" for i k
    unfolding child_of_def g(2,6)
    using old(2) [of k] new(2) inode_at_eq [OF base] len0 by (cases "k = ?len") (auto simp: less_Suc_eq)
  show ?thesis
    unfolding tree_inv_def
  proof (intro conjI allI impI)
    show "2 \<le> tr_base ?t" using base by (simp add: g(1))
    show "tr_base ?t + entries ?t \<le> u64_max + 1" using room len0 by (simp add: g(1,2) entries_def)
    show "tr_nodes ?t \<noteq> []" using g(2) by (metis length_0_conv nat.distinct(1))
    show "node_is_directory (tr_nodes ?t ! 0)" using dir' [OF len0] tree_invD(4) [OF inv] by simp
    fix p n i
    show "(tr_by_name ?t (p, n) = Some i) = (\<exists>k>0. k < length (tr_nodes ?t) \<and> i = inode_at ?t k \<and>
        rn_name (tr_nodes ?t ! k) = n \<and> rn_parent (tr_nodes ?t ! k) = p)" (is "?l = (\<exists>k>0. ?r k)")
    proof (cases "p = inode_at t j \<and> n = name")
      case True
      have "tr_by_name t (p, n) \<noteq> Some i" using absent True by (simp add: node_lookup_def)
      then have "\<not> (\<exists>k>0. k < ?len \<and> i = inode_at t k \<and> rn_name (tr_nodes t ! k) = n \<and> rn_parent (tr_nodes t ! k) = p)"
        using tree_invD(5) [OF inv] by blast
      then have "(\<exists>k>0. ?r k) \<longleftrightarrow> i = inode_at t ?len"
        unfolding g(2,6) using old new True len0 by (auto simp: less_Suc_eq)
      with True show ?thesis by (auto simp: g(3))
    next
      case False
      then have "?l \<longleftrightarrow> tr_by_name t (p, n) = Some i" by (auto simp: g(3))
      also have "\<dots> \<longleftrightarrow> (\<exists>k>0. ?r k)"
        unfolding tree_invD(5) [OF inv] g(2,6) using old new False by (metis less_Suc_eq)
      finally show ?thesis .
    qed
  next
    fix k
    assume k: "0 < k \<and> k < length (tr_nodes ?t)"
    show "parent_ok ?t k"
    proof (cases "k = ?len")
      case True
      then show ?thesis
        unfolding parent_ok_def g(6) using new(2) dir' [OF j] dir j by blast
    next
      case False
      then have k': "k < ?len" using k g(2) by simp
      then obtain i where "i < k" "rn_parent (tr_nodes t ! k) = inode_at t i" "node_is_directory (tr_nodes t ! i)"
        using tree_invD(6) [OF inv, of k] k unfolding parent_ok_def by blast
      then show ?thesis
        unfolding parent_ok_def g(6) using old(2) [OF k'] dir' [of i] k' by (intro exI [of _ i]) simp
    qed
    show "safe_name (rn_name (tr_nodes ?t ! k))"
      using tree_invD(6) [OF inv, of k] k old(1) [of k] new(1) name g(2) by (cases "k = ?len") auto
  next
    fix i
    assume i: "i < length (tr_nodes ?t)"
    have fresh: "inode_at t ?len \<notin> set (rn_children (tr_nodes t ! i))" if "i < ?len" for i
      using tree_invD(8) [OF inv that] inode_at_eq [OF base] by (auto simp: child_of_def)
    show "distinct (rn_children (tr_nodes ?t ! i))"
    proof (cases "i = ?len")
      case True
      then show ?thesis by (simp add: new(3))
    next
      case False
      then have i': "i < ?len" using i g(2) by simp
      then show ?thesis using tree_invD(7) [OF inv i'] fresh [OF i'] by (auto simp: g(4) [OF i'])
    qed
    fix x
    show "(x \<in> set (rn_children (tr_nodes ?t ! i))) = (\<exists>k. child_of ?t i k \<and> x = inode_at ?t k)"
    proof (cases "i = ?len")
      case True
      have "\<not> child_of t ?len k" for k
      proof
        assume c: "child_of t ?len k"
        then obtain i' where "i' < k" "inode_at t ?len = inode_at t i'"
          using tree_invD(6) [OF inv, of k] unfolding child_of_def parent_ok_def by auto
        with c inode_at_eq [OF base] show False by (auto simp: child_of_def)
      qed
      with True j show ?thesis unfolding child by (simp add: new(3))
    next
      case False
      then have i': "i < ?len" using i g(2) by simp
      then show ?thesis
        unfolding child g(6) using tree_invD(8) [OF inv i', of x] by (auto simp: g(4))
    qed
  qed
qed

text \<open>What an insertion leaves: the new tree, and where its nodes come from.\<close>

definition comes_from :: "remote_tree \<Rightarrow> remote_tree \<Rightarrow> nat \<Rightarrow> remote_node \<Rightarrow> bool" where
  "comes_from t t' i n \<longleftrightarrow> (\<exists>n0. node t i = Some n0 \<and> same_node n0 n)"

lemma node_of_same_length:
  assumes "2 \<le> tr_base t" and "extends t t'" and "length (tr_nodes t') = length (tr_nodes t)" and "node t' i = Some n"
  shows "comes_from t t' i n"
proof -
  have base: "tr_base t' = tr_base t" using assms(2) by (simp add: extends_def)
  then obtain k where k: "k < length (tr_nodes t')" "i = inode_at t' k" "n = tr_nodes t' ! k"
    using assms(1,4) node_iff [of t' i n] by auto
  have "node t (inode_at t k) = Some (tr_nodes t ! k)" using k(1) assms(1,3) by (intro node_at) auto
  moreover have "same_node (tr_nodes t ! k) n" using assms(2,3) k by (auto simp: extends_def)
  ultimately show ?thesis using k(2) inode_at_cong [OF base] by (auto simp: comes_from_def)
qed

lemma insert_node_spec:
  assumes inv: "tree_inv t" and dir: "dir_at t parent" and name: "safe_name name" and fits: "entries t \<le> max_entries"
    and run: "insert_node parent name entry max_entries t = (r, t')"
  shows "tree_inv t' \<and> extends t t' \<and> entries t' \<le> max_entries \<and>
    (\<forall>i. r = Some i \<longrightarrow> i \<noteq> root_inode \<and>
      (\<exists>n. node t' i = Some n \<and> rn_name n = name \<and> rn_parent n = parent \<and> rn_kind n = re_kind entry)) \<and>
    (\<forall>i n. node t' i = Some n \<longrightarrow>
      comes_from t t' i n \<or> r = Some i \<and> rn_kind n = re_kind entry \<and> rn_size n = re_size entry)"
proof -
  note base = tree_invD(1) [OF inv]
  obtain j where j: "j < length (tr_nodes t)" "parent = inode_at t j" "node_is_directory (tr_nodes t ! j)"
    using dir dir_at_iff [OF base] by blast
  have stays: "comes_from t t i n" if "node t i = Some n" for i n
    using that by (auto simp: comes_from_def)
  show ?thesis
  proof (cases "node_lookup t parent name")
    case absent: None
    show ?thesis
    proof (cases "is_full t max_entries \<or> u64_max < tr_base t + entries t")
      case True
      then have "r = None" "t' = t" using run insert_node_new [OF inv j(1), of name] absent j(2) by simp_all
      then show ?thesis using inv fits stays by simp
    next
      case False
      let ?g = "grown j name entry t" and ?i = "inode_at t (length (tr_nodes t))"
      have rt: "r = Some ?i" "t' = ?g" using run insert_node_new [OF inv j(1), of name] absent j(2) False by simp_all
      note g = grown_simps [OF j(1), where name = name and entry = entry]
      have inv': "tree_inv ?g" using tree_inv_grown [OF inv j(1,3) name] absent j(2) False by simp
      have base': "2 \<le> tr_base ?g" using base g(1) by simp
      have at: "node ?g ?i = Some (entry_node t parent name entry)"
        using node_at [OF base', of "length (tr_nodes t)"] g(2,5,6) j(2) by simp
      have "0 < length (tr_nodes t)" using tree_invD(3) [OF inv] by simp
      then have "entries ?g \<le> max_entries" using False unfolding entries_def is_full_def g(2) by linarith
      moreover have "?i \<noteq> root_inode"
        using \<open>0 < length (tr_nodes t)\<close> base by (cases "tr_nodes t") (simp_all add: inode_at_def root_inode_def)
      moreover have "comes_from t ?g i n \<or> i = ?i \<and> n = entry_node t parent name entry" if node: "node ?g i = Some n" for i n
      proof -
        obtain k where k: "k < Suc (length (tr_nodes t))" "i = inode_at t k" "n = tr_nodes ?g ! k"
          using node node_iff [OF base'] g(2,6) by auto
        show ?thesis
        proof (cases "k = length (tr_nodes t)")
          case True
          then show ?thesis using k g(5) j(2) by simp
        next
          case False
          then have k': "k < length (tr_nodes t)" using k(1) by simp
          then have "node t i = Some (tr_nodes t ! k)" using node_at [OF base] k(2) by simp
          moreover have "same_node (tr_nodes t ! k) n"
            using extends_grown [OF j(1), of name entry] k' k(3) by (simp add: extends_def)
          ultimately show ?thesis by (auto simp: comes_from_def)
        qed
      qed
      moreover have "rn_name (entry_node t parent name entry) = name" "rn_parent (entry_node t parent name entry) = parent"
        "rn_kind (entry_node t parent name entry) = re_kind entry" "rn_size (entry_node t parent name entry) = re_size entry"
        by (simp_all add: entry_node_def)
      ultimately show ?thesis
        unfolding rt using inv' extends_grown [OF j(1)] at by (intro conjI) auto
    qed
  next
    case (Some inode)
    then obtain k where k: "0 < k" "k < length (tr_nodes t)" "inode = inode_at t k"
      "rn_name (tr_nodes t ! k) = name" "rn_parent (tr_nodes t ! k) = parent"
      using tree_invD(5) [OF inv] by (auto simp: node_lookup_def)
    note at = node_at [OF base k(2), folded k(3)]
    show ?thesis
    proof (cases "node_is_directory (tr_nodes t ! k) \<and> re_kind entry = Directory")
      case False
      then have "r = None" "t' = t" using run Some at by (auto simp: insert_node_def)
      then show ?thesis using inv fits stays by simp
    next
      case True
      let ?d = "describe_directory inode entry t"
      have offset: "node_offset t inode = Some k" using offset_inode_at [OF base k(1)] k(3) by simp
      have rt: "r = Some inode" "t' = snd ?d"
        using run Some at True k(2) by (auto simp: insert_node_def describe_directory_def offset Let_def)
      note kept = describe_directory_keeps [OF inv, of inode entry, folded rt(2)]
      have len: "length (tr_nodes t') = length (tr_nodes t)" using kept by blast
      obtain n where n: "node t' inode = Some n" "same_node (tr_nodes t ! k) n"
        using extends_node [OF _ base at] kept by blast
      have "inode \<noteq> root_inode" using k base by (auto simp: inode_at_def root_inode_def)
      then show ?thesis
        using kept fits n k True rt node_of_same_length [OF base _ len]
        by (auto simp: entries_def same_node_def node_is_directory_def)
    qed
  qed
qed

lemma directory_spec:
  assumes inv: "tree_inv t" and dir: "dir_at t parent" and name: "safe_name name" and fits: "entries t \<le> max_entries"
    and run: "directory parent name max_entries t = (r, t')"
  shows "tree_inv t' \<and> extends t t' \<and> entries t' \<le> max_entries \<and>
    (\<forall>i. r = Some i \<longrightarrow> dir_at t' i \<and> (\<forall>cs. path_to t parent cs \<longrightarrow> path_to t' i (cs @ [name]))) \<and>
    (\<forall>i n. node t' i = Some n \<longrightarrow> comes_from t t' i n \<or> rn_kind n = Directory)"
proof (cases "node_lookup t parent name")
  case (Some inode)
  then obtain k where k: "0 < k" "k < length (tr_nodes t)" "inode = inode_at t k"
    "rn_name (tr_nodes t ! k) = name" "rn_parent (tr_nodes t ! k) = parent"
    using tree_invD(5) [OF inv] by (auto simp: node_lookup_def)
  note base = tree_invD(1) [OF inv]
  note at = node_at [OF base k(2), folded k(3)]
  have "inode \<noteq> root_inode" using k base by (auto simp: inode_at_def root_inode_def)
  then have path: "path_to t inode (cs @ [name])" if "path_to t parent cs" for cs
    using path_to.path_step [OF at] that k(4,5) by auto
  show ?thesis
    using run Some inv fits path by (auto simp: directory_def comes_from_def split: if_splits)
next
  case None
  then have run': "insert_node parent name synthesized_directory max_entries t = (r, t')"
    using run by (simp add: directory_def)
  note base = tree_invD(1) [OF inv]
  note spec = insert_node_spec [OF inv dir name fits run']
  have kind: "re_kind synthesized_directory = Directory" by (simp add: synthesized_directory_def)
  have "dir_at t' i \<and> (\<forall>cs. path_to t parent cs \<longrightarrow> path_to t' i (cs @ [name]))" if r: "r = Some i" for i
  proof -
    obtain n where n: "i \<noteq> root_inode" "node t' i = Some n" "rn_name n = name" "rn_parent n = parent" "rn_kind n = Directory"
      using spec r unfolding kind by blast
    have "path_to t' i (cs @ [name])" if "path_to t parent cs" for cs
      using path_to.path_step [OF n(2,1), of cs] extends_path [OF that _ base, of t'] spec n(3,4) by simp
    with n show ?thesis by (simp add: dir_at_def node_is_directory_def)
  qed
  moreover have "comes_from t t' i n \<or> rn_kind n = Directory" if "node t' i = Some n" for i n
    using spec that unfolding kind by blast
  ultimately show ?thesis using spec by simp
qed

lemma make_parents_spec:
  "tree_inv t \<Longrightarrow> dir_at t parent \<Longrightarrow> list_all safe_name cs \<Longrightarrow> entries t \<le> max_entries \<Longrightarrow>
   make_parents parent cs max_entries t = (r, t') \<Longrightarrow>
   tree_inv t' \<and> extends t t' \<and> entries t' \<le> max_entries \<and>
    (\<forall>i. r = Some i \<longrightarrow> dir_at t' i \<and> (\<forall>ps. path_to t parent ps \<longrightarrow> path_to t' i (ps @ cs))) \<and>
    (\<forall>i n. node t' i = Some n \<longrightarrow> comes_from t t' i n \<or> rn_kind n = Directory)"
proof (induction parent cs max_entries t arbitrary: r t' rule: make_parents.induct)
  case (1 parent max_entries t)
  then show ?case by (auto simp: comes_from_def)
next
  case (2 parent c cs max_entries t)
  obtain r1 t1 where run1: "directory parent c max_entries t = (r1, t1)" by fastforce
  have safe: "safe_name c" "list_all safe_name cs" using 2(4) by simp_all
  note spec1 = directory_spec [OF 2(2,3) safe(1) 2(5) run1]
  note base = tree_invD(1) [OF 2(2)]
  show ?case
  proof (cases r1)
    case None
    then have "r = None" "t' = t1" using 2(6) run1 by simp_all
    then show ?thesis using spec1 by auto
  next
    case (Some i)
    have run2: "make_parents i cs max_entries t1 = (r, t')" using 2(6) run1 Some by simp
    have mid: "tree_inv t1" "dir_at t1 i" "entries t1 \<le> max_entries" "extends t t1"
      "\<And>ps. path_to t parent ps \<Longrightarrow> path_to t1 i (ps @ [c])" using spec1 Some by simp_all
    note spec2 = 2(1) [OF run1 [symmetric] Some mid(1,2) safe(2) mid(3) run2]
    have "extends t t'" using mid(4) spec2 extends_trans by blast
    moreover have "comes_from t t' j n \<or> rn_kind n = Directory" if "node t' j = Some n" for j n
    proof -
      from spec2 that consider "comes_from t1 t' j n" | "rn_kind n = Directory" by blast
      then show ?thesis
      proof cases
        case 1
        then obtain n1 where n1: "node t1 j = Some n1" "same_node n1 n" by (auto simp: comes_from_def)
        with spec1 have "comes_from t t1 j n1 \<or> rn_kind n1 = Directory" by blast
        with n1(2) show ?thesis by (auto simp: comes_from_def same_node_def)
      qed simp
    qed
    moreover have "path_to t' j (ps @ c # cs)" if "r = Some j" "path_to t parent ps" for j ps
      using spec2 mid(5) [OF that(2)] that(1) by fastforce
    ultimately show ?thesis using spec2 by auto
  qed
qed

section \<open>Descriptors\<close>

lemma split_path_ne: "split_path s \<noteq> []"
  by (induction s) (auto split: list.splits)

lemma split_path_no_separator: "c \<in> set (split_path s) \<Longrightarrow> list_all (\<lambda>x. \<not> is_separator x) c"
proof (induction s arbitrary: c)
  case Nil
  then show ?case by simp
next
  case (Cons a s)
  then show ?case by (cases "split_path s") (auto split: if_splits)
qed

lemma split_path_safe:
  assumes "c \<in> set (split_path s)" and "c \<noteq> []" and "usable_component c"
  shows "safe_name c"
proof -
  have "\<forall>x\<in>set c. x \<noteq> CHR ''/'' \<and> x \<noteq> CHR 0x5C"
    using split_path_no_separator [OF assms(1)] by (simp add: list_all_iff is_separator_def)
  moreover have "\<forall>x\<in>set c. x \<noteq> CHR 0x00" using assms(3) unfolding usable_component_def by metis
  ultimately show ?thesis using assms(2,3) by (simp add: safe_name_def usable_component_def list_all_iff)
qed

lemma path_components_safe:
  "path_components file = Some cs \<Longrightarrow> cs \<noteq> [] \<and> list_all safe_name cs \<and> length cs \<le> max_directory_depth + 1"
  by (auto simp: path_components_def Let_def list_all_iff split: if_splits; blast intro: split_path_safe)

section \<open>The tree of a list\<close>

definition files_ok :: "file_descriptor list \<Rightarrow> remote_tree \<Rightarrow> bool" where
  "files_ok files t \<longleftrightarrow> (\<forall>i n ix. node t i = Some n \<and> rn_kind n = File ix \<longrightarrow>
     ix < length files \<and> (\<exists>cs. path_components (files ! ix) = Some cs \<and> path_to t i cs \<and> rn_size n = file_size (files ! ix)))"

lemma files_ok_extends:
  assumes ok: "files_ok files t" and ext: "extends t t'" and base: "2 \<le> tr_base t"
    and source: "\<And>i n. node t' i = Some n \<Longrightarrow> comes_from t t' i n \<or> rn_kind n = Directory \<or>
      (\<exists>ix cs. rn_kind n = File ix \<and> ix < length files \<and> path_components (files ! ix) = Some cs \<and>
         path_to t' i cs \<and> rn_size n = file_size (files ! ix))"
  shows "files_ok files t'"
  unfolding files_ok_def
proof (intro allI impI)
  fix i n ix
  assume n: "node t' i = Some n \<and> rn_kind n = File ix"
  show "ix < length files \<and>
    (\<exists>cs. path_components (files ! ix) = Some cs \<and> path_to t' i cs \<and> rn_size n = file_size (files ! ix))"
  proof (cases "comes_from t t' i n")
    case True
    then obtain n0 where n0: "node t i = Some n0" "same_node n0 n" by (auto simp: comes_from_def)
    with ok n obtain cs where cs: "ix < length files" "path_components (files ! ix) = Some cs" "path_to t i cs"
      "rn_size n0 = file_size (files ! ix)" unfolding files_ok_def same_node_def by metis
    with extends_path [OF cs(3) ext base] n0(2) show ?thesis by (auto simp: same_node_def)
  next
    case False
    with source [of i n] n show ?thesis by auto
  qed
qed

lemma add_file_spec:
  assumes inv: "tree_inv t" and fits: "entries t \<le> max_entries" and ok: "files_ok files t"
    and ix: "ix < length files"
  shows "tree_inv (add_file ix (files ! ix) max_entries t) \<and> entries (add_file ix (files ! ix) max_entries t) \<le> max_entries \<and>
    files_ok files (add_file ix (files ! ix) max_entries t) \<and> extends t (add_file ix (files ! ix) max_entries t)"
proof (cases "path_components (files ! ix)")
  case None
  then show ?thesis using assms by (simp add: add_file_def)
next
  case (Some cs)
  note safe = path_components_safe [OF Some]
  then have cs: "cs = butlast cs @ [last cs]" by simp
  have safe': "list_all safe_name (butlast cs)" "safe_name (last cs)"
    using safe by (auto simp: list_all_iff dest: in_set_butlastD)
  note base = tree_invD(1) [OF inv]
  have root: "dir_at t root_inode"
    using tree_invD(3,4) [OF inv] by (simp add: dir_at_def node_def vec_get_def)
  obtain r t1 where run1: "make_parents root_inode (butlast cs) max_entries t = (r, t1)" by fastforce
  note spec1 = make_parents_spec [OF inv root safe'(1) fits run1]
  have ok1: "files_ok files t1" using files_ok_extends [OF ok _ base] spec1 by blast
  show ?thesis
  proof (cases r)
    case None
    then show ?thesis using Some safe run1 spec1 ok1 by (simp add: add_file_def)
  next
    case r: (Some parent)
    obtain r2 t2 where run2: "insert_node parent (last cs) (entry_of ix (files ! ix)) max_entries t1 = (r2, t2)" by fastforce
    have t2: "add_file ix (files ! ix) max_entries t = t2" using Some safe run1 r run2 by (simp add: add_file_def)
    have mid: "tree_inv t1" "dir_at t1 parent" "entries t1 \<le> max_entries" "extends t t1" "path_to t1 parent (butlast cs)"
      using spec1 r path_to.path_root [of t] by fastforce+
    note base1 = tree_invD(1) [OF mid(1)]
    note spec2 = insert_node_spec [OF mid(1,2) safe'(2) mid(3) run2]
    have "files_ok files t2"
    proof (rule files_ok_extends [OF ok1 _ base1])
      show "extends t1 t2" using spec2 by blast
      fix i n
      assume node: "node t2 i = Some n"
      with spec2 consider "comes_from t1 t2 i n"
        | "r2 = Some i" "rn_kind n = re_kind (entry_of ix (files ! ix))" "rn_size n = re_size (entry_of ix (files ! ix))"
        by blast
      then show "comes_from t1 t2 i n \<or> rn_kind n = Directory \<or>
        (\<exists>ix cs. rn_kind n = File ix \<and> ix < length files \<and> path_components (files ! ix) = Some cs \<and>
           path_to t2 i cs \<and> rn_size n = file_size (files ! ix))"
      proof cases
        case 2
        then have n: "i \<noteq> root_inode" "rn_name n = last cs" "rn_parent n = parent" using spec2 node by auto
        have "path_to t2 i (butlast cs @ [rn_name n])"
          using node n extends_path [OF mid(5) _ base1, of t2] spec2 by (intro path_to.path_step) auto
        then have "path_to t2 i cs" using n(2) cs by simp
        with 2 Some ix show ?thesis by (auto simp: entry_of_def)
      qed simp
    qed
    then show ?thesis using spec2 mid(4) extends_trans unfolding t2 by blast
  qed
qed

lemma build_from_spec:
  "tree_inv t \<Longrightarrow> entries t \<le> max_entries \<Longrightarrow> files_ok files t \<Longrightarrow> k \<le> length files \<Longrightarrow>
   tree_inv (build_from k (drop k files) max_entries t) \<and> entries (build_from k (drop k files) max_entries t) \<le> max_entries \<and>
   files_ok files (build_from k (drop k files) max_entries t) \<and> tr_base (build_from k (drop k files) max_entries t) = tr_base t"
proof (induction "length files - k" arbitrary: k t)
  case 0
  then show ?case by simp
next
  case (Suc d)
  then have k: "k < length files" by simp
  then have drop: "drop k files = files ! k # drop (Suc k) files" by (simp add: Cons_nth_drop_Suc)
  show ?case
  proof (cases "is_full t max_entries \<or> max_entries \<le> k \<or> i32_try_from k = None")
    case True
    then show ?thesis using Suc.prems by (auto simp: drop)
  next
    case False
    note spec = add_file_spec [OF Suc.prems(1-3) k]
    then have "tr_base (add_file k (files ! k) max_entries t) = tr_base t" by (simp add: extends_def)
    moreover have "build_from k (drop k files) max_entries t =
        build_from (Suc k) (drop (Suc k) files) max_entries (add_file k (files ! k) max_entries t)"
      unfolding drop build_from.simps using False by auto
    ultimately show ?thesis
      using spec Suc(1) [of "Suc k" "add_file k (files ! k) max_entries t"] Suc(2) k by simp
  qed
qed

lemma tree_inv_rooted:
  assumes "2 \<le> base" and "base \<le> u64_max"
  shows "tree_inv (rooted built_at base)"
  using assms by (auto simp: tree_inv_def rooted_def entries_def node_is_directory_def child_of_def)

lemma build_spec:
  assumes "2 \<le> base" and "base \<le> u64_max"
  shows "tree_inv (build built_at files max_entries base) \<and> entries (build built_at files max_entries base) \<le> max_entries \<and>
    files_ok files (build built_at files max_entries base) \<and> tr_base (build built_at files max_entries base) = base"
proof -
  have "files_ok files (rooted built_at base)"
    unfolding files_ok_def using assms by (auto simp: node_iff rooted_def)
  moreover have "entries (rooted built_at base) \<le> max_entries" "tr_base (rooted built_at base) = base"
    by (simp_all add: entries_def rooted_def)
  ultimately show ?thesis
    using build_from_spec [OF tree_inv_rooted [OF assms], where max_entries = max_entries and files = files and k = 0]
    by (simp add: build_def)
qed

lemma resolve_from_append:
  "resolve_from t i (xs @ ys) = (case resolve_from t i xs of None \<Rightarrow> None | Some j \<Rightarrow> resolve_from t j ys)"
  by (induction xs arbitrary: i) (auto split: option.splits)

lemma path_to_resolves: "path_to t i cs \<Longrightarrow> tree_inv t \<Longrightarrow> resolve_from t root_inode cs = Some i"
proof (induction rule: path_to.induct)
  case path_root
  then show ?case by simp
next
  case (path_step i n cs)
  note base = tree_invD(1) [OF path_step.prems]
  obtain k where k: "k < length (tr_nodes t)" "i = inode_at t k" "n = tr_nodes t ! k"
    using path_step.hyps(1) node_iff [OF base] by blast
  then have "0 < k" using path_step.hyps(2) by (cases k) (auto simp: inode_at_def)
  then have "node_lookup t (rn_parent n) (rn_name n) = Some i"
    unfolding node_lookup_def tree_invD(5) [OF path_step.prems] using k by blast
  with path_step show ?case by (simp add: resolve_from_append)
qed

section \<open>A flat list\<close>

definition plain_file :: "string \<Rightarrow> file_descriptor \<Rightarrow> bool" where
  "plain_file name file \<longleftrightarrow> \<not> fd_directory file \<and> path_components file = Some [name]"

text \<open>After the first \<open>k\<close> files of a flat list: node \<open>i + 1\<close> is file \<open>i\<close>, under the root.\<close>

definition flat_upto :: "string list \<Rightarrow> nat \<Rightarrow> remote_tree \<Rightarrow> bool" where
  "flat_upto names k t \<longleftrightarrow> tree_inv t \<and> entries t = k \<and>
     (\<forall>i<k. rn_name (tr_nodes t ! Suc i) = names ! i \<and> rn_parent (tr_nodes t ! Suc i) = root_inode \<and>
        rn_kind (tr_nodes t ! Suc i) = File i)"

lemma flat_step:
  assumes flat: "flat_upto names k t" and k: "k < length names" and dist: "distinct names"
    and plain: "plain_file (names ! k) file" and room: "k < max_entries" "tr_base t + k \<le> u64_max"
  shows "flat_upto names (Suc k) (add_file k file max_entries t) \<and> tr_base (add_file k file max_entries t) = tr_base t"
proof -
  have inv: "tree_inv t" and ent: "entries t = k" and old: "\<And>i. i < k \<Longrightarrow> rn_name (tr_nodes t ! Suc i) = names ! i \<and>
      rn_parent (tr_nodes t ! Suc i) = root_inode \<and> rn_kind (tr_nodes t ! Suc i) = File i"
    using flat by (simp_all add: flat_upto_def)
  note base = tree_invD(1) [OF inv]
  have len: "length (tr_nodes t) = Suc k" using ent tree_invD(3) [OF inv] by (cases "tr_nodes t") (simp_all add: entries_def)
  have at0: "inode_at t 0 = root_inode" by (simp add: inode_at_def)
  have absent: "node_lookup t (inode_at t 0) (names ! k) = None"
  proof (rule ccontr)
    assume "node_lookup t (inode_at t 0) (names ! k) \<noteq> None"
    then obtain i where "node_lookup t (inode_at t 0) (names ! k) = Some i" by blast
    then obtain m where "0 < m" "m < length (tr_nodes t)" "rn_name (tr_nodes t ! m) = names ! k"
      using tree_invD(5) [OF inv] by (auto simp: node_lookup_def)
    then have "m - 1 < k" "names ! (m - 1) = names ! k" using old [of "m - 1"] len by auto
    with dist k show False by (auto simp: nth_eq_iff_index_eq)
  qed
  have safe: "safe_name (names ! k)"
    using path_components_safe [of "fd" "[names ! k]" for fd] plain unfolding plain_file_def by auto
  have dir: "node_is_directory (tr_nodes t ! 0)" by (rule tree_invD(4) [OF inv])
  let ?entry = "entry_of k file"
  have j: "0 < length (tr_nodes t)" by (simp add: len)
  have add: "add_file k file max_entries t = grown 0 (names ! k) ?entry t"
    using insert_node_new [OF inv j absent, of ?entry max_entries] plain room ent
    by (simp add: add_file_def plain_file_def at0 is_full_def)
  note g = grown_simps [OF j, where name = "names ! k" and entry = ?entry]
  have inv': "tree_inv (grown 0 (names ! k) ?entry t)"
    using tree_inv_grown [OF inv j dir safe absent] room ent by simp
  have kind: "re_kind ?entry = File k" using plain by (simp add: entry_of_def plain_file_def)
  have new: "tr_nodes (grown 0 (names ! k) ?entry t) ! Suc k = entry_node t root_inode (names ! k) ?entry"
    using g(5) by (simp add: len at0)
  have "rn_name (tr_nodes (grown 0 (names ! k) ?entry t) ! Suc i) = names ! i \<and>
      rn_parent (tr_nodes (grown 0 (names ! k) ?entry t) ! Suc i) = root_inode \<and>
      rn_kind (tr_nodes (grown 0 (names ! k) ?entry t) ! Suc i) = File i" if "i < Suc k" for i
  proof (cases "i = k")
    case True
    then show ?thesis using new kind by (simp add: entry_node_def)
  next
    case False
    with that old [of i] show ?thesis by (simp add: g(4) len)
  qed
  moreover have "entries (grown 0 (names ! k) ?entry t) = Suc k" by (simp add: entries_def g(2) len)
  ultimately show ?thesis unfolding add flat_upto_def using inv' g(1) by simp
qed

lemma flat_build_from:
  "flat_upto names k t \<Longrightarrow> k \<le> length names \<Longrightarrow> distinct names \<Longrightarrow> length files = length names \<Longrightarrow>
   (\<forall>i<length names. plain_file (names ! i) (files ! i)) \<Longrightarrow> length names \<le> max_entries \<Longrightarrow>
   tr_base t + length names \<le> u64_max \<Longrightarrow> int (length names) \<le> i32_max \<Longrightarrow>
   flat_upto names (length names) (build_from k (drop k files) max_entries t) \<and>
   tr_base (build_from k (drop k files) max_entries t) = tr_base t"
proof (induction "length names - k" arbitrary: k t)
  case 0
  then show ?case by simp
next
  case (Suc d)
  then have k: "k < length names" by simp
  then have drop: "drop k files = files ! k # drop (Suc k) files"
    using Suc.prems(4) by (simp add: Cons_nth_drop_Suc)
  have step: "flat_upto names (Suc k) (add_file k (files ! k) max_entries t) \<and>
      tr_base (add_file k (files ! k) max_entries t) = tr_base t"
    using Suc.prems k by (intro flat_step) auto
  have "build_from k (drop k files) max_entries t =
      build_from (Suc k) (drop (Suc k) files) max_entries (add_file k (files ! k) max_entries t)"
    unfolding drop build_from.simps using Suc.prems(1,6,8) k
    by (simp add: flat_upto_def is_full_def i32_try_from_def)
  with Suc(1) [of "Suc k" "add_file k (files ! k) max_entries t"] Suc(2) Suc.prems step k show ?case by simp
qed

lemma flat_list_spec:
  assumes "first_inode \<le> base" and "base + length names \<le> u64_max" and "length names \<le> max_entries"
    and "int (length names) \<le> i32_max" and "distinct names" and "length files = length names"
    and "\<forall>i<length names. plain_file (names ! i) (files ! i)" and "t = build built_at files max_entries base"
    and "i < length names"
  shows "resolve_from t root_inode [names ! i] = Some (base + i) \<and>
    (\<exists>n. node t (base + i) = Some n \<and> rn_kind n = File i) \<and> entries t = length names"
proof -
  have two: "2 \<le> base" using assms(1) by (simp add: first_inode_def root_inode_def)
  have "flat_upto names 0 (rooted built_at base)"
    using tree_inv_rooted [OF two] assms(2) by (simp add: flat_upto_def entries_def rooted_def)
  moreover have "tr_base (rooted built_at base) = base" by (simp add: rooted_def)
  ultimately have flat: "flat_upto names (length names) t" and tb: "tr_base t = base"
    using flat_build_from [of names 0 "rooted built_at base" files max_entries] assms by (simp_all add: build_def)
  then have inv: "tree_inv t" and ent: "entries t = length names" by (simp_all add: flat_upto_def)
  have len: "length (tr_nodes t) = Suc (length names)"
    using ent tree_invD(3) [OF inv] by (cases "tr_nodes t") (simp_all add: entries_def)
  have at: "inode_at t (Suc i) = base + i" by (simp add: inode_at_def tb)
  have node: "node t (base + i) = Some (tr_nodes t ! Suc i)"
    using node_at [OF tree_invD(1) [OF inv], of "Suc i"] assms(9) len at by simp
  have "node_lookup t root_inode (names ! i) = Some (base + i)"
    unfolding node_lookup_def tree_invD(5) [OF inv]
    using flat assms(9) len at by (intro exI [of _ "Suc i"]) (simp add: flat_upto_def)
  with node ent flat assms(9) show ?thesis by (simp add: flat_upto_def)
qed

section \<open>Properties\<close>

text \<open>
  C15: However hostile the list, the tree built from it has at most \<open>max_entries\<close> entries with
  inodes from its own range; every entry has a safe name (not empty, not a dot entry, no separator
  and no NUL), a directory as parent that lists it, and is the one its parent and name look up.
\<close>

theorem remote_tree_well_formed:
  assumes "first_inode \<le> base" and "base \<le> u64_max" and "t = build built_at files max_entries base"
  shows "tree_inv t \<and> entries t \<le> max_entries \<and>
    (\<forall>i n. node t i = Some n \<and> i \<noteq> root_inode \<longrightarrow>
       base \<le> i \<and> i < base + entries t \<and> i \<le> u64_max \<and> safe_name (rn_name n) \<and>
       dir_at t (rn_parent n) \<and> i \<in> set (children t (rn_parent n)) \<and>
       node_lookup t (rn_parent n) (rn_name n) = Some i)"
proof -
  have "2 \<le> base" using assms(1) by (simp add: first_inode_def root_inode_def)
  note spec = build_spec [OF this assms(2), of built_at files max_entries, folded assms(3)]
  then have inv: "tree_inv t" and tb: "tr_base t = base" by simp_all
  note base = tree_invD(1) [OF inv]
  have "base \<le> i \<and> i < base + entries t \<and> i \<le> u64_max \<and> safe_name (rn_name n) \<and>
       dir_at t (rn_parent n) \<and> i \<in> set (children t (rn_parent n)) \<and>
       node_lookup t (rn_parent n) (rn_name n) = Some i" if node: "node t i = Some n" and nr: "i \<noteq> root_inode" for i n
  proof -
    obtain k where k: "k < length (tr_nodes t)" "i = inode_at t k" "n = tr_nodes t ! k"
      using node node_iff [OF base] by blast
    then have pos: "0 < k" using nr by (cases k) (auto simp: inode_at_def)
    then have i: "i = base + (k - 1)" using k(2) by (simp add: inode_at_def tb)
    have k1: "k - 1 < entries t" using k(1) pos by (simp add: entries_def)
    from tree_invD(6) [OF inv pos k(1)] obtain j where j: "j < k" "rn_parent n = inode_at t j"
      "node_is_directory (tr_nodes t ! j)" and safe: "safe_name (rn_name n)" by (auto simp: parent_ok_def k(3))
    have jl: "j < length (tr_nodes t)" using j(1) k(1) by simp
    have at: "node t (rn_parent n) = Some (tr_nodes t ! j)" unfolding j(2) using base jl by (rule node_at)
    have "i \<in> set (children t (rn_parent n))"
      unfolding children_def at option.case tree_invD(8) [OF inv jl]
      using pos k j(2) by (intro exI [of _ k]) (simp add: child_of_def)
    moreover have "node_lookup t (rn_parent n) (rn_name n) = Some i"
      unfolding node_lookup_def tree_invD(5) [OF inv] using pos k by blast
    moreover have "dir_at t (rn_parent n)" using at j(3) by (simp add: dir_at_def)
    moreover have "i < base + entries t" "i \<le> u64_max"
      using i k1 tree_invD(2) [OF inv] unfolding tb by linarith+
    ultimately show ?thesis using i safe by simp
  qed
  with spec show ?thesis by (intro conjI allI impI) blast+
qed

theorem remote_tree_well_formed_witness:
  "entries (build 0 [\<lparr>fd_name = ''a'', fd_relative_path = Some ''../x'', fd_directory = False, fd_read_only = False,
     fd_size = Some 3, fd_last_write_time = None\<rparr>] 10 first_inode) \<le> 10"
  using remote_tree_well_formed [of first_inode _ 0 "[\<lparr>fd_name = ''a'', fd_relative_path = Some ''../x'',
     fd_directory = False, fd_read_only = False, fd_size = Some 3, fd_last_write_time = None\<rparr>]" 10]
  by (simp add: first_inode_def root_inode_def)

text \<open>
  C27: A file of the tree is a file of the list: its index is in range, walking the path components
  of that descriptor from the root reaches exactly this inode, and its size is the descriptor's.
\<close>

theorem remote_files_at_their_paths:
  assumes "first_inode \<le> base" and "base \<le> u64_max" and "t = build built_at files max_entries base"
    and "node t i = Some n" and "rn_kind n = File ix"
  shows "ix < length files \<and> (\<exists>cs. path_components (files ! ix) = Some cs \<and> resolve_from t root_inode cs = Some i) \<and>
    rn_size n = file_size (files ! ix)"
proof -
  have "2 \<le> base" using assms(1) by (simp add: first_inode_def root_inode_def)
  note spec = build_spec [OF this assms(2), of built_at files max_entries, folded assms(3)]
  with assms(4,5) obtain cs where cs: "ix < length files" "path_components (files ! ix) = Some cs" "path_to t i cs"
    "rn_size n = file_size (files ! ix)" unfolding files_ok_def by blast
  with path_to_resolves [OF cs(3)] spec show ?thesis by blast
qed

text \<open>
  A flat list of plain files with different usable names loses nothing: file \<open>i\<close> is the entry its
  name looks up in the root, with the inode \<open>base + i\<close>.
\<close>

theorem flat_list_complete:
  assumes "first_inode \<le> base" and "base + length names \<le> u64_max" and "length names \<le> max_entries"
    and "int (length names) \<le> i32_max" and "distinct names" and "length files = length names"
    and "\<forall>i<length names. plain_file (names ! i) (files ! i)" and "t = build built_at files max_entries base"
    and "i < length names"
  shows "resolve_from t root_inode [names ! i] = Some (base + i) \<and>
    (\<exists>n. node t (base + i) = Some n \<and> rn_kind n = File i) \<and> entries t = length names"
  by (rule flat_list_spec [OF assms])

theorem flat_list_complete_witness:
  "\<exists>n. node (build 0 [\<lparr>fd_name = ''a'', fd_relative_path = None, fd_directory = False, fd_read_only = False,
     fd_size = Some 3, fd_last_write_time = None\<rparr>] 10 2) 2 = Some n \<and> rn_kind n = File 0"
proof -
  let ?f = "\<lparr>fd_name = ''a'', fd_relative_path = None, fd_directory = False, fd_read_only = False,
     fd_size = Some 3, fd_last_write_time = None\<rparr> :: file_descriptor"
  have "plain_file ''a'' ?f"
    by (simp add: plain_file_def path_components_def is_separator_def usable_component_def max_directory_depth_def Let_def)
  then show ?thesis
    using flat_list_complete [of 2 "[''a'']" 10 "[?f]" _ 0 0] by (simp add: first_inode_def root_inode_def)
qed

theorem remote_files_at_their_paths_witness:
  "\<exists>n cs. node (build 0 [\<lparr>fd_name = ''a'', fd_relative_path = None, fd_directory = False, fd_read_only = False,
     fd_size = Some 3, fd_last_write_time = None\<rparr>] 10 2) 2 = Some n \<and> rn_size n = Some 3 \<and> cs = [''a''] \<and>
     resolve_from (build 0 [\<lparr>fd_name = ''a'', fd_relative_path = None, fd_directory = False, fd_read_only = False,
     fd_size = Some 3, fd_last_write_time = None\<rparr>] 10 2) root_inode cs = Some 2"
proof -
  let ?f = "\<lparr>fd_name = ''a'', fd_relative_path = None, fd_directory = False, fd_read_only = False,
     fd_size = Some 3, fd_last_write_time = None\<rparr> :: file_descriptor"
  let ?t = "build 0 [?f] 10 2"
  have pc: "path_components ?f = Some [''a'']"
    by (simp add: path_components_def is_separator_def usable_component_def max_directory_depth_def Let_def)
  have "plain_file ''a'' ?f" using pc by (simp add: plain_file_def)
  then have "\<exists>n. node ?t 2 = Some n \<and> rn_kind n = File 0"
    using flat_list_spec [of 2 "[''a'']" 10 "[?f]" ?t 0 0] by (simp add: first_inode_def root_inode_def)
  then obtain n where n: "node ?t 2 = Some n" "rn_kind n = File 0" by blast
  from remote_files_at_their_paths [OF _ _ refl n] have
    "(\<exists>cs. path_components ?f = Some cs \<and> resolve_from ?t root_inode cs = Some 2) \<and> rn_size n = file_size ?f"
    by (simp add: first_inode_def root_inode_def)
  with n(1) pc show ?thesis by (simp add: file_size_def)
qed

end
