(* ===== verification/InboundTransfer.thy ===== *)
theory InboundTransfer
  imports RemoteTree
begin

text \<open>
  Admission and correlation of remote reads (\<open>clipboard/inbound/transfer.rs\<close>). The state under the
  mutex is a record, an asynchronous read is the call that submits it and, later, the answer
  delivered to it; the requests sent and the answers delivered are lists in the state. A dropped
  answer channel wakes its reader with an error. The chunked fetch belongs to another package: its
  operations are the record \<open>fetch_ops\<close>, an argument of the operations that use it. Maps are
  association lists with distinct keys, in key order where the code uses a \<open>BTreeMap\<close>.
\<close>

section \<open>Data\<close>

definition max_pending :: nat where
  "max_pending = 64"

definition max_buffered :: nat where
  "max_buffered = 16777216"

definition max_read :: nat where
  "max_read = 8388608"

definition max_retiring :: nat where
  "max_retiring = 4"

record selection =
  sl_tree :: remote_tree
  sl_data_id :: "nat option"

record contents_request =
  rq_stream :: nat
  rq_index :: nat
  rq_wants_size :: bool
  rq_position :: nat
  rq_requested :: nat
  rq_data_id :: "nat option"

record contents_response =
  rs_stream :: nat
  rs_error :: bool
  rs_data :: "byte list"

datatype fetch_progress = FetchFailed | FetchComplete | FetchInProgress

record 'f fetch_ops =
  cf_new :: "nat \<Rightarrow> nat \<Rightarrow> nat \<Rightarrow> nat \<Rightarrow> nat option \<Rightarrow> nat \<Rightarrow> 'f"
  cf_next_request :: "'f \<Rightarrow> contents_request option \<times> 'f"
  cf_on_response :: "contents_response \<Rightarrow> 'f \<Rightarrow> fetch_progress \<times> 'f"
  cf_into_data :: "'f \<Rightarrow> byte list"

datatype 'f operation = OpSize nat | OpRange nat 'f

record 'f pending =
  pd_generation :: nat
  pd_operation :: "'f operation"
  pd_answer_closed :: bool
  pd_reserved :: nat

datatype answer = AnswerSize nat | AnswerBytes "byte list" | AnswerError

record 'f transfer =
  tf_generation :: nat
  tf_closed :: bool
  tf_stream :: bool
  tf_huge :: bool
  tf_locking :: bool
  tf_current :: selection
  tf_retiring :: "(nat \<times> selection) list"
  tf_next_base :: nat
  tf_next_stream :: "nat option"
  tf_pending :: "(nat \<times> 'f pending) list"
  tf_sender_open :: bool
  tf_sent :: "contents_request list"
  tf_answers :: "(nat \<times> answer) list"

definition empty_selection :: "int \<Rightarrow> selection" where
  "empty_selection now = \<lparr>sl_tree = empty_tree now, sl_data_id = None\<rparr>"

definition transfer_new :: "int \<Rightarrow> 'f transfer" where
  "transfer_new now =
     \<lparr>tf_generation = 0, tf_closed = False, tf_stream = False, tf_huge = False, tf_locking = False,
      tf_current = empty_selection now, tf_retiring = [], tf_next_base = 0, tf_next_stream = Some 1,
      tf_pending = [], tf_sender_open = True, tf_sent = [], tf_answers = []\<rparr>"

section \<open>Ordered maps\<close>

fun btree_insert :: "nat \<Rightarrow> 'v \<Rightarrow> (nat \<times> 'v) list \<Rightarrow> (nat \<times> 'v) list" where
  "btree_insert k v [] = [(k, v)]"
| "btree_insert k v ((k', v') # xs) =
     (if k < k' then (k, v) # (k', v') # xs
      else if k = k' then (k, v) # xs
      else (k', v') # btree_insert k v xs)"

definition map_remove :: "nat \<Rightarrow> (nat \<times> 'v) list \<Rightarrow> (nat \<times> 'v) list" where
  "map_remove k xs = filter (\<lambda>(k', _). k' \<noteq> k) xs"

definition map_insert :: "nat \<Rightarrow> 'v \<Rightarrow> (nat \<times> 'v) list \<Rightarrow> (nat \<times> 'v) list" where
  "map_insert k v xs = (k, v) # map_remove k xs"

definition map_update :: "nat \<Rightarrow> ('v \<Rightarrow> 'v) \<Rightarrow> (nat \<times> 'v) list \<Rightarrow> (nat \<times> 'v) list" where
  "map_update k g xs = map (\<lambda>(k', v). (k', if k' = k then g v else v)) xs"

section \<open>Selections\<close>

definition live :: "'f transfer \<Rightarrow> nat \<Rightarrow> bool" where
  "live s generation \<longleftrightarrow> \<not> tf_closed s \<and> tf_stream s \<and> tf_generation s = generation"

definition servable :: "'f transfer \<Rightarrow> nat \<Rightarrow> bool" where
  "servable s generation \<longleftrightarrow> \<not> tf_closed s \<and> tf_stream s \<and>
     (tf_generation s = generation \<or> map_of (tf_retiring s) generation \<noteq> None)"

definition selection_of :: "'f transfer \<Rightarrow> nat \<Rightarrow> selection option" where
  "selection_of s generation =
     (if \<not> tf_closed s \<and> tf_stream s
      then if tf_generation s = generation then Some (tf_current s) else map_of (tf_retiring s) generation
      else None)"

text \<open>\<open>selection_mut\<close> followed by \<open>set_size\<close> on its tree: whether the size was stored.\<close>

definition store_size :: "nat \<Rightarrow> nat \<Rightarrow> nat \<Rightarrow> 'f transfer \<Rightarrow> bool \<times> 'f transfer" where
  "store_size generation inode sz s = (case selection_of s generation of
     None \<Rightarrow> (False, s)
   | Some sel \<Rightarrow>
       (let (stored, tree) = set_size inode sz (sl_tree sel);
            sel' = sel\<lparr>sl_tree := tree\<rparr>
        in (stored, if tf_generation s = generation then s\<lparr>tf_current := sel'\<rparr>
                    else s\<lparr>tf_retiring := map_update generation (\<lambda>_. sel') (tf_retiring s)\<rparr>)))"

text \<open>Dropping answers: every reader still waiting on one of them is woken with an error.\<close>

definition drop_pending :: "('f pending \<Rightarrow> bool) \<Rightarrow> 'f transfer \<Rightarrow> 'f transfer" where
  "drop_pending doomed s =
     s\<lparr>tf_pending := filter (\<lambda>(_, p). \<not> doomed p) (tf_pending s),
       tf_answers := tf_answers s @ map (\<lambda>(sid, _). (sid, AnswerError))
         (filter (\<lambda>(_, p). doomed p \<and> \<not> pd_answer_closed p) (tf_pending s))\<rparr>"

definition fail_pending :: "nat \<Rightarrow> 'f transfer \<Rightarrow> 'f transfer" where
  "fail_pending generation s = drop_pending (\<lambda>p. pd_generation p = generation) s"

definition take_current :: "int \<Rightarrow> 'f transfer \<Rightarrow> selection \<times> 'f transfer" where
  "take_current now s =
     (tf_current s,
      s\<lparr>tf_next_base := max (tf_next_base s) (next_base (sl_tree (tf_current s))),
        tf_current := empty_selection now\<rparr>)"

definition bump :: "'f transfer \<Rightarrow> 'f transfer" where
  "bump s = (case u64_checked_add (tf_generation s) 1 of
     Some next \<Rightarrow> s\<lparr>tf_generation := next\<rparr>
   | None \<Rightarrow> s\<lparr>tf_closed := True\<rparr>)"

text \<open>The loop that ends the oldest selections while more than four are retired.\<close>

fun trim_retiring :: "nat \<Rightarrow> 'f transfer \<Rightarrow> nat list \<times> 'f transfer" where
  "trim_retiring 0 s = ([], s)"
| "trim_retiring (Suc fuel) s =
     (if length (tf_retiring s) > max_retiring
      then (case tf_retiring s of
          [] \<Rightarrow> ([], s)
        | (oldest, _) # _ \<Rightarrow>
            (let s' = fail_pending oldest (s\<lparr>tf_retiring := map_remove oldest (tf_retiring s)\<rparr>);
                 (released, s'') = trim_retiring fuel s'
             in (oldest # released, s'')))
      else ([], s))"

definition retire_current :: "int \<Rightarrow> 'f transfer \<Rightarrow> nat list \<times> 'f transfer" where
  "retire_current now s =
     (let superseded = tf_generation s;
          (selection, s1) = take_current now s
      in if roots (sl_tree selection) = [] \<or> sl_data_id selection = None
         then ([superseded], bump (fail_pending superseded s1))
         else (let s2 = s1\<lparr>tf_retiring := btree_insert superseded selection (tf_retiring s1)\<rparr>;
                   (released, s3) = trim_retiring (length (tf_retiring s2)) s2
               in (released, bump s3)))"

definition shutdown :: "int \<Rightarrow> 'f transfer \<Rightarrow> nat list \<times> 'f transfer" where
  "shutdown now s =
     (let released = map fst (tf_retiring s) @ [tf_generation s];
          s1 = drop_pending (\<lambda>_. True) (s\<lparr>tf_retiring := []\<rparr>)
      in (released, bump (snd (take_current now s1))))"

section \<open>Operations of the transfer\<close>

definition capabilities :: "int \<Rightarrow> bool \<Rightarrow> bool \<Rightarrow> bool \<Rightarrow> 'f transfer \<Rightarrow> nat list \<times> 'f transfer" where
  "capabilities now stream huge locking s =
     (let (released, s1) = (if tf_stream s \<noteq> stream \<or> tf_huge s \<noteq> huge \<or> tf_locking s \<noteq> locking
                            then shutdown now s else ([], s))
      in (released, s1\<lparr>tf_stream := stream, tf_huge := huge, tf_locking := locking\<rparr>))"

definition enabled :: "'f transfer \<Rightarrow> bool" where
  "enabled s \<longleftrightarrow> tf_stream s \<and> \<not> tf_closed s"

definition live_generation :: "'f transfer \<Rightarrow> nat option" where
  "live_generation s = (if live s (tf_generation s) then Some (tf_generation s) else None)"

definition retire_generation :: "int \<Rightarrow> 'f transfer \<Rightarrow> (nat option \<times> nat list) \<times> 'f transfer" where
  "retire_generation now s = (let (released, s1) = retire_current now s in ((live_generation s1, released), s1))"

definition covered :: "nat list \<Rightarrow> selection \<Rightarrow> bool" where
  "covered data_ids sel = (case sl_data_id sel of None \<Rightarrow> False | Some sid \<Rightarrow> sid \<in> set data_ids)"

definition end_selection :: "nat \<Rightarrow> 'f transfer \<Rightarrow> 'f transfer" where
  "end_selection generation s = fail_pending generation (s\<lparr>tf_retiring := map_remove generation (tf_retiring s)\<rparr>)"

definition release_locks :: "int \<Rightarrow> nat list \<Rightarrow> 'f transfer \<Rightarrow> nat list \<times> 'f transfer" where
  "release_locks now data_ids s =
     (let released = map fst (filter (\<lambda>(_, sel). covered data_ids sel) (tf_retiring s));
          (released', s1) = (if covered data_ids (tf_current s)
             then (released @ [tf_generation s],
                   bump (fail_pending (tf_generation s) (snd (take_current now s))))
             else (released, s))
      in (released', fold end_selection released' s1))"

definition close_transfer :: "int \<Rightarrow> 'f transfer \<Rightarrow> nat list \<times> 'f transfer" where
  "close_transfer now s = (let (released, s1) = shutdown now s in (released, s1\<lparr>tf_closed := True\<rparr>))"

definition accept_for :: "int \<Rightarrow> nat \<Rightarrow> nat \<Rightarrow> file_descriptor list \<Rightarrow> nat option \<Rightarrow> 'f transfer
    \<Rightarrow> (nat \<times> string list \<times> nat list) option \<times> 'f transfer" where
  "accept_for now max_entries expected files data_id s =
     (if \<not> live s expected then (None, s)
      else (let (released, s1) = retire_current now s in
        if \<not> live s1 (tf_generation s1) then (None, s1)
        else (let tree = build now files max_entries (tf_next_base s1);
                  data_id' = (if tf_locking s1 then data_id else None);
                  s2 = s1\<lparr>tf_next_base := next_base tree, tf_current := \<lparr>sl_tree = tree, sl_data_id = data_id'\<rparr>\<rparr>;
                  names = filter_map (\<lambda>i. map_option rn_name (node tree i)) (roots tree)
              in (Some (tf_generation s2, names, released), s2))))"

definition with_tree :: "nat \<Rightarrow> 'f transfer \<Rightarrow> remote_tree option" where
  "with_tree generation s = map_option sl_tree (selection_of s generation)"

definition with_live_tree :: "nat \<Rightarrow> 'f transfer \<Rightarrow> remote_tree option" where
  "with_live_tree generation s = (if live s generation then Some (sl_tree (tf_current s)) else None)"

text \<open>\<open>allocate\<close> prunes the readers that went away before it applies the budgets.\<close>

definition allocate :: "nat \<Rightarrow> 'f transfer \<Rightarrow> nat option \<times> 'f transfer" where
  "allocate bytes s =
     (let s1 = s\<lparr>tf_pending := filter (\<lambda>(_, p). \<not> pd_answer_closed p) (tf_pending s)\<rparr>
      in if length (tf_pending s1) \<ge> max_pending \<or>
            bytes + sum_list (map (pd_reserved \<circ> snd) (tf_pending s1)) > max_buffered
         then (None, s1)
         else (case tf_next_stream s1 of
             None \<Rightarrow> (None, s1)
           | Some sid \<Rightarrow> (Some sid, s1\<lparr>tf_next_stream := u32_checked_add sid 1\<rparr>)))"

definition submit :: "nat \<Rightarrow> contents_request \<Rightarrow> 'f operation \<Rightarrow> nat \<Rightarrow> 'f transfer \<Rightarrow> nat option \<times> 'f transfer" where
  "submit generation request operation reserved s =
     (if \<not> tf_sender_open s then (None, s)
      else (Some (rq_stream request),
            s\<lparr>tf_sent := tf_sent s @ [request],
              tf_pending := map_insert (rq_stream request)
                \<lparr>pd_generation = generation, pd_operation = operation, pd_answer_closed = False, pd_reserved = reserved\<rparr>
                (tf_pending s)\<rparr>))"

text \<open>What a call gives at once: a value, a refusal, or the stream whose answer it waits for.\<close>

datatype 'v call = Immediate 'v | Refused | Waiting nat

definition size_call :: "nat \<Rightarrow> nat \<Rightarrow> 'f transfer \<Rightarrow> nat call \<times> 'f transfer" where
  "size_call generation inode s =
     (if \<not> servable s generation then (Refused, s)
      else (case selection_of s generation of
          None \<Rightarrow> (Refused, s)
        | Some sel \<Rightarrow> (case node (sl_tree sel) inode of
            None \<Rightarrow> (Refused, s)
          | Some n \<Rightarrow> (case rn_size n of
              Some sz \<Rightarrow> (if \<not> tf_huge s \<and> sz > u32_max then Refused else Immediate sz, s)
            | None \<Rightarrow> (case rn_kind n of
                Directory \<Rightarrow> (Refused, s)
              | File index \<Rightarrow> (case allocate 8 s of
                  (None, s1) \<Rightarrow> (Refused, s1)
                | (Some sid, s1) \<Rightarrow>
                    (case submit generation
                       \<lparr>rq_stream = sid, rq_index = index, rq_wants_size = True, rq_position = 0,
                        rq_requested = 8, rq_data_id = sl_data_id sel\<rparr> (OpSize inode) 8 s1 of
                       (None, s2) \<Rightarrow> (Refused, s2)
                     | (Some sid, s2) \<Rightarrow> (Waiting sid, s2)))))))) "

text \<open>\<open>read\<close> after its \<open>size\<close> call has returned.\<close>

definition read_call :: "'f fetch_ops \<Rightarrow> nat \<Rightarrow> nat \<Rightarrow> nat \<Rightarrow> nat \<Rightarrow> nat \<Rightarrow> 'f transfer \<Rightarrow> byte list call \<times> 'f transfer" where
  "read_call ops max_chunk generation inode position amount_wanted s =
     (if \<not> servable s generation \<or> amount_wanted > max_read then (Refused, s)
      else (case selection_of s generation of
          None \<Rightarrow> (Refused, s)
        | Some sel \<Rightarrow> (case node (sl_tree sel) inode of
            None \<Rightarrow> (Refused, s)
          | Some n \<Rightarrow> (case (rn_kind n, rn_size n) of
              (File index, Some sz) \<Rightarrow>
                (let amount = min (sz - position) amount_wanted in
                 if amount = 0 then (Immediate [], s)
                 else (case allocate amount s of
                     (None, s1) \<Rightarrow> (Refused, s1)
                   | (Some sid, s1) \<Rightarrow>
                       (case cf_next_request ops (cf_new ops sid index amount max_chunk (sl_data_id sel) max_read) of
                          (None, _) \<Rightarrow> (Refused, s1)
                        | (Some request, fetch) \<Rightarrow>
                            (case submit generation (request\<lparr>rq_position := position\<rparr>) (OpRange position fetch) amount s1 of
                               (None, s2) \<Rightarrow> (Refused, s2)
                             | (Some sid, s2) \<Rightarrow> (Waiting sid, s2)))))
            | _ \<Rightarrow> (Refused, s)))))"

definition deliver :: "nat \<Rightarrow> answer \<Rightarrow> 'f transfer \<Rightarrow> 'f transfer" where
  "deliver sid a s = s\<lparr>tf_answers := tf_answers s @ [(sid, a)]\<rparr>"

fun le_value :: "byte list \<Rightarrow> nat" where
  "le_value [] = 0"
| "le_value (b # bs) = unat b + 256 * le_value bs"

definition on_response :: "'f fetch_ops \<Rightarrow> contents_response \<Rightarrow> 'f transfer \<Rightarrow> 'f transfer" where
  "on_response ops response s =
     (let sid = rs_stream response in case map_of (tf_pending s) sid of
        None \<Rightarrow> s
      | Some p \<Rightarrow>
          (let s1 = s\<lparr>tf_pending := map_remove sid (tf_pending s)\<rparr> in
           if pd_answer_closed p then s1
           else (case pd_operation p of
               OpSize inode \<Rightarrow>
                 if rs_error response then deliver sid AnswerError s1
                 else if length (rs_data response) = 8
                 then (let sz = le_value (rs_data response);
                           (stored, s2) = store_size (pd_generation p) inode sz s1
                       in if (\<not> tf_huge s \<and> sz > u32_max) \<or> \<not> stored then deliver sid AnswerError s2
                          else deliver sid (AnswerSize sz) s2)
                 else deliver sid AnswerError s1
             | OpRange base fetch \<Rightarrow>
                 (case cf_on_response ops response fetch of
                    (FetchFailed, _) \<Rightarrow> deliver sid AnswerError s1
                  | (FetchComplete, fetch') \<Rightarrow> deliver sid (AnswerBytes (cf_into_data ops fetch')) s1
                  | (FetchInProgress, fetch') \<Rightarrow>
                      (case cf_next_request ops fetch' of
                         (None, _) \<Rightarrow> deliver sid AnswerError s1
                       | (Some request, fetch'') \<Rightarrow>
                           (case u64_checked_add base (rq_position request) of
                              None \<Rightarrow> deliver sid AnswerError s1
                            | Some position \<Rightarrow>
                                if tf_sender_open s1
                                then s1\<lparr>tf_sent := tf_sent s1 @ [request\<lparr>rq_position := position\<rparr>],
                                        tf_pending := map_insert sid (p\<lparr>pd_operation := OpRange base fetch''\<rparr>) (tf_pending s1)\<rparr>
                                else deliver sid AnswerError s1))))))"

text \<open>The timeout task of a request, and a reader that gives up.\<close>

definition timeout_expires :: "nat \<Rightarrow> 'f transfer \<Rightarrow> 'f transfer" where
  "timeout_expires sid s = (case map_of (tf_pending s) sid of
     None \<Rightarrow> s
   | Some p \<Rightarrow> (let s1 = s\<lparr>tf_pending := map_remove sid (tf_pending s)\<rparr>
                in if pd_answer_closed p then s1 else deliver sid AnswerError s1))"

definition reader_leaves :: "nat \<Rightarrow> 'f transfer \<Rightarrow> 'f transfer" where
  "reader_leaves sid s = s\<lparr>tf_pending := map_update sid (\<lambda>p. p\<lparr>pd_answer_closed := True\<rparr>) (tf_pending s)\<rparr>"

section \<open>Events\<close>

datatype transfer_event =
    Capabilities bool bool bool
  | Retire
  | ReleaseLocks "nat list"
  | Close
  | Accept nat "file_descriptor list" "nat option"
  | Size nat nat
  | Read nat nat nat nat
  | Response contents_response
  | Timeout nat
  | ReaderLeaves nat
  | SenderCloses

fun transfer_step :: "'f fetch_ops \<Rightarrow> int \<Rightarrow> nat \<Rightarrow> nat \<Rightarrow> 'f transfer \<Rightarrow> transfer_event \<Rightarrow> 'f transfer" where
  "transfer_step ops now max_entries max_chunk s (Capabilities stream huge locking) = snd (capabilities now stream huge locking s)"
| "transfer_step ops now max_entries max_chunk s Retire = snd (retire_generation now s)"
| "transfer_step ops now max_entries max_chunk s (ReleaseLocks ids) = snd (release_locks now ids s)"
| "transfer_step ops now max_entries max_chunk s Close = snd (close_transfer now s)"
| "transfer_step ops now max_entries max_chunk s (Accept expected files data_id) =
     snd (accept_for now max_entries expected files data_id s)"
| "transfer_step ops now max_entries max_chunk s (Size generation inode) = snd (size_call generation inode s)"
| "transfer_step ops now max_entries max_chunk s (Read generation inode position wanted) =
     snd (read_call ops max_chunk generation inode position wanted s)"
| "transfer_step ops now max_entries max_chunk s (Response response) = on_response ops response s"
| "transfer_step ops now max_entries max_chunk s (Timeout sid) = timeout_expires sid s"
| "transfer_step ops now max_entries max_chunk s (ReaderLeaves sid) = reader_leaves sid s"
| "transfer_step ops now max_entries max_chunk s SenderCloses = s\<lparr>tf_sender_open := False\<rparr>"

section \<open>Facts on the maps\<close>

lemma set_btree_insert:
  "sorted_wrt (<) (map fst xs) \<Longrightarrow> set (btree_insert k v xs) = insert (k, v) {p \<in> set xs. fst p \<noteq> k}"
proof (induction xs)
  case Nil
  then show ?case by simp
next
  case (Cons p xs)
  obtain k' v' where p: "p = (k', v')" by (cases p)
  have above: "\<forall>q\<in>set xs. k' < fst q" using Cons.prems by (auto simp: p)
  consider "k < k'" | "k = k'" | "k' < k" by linarith
  then show ?case
  proof cases
    case 1
    then have "\<forall>q\<in>set (p # xs). fst q \<noteq> k" using above by (fastforce simp: p)
    then have "{q \<in> set (p # xs). fst q \<noteq> k} = set (p # xs)" by blast
    with 1 show ?thesis by (simp add: p)
  next
    case 2
    have "fst q \<noteq> k" if "q \<in> set xs" for q using above that 2 by auto
    moreover have "fst p = k" using 2 by (simp add: p)
    ultimately have "{q \<in> set (p # xs). fst q \<noteq> k} = set xs" by auto
    with 2 show ?thesis by (simp add: p)
  next
    case 3
    with Cons show ?thesis by (auto simp: p)
  qed
qed

lemma sorted_btree_insert:
  "sorted_wrt (<) (map fst xs) \<Longrightarrow> sorted_wrt (<) (map fst (btree_insert k v xs))"
proof (induction xs)
  case Nil
  then show ?case by simp
next
  case (Cons p xs)
  obtain k' v' where p: "p = (k', v')" by (cases p)
  have xs: "sorted_wrt (<) (map fst xs)" "\<forall>q\<in>set xs. k' < fst q" using Cons.prems by (auto simp: p)
  consider "k < k'" | "k = k'" | "k' < k" by linarith
  then show ?case
  proof cases
    case 3
    have "\<forall>q\<in>set (btree_insert k v xs). k' < fst q"
      unfolding set_btree_insert [OF xs(1)] using 3 xs(2) by simp
    with 3 Cons.IH [OF xs(1)] show ?thesis by (simp add: p)
  qed (use xs in \<open>auto simp: p\<close>)
qed

lemma length_btree_insert: "length (btree_insert k v xs) \<le> Suc (length xs)"
  by (induction xs) auto

lemma set_map_remove [simp]: "set (map_remove k xs) = {p \<in> set xs. fst p \<noteq> k}"
  by (auto simp: map_remove_def)

lemma length_map_remove: "length (map_remove k xs) \<le> length xs"
  by (simp add: map_remove_def)

lemma sorted_map_remove: "sorted_wrt (<) (map fst xs) \<Longrightarrow> sorted_wrt (<) (map fst (map_remove k xs))"
  by (induction xs) (auto simp: map_remove_def)

lemma distinct_map_remove: "distinct (map fst xs) \<Longrightarrow> distinct (map fst (map_remove k xs))"
  unfolding map_remove_def by (rule distinct_map_filter)

lemma keys_map_update [simp]: "map fst (map_update k g xs) = map fst xs"
  by (induction xs) (auto simp: map_update_def)

lemma sum_filter_le: "sum_list (map g (filter P xs)) \<le> (sum_list (map g xs) :: nat)"
  by (induction xs) auto

lemma length_remove_less:
  "(k, v) \<in> set xs \<Longrightarrow> length (map_remove k xs) < length xs"
  unfolding map_remove_def by (intro length_filter_less) auto

lemma sum_remove:
  fixes g :: "nat \<times> 'v \<Rightarrow> nat"
  assumes "distinct (map fst xs)" and "(k, v) \<in> set xs"
  shows "sum_list (map g (map_remove k xs)) + g (k, v) = sum_list (map g xs)"
  using assms
proof (induction xs)
  case Nil
  then show ?case by simp
next
  case (Cons p xs)
  obtain k' v' where p: "p = (k', v')" by (cases p)
  show ?case
  proof (cases "k' = k")
    case True
    have "map_remove k xs = xs"
      using Cons.prems(1) True unfolding map_remove_def p by (intro filter_True) force
    moreover have "v' = v" using Cons.prems True by (force simp: p)
    ultimately show ?thesis using True by (simp add: p map_remove_def)
  next
    case False
    with Cons show ?thesis by (simp add: p map_remove_def)
  qed
qed

section \<open>Requests: budgets and correlation\<close>

definition issued :: "nat option \<Rightarrow> nat \<Rightarrow> bool" where
  "issued next_stream sid = (case next_stream of None \<Rightarrow> True | Some n \<Rightarrow> sid < n)"

definition requests_ok :: "(nat \<times> 'f pending) list \<Rightarrow> (nat \<times> answer) list \<Rightarrow> nat option \<Rightarrow> bool" where
  "requests_ok pending answers next_stream \<longleftrightarrow>
     distinct (map fst pending @ map fst answers) \<and> length pending \<le> max_pending \<and>
     sum_list (map (pd_reserved \<circ> snd) pending) \<le> max_buffered \<and>
     (\<forall>sid\<in>set (map fst pending @ map fst answers). issued next_stream sid)"

definition requests_inv :: "'f transfer \<Rightarrow> bool" where
  "requests_inv s \<longleftrightarrow> requests_ok (tf_pending s) (tf_answers s) (tf_next_stream s)"

lemma requests_ok_filter:
  assumes "requests_ok pending answers next"
  shows "requests_ok (filter P pending) (answers @ map (\<lambda>(sid, _). (sid, AnswerError)) (filter Q (filter (\<lambda>p. \<not> P p) pending))) next"
proof -
  have keys: "map fst (map (\<lambda>(sid, _). (sid, AnswerError)) xs) = map fst xs" for xs :: "(nat \<times> 'a pending) list"
    by (induction xs) auto
  have d: "distinct (map fst pending)" using assms by (simp add: requests_ok_def)
  have "distinct (map fst (filter P pending))" "distinct (map fst (filter Q (filter (\<lambda>p. \<not> P p) pending)))"
    using d by (auto intro: distinct_map_filter)
  moreover have "fst ` set (filter P pending) \<inter> fst ` set (filter Q (filter (\<lambda>p. \<not> P p) pending)) = {}"
    using d unfolding distinct_map by (force dest: inj_onD)
  ultimately have "distinct (map fst (filter P pending) @ map fst answers @ map fst (filter Q (filter (\<lambda>p. \<not> P p) pending)))"
    using assms unfolding requests_ok_def by (auto simp: image_iff)
  moreover have "length (filter P pending) \<le> max_pending"
    using assms length_filter_le [of P pending] unfolding requests_ok_def by linarith
  moreover have "sum_list (map (pd_reserved \<circ> snd) (filter P pending)) \<le> max_buffered"
    using assms sum_filter_le [of "pd_reserved \<circ> snd" P pending] unfolding requests_ok_def by linarith
  moreover have "\<forall>sid\<in>set (map fst (filter P pending) @ map fst answers @
      map fst (filter Q (filter (\<lambda>p. \<not> P p) pending))). issued next sid"
    using assms unfolding requests_ok_def by auto
  ultimately show ?thesis unfolding requests_ok_def map_append keys by simp
qed

lemma requests_drop_pending: "requests_inv s \<Longrightarrow> requests_inv (drop_pending d s)"
proof -
  assume inv: "requests_inv s"
  have "filter (\<lambda>(_, p). d p \<and> \<not> pd_answer_closed p) (tf_pending s) =
      filter (\<lambda>(_, p). \<not> pd_answer_closed p) (filter (\<lambda>p. \<not> (case p of (_, p) \<Rightarrow> \<not> d p)) (tf_pending s))"
    by (auto simp: filter_filter intro: filter_cong)
  with requests_ok_filter [of "tf_pending s" "tf_answers s" "tf_next_stream s" "\<lambda>(_, p). \<not> d p" "\<lambda>(_, p). \<not> pd_answer_closed p"] inv
  show ?thesis by (simp add: requests_inv_def drop_pending_def)
qed

text \<open>Removing one request, and answering it.\<close>

lemma requests_ok_remove:
  assumes "requests_ok pending answers next" and "map_of pending sid = Some p"
  shows "requests_ok (map_remove sid pending) answers next \<and> requests_ok (map_remove sid pending) (answers @ [(sid, a)]) next"
proof -
  have mem: "(sid, p) \<in> set pending" using assms(2) by (rule map_of_SomeD)
  have "length (map_remove sid pending) \<le> max_pending"
    using assms(1) length_map_remove [of sid pending] unfolding requests_ok_def by linarith
  moreover have "sum_list (map (pd_reserved \<circ> snd) (map_remove sid pending)) \<le> max_buffered"
    using assms(1) sum_filter_le [of "pd_reserved \<circ> snd" "\<lambda>(k', _). k' \<noteq> sid" pending]
    unfolding requests_ok_def map_remove_def by linarith
  moreover have "distinct (map fst (map_remove sid pending) @ map fst answers)"
    "distinct (map fst (map_remove sid pending) @ map fst (answers @ [(sid, a)]))"
    using assms(1) mem distinct_map_remove [of pending sid] unfolding requests_ok_def by force+
  moreover have "issued next sid" using assms(1) mem unfolding requests_ok_def by force
  ultimately show ?thesis using assms(1) unfolding requests_ok_def by auto
qed

lemma issued_next: "issued (Some sid) k \<Longrightarrow> issued (u32_checked_add sid 1) k" "issued (u32_checked_add sid 1) sid"
  by (simp_all add: issued_def u32_checked_add_def)

lemma requests_ok_insert:
  assumes ok: "requests_ok pending answers (Some sid)" and len: "length pending < max_pending"
    and sum: "pd_reserved p + sum_list (map (pd_reserved \<circ> snd) pending) \<le> max_buffered"
  shows "requests_ok (map_insert sid p pending) answers (u32_checked_add sid 1)"
proof -
  have fresh: "sid \<notin> fst ` set pending" "sid \<notin> fst ` set answers"
    using ok unfolding requests_ok_def issued_def by force+
  then have remove: "map_remove sid pending = pending"
    unfolding map_remove_def by (intro filter_True) force
  show ?thesis
    using ok len sum fresh issued_next unfolding requests_ok_def map_insert_def remove by (auto simp: image_iff)
qed

lemma requests_ok_stream: "requests_ok pending answers (Some sid) \<Longrightarrow> requests_ok pending answers (u32_checked_add sid 1)"
  using issued_next(1) unfolding requests_ok_def by blast

lemma requests_ok_replace:
  assumes ok: "requests_ok pending answers next" and p: "map_of pending sid = Some p" and r: "pd_reserved p' = pd_reserved p"
  shows "requests_ok (map_insert sid p' (map_remove sid pending)) answers next"
proof -
  have mem: "(sid, p) \<in> set pending" using p by (rule map_of_SomeD)
  have twice: "map_remove sid (map_remove sid pending) = map_remove sid pending"
    by (simp add: map_remove_def)
  have "length (map_remove sid pending) < length pending" using mem by (rule length_remove_less)
  moreover have "sum_list (map (pd_reserved \<circ> snd) (map_remove sid pending)) + pd_reserved p =
      sum_list (map (pd_reserved \<circ> snd) pending)"
    using sum_remove [OF _ mem, of "pd_reserved \<circ> snd"] ok by (simp add: requests_ok_def)
  moreover have "issued next sid" "sid \<notin> fst ` set answers" using ok mem unfolding requests_ok_def by force+
  moreover have "distinct (map fst (map_remove sid pending) @ map fst answers)"
    using requests_ok_remove [OF ok p] by (simp add: requests_ok_def)
  ultimately show ?thesis
    using ok r unfolding requests_ok_def map_insert_def twice by (auto simp: image_iff)
qed

lemma requests_reader_leaves: "requests_inv s \<Longrightarrow> requests_inv (reader_leaves sid s)"
proof -
  have "map (pd_reserved \<circ> snd) (map_update sid (\<lambda>p. p\<lparr>pd_answer_closed := True\<rparr>) xs) = map (pd_reserved \<circ> snd) xs"
    for xs :: "(nat \<times> 'a pending) list"
    by (induction xs) (auto simp: map_update_def)
  moreover have "fst ` set (map_update sid g xs) = fst ` set xs" for g and xs :: "(nat \<times> 'a pending) list"
    by (metis keys_map_update list.set_map)
  moreover have "length (map_update sid g xs) = length xs" for g and xs :: "(nat \<times> 'a pending) list"
    by (simp add: map_update_def)
  ultimately show "requests_inv s \<Longrightarrow> requests_inv (reader_leaves sid s)"
    by (simp add: requests_inv_def requests_ok_def reader_leaves_def image_Un)
qed

lemma requests_same: "requests_inv s \<Longrightarrow> tf_pending s' = tf_pending s \<Longrightarrow> tf_answers s' = tf_answers s \<Longrightarrow>
    tf_next_stream s' = tf_next_stream s \<Longrightarrow> requests_inv s'"
  by (simp add: requests_inv_def)

lemma allocate_spec:
  assumes inv: "requests_inv s" and run: "allocate bytes s = (r, s')"
  shows "requests_inv s' \<and> (\<forall>sid. r = Some sid \<longrightarrow>
      (\<forall>p. pd_reserved p = bytes \<longrightarrow> requests_ok (map_insert sid p (tf_pending s')) (tf_answers s') (tf_next_stream s'))) \<and>
    set (tf_pending s') \<subseteq> set (tf_pending s) \<and>
    s' = s\<lparr>tf_pending := tf_pending s', tf_next_stream := tf_next_stream s'\<rparr>"
proof -
  let ?open = "filter (\<lambda>(_, p). \<not> pd_answer_closed p) (tf_pending s)"
  let ?s1 = "s\<lparr>tf_pending := ?open\<rparr>"
  have none: "filter (\<lambda>(_, p). False) (filter (\<lambda>p. \<not> (case p of (_, p) \<Rightarrow> \<not> pd_answer_closed p)) (tf_pending s)) = []"
    by (simp add: filter_empty_conv)
  have ok: "requests_ok ?open (tf_answers s) (tf_next_stream s)"
    using requests_ok_filter [of "tf_pending s" "tf_answers s" "tf_next_stream s" "\<lambda>(_, p). \<not> pd_answer_closed p" "\<lambda>(_, p). False"]
      inv by (simp add: none requests_inv_def)
  show ?thesis
  proof (cases "length ?open \<ge> max_pending \<or> bytes + sum_list (map (pd_reserved \<circ> snd) ?open) > max_buffered \<or>
      tf_next_stream s = None")
    case True
    then have "r = None" "s' = ?s1" using run by (auto simp: allocate_def Let_def split: option.splits if_splits)
    then show ?thesis using ok by (auto simp: requests_inv_def)
  next
    case False
    then obtain sid where sid: "tf_next_stream s = Some sid" by auto
    have rs: "r = Some sid" "s' = ?s1\<lparr>tf_next_stream := u32_checked_add sid 1\<rparr>"
      using run False sid by (auto simp: allocate_def Let_def)
    have "requests_ok (map_insert sid p ?open) (tf_answers s) (u32_checked_add sid 1)" if "pd_reserved p = bytes" for p
      using requests_ok_insert [OF ok [unfolded sid], of p] False that by auto
    moreover have "requests_ok ?open (tf_answers s) (u32_checked_add sid 1)"
      by (rule requests_ok_stream) (use ok sid in simp)
    ultimately show ?thesis by (auto simp: rs requests_inv_def)
  qed
qed

text \<open>What the development relies on of the foreign fetch: its requests carry its stream.\<close>

definition fetch_keeps_stream :: "'f fetch_ops \<Rightarrow> bool" where
  "fetch_keeps_stream ops \<longleftrightarrow> (\<forall>sid index amount chunk data_id cap request f.
     cf_next_request ops (cf_new ops sid index amount chunk data_id cap) = (Some request, f) \<longrightarrow> rq_stream request = sid)"

lemma size_call_cases:
  assumes "size_call generation inode s = (r, s')"
  obtains "s' = s" "\<forall>sid. r \<noteq> Waiting sid"
  | a where "allocate 8 s = (a, s')" "r = Refused"
  | sel n index sid s1 where "servable s generation" "selection_of s generation = Some sel" "node (sl_tree sel) inode = Some n"
      "rn_kind n = File index" "allocate 8 s = (Some sid, s1)" "tf_sender_open s1" "r = Waiting sid"
      "s' = s1\<lparr>tf_sent := tf_sent s1 @ [\<lparr>rq_stream = sid, rq_index = index, rq_wants_size = True, rq_position = 0,
                        rq_requested = 8, rq_data_id = sl_data_id sel\<rparr>],
               tf_pending := map_insert sid \<lparr>pd_generation = generation, pd_operation = OpSize inode,
                 pd_answer_closed = False, pd_reserved = 8\<rparr> (tf_pending s1)\<rparr>"
proof -
  consider (same) "s' = s" "\<forall>sid. r \<noteq> Waiting sid"
    | (go) sel n index where "servable s generation" "selection_of s generation = Some sel"
      "node (sl_tree sel) inode = Some n" "rn_kind n = File index" "rn_size n = None"
  proof (cases "\<exists>sel n index. servable s generation \<and> selection_of s generation = Some sel \<and>
      node (sl_tree sel) inode = Some n \<and> rn_kind n = File index \<and> rn_size n = None")
    case True
    then show ?thesis using go by blast
  next
    case False
    then have "s' = s \<and> (\<forall>sid. r \<noteq> Waiting sid)"
      using assms by (simp add: size_call_def split: if_splits option.splits node_kind.splits) blast+
    then show ?thesis using same by blast
  qed
  then show thesis
  proof cases
    case same
    then show ?thesis by (rule that(1))
  next
    case go
    obtain a s1 where alloc: "allocate 8 s = (a, s1)" by fastforce
    show ?thesis
    proof (cases a)
      case None
      then show ?thesis using that(2) alloc assms go by (simp add: size_call_def)
    next
      case (Some sid)
      show ?thesis
      proof (cases "tf_sender_open s1")
        case False
        then have "r = Refused" "s' = s1" using assms go alloc Some by (auto simp: size_call_def submit_def)
        then show ?thesis using that(2) alloc by simp
      next
        case True
        then show ?thesis
          using assms go alloc Some by (intro that(3) [of sel n index sid s1]) (simp_all add: size_call_def submit_def)
      qed
    qed
  qed
qed

lemma read_call_cases:
  assumes "read_call ops max_chunk generation inode position wanted s = (r, s')" and "fetch_keeps_stream ops"
  obtains "s' = s" "\<forall>sid. r \<noteq> Waiting sid"
  | a amount where "allocate amount s = (a, s')" "r = Refused"
  | sel n index sz sid s1 amount request fetch where "servable s generation" "selection_of s generation = Some sel"
      "node (sl_tree sel) inode = Some n" "rn_kind n = File index" "rn_size n = Some sz" "wanted \<le> max_read"
      "amount = min (sz - position) wanted" "0 < amount"
      "allocate amount s = (Some sid, s1)" "tf_sender_open s1" "r = Waiting sid" "rq_stream request = sid"
      "cf_next_request ops (cf_new ops sid index amount max_chunk (sl_data_id sel) max_read) = (Some request, fetch)"
      "s' = s1\<lparr>tf_sent := tf_sent s1 @ [request\<lparr>rq_position := position\<rparr>],
               tf_pending := map_insert sid \<lparr>pd_generation = generation, pd_operation = OpRange position fetch,
                 pd_answer_closed = False, pd_reserved = amount\<rparr> (tf_pending s1)\<rparr>"
proof -
  consider (same) "s' = s" "\<forall>sid. r \<noteq> Waiting sid"
    | (go) sel n index sz where "servable s generation" "wanted \<le> max_read" "selection_of s generation = Some sel"
      "node (sl_tree sel) inode = Some n" "rn_kind n = File index" "rn_size n = Some sz" "min (sz - position) wanted \<noteq> 0"
  proof (cases "\<exists>sel n index sz. servable s generation \<and> wanted \<le> max_read \<and> selection_of s generation = Some sel \<and>
      node (sl_tree sel) inode = Some n \<and> rn_kind n = File index \<and> rn_size n = Some sz \<and> min (sz - position) wanted \<noteq> 0")
    case True
    then show ?thesis using go by blast
  next
    case False
    then have "s' = s \<and> (\<forall>sid. r \<noteq> Waiting sid)"
      using assms(1) by (simp add: read_call_def Let_def not_less split: if_splits option.splits node_kind.splits) blast+
    then show ?thesis using same by blast
  qed
  then show thesis
  proof cases
    case same
    then show ?thesis by (rule that(1))
  next
    case go
    let ?amount = "min (sz - position) wanted"
    obtain a s1 where alloc: "allocate ?amount s = (a, s1)" by fastforce
    show ?thesis
    proof (cases a)
      case None
      then show ?thesis using that(2) alloc assms(1) go by (simp add: read_call_def Let_def)
    next
      case (Some sid)
      obtain q fetch where next': "cf_next_request ops (cf_new ops sid index ?amount max_chunk (sl_data_id sel) max_read) = (q, fetch)"
        by fastforce
      show ?thesis
      proof (cases "q = None \<or> \<not> tf_sender_open s1")
        case True
        then have "r = Refused" "s' = s1"
          using assms(1) go alloc Some next' by (auto simp: read_call_def submit_def Let_def split: option.splits)
        then show ?thesis using that(2) alloc by simp
      next
        case False
        then obtain request where q: "q = Some request" by auto
        have stream: "rq_stream request = sid" using assms(2) next' q unfolding fetch_keeps_stream_def by blast
        have "r = Waiting sid" "s' = s1\<lparr>tf_sent := tf_sent s1 @ [request\<lparr>rq_position := position\<rparr>],
               tf_pending := map_insert sid \<lparr>pd_generation = generation, pd_operation = OpRange position fetch,
                 pd_answer_closed = False, pd_reserved = ?amount\<rparr> (tf_pending s1)\<rparr>"
          using assms(1) go alloc Some next' q False stream by (simp_all add: read_call_def submit_def Let_def)
        then show ?thesis
          using go alloc Some next' q False stream by (intro that(3) [of sel n index sz ?amount sid s1 request fetch]) auto
      qed
    qed
  qed
qed

lemma requests_size_call: "requests_inv s \<Longrightarrow> size_call generation inode s = (r, s') \<Longrightarrow> requests_inv s'"
proof -
  assume inv: "requests_inv s" and run: "size_call generation inode s = (r, s')"
  from run show ?thesis
  proof (cases rule: size_call_cases)
    case (2 a)
    with allocate_spec [OF inv] show ?thesis by blast
  next
    case (3 sel n index sid s1)
    with allocate_spec [OF inv 3(5)] show ?thesis by (simp add: requests_inv_def)
  qed (use inv in simp)
qed

lemma requests_read_call:
  assumes "fetch_keeps_stream ops" and inv: "requests_inv s"
    and run: "read_call ops max_chunk generation inode position wanted s = (r, s')"
  shows "requests_inv s'"
  using run assms(1)
proof (cases rule: read_call_cases)
  case (2 a amount)
  with allocate_spec [OF inv] show ?thesis by blast
next
  case (3 sel n index sz sid s1 amount request fetch)
  with allocate_spec [OF inv 3(9)] show ?thesis by (simp add: requests_inv_def)
qed (use inv in simp)

lemma requests_store_size: "requests_inv s \<Longrightarrow> requests_inv (snd (store_size g i sz s))"
  by (auto simp: store_size_def requests_inv_def Let_def split: option.splits prod.splits)

lemma store_size_fields:
  "tf_pending (snd (store_size g i sz s)) = tf_pending s" "tf_answers (snd (store_size g i sz s)) = tf_answers s"
  "tf_next_stream (snd (store_size g i sz s)) = tf_next_stream s"
  by (auto simp: store_size_def Let_def split: option.splits prod.splits)

lemma requests_on_response: "requests_inv s \<Longrightarrow> requests_inv (on_response ops response s)"
proof -
  assume inv: "requests_inv s"
  let ?sid = "rs_stream response"
  show ?thesis
  proof (cases "map_of (tf_pending s) ?sid")
    case None
    then show ?thesis using inv by (simp add: on_response_def Let_def)
  next
    case (Some p)
    let ?s1 = "s\<lparr>tf_pending := map_remove ?sid (tf_pending s)\<rparr>"
    have ok: "requests_ok (tf_pending s) (tf_answers s) (tf_next_stream s)" using inv by (simp add: requests_inv_def)
    note removed = requests_ok_remove [OF ok Some]
    have answered: "requests_inv (deliver ?sid a u)"
      if "tf_pending u = map_remove ?sid (tf_pending s)" "tf_answers u = tf_answers s" "tf_next_stream u = tf_next_stream s" for a u
      using removed that by (simp add: requests_inv_def deliver_def)
    have one: "requests_inv (deliver ?sid a ?s1)" for a by (rule answered) simp_all
    have two: "requests_inv (deliver ?sid a (snd (store_size g i sz ?s1)))" for a g i sz
      by (rule answered) (simp_all add: store_size_fields)
    have three: "requests_inv (?s1\<lparr>tf_sent := x, tf_pending := map_insert ?sid (p\<lparr>pd_operation := c\<rparr>) (map_remove ?sid (tf_pending s))\<rparr>)" for x c
      using requests_ok_replace [OF ok Some, of "p\<lparr>pd_operation := c\<rparr>"] by (simp add: requests_inv_def)
    have zero: "requests_inv ?s1" using removed by (simp add: requests_inv_def)
    show ?thesis
    proof (cases "pd_answer_closed p")
      case True
      then show ?thesis using Some zero by (simp add: on_response_def Let_def)
    next
      case closed: False
      show ?thesis
      proof (cases "pd_operation p")
        case (OpSize i)
        then show ?thesis using Some closed one two [of _ "pd_generation p" i "le_value (rs_data response)"]
          by (cases "store_size (pd_generation p) i (le_value (rs_data response)) ?s1")
            (auto simp: on_response_def Let_def)
      next
        case (OpRange base fetch)
        then show ?thesis using Some closed one three
          by (auto simp: on_response_def Let_def split: prod.splits fetch_progress.splits option.splits)
      qed
    qed
  qed
qed

lemma requests_timeout: "requests_inv s \<Longrightarrow> requests_inv (timeout_expires sid s)"
  using requests_ok_remove [of "tf_pending s" "tf_answers s" "tf_next_stream s" sid]
  by (auto simp: timeout_expires_def requests_inv_def deliver_def Let_def split: option.splits)

section \<open>Selections: lifetime\<close>

definition retired_keys :: "'f transfer \<Rightarrow> nat set" where
  "retired_keys s = fst ` set (tf_retiring s)"

text \<open>The shape of the selections while an operation runs; a key may still equal the generation.\<close>

definition selections_core :: "'f transfer \<Rightarrow> bool" where
  "selections_core s \<longleftrightarrow> sorted_wrt (<) (map fst (tf_retiring s)) \<and> (\<forall>g\<in>retired_keys s. g \<le> tf_generation s) \<and>
     (\<forall>(g, sel)\<in>set (tf_retiring s). roots (sl_tree sel) \<noteq> [] \<and> sl_data_id sel \<noteq> None) \<and>
     (\<not> tf_stream s \<longrightarrow> tf_retiring s = [] \<and> tf_pending s = [] \<and> roots (sl_tree (tf_current s)) = [])"

definition owners :: "'f transfer \<Rightarrow> nat set" where
  "owners s = (pd_generation \<circ> snd) ` set (tf_pending s)"

definition selections_inv :: "'f transfer \<Rightarrow> bool" where
  "selections_inv s \<longleftrightarrow> selections_core s \<and> length (tf_retiring s) \<le> max_retiring \<and>
     (\<not> tf_closed s \<longrightarrow> tf_generation s \<notin> retired_keys s) \<and>
     owners s \<subseteq> insert (tf_generation s) (retired_keys s)"

lemma selections_inv_new: "selections_inv (transfer_new now)"
  by (simp add: selections_inv_def selections_core_def transfer_new_def retired_keys_def owners_def max_retiring_def
      empty_selection_def empty_tree_def rooted_def roots_def children_def node_def vec_get_def)

lemma roots_empty [simp]: "roots (sl_tree (empty_selection now)) = []"
  by (simp add: empty_selection_def empty_tree_def rooted_def roots_def children_def node_def vec_get_def)

lemma core_drop_pending: "selections_core s \<Longrightarrow> selections_core (drop_pending d s)"
  by (auto simp: selections_core_def drop_pending_def retired_keys_def)

lemma owners_drop_pending: "owners (drop_pending d s) \<subseteq> owners s"
  by (auto simp: owners_def drop_pending_def)

lemma owners_fail_pending: "owners (fail_pending g s) \<subseteq> owners s - {g}"
  by (auto simp: owners_def drop_pending_def fail_pending_def)

lemma drop_pending_fields [simp]:
  "tf_generation (drop_pending d s) = tf_generation s" "tf_closed (drop_pending d s) = tf_closed s"
  "tf_stream (drop_pending d s) = tf_stream s" "tf_current (drop_pending d s) = tf_current s"
  "tf_retiring (drop_pending d s) = tf_retiring s" "tf_next_base (drop_pending d s) = tf_next_base s"
  "tf_huge (drop_pending d s) = tf_huge s" "tf_locking (drop_pending d s) = tf_locking s"
  "tf_sent (drop_pending d s) = tf_sent s" "tf_sender_open (drop_pending d s) = tf_sender_open s"
  "retired_keys (drop_pending d s) = retired_keys s"
  by (simp_all add: drop_pending_def retired_keys_def)

lemma fail_pending_fields [simp]:
  "tf_generation (fail_pending g s) = tf_generation s" "tf_closed (fail_pending g s) = tf_closed s"
  "tf_stream (fail_pending g s) = tf_stream s" "tf_current (fail_pending g s) = tf_current s"
  "tf_retiring (fail_pending g s) = tf_retiring s" "tf_next_base (fail_pending g s) = tf_next_base s"
  "tf_huge (fail_pending g s) = tf_huge s" "tf_locking (fail_pending g s) = tf_locking s"
  "retired_keys (fail_pending g s) = retired_keys s"
  by (simp_all add: fail_pending_def)

lemma bump_fields [simp]:
  "tf_stream (bump s) = tf_stream s" "tf_current (bump s) = tf_current s" "tf_retiring (bump s) = tf_retiring s"
  "tf_next_base (bump s) = tf_next_base s" "tf_pending (bump s) = tf_pending s" "tf_locking (bump s) = tf_locking s"
  "tf_huge (bump s) = tf_huge s" "tf_answers (bump s) = tf_answers s" "tf_next_stream (bump s) = tf_next_stream s"
  "owners (bump s) = owners s" "retired_keys (bump s) = retired_keys s" "tf_sent (bump s) = tf_sent s"
  by (auto simp: bump_def owners_def retired_keys_def split: option.splits)

lemma bump_generation: "tf_generation (bump s) = (if tf_generation s + 1 \<le> u64_max then tf_generation s + 1 else tf_generation s)"
  "tf_closed (bump s) \<longleftrightarrow> tf_closed s \<or> u64_max < tf_generation s + 1"
  by (auto simp: bump_def u64_checked_add_def)

lemma selections_bump:
  assumes core: "selections_core s" and len: "length (tf_retiring s) \<le> max_retiring" and own: "owners s \<subseteq> retired_keys s"
  shows "selections_inv (bump s)"
proof -
  have below: "g \<le> tf_generation s" if "g \<in> retired_keys s" for g using core that by (auto simp: selections_core_def)
  have "selections_core (bump s)"
    using core unfolding selections_core_def by (auto simp: bump_generation retired_keys_def)
  moreover have "tf_generation (bump s) \<notin> retired_keys s" if "\<not> tf_closed (bump s)"
    using that below [of "tf_generation s + 1"] by (auto simp: bump_generation)
  ultimately show ?thesis using len own by (auto simp: selections_inv_def)
qed

lemma take_current_fields [simp]:
  "tf_generation (snd (take_current now s)) = tf_generation s" "tf_closed (snd (take_current now s)) = tf_closed s"
  "tf_stream (snd (take_current now s)) = tf_stream s" "tf_current (snd (take_current now s)) = empty_selection now"
  "tf_retiring (snd (take_current now s)) = tf_retiring s" "tf_pending (snd (take_current now s)) = tf_pending s"
  "fst (take_current now s) = tf_current s" "tf_locking (snd (take_current now s)) = tf_locking s"
  "tf_answers (snd (take_current now s)) = tf_answers s" "tf_next_stream (snd (take_current now s)) = tf_next_stream s"
  "owners (snd (take_current now s)) = owners s" "retired_keys (snd (take_current now s)) = retired_keys s"
  "tf_next_base (snd (take_current now s)) = max (tf_next_base s) (next_base (sl_tree (tf_current s)))"
  by (simp_all add: take_current_def owners_def retired_keys_def)

lemma core_take_current: "selections_core s \<Longrightarrow> selections_core (snd (take_current now s))"
  by (simp add: selections_core_def)

lemma end_selection_fields [simp]:
  "tf_generation (end_selection g s) = tf_generation s" "tf_closed (end_selection g s) = tf_closed s"
  "tf_stream (end_selection g s) = tf_stream s" "tf_current (end_selection g s) = tf_current s"
  "tf_retiring (end_selection g s) = map_remove g (tf_retiring s)" "tf_next_base (end_selection g s) = tf_next_base s"
  "retired_keys (end_selection g s) = retired_keys s - {g}"
  by (auto simp: end_selection_def retired_keys_def)

lemma owners_end_selection: "owners (end_selection g s) \<subseteq> owners s - {g}"
  unfolding end_selection_def using owners_fail_pending [of g "s\<lparr>tf_retiring := map_remove g (tf_retiring s)\<rparr>"]
  by (simp add: owners_def)

lemma core_end_selection: "selections_core s \<Longrightarrow> selections_core (end_selection g s)"
  using sorted_map_remove [of "tf_retiring s" g]
  by (auto simp: selections_core_def retired_keys_def) (auto simp: end_selection_def fail_pending_def drop_pending_def map_remove_def)

lemma selections_end_selection: "selections_inv s \<Longrightarrow> selections_inv (end_selection g s)"
  using core_end_selection [of s g] owners_end_selection [of g s] length_map_remove [of g "tf_retiring s"]
  by (auto simp: selections_inv_def)

lemma requests_end_selection: "requests_inv s \<Longrightarrow> requests_inv (end_selection g s)"
  unfolding end_selection_def fail_pending_def
  by (rule requests_drop_pending, erule requests_same) simp_all

text \<open>Trimming the oldest selections.\<close>

lemma trim_retiring_spec:
  "selections_core s \<Longrightarrow> owners s \<subseteq> retired_keys s \<Longrightarrow> length (tf_retiring s) \<le> fuel + max_retiring \<Longrightarrow> requests_inv s \<Longrightarrow>
   trim_retiring fuel s = (released, s') \<Longrightarrow>
   selections_core s' \<and> owners s' \<subseteq> retired_keys s' \<and> length (tf_retiring s') \<le> max_retiring \<and> requests_inv s' \<and>
   set (tf_retiring s') \<subseteq> set (tf_retiring s) \<and> retired_keys s' = retired_keys s - set released \<and>
   tf_generation s' = tf_generation s \<and> tf_closed s' = tf_closed s \<and> tf_stream s' = tf_stream s \<and>
   tf_current s' = tf_current s \<and> tf_next_base s' = tf_next_base s"
proof (induction fuel s arbitrary: released s' rule: trim_retiring.induct)
  case (1 s)
  then show ?case by simp
next
  case (2 fuel s)
  show ?case
  proof (cases "length (tf_retiring s) > max_retiring")
    case False
    with 2 show ?thesis by auto
  next
    case True
    then obtain oldest sel rest where first: "tf_retiring s = (oldest, sel) # rest"
      by (cases "tf_retiring s") (auto simp: max_retiring_def)
    obtain released1 s1 where rec: "trim_retiring fuel (end_selection oldest s) = (released1, s1)" by fastforce
    have run: "released = oldest # released1" "s' = s1"
      using 2(6) True first rec by (auto simp: end_selection_def Let_def)
    have "(oldest, sel) \<in> set (tf_retiring s)" by (simp add: first)
    then have "length (tf_retiring (end_selection oldest s)) < length (tf_retiring s)"
      by (simp add: length_remove_less del: set_map_remove)
    then have len: "length (tf_retiring (end_selection oldest s)) \<le> fuel + max_retiring" using 2(4) by linarith
    have own: "owners (end_selection oldest s) \<subseteq> retired_keys (end_selection oldest s)"
      using owners_end_selection [of oldest s] 2(3) by auto
    have ih: "selections_core s1 \<and> owners s1 \<subseteq> retired_keys s1 \<and> length (tf_retiring s1) \<le> max_retiring \<and> requests_inv s1 \<and>
       set (tf_retiring s1) \<subseteq> set (tf_retiring (end_selection oldest s)) \<and>
       retired_keys s1 = retired_keys (end_selection oldest s) - set released1 \<and>
       tf_generation s1 = tf_generation (end_selection oldest s) \<and> tf_closed s1 = tf_closed (end_selection oldest s) \<and>
       tf_stream s1 = tf_stream (end_selection oldest s) \<and> tf_current s1 = tf_current (end_selection oldest s) \<and>
       tf_next_base s1 = tf_next_base (end_selection oldest s)"
      using 2(1) [OF True first refl refl, folded end_selection_def, OF core_end_selection [OF 2(2)] own len
          requests_end_selection [OF 2(5)] rec] .
    then show ?thesis unfolding run by auto
  qed
qed

text \<open>Retiring the current selection.\<close>

lemma retire_current_spec:
  assumes inv: "selections_inv s" and req: "requests_inv s" and run: "retire_current now s = (released, s')"
  shows "selections_inv s' \<and> requests_inv s' \<and> tf_current s' = empty_selection now \<and> tf_stream s' = tf_stream s \<and>
    tf_next_base s' = max (tf_next_base s) (next_base (sl_tree (tf_current s))) \<and>
    tf_generation s' = tf_generation (bump s) \<and> tf_closed s' = tf_closed (bump s) \<and>
    set (tf_retiring s') \<subseteq> insert (tf_generation s, tf_current s) (set (tf_retiring s)) \<and>
    (\<not> tf_closed s \<longrightarrow> retired_keys s' = insert (tf_generation s) (retired_keys s) - set released)"
proof -
  let ?g = "tf_generation s" and ?s1 = "snd (take_current now s)"
  have core: "selections_core s" and len: "length (tf_retiring s) \<le> max_retiring"
    and own: "owners s \<subseteq> insert ?g (retired_keys s)" using inv by (simp_all add: selections_inv_def)
  have req1: "requests_inv ?s1" by (rule requests_same [OF req]) simp_all
  show ?thesis
  proof (cases "roots (sl_tree (tf_current s)) = [] \<or> sl_data_id (tf_current s) = None")
    case True
    then have rs: "released = [?g]" "s' = bump (fail_pending ?g ?s1)"
      using run by (auto simp: retire_current_def take_current_def Let_def)
    have core': "selections_core (fail_pending ?g ?s1)"
      unfolding fail_pending_def by (rule core_drop_pending [OF core_take_current [OF core]])
    have own': "owners (fail_pending ?g ?s1) \<subseteq> retired_keys (fail_pending ?g ?s1) - {?g}"
      using owners_fail_pending [of ?g ?s1] own by auto
    have len': "length (tf_retiring (fail_pending ?g ?s1)) \<le> max_retiring" using len by simp
    have "selections_inv s'" unfolding rs using selections_bump [OF core' len'] own' by blast
    moreover have "requests_inv s'"
      unfolding rs fail_pending_def by (rule requests_same [OF requests_drop_pending [OF req1]]) simp_all
    moreover have "\<not> tf_closed s \<longrightarrow> retired_keys s = insert ?g (retired_keys s) - {?g}"
      using inv by (auto simp: selections_inv_def)
    ultimately show ?thesis unfolding rs by (simp add: bump_generation) blast
  next
    case False
    let ?s2 = "?s1\<lparr>tf_retiring := btree_insert ?g (tf_current s) (tf_retiring s)\<rparr>"
    obtain s3 where trim: "trim_retiring (length (tf_retiring ?s2)) ?s2 = (released, s3)" and s': "s' = bump s3"
      using run False by (auto simp: retire_current_def take_current_def Let_def split: prod.splits)
    have sorted: "sorted_wrt (<) (map fst (tf_retiring s))" using core by (simp add: selections_core_def)
    have keys: "retired_keys ?s2 = insert ?g (retired_keys s)"
      unfolding retired_keys_def using set_btree_insert [OF sorted] by auto
    have stream: "tf_stream s" using core False by (auto simp: selections_core_def)
    have "selections_core ?s2"
      using core False stream sorted_btree_insert [OF sorted] keys
      by (auto simp: selections_core_def set_btree_insert [OF sorted])
    moreover have "owners ?s2 \<subseteq> retired_keys ?s2" using own keys by (simp add: owners_def)
    moreover have "requests_inv ?s2" by (rule requests_same [OF req]) simp_all
    moreover have "length (tf_retiring ?s2) \<le> length (tf_retiring ?s2) + max_retiring" by simp
    ultimately have spec: "selections_core s3 \<and> owners s3 \<subseteq> retired_keys s3 \<and> length (tf_retiring s3) \<le> max_retiring \<and>
       requests_inv s3 \<and> set (tf_retiring s3) \<subseteq> set (tf_retiring ?s2) \<and>
       retired_keys s3 = retired_keys ?s2 - set released \<and>
       tf_generation s3 = tf_generation ?s2 \<and> tf_closed s3 = tf_closed ?s2 \<and> tf_stream s3 = tf_stream ?s2 \<and>
       tf_current s3 = tf_current ?s2 \<and> tf_next_base s3 = tf_next_base ?s2"
      using trim_retiring_spec [OF _ _ _ _ trim] by blast
    have "selections_inv s'" unfolding s' by (rule selections_bump) (use spec in blast)+
    moreover have "requests_inv s'" unfolding s' by (rule requests_same [of s3]) (use spec in simp_all)
    moreover have "set (tf_retiring s3) \<subseteq> insert (?g, tf_current s) (set (tf_retiring s))"
      using spec set_btree_insert [OF sorted] by auto
    ultimately show ?thesis using spec keys unfolding s' by (simp add: bump_generation)
  qed
qed

lemma shutdown_spec:
  assumes inv: "selections_inv s" and req: "requests_inv s" and run: "shutdown now s = (released, s')"
  shows "selections_inv s' \<and> requests_inv s' \<and> tf_current s' = empty_selection now \<and> tf_stream s' = tf_stream s \<and>
    tf_next_base s' = max (tf_next_base s) (next_base (sl_tree (tf_current s))) \<and>
    tf_retiring s' = [] \<and> tf_pending s' = [] \<and> set released = insert (tf_generation s) (retired_keys s) \<and>
    tf_generation s' = tf_generation (bump s)"
proof -
  let ?s1 = "drop_pending (\<lambda>_. True) (s\<lparr>tf_retiring := []\<rparr>)"
  have s': "s' = bump (snd (take_current now ?s1))" and released: "released = map fst (tf_retiring s) @ [tf_generation s]"
    using run by (simp_all add: shutdown_def Let_def)
  have none: "tf_pending ?s1 = []" by (simp add: drop_pending_def filter_empty_conv)
  have "requests_inv ?s1"
    by (rule requests_drop_pending) (rule requests_same [OF req], simp_all)
  then have "requests_inv s'" unfolding s' by (rule requests_same) simp_all
  moreover have "selections_inv s'"
    unfolding s' by (rule selections_bump) (simp_all add: selections_core_def none owners_def retired_keys_def max_retiring_def)
  ultimately show ?thesis
    unfolding s' released using none by (auto simp: retired_keys_def bump_generation)
qed

section \<open>Selections: inodes\<close>

definition tree_end :: "selection \<Rightarrow> nat" where
  "tree_end sel = tr_base (sl_tree sel) + entries (sl_tree sel)"

definition inodes :: "selection \<Rightarrow> nat set" where
  "inodes sel = {tr_base (sl_tree sel)..<tree_end sel}"

text \<open>
  Inode ranges never overlap. The cursor saturates at the end of the 64-bit range, so the fact is
  about cursors that have not reached it.
\<close>

definition inodes_inv :: "'f transfer \<Rightarrow> bool" where
  "inodes_inv s \<longleftrightarrow> tf_next_base s \<le> u64_max \<and> tree_inv (sl_tree (tf_current s)) \<and>
     (\<forall>(g, sel)\<in>set (tf_retiring s). tree_inv (sl_tree sel)) \<and>
     (tf_next_base s < u64_max \<longrightarrow>
        (\<forall>(g, sel)\<in>set (tf_retiring s). tree_end sel \<le> tf_next_base s \<and> inodes sel \<inter> inodes (tf_current s) = {}) \<and>
        (inodes (tf_current s) = {} \<or> tree_end (tf_current s) \<le> tf_next_base s) \<and>
        (\<forall>(g, sel)\<in>set (tf_retiring s). \<forall>(g', sel')\<in>set (tf_retiring s). g \<noteq> g' \<longrightarrow> inodes sel \<inter> inodes sel' = {}))"

lemma inodes_empty [simp]: "inodes (empty_selection now) = {}"
  by (simp add: inodes_def tree_end_def empty_selection_def empty_tree_def rooted_def entries_def)

lemma tree_inv_empty [simp]: "tree_inv (sl_tree (empty_selection now))"
  by (simp add: empty_selection_def empty_tree_def tree_inv_rooted first_inode_def root_inode_def)

lemma next_base_bounds: "tree_inv t \<Longrightarrow> 2 \<le> next_base t \<and> next_base t \<le> u64_max"
  using tree_invD(1) [of t] by (simp add: next_base_def u64_sat_add_def min_def)

lemma next_base_exact: "next_base (sl_tree sel) < u64_max \<Longrightarrow> next_base (sl_tree sel) = tree_end sel"
  by (auto simp: next_base_def u64_sat_add_def tree_end_def min_def split: if_splits)

text \<open>After the current selection left for the retired ones, or ended.\<close>

lemma inodes_retired:
  assumes inv: "inodes_inv s" and cur: "tf_current s' = empty_selection now"
    and nb: "tf_next_base s' = max (tf_next_base s) (next_base (sl_tree (tf_current s)))"
    and sub: "set (tf_retiring s') \<subseteq> insert (g, tf_current s) (set (tf_retiring s))"
  shows "inodes_inv s' \<and> 2 \<le> tf_next_base s'"
proof -
  have t: "tree_inv (sl_tree (tf_current s))" using inv by (simp add: inodes_inv_def)
  note b = next_base_bounds [OF t]
  have trees: "tree_inv (sl_tree sel)" if "(k, sel) \<in> set (tf_retiring s')" for k sel
    using that sub inv unfolding inodes_inv_def by auto
  have fits: "(\<forall>(k, sel)\<in>set (tf_retiring s'). tree_end sel \<le> tf_next_base s') \<and>
      (\<forall>(k, sel)\<in>set (tf_retiring s'). \<forall>(k', sel')\<in>set (tf_retiring s'). k \<noteq> k' \<longrightarrow> inodes sel \<inter> inodes sel' = {})"
    if lt: "tf_next_base s' < u64_max"
  proof -
    have lt0: "tf_next_base s < u64_max" "next_base (sl_tree (tf_current s)) < u64_max" using lt nb by auto
    have old: "\<And>k sel. (k, sel) \<in> set (tf_retiring s) \<Longrightarrow> tree_end sel \<le> tf_next_base s \<and> inodes sel \<inter> inodes (tf_current s) = {}"
      "\<And>k sel k' sel'. (k, sel) \<in> set (tf_retiring s) \<Longrightarrow> (k', sel') \<in> set (tf_retiring s) \<Longrightarrow> k \<noteq> k' \<Longrightarrow>
         inodes sel \<inter> inodes sel' = {}"
      using inv lt0(1) unfolding inodes_inv_def by blast+
    have ends: "tree_end sel \<le> tf_next_base s'" if "(k, sel) \<in> set (tf_retiring s')" for k sel
    proof -
      from that sub consider "(k, sel) \<in> set (tf_retiring s)" | "sel = tf_current s" by auto
      then show ?thesis using old(1) [of k sel] next_base_exact [OF lt0(2)] nb by cases auto
    qed
    have "inodes sel \<inter> inodes sel' = {}" if "(k, sel) \<in> set (tf_retiring s')" "(k', sel') \<in> set (tf_retiring s')" "k \<noteq> k'" for k sel k' sel'
    proof -
      from that sub consider "(k, sel) \<in> set (tf_retiring s)" "(k', sel') \<in> set (tf_retiring s)"
        | "sel = tf_current s" "(k', sel') \<in> set (tf_retiring s)" | "(k, sel) \<in> set (tf_retiring s)" "sel' = tf_current s" by auto
      then show ?thesis using old that(3) by cases blast+
    qed
    with ends show ?thesis by blast
  qed
  have "tf_next_base s' \<le> u64_max" using inv b nb by (simp add: inodes_inv_def)
  then show ?thesis
    using trees fits b unfolding inodes_inv_def cur by (auto simp: nb)
qed

lemma inodes_same: "inodes_inv s \<Longrightarrow> tf_next_base s' = tf_next_base s \<Longrightarrow> tf_current s' = tf_current s \<Longrightarrow>
    set (tf_retiring s') \<subseteq> set (tf_retiring s) \<Longrightarrow> inodes_inv s'"
  unfolding inodes_inv_def by (simp only:) blast

section \<open>Every event keeps the invariant\<close>

definition transfer_inv :: "'f transfer \<Rightarrow> bool" where
  "transfer_inv s \<longleftrightarrow> requests_inv s \<and> selections_inv s \<and> inodes_inv s"

lemma transfer_invD:
  "transfer_inv s \<Longrightarrow> requests_inv s" "transfer_inv s \<Longrightarrow> selections_inv s" "transfer_inv s \<Longrightarrow> inodes_inv s"
  by (simp_all add: transfer_inv_def)

lemma transfer_inv_new: "transfer_inv (transfer_new now :: 'f transfer)"
proof -
  have "requests_inv (transfer_new now :: 'f transfer)"
    by (simp add: requests_inv_def requests_ok_def transfer_new_def max_pending_def max_buffered_def)
  moreover have "inodes_inv (transfer_new now :: 'f transfer)" by (simp add: inodes_inv_def transfer_new_def)
  ultimately show ?thesis using selections_inv_new by (simp add: transfer_inv_def)
qed

lemma retire_keeps:
  assumes "transfer_inv s" and "retire_current now s = (released, s')"
  shows "transfer_inv s' \<and> 2 \<le> tf_next_base s'"
proof -
  note spec = retire_current_spec [OF transfer_invD(2,1) [OF assms(1)] assms(2)]
  have "inodes_inv s' \<and> 2 \<le> tf_next_base s'"
    by (rule inodes_retired [OF transfer_invD(3) [OF assms(1)], where now = now and g = "tf_generation s"]) (use spec in blast)+
  with spec show ?thesis by (simp add: transfer_inv_def)
qed

lemma shutdown_keeps:
  assumes "transfer_inv s" and "shutdown now s = (released, s')"
  shows "transfer_inv s' \<and> tf_retiring s' = [] \<and> tf_pending s' = [] \<and> tf_current s' = empty_selection now"
proof -
  note spec = shutdown_spec [OF transfer_invD(2,1) [OF assms(1)] assms(2)]
  have "inodes_inv s' \<and> 2 \<le> tf_next_base s'"
    by (rule inodes_retired [OF transfer_invD(3) [OF assms(1)], where now = now and g = 0]) (use spec in simp_all)
  with spec show ?thesis by (simp add: transfer_inv_def)
qed

lemma capabilities_keeps: "transfer_inv s \<Longrightarrow> transfer_inv (snd (capabilities now stream huge locking s))"
proof -
  assume inv: "transfer_inv s"
  show ?thesis
  proof (cases "tf_stream s \<noteq> stream \<or> tf_huge s \<noteq> huge \<or> tf_locking s \<noteq> locking")
    case True
    obtain released s1 where run: "shutdown now s = (released, s1)" by fastforce
    note spec = shutdown_keeps [OF inv run]
    let ?s = "s1\<lparr>tf_stream := stream, tf_huge := huge, tf_locking := locking\<rparr>"
    have "requests_inv ?s" by (rule requests_same [of s1]) (use spec in \<open>simp_all add: transfer_inv_def\<close>)
    moreover have "inodes_inv ?s" by (rule inodes_same [of s1]) (use spec in \<open>simp_all add: transfer_inv_def\<close>)
    moreover have "selections_inv ?s"
      using spec by (simp add: selections_inv_def selections_core_def retired_keys_def owners_def max_retiring_def)
    ultimately show ?thesis using True run by (simp add: capabilities_def transfer_inv_def)
  next
    case False
    then have "snd (capabilities now stream huge locking s) = s" by (simp add: capabilities_def)
    with inv show ?thesis by simp
  qed
qed

lemma end_selection_keeps: "transfer_inv s \<Longrightarrow> transfer_inv (end_selection g s)"
  using requests_end_selection selections_end_selection inodes_same [of s "end_selection g s"]
  by (auto simp: transfer_inv_def)

lemma end_current_keeps:
  assumes "transfer_inv s"
  shows "transfer_inv (bump (fail_pending (tf_generation s) (snd (take_current now s))))"
proof -
  let ?s1 = "fail_pending (tf_generation s) (snd (take_current now s))"
  note inv = transfer_invD [OF assms]
  have "requests_inv (snd (take_current now s))" by (rule requests_same [OF inv(1)]) simp_all
  then have req: "requests_inv ?s1" unfolding fail_pending_def by (rule requests_drop_pending)
  have core: "selections_core ?s1"
    unfolding fail_pending_def using inv(2) by (intro core_drop_pending core_take_current) (simp add: selections_inv_def)
  have own: "owners ?s1 \<subseteq> retired_keys ?s1"
    using owners_fail_pending [of "tf_generation s" "snd (take_current now s)"] inv(2) by (auto simp: selections_inv_def)
  have "selections_inv (bump ?s1)"
    using inv(2) by (intro selections_bump core own) (simp add: selections_inv_def)
  moreover have "requests_inv (bump ?s1)" by (rule requests_same [OF req]) simp_all
  moreover have "inodes_inv (bump ?s1)"
    using inodes_retired [OF inv(3), of "bump ?s1" now 0] by auto
  ultimately show ?thesis by (simp add: transfer_inv_def)
qed

lemma end_selections_keep: "transfer_inv s \<Longrightarrow> transfer_inv (fold end_selection gs s)"
  by (induction gs arbitrary: s) (auto intro: end_selection_keeps)

lemma release_locks_keeps: "transfer_inv s \<Longrightarrow> transfer_inv (snd (release_locks now ids s))"
  by (cases "covered ids (tf_current s)")
    (simp_all add: release_locks_def Let_def end_selections_keep end_current_keeps end_selection_keeps)

lemma close_keeps: "transfer_inv s \<Longrightarrow> transfer_inv (snd (close_transfer now s))"
proof -
  assume inv: "transfer_inv s"
  obtain released s1 where run: "shutdown now s = (released, s1)" by fastforce
  note spec = shutdown_keeps [OF inv run]
  have "requests_inv (s1\<lparr>tf_closed := True\<rparr>)" by (rule requests_same [of s1]) (use spec in \<open>simp_all add: transfer_inv_def\<close>)
  moreover have "inodes_inv (s1\<lparr>tf_closed := True\<rparr>)" by (rule inodes_same [of s1]) (use spec in \<open>simp_all add: transfer_inv_def\<close>)
  moreover have "selections_inv (s1\<lparr>tf_closed := True\<rparr>)"
    using spec by (simp add: transfer_inv_def selections_inv_def selections_core_def retired_keys_def owners_def)
  ultimately show ?thesis using run by (simp add: close_transfer_def transfer_inv_def)
qed

lemma accept_keeps: "transfer_inv s \<Longrightarrow> transfer_inv (snd (accept_for now max_entries expected files data_id s))"
proof -
  assume inv: "transfer_inv s"
  obtain released s1 where run: "retire_current now s = (released, s1)" by fastforce
  have inv1: "transfer_inv s1" and nb2: "2 \<le> tf_next_base s1" using retire_keeps [OF inv run] by simp_all
  have cur: "tf_current s1 = empty_selection now"
    using retire_current_spec [OF transfer_invD(2,1) [OF inv] run] by blast
  note i1 = transfer_invD [OF inv1]
  have nb: "tf_next_base s1 \<le> u64_max" using i1(3) by (simp add: inodes_inv_def)
  let ?t = "build now files max_entries (tf_next_base s1)"
  note built = build_spec [OF nb2 nb, of now files max_entries]
  let ?sel = "\<lparr>sl_tree = ?t, sl_data_id = if tf_locking s1 then data_id else None\<rparr>"
  let ?s2 = "s1\<lparr>tf_next_base := next_base ?t, tf_current := ?sel\<rparr>"
  show ?thesis
  proof (cases "live s expected \<and> live s1 (tf_generation s1)")
    case False
    then show ?thesis using inv inv1 run by (auto simp: accept_for_def)
  next
    case True
    then have stream: "tf_stream s1" by (simp add: live_def)
    have "requests_inv ?s2" by (rule requests_same [OF i1(1)]) simp_all
    moreover have "selections_inv ?s2"
      using i1(2) stream by (simp add: selections_inv_def selections_core_def retired_keys_def owners_def)
    moreover have "inodes_inv ?s2"
    proof (cases "next_base ?t < u64_max")
      case lt: True
      then have exact: "next_base ?t = tree_end ?sel" using next_base_exact [of ?sel] by simp
      have range: "inodes ?sel = {tf_next_base s1..<next_base ?t}" using built exact by (simp add: inodes_def)
      have le: "tf_next_base s1 \<le> next_base ?t" using exact built by (simp add: tree_end_def)
      with lt have "tf_next_base s1 < u64_max" by simp
      then have old: "\<forall>(g, sel)\<in>set (tf_retiring s1). tree_end sel \<le> tf_next_base s1"
        "\<forall>(g, sel)\<in>set (tf_retiring s1). \<forall>(g', sel')\<in>set (tf_retiring s1). g \<noteq> g' \<longrightarrow> inodes sel \<inter> inodes sel' = {}"
        "\<forall>(g, sel)\<in>set (tf_retiring s1). tree_inv (sl_tree sel)"
        using i1(3) unfolding inodes_inv_def by blast+
      have sep: "inodes sel \<inter> inodes ?sel = {}" if "tree_end sel \<le> tf_next_base s1" for sel
        using that by (auto simp: range) (simp add: inodes_def)
      have "\<forall>(g, sel)\<in>set (tf_retiring s1). tree_end sel \<le> next_base ?t \<and> inodes sel \<inter> inodes ?sel = {}"
        using old(1) le sep by fastforce
      then show ?thesis using old built next_base_bounds [of ?t] exact by (simp add: inodes_inv_def)
    next
      case False
      then show ?thesis using i1(3) built next_base_bounds [of ?t] by (simp add: inodes_inv_def)
    qed
    ultimately show ?thesis using True run by (simp add: accept_for_def transfer_inv_def Let_def)
  qed
qed

lemma servable_owner: "servable s g \<Longrightarrow> g = tf_generation s \<or> g \<in> retired_keys s"
  by (auto simp: servable_def retired_keys_def dest!: map_of_SomeD intro: rev_image_eqI)

lemma submitted_keeps:
  assumes inv: "transfer_inv s" and alloc: "allocate bytes s = (Some sid, s1)" and serve: "servable s g"
    and p: "pd_generation p = g" "pd_reserved p = bytes"
    and s': "s' = s1\<lparr>tf_sent := x, tf_pending := map_insert sid p (tf_pending s1)\<rparr>"
  shows "transfer_inv s'"
proof -
  note i = transfer_invD [OF inv]
  note a = allocate_spec [OF i(1) alloc]
  have s1: "s1 = s\<lparr>tf_pending := tf_pending s1, tf_next_stream := tf_next_stream s1\<rparr>" using a by blast
  have f: "tf_retiring s1 = tf_retiring s" "tf_generation s1 = tf_generation s" "tf_stream s1 = tf_stream s"
    "tf_current s1 = tf_current s" "tf_closed s1 = tf_closed s" "tf_next_base s1 = tf_next_base s"
    by (subst s1, simp)+
  have "requests_inv s'" using a p(2) by (simp add: s' requests_inv_def)
  moreover have "inodes_inv s'" by (rule inodes_same [OF i(3)]) (simp_all add: s' f)
  moreover have "selections_inv s'"
  proof -
    have "owners s1 \<subseteq> owners s" using a by (auto simp: owners_def)
    then have "owners s' \<subseteq> insert g (owners s)"
      using p(1) by (auto simp: s' owners_def map_insert_def map_remove_def)
    moreover have "tf_stream s" using serve by (simp add: servable_def)
    ultimately show ?thesis
      using i(2) servable_owner [OF serve] by (auto simp: selections_inv_def selections_core_def s' retired_keys_def f)
  qed
  ultimately show ?thesis by (simp add: transfer_inv_def)
qed

lemma allocated_keeps:
  assumes inv: "transfer_inv s" and alloc: "allocate bytes s = (a, s1)"
  shows "transfer_inv s1"
proof -
  note i = transfer_invD [OF inv]
  note a = allocate_spec [OF i(1) alloc]
  have s1: "s1 = s\<lparr>tf_pending := tf_pending s1, tf_next_stream := tf_next_stream s1\<rparr>" using a by blast
  have f: "tf_retiring s1 = tf_retiring s" "tf_generation s1 = tf_generation s" "tf_stream s1 = tf_stream s"
    "tf_current s1 = tf_current s" "tf_closed s1 = tf_closed s" "tf_next_base s1 = tf_next_base s"
    by (subst s1, simp)+
  have own: "owners s1 \<subseteq> owners s" "tf_pending s = [] \<longrightarrow> tf_pending s1 = []" using a by (auto simp: owners_def)
  have "inodes_inv s1" by (rule inodes_same [OF i(3)]) (simp_all add: f)
  moreover have "selections_inv s1"
    using i(2) own by (auto simp: selections_inv_def selections_core_def retired_keys_def f)
  ultimately show ?thesis using a by (simp add: transfer_inv_def)
qed

lemma size_keeps: "transfer_inv s \<Longrightarrow> transfer_inv (snd (size_call g i s))"
proof -
  assume inv: "transfer_inv s"
  obtain r s' where run: "size_call g i s = (r, s')" by fastforce
  then have "transfer_inv s'"
  proof (cases rule: size_call_cases)
    case (2 a)
    then show ?thesis using allocated_keeps [OF inv] by blast
  next
    case (3 sel n index sid s1)
    show ?thesis by (rule submitted_keeps [OF inv 3(5,1) _ _ 3(8)]) simp_all
  qed (use inv in simp)
  with run show ?thesis by simp
qed

lemma read_keeps: "fetch_keeps_stream ops \<Longrightarrow> transfer_inv s \<Longrightarrow> transfer_inv (snd (read_call ops mc g i pos wanted s))"
proof -
  assume ops: "fetch_keeps_stream ops" and inv: "transfer_inv s"
  obtain r s' where run: "read_call ops mc g i pos wanted s = (r, s')" by fastforce
  from run ops have "transfer_inv s'"
  proof (cases rule: read_call_cases)
    case (2 a amount)
    then show ?thesis using allocated_keeps [OF inv] by blast
  next
    case (3 sel n index sz sid s1 amount request fetch)
    show ?thesis by (rule submitted_keeps [OF inv 3(9,1) _ _ 3(14)]) simp_all
  qed (use inv in simp)
  with run show ?thesis by simp
qed


text \<open>A size stored in a node changes neither the inodes of its tree nor the roots.\<close>

definition same_tree :: "selection \<Rightarrow> selection \<Rightarrow> bool" where
  "same_tree sel sel' \<longleftrightarrow> sl_data_id sel' = sl_data_id sel \<and> inodes sel' = inodes sel \<and> tree_end sel' = tree_end sel \<and>
     roots (sl_tree sel') = roots (sl_tree sel) \<and> (tree_inv (sl_tree sel) \<longrightarrow> tree_inv (sl_tree sel'))"

lemma same_tree_refl: "same_tree sel sel"
  by (simp add: same_tree_def)

lemma same_tree_set_size:
  "same_tree sel (sel\<lparr>sl_tree := snd (set_size i sz (sl_tree sel))\<rparr>)"
proof -
  have "roots (snd (set_size i sz (sl_tree sel))) = roots (sl_tree sel)"
    by (auto simp: set_size_def roots_def children_def node_def vec_get_def nth_update_node update_node_def nth_list_update split: option.splits)
  moreover have "tr_base (snd (set_size i sz (sl_tree sel))) = tr_base (sl_tree sel)"
    "entries (snd (set_size i sz (sl_tree sel))) = entries (sl_tree sel)"
    by (auto simp: set_size_def entries_def split: option.splits)
  ultimately show ?thesis
    using set_size_keeps [of "sl_tree sel"] by (simp add: same_tree_def inodes_def tree_end_def)
qed

lemma store_size_shape:
  assumes "store_size g i sz s = (b, s')"
  shows "same_tree (tf_current s) (tf_current s')" and "map fst (tf_retiring s') = map fst (tf_retiring s)"
    and "\<forall>(k, sel')\<in>set (tf_retiring s'). \<exists>sel. (k, sel) \<in> set (tf_retiring s) \<and> same_tree sel sel'"
    and "s' = s\<lparr>tf_current := tf_current s', tf_retiring := tf_retiring s'\<rparr>"
proof -
  have *: "same_tree (tf_current s) (tf_current s') \<and> map fst (tf_retiring s') = map fst (tf_retiring s) \<and>
    (\<forall>(k, sel')\<in>set (tf_retiring s'). \<exists>sel. (k, sel) \<in> set (tf_retiring s) \<and> same_tree sel sel') \<and>
    s' = s\<lparr>tf_current := tf_current s', tf_retiring := tf_retiring s'\<rparr>"
  proof (cases "selection_of s g")
    case None
    then show ?thesis using assms by (auto simp: store_size_def same_tree_refl)
  next
    case (Some sel)
    have run: "s' = (if tf_generation s = g then s\<lparr>tf_current := sel\<lparr>sl_tree := snd (set_size i sz (sl_tree sel))\<rparr>\<rparr>
        else s\<lparr>tf_retiring := map_update g (\<lambda>_. sel\<lparr>sl_tree := snd (set_size i sz (sl_tree sel))\<rparr>) (tf_retiring s)\<rparr>)"
      using assms Some by (auto simp: store_size_def Let_def split: prod.splits)
    show ?thesis
    proof (cases "tf_generation s = g")
      case True
      then show ?thesis
        using Some run same_tree_set_size [of sel i sz] by (auto simp: selection_of_def same_tree_refl split: if_splits)
    next
      case False
      then have "map_of (tf_retiring s) g = Some sel" using Some by (auto simp: selection_of_def split: if_splits)
      then have "(g, sel) \<in> set (tf_retiring s)" by (rule map_of_SomeD)
      moreover have "tf_current s' = tf_current s" "map fst (tf_retiring s') = map fst (tf_retiring s)"
        "tf_retiring s' = map_update g (\<lambda>_. sel\<lparr>sl_tree := snd (set_size i sz (sl_tree sel))\<rparr>) (tf_retiring s)"
        "s' = s\<lparr>tf_current := tf_current s', tf_retiring := tf_retiring s'\<rparr>"
        using False run by simp_all
      ultimately show ?thesis
        using same_tree_set_size [of sel i sz] same_tree_refl by (fastforce simp: map_update_def)
    qed
  qed
  from * show "same_tree (tf_current s) (tf_current s')" "map fst (tf_retiring s') = map fst (tf_retiring s)"
    "\<forall>(k, sel')\<in>set (tf_retiring s'). \<exists>sel. (k, sel) \<in> set (tf_retiring s) \<and> same_tree sel sel'"
    "s' = s\<lparr>tf_current := tf_current s', tf_retiring := tf_retiring s'\<rparr>" by blast+
qed

lemma inodes_shape:
  assumes inv: "inodes_inv s" and base: "tf_next_base s' = tf_next_base s" and cur: "same_tree (tf_current s) (tf_current s')"
    and ret: "\<forall>(k, sel')\<in>set (tf_retiring s'). \<exists>sel. (k, sel) \<in> set (tf_retiring s) \<and> same_tree sel sel'"
  shows "inodes_inv s'"
proof -
  have source: "\<exists>sel. (k, sel) \<in> set (tf_retiring s) \<and> same_tree sel sel'" if "(k, sel') \<in> set (tf_retiring s')" for k sel'
    using ret that by blast
  have trees: "tree_inv (sl_tree sel')" if "(k, sel') \<in> set (tf_retiring s')" for k sel'
    using source [OF that] inv by (auto simp: inodes_inv_def same_tree_def)
  have curr: "tree_inv (sl_tree (tf_current s'))" "inodes (tf_current s') = inodes (tf_current s)"
    "tree_end (tf_current s') = tree_end (tf_current s)"
    using inv cur by (simp_all add: inodes_inv_def same_tree_def)
  have ends: "tree_end sel' \<le> tf_next_base s \<and> inodes sel' \<inter> inodes (tf_current s) = {}"
    if lt: "tf_next_base s < u64_max" and a: "(k, sel') \<in> set (tf_retiring s')" for k sel'
  proof -
    have "\<forall>(g, sel)\<in>set (tf_retiring s). tree_end sel \<le> tf_next_base s \<and> inodes sel \<inter> inodes (tf_current s) = {}"
      using inv lt by (simp add: inodes_inv_def)
    moreover obtain sel where "(k, sel) \<in> set (tf_retiring s)" "inodes sel' = inodes sel" "tree_end sel' = tree_end sel"
      using source [OF a] by (auto simp: same_tree_def)
    ultimately show ?thesis by fastforce
  qed
  have apart: "inodes sel1 \<inter> inodes sel2 = {}"
    if lt: "tf_next_base s < u64_max" and a: "(k, sel1) \<in> set (tf_retiring s')" and b: "(l, sel2) \<in> set (tf_retiring s')"
      and ne: "k \<noteq> l" for k l sel1 sel2
  proof -
    obtain u where u: "(k, u) \<in> set (tf_retiring s)" "inodes sel1 = inodes u" using source [OF a] by (auto simp: same_tree_def)
    obtain v where v: "(l, v) \<in> set (tf_retiring s)" "inodes sel2 = inodes v" using source [OF b] by (auto simp: same_tree_def)
    have "\<forall>(g, sel)\<in>set (tf_retiring s). \<forall>(g', sel')\<in>set (tf_retiring s). g \<noteq> g' \<longrightarrow> inodes sel \<inter> inodes sel' = {}"
      using inv lt by (simp add: inodes_inv_def)
    then have "inodes u \<inter> inodes v = {}" using u(1) v(1) ne by blast
    then show ?thesis using u v by simp
  qed
  have "inodes (tf_current s') = {} \<or> tree_end (tf_current s') \<le> tf_next_base s" if "tf_next_base s < u64_max"
    using inv that by (simp add: inodes_inv_def curr)
  moreover have "tf_next_base s \<le> u64_max" using inv by (simp add: inodes_inv_def)
  ultimately show ?thesis
    unfolding inodes_inv_def base curr(2,3) case_prod_beta
    using curr(1) trees ends apart by (metis prod.collapse)
qed

lemma store_size_keeps:
  assumes inv: "transfer_inv s" and run: "store_size g i sz s = (b, s')"
  shows "transfer_inv s'"
proof -
  note shape = store_size_shape [OF run]
  note i = transfer_invD [OF inv]
  have f: "tf_generation s' = tf_generation s" "tf_stream s' = tf_stream s" "tf_closed s' = tf_closed s"
    "tf_next_base s' = tf_next_base s" "tf_pending s' = tf_pending s"
    by (subst shape(4), simp)+
  have keys: "retired_keys s' = retired_keys s"
    using shape(2) by (metis retired_keys_def list.set_map)
  have len: "length (tf_retiring s') = length (tf_retiring s)" using shape(2) by (metis length_map)
  have "requests_inv s'" using requests_store_size [OF i(1), of g i sz] run by simp
  moreover have "inodes_inv s'" by (rule inodes_shape [OF i(3) f(4) shape(1,3)])
  moreover have "selections_core s'"
  proof -
    have "\<forall>(k, sel')\<in>set (tf_retiring s'). roots (sl_tree sel') \<noteq> [] \<and> sl_data_id sel' \<noteq> None"
      using shape(3) i(2) by (fastforce simp: selections_inv_def selections_core_def same_tree_def)
    then show ?thesis
      using i(2) shape(1,2) len by (auto simp: selections_inv_def selections_core_def keys f same_tree_def)
  qed
  moreover have "owners s' = owners s" by (simp add: owners_def f)
  ultimately show ?thesis using i(2) by (simp add: transfer_inv_def selections_inv_def keys len f)
qed

text \<open>Events that only change the requests.\<close>

lemma requests_only_keep:
  assumes inv: "transfer_inv s" and req: "requests_inv s'" and own: "owners s' \<subseteq> owners s"
    and empty: "tf_pending s = [] \<longrightarrow> tf_pending s' = []"
    and f: "tf_generation s' = tf_generation s" "tf_stream s' = tf_stream s" "tf_closed s' = tf_closed s"
      "tf_next_base s' = tf_next_base s" "tf_retiring s' = tf_retiring s" "tf_current s' = tf_current s"
  shows "transfer_inv s'"
proof -
  note i = transfer_invD [OF inv]
  have "inodes_inv s'" by (rule inodes_same [OF i(3)]) (simp_all add: f)
  then show ?thesis
    using req i(2) own empty by (auto simp: transfer_inv_def selections_inv_def selections_core_def retired_keys_def f)
qed

lemma removed_keep:
  assumes inv: "transfer_inv s" and p: "map_of (tf_pending s) sid = Some p"
  shows "transfer_inv (s\<lparr>tf_pending := map_remove sid (tf_pending s)\<rparr>)"
    and "transfer_inv (deliver sid a (s\<lparr>tf_pending := map_remove sid (tf_pending s)\<rparr>))"
proof -
  have ok: "requests_ok (tf_pending s) (tf_answers s) (tf_next_stream s)" using inv by (simp add: transfer_inv_def requests_inv_def)
  note removed = requests_ok_remove [OF ok p]
  show "transfer_inv (s\<lparr>tf_pending := map_remove sid (tf_pending s)\<rparr>)"
    by (rule requests_only_keep [OF inv]) (use removed in \<open>auto simp: requests_inv_def owners_def map_remove_def\<close>)
  show "transfer_inv (deliver sid a (s\<lparr>tf_pending := map_remove sid (tf_pending s)\<rparr>))"
    by (rule requests_only_keep [OF inv]) (use removed in \<open>auto simp: requests_inv_def owners_def map_remove_def deliver_def\<close>)
qed

lemma timeout_keeps: "transfer_inv s \<Longrightarrow> transfer_inv (timeout_expires sid s)"
  using removed_keep [of s sid] by (auto simp: timeout_expires_def Let_def split: option.splits)

lemma reader_leaves_keeps:
  assumes "transfer_inv s"
  shows "transfer_inv (reader_leaves sid s)"
proof (rule requests_only_keep [OF assms])
  show "requests_inv (reader_leaves sid s)" by (rule requests_reader_leaves [OF transfer_invD(1) [OF assms]])
  show "owners (reader_leaves sid s) \<subseteq> owners s"
  proof
    fix g
    assume "g \<in> owners (reader_leaves sid s)"
    then obtain k p where "(k, p) \<in> set (tf_pending s)" "g = pd_generation p"
      by (auto simp: reader_leaves_def owners_def map_update_def split: if_splits)
    then show "g \<in> owners s" unfolding owners_def by (metis comp_apply image_eqI snd_conv)
  qed
qed (simp_all add: reader_leaves_def map_update_def)

lemma sender_closes_keeps: "transfer_inv s \<Longrightarrow> transfer_inv (s\<lparr>tf_sender_open := False\<rparr>)"
  by (rule requests_only_keep [of s]) (auto simp: owners_def transfer_inv_def intro: requests_same)

lemma delivered_keeps: "transfer_inv s \<Longrightarrow> requests_inv (deliver sid a s) \<Longrightarrow> transfer_inv (deliver sid a s)"
  by (rule requests_only_keep [of s]) (simp_all add: deliver_def owners_def)

lemma on_response_keeps:
  assumes inv: "transfer_inv s"
  shows "transfer_inv (on_response ops response s)"
proof -
  let ?sid = "rs_stream response"
  have req: "requests_inv (on_response ops response s)" using requests_on_response [OF transfer_invD(1) [OF inv]] .
  show ?thesis
  proof (cases "map_of (tf_pending s) ?sid")
    case None
    then show ?thesis using inv by (simp add: on_response_def Let_def)
  next
    case (Some p)
    let ?s1 = "s\<lparr>tf_pending := map_remove ?sid (tf_pending s)\<rparr>"
    note removed = removed_keep [OF inv Some]
    show ?thesis
    proof (cases "pd_answer_closed p")
      case True
      then show ?thesis using Some removed(1) by (simp add: on_response_def Let_def)
    next
      case closed: False
      show ?thesis
      proof (cases "pd_operation p")
        case (OpSize i)
        obtain b s2 where store: "store_size (pd_generation p) i (le_value (rs_data response)) ?s1 = (b, s2)" by fastforce
        have s2: "transfer_inv s2" by (rule store_size_keeps [OF removed(1) store])
        have "transfer_inv (deliver ?sid a s2)" for a
        proof (rule delivered_keeps [OF s2])
          have "tf_pending s2 = map_remove ?sid (tf_pending s)" "tf_answers s2 = tf_answers s" "tf_next_stream s2 = tf_next_stream s"
            using store_size_fields [of "pd_generation p" i "le_value (rs_data response)" ?s1] store by simp_all
          then show "requests_inv (deliver ?sid a s2)"
            using removed(2) [of a] by (simp add: transfer_inv_def requests_inv_def deliver_def)
        qed
        then show ?thesis using Some closed OpSize store removed(2) by (auto simp: on_response_def Let_def)
      next
        case (OpRange base fetch)
        let ?q = "\<lambda>f. p\<lparr>pd_operation := OpRange base f\<rparr>"
        have own: "owners (?s1\<lparr>tf_sent := x, tf_pending := map_insert ?sid (?q f) (tf_pending ?s1)\<rparr>) \<subseteq> owners s" for x f
          using map_of_SomeD [OF Some] by (auto simp: owners_def map_insert_def map_remove_def intro: rev_image_eqI)
        have "transfer_inv (?s1\<lparr>tf_sent := x, tf_pending := map_insert ?sid (?q f) (tf_pending ?s1)\<rparr>)" for x f
        proof (rule requests_only_keep [OF inv _ own])
          show "requests_inv (?s1\<lparr>tf_sent := x, tf_pending := map_insert ?sid (?q f) (tf_pending ?s1)\<rparr>)"
            using requests_ok_replace [of "tf_pending s" "tf_answers s" "tf_next_stream s" ?sid p "?q f"] inv Some
            by (simp add: transfer_inv_def requests_inv_def)
          show "tf_pending s = [] \<longrightarrow> tf_pending (?s1\<lparr>tf_sent := x, tf_pending := map_insert ?sid (?q f) (tf_pending ?s1)\<rparr>) = []"
            using Some by auto
        qed simp_all
        then show ?thesis using Some closed OpRange removed(2)
          by (auto simp: on_response_def Let_def split: prod.splits fetch_progress.splits option.splits)
      qed
    qed
  qed
qed

lemma transfer_step_keeps:
  assumes "fetch_keeps_stream ops" and "transfer_inv s"
  shows "transfer_inv (transfer_step ops now max_entries max_chunk s e)"
proof (cases e)
  case Retire
  obtain released s' where "retire_current now s = (released, s')" by fastforce
  then show ?thesis using retire_keeps [OF assms(2)] Retire by (simp add: retire_generation_def)
qed (use assms capabilities_keeps release_locks_keeps close_keeps accept_keeps size_keeps read_keeps
    on_response_keeps timeout_keeps reader_leaves_keeps sender_closes_keeps in simp_all)

interpretation transfer: event_system "transfer_step ops now max_entries max_chunk" "\<lambda>_. fetch_keeps_stream ops"
  transfer_inv for ops :: "'f fetch_ops" and now :: int and max_entries max_chunk :: nat
  by unfold_locales (rule transfer_step_keeps)

abbreviation transfer_run :: "'f fetch_ops \<Rightarrow> int \<Rightarrow> nat \<Rightarrow> nat \<Rightarrow> transfer_event list \<Rightarrow> 'f transfer" where
  "transfer_run ops now max_entries max_chunk \<equiv> run_events (transfer_step ops now max_entries max_chunk) (transfer_new now)"

lemma transfer_run_inv:
  assumes "fetch_keeps_stream ops"
  shows "transfer_inv (transfer_run ops now max_entries max_chunk es)"
  by (rule transfer.run_keeps [OF transfer_inv_new]) (simp add: list_all_iff assms)

section \<open>What the operations do\<close>

lemma map_remove_head: "distinct (map fst ((k, v) # xs)) \<Longrightarrow> map_remove k ((k, v) # xs) = xs"
  by (auto simp: map_remove_def filter_id_conv image_iff)

lemma trim_retiring_drop:
  "distinct (map fst (tf_retiring s)) \<Longrightarrow> length (tf_retiring s) \<le> fuel + max_retiring \<Longrightarrow>
   trim_retiring fuel s = (released, s') \<Longrightarrow>
   tf_retiring s' = drop (length (tf_retiring s) - max_retiring) (tf_retiring s) \<and>
   released = map fst (take (length (tf_retiring s) - max_retiring) (tf_retiring s)) \<and>
   tf_pending s' = filter (\<lambda>(_, p). pd_generation p \<notin> set released) (tf_pending s)"
proof (induction fuel s arbitrary: released s' rule: trim_retiring.induct)
  case (1 s)
  then show ?case by (auto simp: filter_id_conv case_prod_beta)
next
  case (2 fuel s)
  show ?case
  proof (cases "length (tf_retiring s) > max_retiring")
    case False
    then show ?thesis using 2(4) by (auto simp: filter_id_conv case_prod_beta)
  next
    case True
    then obtain g sel rest where r: "tf_retiring s = (g, sel) # rest" by (cases "tf_retiring s") auto
    let ?s = "fail_pending g (s\<lparr>tf_retiring := map_remove g (tf_retiring s)\<rparr>)"
    have rest: "map_remove g (tf_retiring s) = rest" unfolding r by (rule map_remove_head) (use 2(2) r in simp)
    obtain more u where run: "trim_retiring fuel ?s = (more, u)" by fastforce
    then have res: "released = g # more" "s' = u" using 2(4) True r by (simp_all add: Let_def)
    have IH: "tf_retiring u = drop (length rest - max_retiring) rest \<and> more = map fst (take (length rest - max_retiring) rest) \<and>
        tf_pending u = filter (\<lambda>(_, p). pd_generation p \<notin> set more) (tf_pending ?s)"
      using 2(1) [OF True r refl refl _ _ run] 2(2,3) r rest by simp
    have "length (tf_retiring s) - max_retiring = Suc (length rest - max_retiring)" using True r by simp
    then show ?thesis using IH res r
      by (auto simp: fail_pending_def drop_pending_def filter_filter case_prod_beta intro!: filter_cong)
  qed
qed

lemma map_of_filter_keys: "map_of (filter (\<lambda>(k, _). P k) xs) k = (if P k then map_of xs k else None)"
  by (induction xs) auto

lemma btree_insert_greatest: "(\<And>k' v'. (k', v') \<in> set xs \<Longrightarrow> k' < k) \<Longrightarrow> btree_insert k v xs = xs @ [(k, v)]"
proof (induction xs)
  case (Cons x xs)
  obtain k' v' where "x = (k', v')" by fastforce
  then show ?case using Cons.IH Cons.prems [of k' v'] Cons.prems by fastforce
qed simp

lemma retiring_below:
  assumes "transfer_inv s" and "\<not> tf_closed s" and "(k, sel) \<in> set (tf_retiring s)"
  shows "k < tf_generation s"
proof -
  have "k \<in> retired_keys s" using assms(3) by (auto simp: retired_keys_def intro: rev_image_eqI)
  then have "k \<le> tf_generation s" "k \<noteq> tf_generation s"
    using assms(1,2) by (auto simp: transfer_inv_def selections_inv_def selections_core_def)
  then show ?thesis by simp
qed

lemma retired_distinct: "transfer_inv s \<Longrightarrow> distinct (map fst (tf_retiring s))"
  using strict_sorted_iff by (auto simp: transfer_inv_def selections_inv_def selections_core_def)

text \<open>Ending several selections at once.\<close>

lemma fold_end_selection:
  "tf_retiring (fold end_selection gs s) = filter (\<lambda>(k, _). k \<notin> set gs) (tf_retiring s) \<and>
   tf_pending (fold end_selection gs s) = filter (\<lambda>(_, p). pd_generation p \<notin> set gs) (tf_pending s) \<and>
   set (tf_answers (fold end_selection gs s)) = set (tf_answers s) \<union>
     {(sid, AnswerError) | sid p. (sid, p) \<in> set (tf_pending s) \<and> pd_generation p \<in> set gs \<and> \<not> pd_answer_closed p} \<and>
   tf_generation (fold end_selection gs s) = tf_generation s \<and> tf_closed (fold end_selection gs s) = tf_closed s \<and>
   tf_stream (fold end_selection gs s) = tf_stream s \<and> tf_current (fold end_selection gs s) = tf_current s"
proof (induction gs arbitrary: s)
  case Nil
  then show ?case by (simp add: filter_id_conv case_prod_beta)
next
  case (Cons g gs)
  let ?s = "end_selection g s"
  have p: "tf_pending ?s = filter (\<lambda>(_, p). pd_generation p \<noteq> g) (tf_pending s)"
    "set (tf_answers ?s) = set (tf_answers s) \<union>
      {(sid, AnswerError) | sid p. (sid, p) \<in> set (tf_pending s) \<and> pd_generation p = g \<and> \<not> pd_answer_closed p}"
    by (auto simp: end_selection_def fail_pending_def drop_pending_def image_iff)
  have "set (tf_answers (fold end_selection gs ?s)) = set (tf_answers ?s) \<union>
     {(sid, AnswerError) | sid p. (sid, p) \<in> set (tf_pending ?s) \<and> pd_generation p \<in> set gs \<and> \<not> pd_answer_closed p}"
    using Cons.IH [of ?s] by (elim conjE)
  also have "\<dots> = set (tf_answers s) \<union>
     {(sid, AnswerError) | sid p. (sid, p) \<in> set (tf_pending s) \<and> pd_generation p \<in> set (g # gs) \<and> \<not> pd_answer_closed p}"
    unfolding p by auto
  finally have "set (tf_answers (fold end_selection gs ?s)) = \<dots>" .
  moreover have "tf_retiring (fold end_selection (g # gs) s) = filter (\<lambda>(k, _). k \<notin> set (g # gs)) (tf_retiring s)"
    using Cons.IH [of ?s] by (auto simp: map_remove_def case_prod_beta intro!: filter_cong)
  moreover have "tf_pending (fold end_selection (g # gs) s) = filter (\<lambda>(_, p). pd_generation p \<notin> set (g # gs)) (tf_pending s)"
    using Cons.IH [of ?s] p(1) by (auto simp: case_prod_beta intro!: filter_cong)
  ultimately show ?case using Cons.IH [of ?s] by simp
qed

section \<open>Properties\<close>

text \<open>
  C19: In every run of the transfer at most 64 requests are pending and at most 16 MiB are reserved for
  them, at most four superseded selections are kept, and no stream is ever answered twice or
  answered while it is still pending.\<close>

theorem requests_bounded:
  assumes "fetch_keeps_stream ops" and "s = transfer_run ops now max_entries max_chunk es"
  shows "length (tf_pending s) \<le> max_pending \<and> sum_list (map (pd_reserved \<circ> snd) (tf_pending s)) \<le> max_buffered \<and>
    length (tf_retiring s) \<le> max_retiring \<and> distinct (map fst (tf_pending s) @ map fst (tf_answers s))"
  using transfer_run_inv [OF assms(1), of now max_entries max_chunk es] assms(2)
  by (simp add: transfer_inv_def selections_inv_def requests_inv_def requests_ok_def)

text \<open>
  C34: Two selections that can still be read never share an inode other than the root, so a read through a
  retired selection cannot reach a file of a newer one (until the 64-bit inode cursor saturates).\<close>

theorem inodes_never_shared:
  assumes ops: "fetch_keeps_stream ops" and s: "s = transfer_run ops now max_entries max_chunk es"
    and cursor: "tf_next_base s < u64_max" and trees: "with_tree g s = Some t" "with_tree g' s = Some t'" and ne: "g \<noteq> g'"
    and i: "i \<noteq> root_inode" "node t i \<noteq> None"
  shows "node t' i = None"
proof -
  have inv: "inodes_inv s" using transfer_run_inv [OF ops] s by (simp add: transfer_inv_def)
  obtain a b where ab: "selection_of s g = Some a" "t = sl_tree a" "selection_of s g' = Some b" "t' = sl_tree b"
    using trees by (auto simp: with_tree_def)
  have inside: "i \<in> inodes sel \<longleftrightarrow> node (sl_tree sel) i \<noteq> None" for sel
    using i(1) by (auto simp: inodes_def tree_end_def node_def node_offset_def vec_get_def entries_def)
  have "inodes a \<inter> inodes b = {}"
    using ab(1,3) ne inv cursor unfolding selection_of_def inodes_inv_def
    by (fastforce dest!: map_of_SomeD split: if_splits)
  then show ?thesis using i(2) inside ab by blast
qed

text \<open>
  When a published selection that holds a lock is superseded it stays readable: the retired
  selections become the newest four, in order, and only the requests of the ones dropped fail.\<close>

theorem retire_keeps_newest_four:
  assumes ops: "fetch_keeps_stream ops" and s: "s = transfer_run ops now max_entries max_chunk es"
    and live: "\<not> tf_closed s" and files: "roots (sl_tree (tf_current s)) \<noteq> []" and lock: "sl_data_id (tf_current s) \<noteq> None"
    and run: "retire_generation now' s = ((r, released), s')"
    and all: "retired = tf_retiring s @ [(tf_generation s, tf_current s)]"
  shows "tf_retiring s' = drop (length retired - 4) retired \<and> released = map fst (take (length retired - 4) retired) \<and>
    tf_pending s' = filter (\<lambda>(_, p). pd_generation p \<notin> set released) (tf_pending s)"
proof -
  have inv: "transfer_inv s" using transfer_run_inv [OF ops] s by simp
  let ?s1 = "snd (take_current now' s)"
  let ?s2 = "?s1\<lparr>tf_retiring := btree_insert (tf_generation s) (tf_current s) (tf_retiring ?s1)\<rparr>"
  have below: "k < tf_generation s" if "(k, sel) \<in> set (tf_retiring s)" for k sel
    by (rule retiring_below [OF inv live that])
  have two: "tf_retiring ?s2 = retired" using below all by (simp add: btree_insert_greatest)
  obtain d where d: "sl_data_id (tf_current s) = Some d" using lock by blast
  obtain rel u where trim: "trim_retiring (length (tf_retiring ?s2)) ?s2 = (rel, u)" by fastforce
  have dist: "distinct (map fst (tf_retiring ?s2))" using retired_distinct [OF inv] below unfolding two all by fastforce
  have "retire_current now' s = (rel, bump u)"
    using trim files by (simp add: retire_current_def Let_def case_prod_beta d)
  then have "released = rel" "s' = bump u" using run by (auto simp: retire_generation_def)
  then show ?thesis
    using trim_retiring_drop [OF dist _ trim] unfolding two by (simp add: max_retiring_def)
qed

text \<open>Releasing locks: the current selection gives way first, then the covered ones end.\<close>

definition current_released :: "int \<Rightarrow> nat list \<Rightarrow> 'f transfer \<Rightarrow> 'f transfer" where
  "current_released now ids s =
     (if covered ids (tf_current s) then bump (fail_pending (tf_generation s) (snd (take_current now s))) else s)"

lemma release_locks_split:
  assumes "release_locks now ids s = (released, s')"
  shows "released = map fst (filter (\<lambda>(_, sel). covered ids sel) (tf_retiring s)) @
      (if covered ids (tf_current s) then [tf_generation s] else [])"
    "s' = fold end_selection released (current_released now ids s)"
  using assms by (auto simp: release_locks_def Let_def current_released_def)

lemma retired_under:
  assumes inv: "transfer_inv s" and g: "selection_of s g = Some sel" and "g \<noteq> tf_generation s"
  shows "(g, sel) \<in> set (tf_retiring s)" "g < tf_generation s"
proof -
  show m: "(g, sel) \<in> set (tf_retiring s)" using g assms(3) by (auto simp: selection_of_def split: if_splits dest: map_of_SomeD)
  have "\<not> tf_closed s" using g by (auto simp: selection_of_def split: if_splits)
  from retiring_below [OF inv this m] show "g < tf_generation s" .
qed

lemma released_members:
  assumes inv: "transfer_inv s" and g: "selection_of s g = Some sel" and run: "release_locks now ids s = (released, s')"
  shows "g \<in> set released \<longleftrightarrow> covered ids sel"
proof (cases "g = tf_generation s")
  case True
  have "g \<notin> fst ` set (tf_retiring s)"
    using retiring_below [OF inv] g True by (fastforce simp: selection_of_def split: if_splits)
  moreover have "sel = tf_current s" using g True by (auto simp: selection_of_def split: if_splits)
  ultimately show ?thesis using True release_locks_split(1) [OF run] by (auto simp: image_iff)
next
  case False
  note m = retired_under(1) [OF inv g False]
  have "v = sel" if "(g, v) \<in> set (tf_retiring s)" for v by (rule eq_key_imp_eq_value [OF retired_distinct [OF inv] that m])
  with m have "(\<exists>v. (g, v) \<in> set (tf_retiring s) \<and> covered ids v) \<longleftrightarrow> covered ids sel" by blast
  moreover have "g \<in> set (map fst (filter (\<lambda>(_, sel). covered ids sel) (tf_retiring s))) \<longleftrightarrow>
      (\<exists>v. (g, v) \<in> set (tf_retiring s) \<and> covered ids v)" by force
  ultimately show ?thesis unfolding release_locks_split(1) [OF run] using False by simp
qed

lemma current_released_generation:
  "tf_generation (current_released now ids s) =
     (if covered ids (tf_current s) then tf_generation (bump s) else tf_generation s)"
  by (simp add: current_released_def bump_generation)

lemma released_answers:
  assumes run: "release_locks now ids s = (released, s')" and "pd_generation p \<in> set released"
    and "(sid, p) \<in> set (tf_pending s)" "\<not> pd_answer_closed p"
  shows "(sid, AnswerError) \<in> set (tf_answers s')"
proof -
  let ?s1 = "current_released now ids s"
  have "(sid, AnswerError) \<in> set (tf_answers ?s1) \<or> (sid, p) \<in> set (tf_pending ?s1)"
    using assms(3,4) by (cases "pd_generation p = tf_generation s")
      (auto simp: current_released_def fail_pending_def drop_pending_def image_iff)
  moreover have "set (tf_answers s') = set (tf_answers ?s1) \<union>
      {(sid, AnswerError) | sid p. (sid, p) \<in> set (tf_pending ?s1) \<and> pd_generation p \<in> set released \<and> \<not> pd_answer_closed p}"
    using fold_end_selection [of released ?s1] release_locks_split(2) [OF run] by (elim conjE) simp
  ultimately show ?thesis using assms(2,4) by blast
qed

lemma released_gone:
  assumes inv: "transfer_inv s" and g: "selection_of s g = Some sel" and run: "release_locks now ids s = (released, s')"
    and cov: "covered ids sel"
  shows "with_tree g s' = None" "\<forall>(sid, p)\<in>set (tf_pending s'). pd_generation p \<noteq> g"
proof -
  note f = fold_end_selection [of released "current_released now ids s"] and eq = release_locks_split(2) [OF run]
  have out: "g \<in> set released" using released_members [OF inv g run] cov by simp
  show "\<forall>(sid, p)\<in>set (tf_pending s'). pd_generation p \<noteq> g" using f eq out by auto
  have "map_of (tf_retiring s') g = None" using f eq out by (simp add: map_of_filter_keys)
  moreover have "tf_generation s' \<noteq> g" if "\<not> tf_closed s'"
  proof (cases "tf_generation s = g")
    case True
    then have "covered ids (tf_current s)" using cov g by (auto simp: selection_of_def split: if_splits)
    then show ?thesis using f eq that True by (auto simp: current_released_def bump_generation)
  next
    case False
    then show ?thesis using retired_under(2) [OF inv g] f eq by (auto simp: current_released_def bump_generation)
  qed
  ultimately show "with_tree g s' = None" by (auto simp: with_tree_def selection_of_def)
qed

lemma unreleased_stays:
  assumes inv: "transfer_inv s" and g: "selection_of s g = Some sel" and run: "release_locks now ids s = (released, s')"
    and keep: "\<not> covered ids sel" "tf_generation s < u64_max"
  shows "with_tree g s' = with_tree g s"
proof -
  note f = fold_end_selection [of released "current_released now ids s"] and eq = release_locks_split(2) [OF run]
  have open': "\<not> tf_closed s" "tf_stream s" using g by (auto simp: selection_of_def split: if_splits)
  have out: "g \<notin> set released" using released_members [OF inv g run] keep by simp
  have closed: "\<not> tf_closed s'" "tf_stream s'" using f eq open' keep by (auto simp: current_released_def bump_generation)
  show ?thesis
  proof (cases "tf_generation s = g")
    case True
    then have "\<not> covered ids (tf_current s)" using keep g open' by (simp add: selection_of_def)
    then show ?thesis using True f eq by (simp add: with_tree_def selection_of_def current_released_def)
  next
    case False
    then have "tf_generation s' \<noteq> g" using retired_under(2) [OF inv g] f eq by (auto simp: current_released_def bump_generation)
    moreover have "map_of (tf_retiring s') g = map_of (tf_retiring s) g"
      using f eq out by (simp add: map_of_filter_keys current_released_def)
    ultimately show ?thesis using False closed open' by (simp add: with_tree_def selection_of_def)
  qed
qed

text \<open>
  C25: Releasing a lock ends exactly the selections it covers: their trees are gone, their requests are
  withdrawn and every reader still waiting on one is woken with an error; a retired selection under
  another lock stays readable.\<close>

theorem released_lock_ends_selection:
  assumes ops: "fetch_keeps_stream ops" and s: "s = transfer_run ops now max_entries max_chunk es"
    and g: "selection_of s g = Some sel" and run: "release_locks now' ids s = (released, s')"
  shows "(covered ids sel \<longrightarrow> with_tree g s' = None \<and> g \<in> set released \<and>
      (\<forall>(sid, p)\<in>set (tf_pending s'). pd_generation p \<noteq> g) \<and>
      (\<forall>(sid, p)\<in>set (tf_pending s). pd_generation p = g \<and> \<not> pd_answer_closed p \<longrightarrow> (sid, AnswerError) \<in> set (tf_answers s'))) \<and>
    (\<not> covered ids sel \<and> tf_generation s < u64_max \<longrightarrow> with_tree g s' = with_tree g s \<and> g \<notin> set released)"
proof -
  have inv: "transfer_inv s" using transfer_run_inv [OF ops] s by simp
  show ?thesis
    using released_gone [OF inv g run] released_members [OF inv g run] released_answers [OF run] unreleased_stays [OF inv g run]
    by blast
qed

section \<open>Closing\<close>

definition ended :: "contents_request list \<Rightarrow> (nat \<times> answer) list \<Rightarrow> 'f transfer \<Rightarrow> bool" where
  "ended sent answers s \<longleftrightarrow> tf_closed s \<and> tf_pending s = [] \<and> tf_sent s = sent \<and> tf_answers s = answers"

lemma ended_drop [simp]: "ended x y s \<Longrightarrow> ended x y (drop_pending d s)"
  by (simp add: ended_def) (simp add: drop_pending_def)

lemma ended_bump: "ended x y s \<Longrightarrow> ended x y (bump s)"
  by (simp add: ended_def bump_generation)

lemma ended_take: "ended x y s \<Longrightarrow> ended x y (snd (take_current now s))"
  by (simp add: ended_def take_current_def)

lemma ended_retiring: "ended x y s \<Longrightarrow> ended x y (s\<lparr>tf_retiring := r\<rparr>)"
  by (simp add: ended_def)

lemma ended_fail: "ended x y s \<Longrightarrow> ended x y (fail_pending g s)"
  by (simp add: fail_pending_def)

lemma ended_trim: "ended x y s \<Longrightarrow> ended x y (snd (trim_retiring fuel s))"
  by (induction fuel s rule: trim_retiring.induct) (auto simp: Let_def case_prod_beta ended_fail ended_retiring split: list.splits)

lemmas ended_intros = ended_bump ended_take ended_retiring ended_fail ended_trim ended_drop

lemma ended_retire: "ended x y s \<Longrightarrow> ended x y (snd (retire_current now s))"
  by (simp add: retire_current_def Let_def case_prod_beta ended_intros)

lemma ended_shutdown: "ended x y s \<Longrightarrow> ended x y (snd (shutdown now s))"
  by (simp add: shutdown_def Let_def ended_intros)

lemma ended_fold: "ended x y s \<Longrightarrow> ended x y (fold end_selection gs s)"
  by (induction gs arbitrary: s) (simp_all add: end_selection_def ended_intros)

lemma ended_release: "ended x y s \<Longrightarrow> ended x y (snd (release_locks now ids s))"
  by (simp add: release_locks_def Let_def case_prod_beta ended_fold ended_intros end_selection_def)

lemma ended_close: "ended x y s \<Longrightarrow> ended x y (snd (close_transfer now s))"
  using ended_shutdown [of x y s now] by (simp add: close_transfer_def case_prod_beta ended_def)

lemma ended_capabilities: "ended x y s \<Longrightarrow> ended x y (snd (capabilities now a b c s))"
  using ended_shutdown [of x y s now] by (auto simp: capabilities_def Let_def case_prod_beta ended_def)

lemma ended_refuses:
  assumes "ended x y s"
  shows "snd (accept_for now max_entries expected files data_id s) = s" and "snd (size_call g i s) = s"
    and "snd (read_call ops mc g i pos wanted s) = s" and "on_response ops response s = s" and "timeout_expires sid s = s"
    and "reader_leaves sid s = s"
  using assms by (simp_all add: ended_def accept_for_def live_def size_call_def read_call_def servable_def on_response_def
      Let_def timeout_expires_def reader_leaves_def map_update_def)

lemma ended_step: "ended x y s \<Longrightarrow> ended x y (transfer_step ops now max_entries max_chunk s e)"
  by (cases e) (simp_all add: ended_refuses ended_close ended_capabilities ended_release ended_retire
      retire_generation_def case_prod_beta, simp add: ended_def)

text \<open>
  Closing the transfer is final: whatever happens afterwards, no selection can be read, no request
  is sent and no reader gets a further answer; every reader waiting at that moment is woken.\<close>

theorem close_is_final:
  assumes ops: "fetch_keeps_stream ops" and s: "s = transfer_run ops now max_entries max_chunk es"
    and s': "s' = transfer_run ops now max_entries max_chunk (es @ Close # later)"
  shows "with_tree g s' = None \<and> tf_pending s' = [] \<and> tf_sent s' = tf_sent s \<and>
    set (tf_answers s') = set (tf_answers s) \<union> {(sid, AnswerError) | sid p. (sid, p) \<in> set (tf_pending s) \<and> \<not> pd_answer_closed p}"
proof -
  let ?c = "snd (close_transfer now s)"
  have c: "ended (tf_sent s) (tf_answers ?c) ?c" "set (tf_answers ?c) = set (tf_answers s) \<union>
      {(sid, AnswerError) | sid p. (sid, p) \<in> set (tf_pending s) \<and> \<not> pd_answer_closed p}"
    by (auto simp: ended_def close_transfer_def shutdown_def Let_def case_prod_beta image_iff)
      (auto simp: drop_pending_def image_iff take_current_def bump_def split: option.splits)
  have "ended x y u \<Longrightarrow> ended x y (run_events (transfer_step ops now max_entries max_chunk) u later)" for x y u
    by (induction later arbitrary: u) (simp_all add: ended_step)
  then have "ended (tf_sent s) (tf_answers ?c) s'" using c(1) s s' by simp
  then show ?thesis using c(2) by (simp add: ended_def with_tree_def selection_of_def)
qed

lemma map_of_map_update: "map_of (map_update k g xs) k' = (if k' = k then map_option g (map_of xs k) else map_of xs k')"
  by (induction xs) (auto simp: map_update_def)

text \<open>
  The size a client answers is delivered to its reader and remembered: the next query for the same
  file is answered at once, with no further request.\<close>

theorem size_answer_remembered:
  assumes pend: "map_of (tf_pending s) sid = Some p" and open': "\<not> pd_answer_closed p" and op: "pd_operation p = OpSize inode"
    and sel: "selection_of s (pd_generation p) = Some sel" and nd: "node (sl_tree sel) inode = Some n" "rn_kind n = File ix"
    and rng: "inode \<noteq> root_inode" and fits: "tf_huge s \<or> le_value data \<le> u32_max" and len: "length data = 8"
    and s': "s' = on_response ops \<lparr>rs_stream = sid, rs_error = False, rs_data = data\<rparr> s"
  shows "tf_answers s' = tf_answers s @ [(sid, AnswerSize (le_value data))] \<and>
    size_call (pd_generation p) inode s' = (Immediate (le_value data), s')"
proof -
  let ?g = "pd_generation p" and ?v = "le_value data"
  let ?s1 = "s\<lparr>tf_pending := map_remove sid (tf_pending s)\<rparr>"
  let ?tree = "snd (set_size inode ?v (sl_tree sel))"
  have sel1: "selection_of ?s1 ?g = Some sel" using sel by (simp add: selection_of_def split: if_splits)
  obtain k where k: "node_offset (sl_tree sel) inode = Some k" "vec_get (tr_nodes (sl_tree sel)) k = Some n"
    using nd(1) rng by (auto simp: node_def split: option.splits)
  have set: "fst (set_size inode ?v (sl_tree sel))" "node ?tree inode = Some (n\<lparr>rn_size := Some ?v\<rparr>)"
    using k nd(2) rng by (auto simp: set_size_def node_def node_is_directory_def vec_get_def node_offset_def nth_update_node split: if_splits)
  obtain b s2 where store: "store_size ?g inode ?v ?s1 = (b, s2)" by fastforce
  have b: "b" and cur: "selection_of s2 ?g = Some (sel\<lparr>sl_tree := ?tree\<rparr>)" and f: "tf_huge s2 = tf_huge s" "tf_answers s2 = tf_answers s"
    "servable s2 ?g"
    using store sel1 set(1)
    by (auto simp: store_size_def selection_of_def servable_def Let_def map_of_map_update split: if_splits prod.splits)
  have s'2: "s' = deliver sid (AnswerSize ?v) s2"
    unfolding s' using pend open' op len fits store b by (auto simp: on_response_def Let_def)
  then show ?thesis
    using cur f set(2) fits by (auto simp: size_call_def deliver_def servable_def selection_of_def)
qed

text \<open>A fetch in one chunk and one shared file, for the examples.\<close>

definition whole_fetch :: "contents_request fetch_ops" where
  "whole_fetch =
     \<lparr>cf_new = \<lambda>sid index amount chunk data_id cap.
        \<lparr>rq_stream = sid, rq_index = index, rq_wants_size = False, rq_position = 0, rq_requested = amount, rq_data_id = data_id\<rparr>,
      cf_next_request = \<lambda>f. (Some f, f), cf_on_response = \<lambda>r f. (if rs_error r then FetchFailed else FetchComplete, f),
      cf_into_data = \<lambda>_. []\<rparr>"

abbreviation shared_file :: file_descriptor where
  "shared_file \<equiv> \<lparr>fd_name = ''a'', fd_relative_path = None, fd_directory = False, fd_read_only = False,
     fd_size = None, fd_last_write_time = None\<rparr>"

abbreviation shared_tree :: "nat \<Rightarrow> remote_tree" where
  "shared_tree base \<equiv> build 0 [shared_file] 10 base"

definition sharing :: "transfer_event list" where
  "sharing = [Capabilities True True True, Accept 1 [shared_file] (Some 7)]"

lemma whole_fetch_keeps: "fetch_keeps_stream whole_fetch"
  by (simp add: fetch_keeps_stream_def whole_fetch_def)

lemma shared_tree_nodes:
  assumes "2 \<le> base" and "base \<le> u64_max"
  shows "roots (shared_tree base) = [base]" and "next_base (shared_tree base) = min (base + 1) u64_max"
    and "node (shared_tree base) base = Some \<lparr>rn_name = ''a'', rn_parent = 1, rn_size = None, rn_modified = 0,
      rn_kind = File 0, rn_read_only = False, rn_children = []\<rparr>"
proof -
  have pc: "path_components shared_file = Some [''a'']"
    by (simp add: path_components_def is_separator_def usable_component_def max_directory_depth_def Let_def)
  show "roots (shared_tree base) = [base]" "next_base (shared_tree base) = min (base + 1) u64_max"
    "node (shared_tree base) base = Some \<lparr>rn_name = ''a'', rn_parent = 1, rn_size = None, rn_modified = 0,
      rn_kind = File 0, rn_read_only = False, rn_children = []\<rparr>"
    using assms
    by (simp_all add: build_def pc add_file_def insert_node_def node_lookup_def rooted_def is_full_def entries_def
        u64_checked_add_def i32_try_from_def root_inode_def update_node_def roots_def children_def node_def vec_get_def
        node_offset_def next_base_def u64_sat_add_def entry_node_def entry_of_def file_size_def Let_def)
qed

lemma empty_next_base: "next_base (sl_tree (empty_selection now)) = 2"
  by (simp add: empty_selection_def empty_tree_def rooted_def next_base_def entries_def u64_sat_add_def first_inode_def root_inode_def)

abbreviation after_sharing :: "contents_request transfer" where
  "after_sharing \<equiv> transfer_run whole_fetch 0 10 5 sharing"

lemma after_sharing_fields:
  "tf_generation after_sharing = 2" "\<not> tf_closed after_sharing" "tf_stream after_sharing" "tf_retiring after_sharing = []"
  "tf_pending after_sharing = []" "tf_current after_sharing = \<lparr>sl_tree = shared_tree 2, sl_data_id = Some 7\<rparr>"
  by (simp_all add: sharing_def capabilities_def shutdown_def transfer_new_def accept_for_def live_def retire_current_def
      drop_pending_def fail_pending_def bump_def take_current_def u64_checked_add_def empty_next_base Let_def)

theorem requests_bounded_witness: "length (tf_pending after_sharing) \<le> 64"
  using requests_bounded [OF whole_fetch_keeps refl, of 0 10 5 sharing] by (simp add: max_pending_def)

theorem retire_keeps_newest_four_witness:
  "tf_retiring (snd (retire_generation 0 after_sharing)) = [(2, \<lparr>sl_tree = shared_tree 2, sl_data_id = Some 7\<rparr>)]"
  using retire_keeps_newest_four [OF whole_fetch_keeps refl, of 0 10 5 sharing 0 _ _ _, OF _ _ _ _ refl]
    shared_tree_nodes(1) [of 2]
  by (cases "retire_generation 0 after_sharing") (fastforce simp: after_sharing_fields)

theorem released_lock_ends_selection_witness: "with_tree 2 (snd (release_locks 0 [7] after_sharing)) = None"
  using released_lock_ends_selection [OF whole_fetch_keeps refl, of 0 10 5 sharing 2 _ 0 "[7]"]
  by (cases "release_locks 0 [7] after_sharing") (simp add: selection_of_def after_sharing_fields covered_def)

theorem close_is_final_witness:
  "with_tree 2 (transfer_run whole_fetch 0 10 5 (sharing @ Close # [Retire])) = None"
  using close_is_final [OF whole_fetch_keeps refl refl, of 2 0 10 5 sharing "[Retire]"] by blast

lemma size_requested:
  "snd (size_call 2 2 after_sharing) = after_sharing\<lparr>tf_next_stream := Some 2,
     tf_sent := [\<lparr>rq_stream = 1, rq_index = 0, rq_wants_size = True, rq_position = 0, rq_requested = 8, rq_data_id = Some 7\<rparr>],
     tf_pending := [(1, \<lparr>pd_generation = 2, pd_operation = OpSize 2, pd_answer_closed = False, pd_reserved = 8\<rparr>)]\<rparr>"
  "tf_answers after_sharing = []"
proof -
  have more: "tf_next_stream after_sharing = Some 1" "tf_sent after_sharing = []" "tf_sender_open after_sharing"
    "tf_answers after_sharing = []" "tf_huge after_sharing"
    by (simp_all add: sharing_def capabilities_def shutdown_def transfer_new_def accept_for_def live_def retire_current_def
        drop_pending_def fail_pending_def bump_def take_current_def u64_checked_add_def empty_next_base Let_def)
  then show "tf_answers after_sharing = []" by simp
  show "snd (size_call 2 2 after_sharing) = after_sharing\<lparr>tf_next_stream := Some 2,
     tf_sent := [\<lparr>rq_stream = 1, rq_index = 0, rq_wants_size = True, rq_position = 0, rq_requested = 8, rq_data_id = Some 7\<rparr>],
     tf_pending := [(1, \<lparr>pd_generation = 2, pd_operation = OpSize 2, pd_answer_closed = False, pd_reserved = 8\<rparr>)]\<rparr>"
    using after_sharing_fields more shared_tree_nodes(3) [of 2]
    by (simp add: size_call_def servable_def selection_of_def allocate_def submit_def max_pending_def max_buffered_def
        u32_checked_add_def map_insert_def map_remove_def)
qed

theorem size_answer_remembered_witness:
  "tf_answers (on_response whole_fetch \<lparr>rs_stream = 1, rs_error = False, rs_data = [5, 0, 0, 0, 0, 0, 0, 0]\<rparr>
     (snd (size_call 2 2 after_sharing))) = [(1, AnswerSize 5)]"
  using size_answer_remembered [of "snd (size_call 2 2 after_sharing)" 1 _ 2 _ _ 0 "[5, 0, 0, 0, 0, 0, 0, 0]", OF _ _ _ _ _ _ _ _ _ refl]
    shared_tree_nodes(3) [of 2]
  by (simp add: size_requested selection_of_def after_sharing_fields root_inode_def)

text \<open>A second selection, published after the first.\<close>

abbreviation after_both :: "contents_request transfer" where
  "after_both \<equiv> transfer_run whole_fetch 0 10 5 (sharing @ [Accept 2 [shared_file] (Some 8)])"

lemma after_both_fields: "with_tree 2 after_both = Some (shared_tree 2)" "with_tree 3 after_both = Some (shared_tree 3)"
  "tf_next_base after_both = 4"
proof -
  have more: "tf_next_base after_sharing = 3" "tf_locking after_sharing"
    using shared_tree_nodes(2) [of 2]
    by (simp_all add: sharing_def capabilities_def shutdown_def transfer_new_def accept_for_def live_def retire_current_def
        drop_pending_def fail_pending_def bump_def take_current_def u64_checked_add_def empty_next_base Let_def)
  have run: "after_both = snd (accept_for 0 10 2 [shared_file] (Some 8) after_sharing)" by simp
  show "with_tree 2 after_both = Some (shared_tree 2)" "with_tree 3 after_both = Some (shared_tree 3)" "tf_next_base after_both = 4"
    unfolding run using after_sharing_fields more shared_tree_nodes(1,2) [of 2] shared_tree_nodes(2) [of 3]
    by (simp_all add: accept_for_def live_def retire_current_def take_current_def max_retiring_def bump_def
        u64_checked_add_def with_tree_def selection_of_def Let_def)
qed

theorem inodes_never_shared_witness: "node (shared_tree 3) 2 = None"
  using inodes_never_shared [OF whole_fetch_keeps refl _ after_both_fields(1,2), of 2] after_both_fields(3) shared_tree_nodes(3) [of 2]
  by (simp add: root_inode_def)

end
