(* ===== verification/Formats.thy ===== *)
theory Formats
  imports Machine
begin

unbundle bit_operations_syntax

text \<open>
  Clipboard formats (\<open>clipboard/formats.rs\<close>): MIME types, line endings, text decoding and the repair
  of device-independent bitmaps. A Rust string is the list of its UTF-8 bytes; a slice of a string
  panics when it does not start and end on a character boundary, so the two line-ending loops have
  the type \<open>run\<close>. MIME types are character lists.
\<close>

section \<open>Selections and MIME types\<close>

definition max_clipboard_size :: nat where
  "max_clipboard_size = 104857600"

definition text_mime :: string where
  "text_mime = ''text/plain;charset=utf-8''"

definition utf8_mime :: string where
  "utf8_mime = ''UTF8_STRING''"

definition text_plain_mime :: string where
  "text_plain_mime = ''text/plain''"

definition latin1_string_mime :: string where
  "latin1_string_mime = ''STRING''"

definition image_png_mime :: string where
  "image_png_mime = ''image/png''"

definition file_uri_list_mime :: string where
  "file_uri_list_mime = ''text/uri-list''"

definition gnome_copied_files_mime :: string where
  "gnome_copied_files_mime = ''x-special/gnome-copied-files''"

lemmas mime_defs = text_mime_def utf8_mime_def text_plain_mime_def latin1_string_mime_def image_png_mime_def
  file_uri_list_mime_def gnome_copied_files_mime_def

datatype selection_kind = Text | Image | Files

definition all_kinds :: "selection_kind list" where
  "all_kinds = [Text, Image, Files]"

definition remote_preference :: "selection_kind list" where
  "remote_preference = [Text, Image, Files]"

fun accepts_wayland_mime :: "selection_kind \<Rightarrow> string \<Rightarrow> bool" where
  "accepts_wayland_mime Text mime \<longleftrightarrow> mime = text_mime \<or> mime = utf8_mime \<or> mime = text_plain_mime"
| "accepts_wayland_mime Image mime \<longleftrightarrow> mime = image_png_mime"
| "accepts_wayland_mime Files mime \<longleftrightarrow> mime = file_uri_list_mime \<or> mime = gnome_copied_files_mime"

definition offered_wayland_mime :: "selection_kind \<Rightarrow> string list \<Rightarrow> string option" where
  "offered_wayland_mime kind mimes = (case find (accepts_wayland_mime kind) mimes of
     Some mime \<Rightarrow> Some mime
   | None \<Rightarrow> if kind = Text then find (\<lambda>mime. mime = latin1_string_mime) mimes else None)"

datatype pending_write =
    WriteText "byte list"
  | WriteImage "byte list"
  | WriteFiles (uri_list: "byte list") (gnome_copied_files: "byte list")

fun write_kind :: "pending_write \<Rightarrow> selection_kind" where
  "write_kind (WriteText _) = Text"
| "write_kind (WriteImage _) = Image"
| "write_kind (WriteFiles _ _) = Files"

fun data_for_mime :: "pending_write \<Rightarrow> string \<Rightarrow> byte list option" where
  "data_for_mime (WriteText data) mime = (if accepts_wayland_mime Text mime then Some data else None)"
| "data_for_mime (WriteImage data) mime = (if accepts_wayland_mime Image mime then Some data else None)"
| "data_for_mime (WriteFiles uris copied) mime =
     (if mime = file_uri_list_mime then Some uris
      else if mime = gnome_copied_files_mime then Some copied else None)"

section \<open>Line endings\<close>

text \<open>An inner position of a string is a character boundary unless a continuation byte is there.\<close>

definition continuation :: "byte \<Rightarrow> bool" where
  "continuation b \<longleftrightarrow> b AND 0xC0 = 0x80"

definition char_boundary :: "byte list \<Rightarrow> nat \<Rightarrow> bool" where
  "char_boundary text i \<longleftrightarrow> i = 0 \<or> i = length text \<or> (i < length text \<and> \<not> continuation (text ! i))"

definition str_slice :: "nat \<Rightarrow> nat \<Rightarrow> byte list \<Rightarrow> byte list run" where
  "str_slice s e text =
     (if s \<le> e \<and> e \<le> length text \<and> char_boundary text s \<and> char_boundary text e
      then Some (subslice s e text) else None)"

definition after_return :: "byte list \<Rightarrow> nat \<Rightarrow> nat" where
  "after_return text i = i + (if i + 1 < length text \<and> text ! (i + 1) = 10 then 1 else 0) + 1"

function normalize_loop :: "byte list \<Rightarrow> byte list \<Rightarrow> nat \<Rightarrow> nat \<Rightarrow> byte list run" where
  "normalize_loop text out s i =
     (if i < length text
      then if text ! i \<noteq> 13 then normalize_loop text out s (i + 1)
           else do {
             piece \<leftarrow> str_slice s i text;
             normalize_loop text (out @ piece @ [10]) (after_return text i) (after_return text i)
           }
      else do {
        piece \<leftarrow> str_slice s (length text) text;
        Some (out @ piece)
      })"
  by pat_completeness auto
termination
  by (relation "measure (\<lambda>(text, _, _, i). length text - i)") (auto simp: after_return_def)

definition normalize_lf :: "byte list \<Rightarrow> byte list run" where
  "normalize_lf text = normalize_loop text [] 0 0"

function crlf_loop :: "byte list \<Rightarrow> byte list \<Rightarrow> nat \<Rightarrow> nat \<Rightarrow> byte list run" where
  "crlf_loop text out s i =
     (if i < length text
      then if text ! i = 13 then do {
             piece \<leftarrow> str_slice s i text;
             crlf_loop text (out @ piece @ [13, 10]) (after_return text i) (after_return text i)
           }
           else if text ! i = 10 then do {
             piece \<leftarrow> str_slice s i text;
             crlf_loop text (out @ piece @ [13, 10]) (i + 1) (i + 1)
           }
           else crlf_loop text out s (i + 1)
      else do {
        piece \<leftarrow> str_slice s (length text) text;
        Some (out @ piece)
      })"
  by pat_completeness auto
termination
  by (relation "measure (\<lambda>(text, _, _, i). length text - i)") (auto simp: after_return_def)

definition to_crlf :: "byte list \<Rightarrow> byte list run" where
  "to_crlf text = crlf_loop text [] 0 0"

declare normalize_loop.simps [simp del] crlf_loop.simps [simp del]

section \<open>Bitmaps\<close>

fun le_bytes :: "byte list \<Rightarrow> nat" where
  "le_bytes [] = 0"
| "le_bytes (b # bs) = unat b + 256 * le_bytes bs"

definition fix_bitfields_dib :: "byte list \<Rightarrow> byte list option" where
  "fix_bitfields_dib data =
     (if length data < 52 then None
      else if le_bytes (subslice 0 4 data) \<noteq> 40 then None
      else if le_bytes (subslice 14 16 data) \<noteq> 32 then None
      else if le_bytes (subslice 16 20 data) \<noteq> 3 then None
      else Some (take 16 data @ [0, 0, 0, 0] @ subslice 20 40 data @ drop 52 data))"

section \<open>Text decoding\<close>

text \<open>\<open>as_chunks\<close> drops an odd last byte; \<open>from_utf16_lossy\<close> puts U+FFFD for an unpaired surrogate.\<close>

fun u16_units :: "byte list \<Rightarrow> nat list" where
  "u16_units (a # b # bs) = (unat a + 256 * unat b) # u16_units bs"
| "u16_units bs = []"

fun from_utf16_lossy :: "nat list \<Rightarrow> nat list" where
  "from_utf16_lossy [] = []"
| "from_utf16_lossy (u # us) =
     (if u < 0xD800 \<or> 0xDFFF < u then u # from_utf16_lossy us
      else if 0xDC00 \<le> u then 0xFFFD # from_utf16_lossy us
      else (case us of
          [] \<Rightarrow> [0xFFFD]
        | v # vs \<Rightarrow>
            if v < 0xDC00 \<or> 0xDFFF < v then 0xFFFD # from_utf16_lossy us
            else (0x10000 + (u - 0xD800) * 1024 + (v - 0xDC00)) # from_utf16_lossy vs))"

text \<open>The UTF-8 bytes of a scalar value (\<open>String::push\<close>).\<close>

definition utf8_char :: "nat \<Rightarrow> byte list" where
  "utf8_char c =
     (if c < 0x80 then [of_nat c]
      else if c < 0x800 then [of_nat (0xC0 + c div 64), of_nat (0x80 + c mod 64)]
      else if c < 0x10000
      then [of_nat (0xE0 + c div 4096), of_nat (0x80 + c div 64 mod 64), of_nat (0x80 + c mod 64)]
      else [of_nat (0xF0 + c div 262144), of_nat (0x80 + c div 4096 mod 64), of_nat (0x80 + c div 64 mod 64),
            of_nat (0x80 + c mod 64)])"

definition utf8 :: "nat list \<Rightarrow> byte list" where
  "utf8 cs = concat (map utf8_char cs)"

definition utf16le_to_utf8 :: "byte list \<Rightarrow> byte list" where
  "utf16le_to_utf8 data = utf8 (from_utf16_lossy (takeWhile (\<lambda>u. u \<noteq> 0) (u16_units data)))"

definition decode_wayland_text_offer :: "string \<Rightarrow> byte list \<Rightarrow> nat \<Rightarrow> byte list option" where
  "decode_wayland_text_offer mime bytes limit =
     (if length bytes > limit then None
      else if mime = text_mime \<or> mime = utf8_mime \<or> mime = text_plain_mime then Some bytes
      else if mime = latin1_string_mime
      then (let high_bytes = length (filter (\<lambda>b. 128 \<le> b) bytes) in
            case u64_checked_add (length bytes) high_bytes of
              None \<Rightarrow> None
            | Some output_len \<Rightarrow>
                if output_len > limit then None else Some (utf8 (map unat bytes)))
      else None)"

text \<open>
  \<open>String::from_utf8_lossy\<close>: valid sequences are copied, each maximal invalid prefix becomes U+FFFD.
  \<open>utf8_prefix\<close> gives the number of bytes looked at and whether they are a character.
\<close>

definition second_ok :: "byte \<Rightarrow> byte \<Rightarrow> bool" where
  "second_ok a b \<longleftrightarrow> continuation b \<and> (a = 0xE0 \<longrightarrow> 0xA0 \<le> b) \<and> (a = 0xED \<longrightarrow> b \<le> 0x9F) \<and>
     (a = 0xF0 \<longrightarrow> 0x90 \<le> b) \<and> (a = 0xF4 \<longrightarrow> b \<le> 0x8F)"

definition utf8_width :: "byte \<Rightarrow> nat" where
  "utf8_width a =
     (if a < 0x80 then 1 else if a < 0xC2 then 0 else if a < 0xE0 then 2 else if a < 0xF0 then 3
      else if a < 0xF5 then 4 else 0)"

fun continuations :: "nat \<Rightarrow> byte list \<Rightarrow> nat" where
  "continuations 0 bs = 0"
| "continuations (Suc n) [] = 0"
| "continuations (Suc n) (b # bs) = (if continuation b then Suc (continuations n bs) else 0)"

definition utf8_prefix :: "byte \<Rightarrow> byte list \<Rightarrow> nat \<times> bool" where
  "utf8_prefix a rest =
     (let width = utf8_width a in
      if width = 0 then (1, False)
      else if width = 1 then (1, True)
      else (case rest of
          [] \<Rightarrow> (1, False)
        | b # bs \<Rightarrow>
            if \<not> second_ok a b then (1, False)
            else (let more = continuations (width - 2) bs in (2 + more, 2 + more = width))))"

function from_utf8_lossy :: "byte list \<Rightarrow> byte list" where
  "from_utf8_lossy [] = []"
| "from_utf8_lossy (a # rest) =
     (let (n, valid) = utf8_prefix a rest
      in (if valid then take n (a # rest) else [0xEF, 0xBF, 0xBD]) @ from_utf8_lossy (drop (n - 1) rest))"
  by pat_completeness auto
termination
  by (relation "measure length") auto

section \<open>Character boundaries\<close>

lemma and_push_bit: "(n::nat) AND push_bit k m = push_bit k (drop_bit k n AND m)"
  by (rule bit_eqI) (auto simp: bit_simps)

lemma and_high_bits: "(n::nat) AND 192 = 64 * (n div 64 AND 3)"
  using and_push_bit [of n 6 3] by (simp add: push_bit_eq_mult drop_bit_eq_div mult.commute)

lemma continuation_iff: "continuation b \<longleftrightarrow> 128 \<le> unat b \<and> unat b < 192"
proof -
  have lt: "unat b < 256" using unsigned_less [of b] by simp
  have "b AND 0xC0 = 0x80 \<longleftrightarrow> unat (b AND 0xC0) = 128"
    by (simp add: word_unat_eq_iff)
  also have "unat (b AND 0xC0) = unat b AND 192" by (simp add: unsigned_and_eq)
  also have "unat b AND 192 = 128 \<longleftrightarrow> (unat b div 64) AND 3 = 2" unfolding and_high_bits by auto
  also have "(unat b div 64) AND 3 = unat b div 64"
  proof -
    have "unat b div 64 < 4" using lt by simp
    then have "take_bit 2 (unat b div 64) = unat b div 64" by (simp add: take_bit_nat_eq_self)
    then show ?thesis by (simp add: take_bit_eq_mask mask_numeral numeral_3_eq_3)
  qed
  finally show ?thesis unfolding continuation_def by auto
qed

lemma ascii_no_continuation: "b < 128 \<Longrightarrow> \<not> continuation b"
  by (simp add: continuation_iff word_less_nat_alt)

text \<open>What the loops need of a Rust string: after an ASCII byte a character starts.\<close>

fun str_ok :: "byte list \<Rightarrow> bool" where
  "str_ok (a # b # bs) \<longleftrightarrow> (a < 128 \<longrightarrow> \<not> continuation b) \<and> str_ok (b # bs)"
| "str_ok bs \<longleftrightarrow> True"

lemma str_ok_nth: "str_ok str \<Longrightarrow> Suc i < length str \<Longrightarrow> str ! i < 128 \<Longrightarrow> \<not> continuation (str ! Suc i)"
proof (induction str arbitrary: i rule: str_ok.induct)
  case (1 a b bs)
  then show ?case by (cases i) auto
qed auto

lemma boundary_after: "str_ok str \<Longrightarrow> i < length str \<Longrightarrow> str ! i < 128 \<Longrightarrow> char_boundary str (Suc i)"
  using str_ok_nth [of str i] by (cases "Suc i < length str") (auto simp: char_boundary_def)

lemma boundary_at: "i < length str \<Longrightarrow> str ! i < 128 \<Longrightarrow> char_boundary str i"
  by (simp add: char_boundary_def ascii_no_continuation)

lemma boundary_after_return:
  assumes "str_ok str" and "i < length str" and "str ! i = 13"
  shows "char_boundary str (after_return str i)" and "after_return str i \<le> length str"
  using assms boundary_after [of str i] boundary_after [of str "Suc i"] by (auto simp: after_return_def)

lemma subslice_snoc: "s \<le> i \<Longrightarrow> i < length xs \<Longrightarrow> subslice s (Suc i) xs = subslice s i xs @ [xs ! i]"
  by (simp add: subslice_def Suc_diff_le take_Suc_conv_app_nth)

lemma subslice_empty [simp]: "subslice s s xs = []"
  by (simp add: subslice_def)

section \<open>Line endings: the loops against a recursive definition\<close>

fun lf_lines :: "byte list \<Rightarrow> byte list" where
  "lf_lines [] = []"
| "lf_lines [a] = [if a = 13 then 10 else a]"
| "lf_lines (a # b # bs) =
     (if a = 13 then 10 # (if b = 10 then lf_lines bs else lf_lines (b # bs)) else a # lf_lines (b # bs))"

fun crlf_lines :: "byte list \<Rightarrow> byte list" where
  "crlf_lines [] = []"
| "crlf_lines [a] = (if a = 13 \<or> a = 10 then [13, 10] else [a])"
| "crlf_lines (a # b # bs) =
     (if a = 13 then 13 # 10 # (if b = 10 then crlf_lines bs else crlf_lines (b # bs))
      else if a = 10 then 13 # 10 # crlf_lines (b # bs)
      else a # crlf_lines (b # bs))"

lemma lines_plain:
  "a \<noteq> 13 \<Longrightarrow> lf_lines (a # bs) = a # lf_lines bs"
  "a \<noteq> 13 \<Longrightarrow> a \<noteq> 10 \<Longrightarrow> crlf_lines (a # bs) = a # crlf_lines bs"
  "crlf_lines (10 # bs) = 13 # 10 # crlf_lines bs"
  by (cases bs; simp)+

lemma lines_return:
  assumes "i < length str" and "str ! i = 13"
  shows "lf_lines (drop i str) = 10 # lf_lines (drop (after_return str i) str)"
    and "crlf_lines (drop i str) = 13 # 10 # crlf_lines (drop (after_return str i) str)"
proof -
  have 1: "drop i str = 13 # drop (Suc i) str" using assms by (metis Cons_nth_drop_Suc)
  have "lf_lines (drop i str) = 10 # lf_lines (drop (after_return str i) str) \<and>
    crlf_lines (drop i str) = 13 # 10 # crlf_lines (drop (after_return str i) str)"
  proof (cases "Suc i < length str")
    case True
    then have 2: "drop (Suc i) str = str ! Suc i # drop (Suc (Suc i)) str" by (metis Cons_nth_drop_Suc)
    show ?thesis using True by (simp add: 1 2 after_return_def)
  next
    case False
    then show ?thesis by (simp add: 1 after_return_def)
  qed
  then show "lf_lines (drop i str) = 10 # lf_lines (drop (after_return str i) str)"
    "crlf_lines (drop i str) = 13 # 10 # crlf_lines (drop (after_return str i) str)" by simp_all
qed

lemma normalize_loop_eq:
  "str_ok str \<Longrightarrow> s \<le> i \<Longrightarrow> i \<le> length str \<Longrightarrow> char_boundary str s \<Longrightarrow>
   normalize_loop str out s i = Some (out @ subslice s i str @ lf_lines (drop i str))"
proof (induction str out s i rule: normalize_loop.induct)
  case (1 str out s i)
  show ?case
  proof (cases "i < length str")
    case False
    with 1(4,5,6) have "i = length str" by simp
    then show ?thesis using 1(4,6) by (simp add: normalize_loop.simps [of str] str_slice_def char_boundary_def)
  next
    case lt: True
    show ?thesis
    proof (cases "str ! i = 13")
      case False
      have "drop i str = str ! i # drop (Suc i) str" using lt by (metis Cons_nth_drop_Suc)
      then show ?thesis
        using 1(1) [OF lt False] 1(3-6) lt False
        by (simp add: normalize_loop.simps [of str out s i] subslice_snoc lines_plain)
    next
      case True
      let ?j = "after_return str i"
      have slice: "str_slice s i str = Some (subslice s i str)"
        using 1(4,6) lt True boundary_at [of i str] by (simp add: str_slice_def)
      have "\<not> str ! i \<noteq> 13" using True by simp
      from 1(2) [OF lt this slice] boundary_after_return [OF 1(3) lt True] 1(3)
      have "normalize_loop str (out @ subslice s i str @ [10]) ?j ?j =
          Some (out @ subslice s i str @ [10] @ lf_lines (drop ?j str))" by simp
      then show ?thesis
        using lt True slice lines_return(1) [OF lt True] by (simp add: normalize_loop.simps [of str out s i])
    qed
  qed
qed

lemma crlf_loop_eq:
  "str_ok str \<Longrightarrow> s \<le> i \<Longrightarrow> i \<le> length str \<Longrightarrow> char_boundary str s \<Longrightarrow>
   crlf_loop str out s i = Some (out @ subslice s i str @ crlf_lines (drop i str))"
proof (induction str out s i rule: crlf_loop.induct)
  case (1 str out s i)
  show ?case
  proof (cases "i < length str")
    case False
    with 1(5,6,7) have "i = length str" by simp
    then show ?thesis using 1(5,7) by (simp add: crlf_loop.simps [of str] str_slice_def char_boundary_def)
  next
    case lt: True
    have here: "drop i str = str ! i # drop (Suc i) str" using lt by (metis Cons_nth_drop_Suc)
    have slice: "str_slice s i str = Some (subslice s i str)" if "str ! i < 128"
      using 1(5,7) lt that boundary_at [of i str] by (simp add: str_slice_def)
    consider "str ! i = 13" | "str ! i = 10" | "str ! i \<noteq> 13" "str ! i \<noteq> 10" by blast
    then show ?thesis
    proof cases
      case ret: 1
      show ?thesis
        using 1(1) [OF lt ret, of "subslice s i str"] boundary_after_return [OF 1(4) lt ret] 1(4) lt ret slice
          lines_return(2) [OF lt ret]
        by (simp add: crlf_loop.simps [of str out s i])
    next
      case 2
      then have "\<not> str ! i = 13" by simp
      from 1(2) [OF lt this 2, of "subslice s i str"] boundary_after [OF 1(4) lt] 1(4) lt 2 slice
      show ?thesis by (simp add: crlf_loop.simps [of str out s i] here lines_plain)
    next
      case 3
      from 1(3) [OF lt 3] 1(4-7) lt 3
      show ?thesis by (simp add: crlf_loop.simps [of str out s i] subslice_snoc lines_plain here)
    qed
  qed
qed

lemma normalize_lf_eq: "str_ok str \<Longrightarrow> normalize_lf str = Some (lf_lines str)"
  using normalize_loop_eq [of str 0 0 "[]"] by (simp add: normalize_lf_def char_boundary_def)

lemma to_crlf_eq: "str_ok str \<Longrightarrow> to_crlf str = Some (crlf_lines str)"
  using crlf_loop_eq [of str 0 0 "[]"] by (simp add: to_crlf_def char_boundary_def)

lemma lf_of_crlf: "lf_lines (crlf_lines str) = lf_lines str"
  by (induction str rule: crlf_lines.induct) (auto simp: lines_plain)

lemma lf_no_return: "13 \<notin> set (lf_lines str)"
  by (induction str rule: lf_lines.induct) auto

lemma lf_fixed: "13 \<notin> set str \<Longrightarrow> lf_lines str = str"
  by (induction str rule: lf_lines.induct) auto

section \<open>Encodings\<close>

definition scalar :: "nat \<Rightarrow> bool" where
  "scalar c \<longleftrightarrow> c < 0xD800 \<or> (0xE000 \<le> c \<and> c < 0x110000)"

definition utf16_char :: "nat \<Rightarrow> nat list" where
  "utf16_char c = (if c < 0x10000 then [c] else [0xD800 + (c - 0x10000) div 1024, 0xDC00 + (c - 0x10000) mod 1024])"

definition utf16le :: "nat list \<Rightarrow> byte list" where
  "utf16le cs = concat (map (\<lambda>u. [of_nat (u mod 256), of_nat (u div 256)]) (concat (map utf16_char cs)))"

lemma unat_byte: "n < 256 \<Longrightarrow> unat (of_nat n :: byte) = n"
  by (simp add: unsigned_of_nat take_bit_nat_eq_self)

lemma continuation_byte: "m < 64 \<Longrightarrow> continuation (of_nat (128 + m))"
  using unat_byte [of "128 + m"] by (simp only: continuation_iff) simp

lemma lead_byte: "192 \<le> n \<Longrightarrow> n < 256 \<Longrightarrow> \<not> continuation (of_nat n) \<and> \<not> (of_nat n :: byte) < 128"
  by (simp add: continuation_iff unat_byte word_less_nat_alt)

lemma str_ok_append: "str_ok xs \<Longrightarrow> str_ok ys \<Longrightarrow> ys = [] \<or> \<not> continuation (hd ys) \<Longrightarrow> str_ok (xs @ ys)"
proof (induction xs)
  case (Cons a xs)
  then show ?case by (cases xs; cases ys) auto
qed auto

lemma utf8_char_shape:
  assumes "c < 0x110000"
  shows "utf8_char c \<noteq> []" and "\<not> continuation (hd (utf8_char c))" and "str_ok (utf8_char c)"
proof -
  have b: "c div 4096 < 16" if "c < 0x10000" using that by simp
  have d: "c div 262144 < 5" using assms by simp
  show "utf8_char c \<noteq> []" by (simp add: utf8_char_def)
  show "\<not> continuation (hd (utf8_char c))"
    using b d lead_byte [of "192 + c div 64"] lead_byte [of "224 + c div 4096"] lead_byte [of "240 + c div 262144"]
    by (auto simp: utf8_char_def continuation_iff unat_byte simp del: of_nat_add)
  show "str_ok (utf8_char c)"
    using b d lead_byte [of "192 + c div 64"] lead_byte [of "224 + c div 4096"] lead_byte [of "240 + c div 262144"]
      continuation_byte [of "c mod 64"] continuation_byte [of "c div 64 mod 64"] continuation_byte [of "c div 4096 mod 64"]
    by (auto simp: utf8_char_def word_less_nat_alt continuation_iff simp del: of_nat_add)
qed

lemma utf8_Cons [simp]: "utf8 [] = []" "utf8 (c # cs) = utf8_char c @ utf8 cs"
  by (simp_all add: utf8_def)

lemma scalar_bound: "scalar c \<Longrightarrow> c < 0x110000"
  by (auto simp: scalar_def)

lemma utf8_ok: "list_all scalar cs \<Longrightarrow> str_ok (utf8 cs) \<and> (utf8 cs = [] \<or> \<not> continuation (hd (utf8 cs)))"
proof (induction cs)
  case (Cons c cs)
  then show ?case using utf8_char_shape [of c] scalar_bound [of c] by (auto intro: str_ok_append)
qed simp

text \<open>The bytes of a text stay a text when its line endings are rewritten.\<close>

lemma crlf_hd: "t \<noteq> [] \<Longrightarrow> hd (crlf_lines t) = (if hd t = 10 then 13 else hd t)"
  by (cases t rule: crlf_lines.cases) auto

lemma crlf_ok: "str_ok t \<Longrightarrow> str_ok (crlf_lines t)"
proof (induction t rule: crlf_lines.induct)
  case (3 a b bs)
  have nb: "crlf_lines (b # bs) \<noteq> []" "hd (crlf_lines (b # bs)) = (if b = 10 then 13 else b)"
    using crlf_hd [of "b # bs"] by (cases bs; simp)+
  then obtain x xs where x: "crlf_lines (b # bs) = x # xs" "x = (if b = 10 then 13 else b)" by (cases "crlf_lines (b # bs)") auto
  have bs: "str_ok (13 # 10 # crlf_lines bs)" if "b = 10" "str_ok (crlf_lines bs)"
  proof (cases bs)
    case Nil
    then show ?thesis using ascii_no_continuation [of 10] by simp
  next
    case (Cons c cs)
    then have "crlf_lines bs \<noteq> []" "hd (crlf_lines bs) = (if c = 10 then 13 else c)" using crlf_hd [of bs] by (cases cs; simp)+
    moreover have "\<not> continuation c" using 3(5) that Cons by simp
    ultimately show ?thesis using that ascii_no_continuation [of 10] ascii_no_continuation [of 13]
      by (cases "crlf_lines bs") auto
  qed
  show ?case
  proof (cases "a = 13")
    case True
    have "str_ok bs" if "b = 10" using 3(5) by (cases bs) auto
    moreover have "\<not> continuation b" using 3(5) True by simp
    ultimately show ?thesis using True bs 3(1,2) 3(5) x ascii_no_continuation [of 10] by auto
  next
    case False
    have "a < 128 \<longrightarrow> \<not> continuation x" using 3(5) x(2) ascii_no_continuation [of 13] by auto
    moreover have "str_ok (x # xs)" using 3(3,4) False x(1) 3(5) by (cases "a = 10") auto
    ultimately show ?thesis using False x ascii_no_continuation [of 10] 3(5) by auto
  qed
qed (auto simp: ascii_no_continuation)

text \<open>Decoding.\<close>

lemma u16_units_le: "list_all (\<lambda>u. u < 65536) us \<Longrightarrow>
    u16_units (concat (map (\<lambda>u. [of_nat (u mod 256), of_nat (u div 256)]) us) @ rest) = us @ u16_units rest"
proof (induction us)
  case (Cons u us)
  then have "u < 65536" by simp
  then have "u div 256 < 256" by simp
  then show ?case using Cons by (simp add: unat_byte)
qed simp

lemma utf16_char_units: "scalar c \<Longrightarrow> list_all (\<lambda>u. u < 65536) (utf16_char c)"
  by (auto simp: utf16_char_def scalar_def)

lemma utf16_char_zero: "0 \<in> set (utf16_char c) \<longleftrightarrow> c = 0"
  by (auto simp: utf16_char_def)

lemma from_utf16_char:
  assumes "scalar c"
  shows "from_utf16_lossy (utf16_char c @ us) = c # from_utf16_lossy us"
proof (cases "c < 0x10000")
  case True
  then show ?thesis using assms by (auto simp: utf16_char_def scalar_def)
next
  case False
  let ?d = "c - 0x10000"
  have lt: "?d div 1024 < 1024" "?d mod 1024 < 1024" "65536 + (?d div 1024) * 1024 + ?d mod 1024 = c"
    using assms False by (auto simp: scalar_def)
  then show ?thesis using False by (simp add: utf16_char_def)
qed

lemma from_utf16_chars: "list_all scalar cs \<Longrightarrow> from_utf16_lossy (concat (map utf16_char cs)) = cs"
  by (induction cs) (simp_all add: from_utf16_char)

text \<open>Lossy UTF-8 decoding keeps a valid text.\<close>

lemma second_bytes:
  assumes "scalar c" and "0x800 \<le> c"
  shows "c < 0x10000 \<Longrightarrow> second_ok (of_nat (224 + c div 4096)) (of_nat (128 + c div 64 mod 64))"
    and "0x10000 \<le> c \<Longrightarrow> second_ok (of_nat (240 + c div 262144)) (of_nat (128 + c div 4096 mod 64))"
proof -
  have byte_eq: "(of_nat n :: byte) = of_nat k \<longleftrightarrow> n = k" if "n < 256" "k < 256" for n k
    using that unat_byte [of n] unat_byte [of k] by metis
  show "second_ok (of_nat (224 + c div 4096)) (of_nat (128 + c div 64 mod 64))" if lt: "c < 0x10000"
  proof -
    have n: "224 + c div 4096 < 256" using lt by simp
    have split: "c div 64 = c div 4096 * 64 + c div 64 mod 64"
      using div_mult_mod_eq [of "c div 64" 64] by (simp add: div_mult2_eq [symmetric])
    have "c div 64 < 864" if "c < 55296" using that by simp
    then have e: "224 + c div 4096 = 224 \<longrightarrow> 32 \<le> c div 64 mod 64" "224 + c div 4096 = 237 \<longrightarrow> c div 64 mod 64 \<le> 31"
      using assms split by (auto simp: scalar_def)
    show ?thesis
      unfolding second_ok_def using continuation_byte [of "c div 64 mod 64"] e
        byte_eq [OF n, of 224] byte_eq [OF n, of 237] byte_eq [OF n, of 240] byte_eq [OF n, of 244] lt
      by (simp add: word_le_nat_alt unat_byte del: of_nat_add)
  qed
  show "second_ok (of_nat (240 + c div 262144)) (of_nat (128 + c div 4096 mod 64))" if ge: "0x10000 \<le> c"
  proof -
    have c: "c < 0x110000" using assms(1) by (rule scalar_bound)
    have n: "240 + c div 262144 < 256" using c by simp
    have split: "c div 4096 = c div 262144 * 64 + c div 4096 mod 64"
      using div_mult_mod_eq [of "c div 4096" 64] by (simp add: div_mult2_eq [symmetric])
    have "c div 4096 < 272" using c by simp
    then have e: "240 + c div 262144 = 240 \<longrightarrow> 16 \<le> c div 4096 mod 64" "240 + c div 262144 = 244 \<longrightarrow> c div 4096 mod 64 \<le> 15"
      using ge split by auto
    show ?thesis
      unfolding second_ok_def using continuation_byte [of "c div 4096 mod 64"] e
        byte_eq [OF n, of 224] byte_eq [OF n, of 237] byte_eq [OF n, of 240] byte_eq [OF n, of 244]
      by (simp add: word_le_nat_alt unat_byte del: of_nat_add)
  qed
qed

lemma lossy_step: "utf8_prefix a rest = (Suc n, True) \<Longrightarrow>
    from_utf8_lossy (a # rest) = a # take n rest @ from_utf8_lossy (drop n rest)"
  by simp

lemma utf8_widths:
  "n < 128 \<Longrightarrow> utf8_width (of_nat n) = 1" "194 \<le> n \<Longrightarrow> n < 224 \<Longrightarrow> utf8_width (of_nat n) = 2"
  "224 \<le> n \<Longrightarrow> n < 240 \<Longrightarrow> utf8_width (of_nat n) = 3" "240 \<le> n \<Longrightarrow> n < 245 \<Longrightarrow> utf8_width (of_nat n) = 4"
  by (simp_all add: utf8_width_def word_less_nat_alt unat_byte)

lemma lossy_char:
  assumes c: "scalar c"
  shows "from_utf8_lossy (utf8_char c @ bs) = utf8_char c @ from_utf8_lossy bs"
proof -
  have bound: "c < 0x110000" using c by (rule scalar_bound)
  consider "c < 0x80" | "0x80 \<le> c" "c < 0x800" | "0x800 \<le> c" "c < 0x10000" | "0x10000 \<le> c" by linarith
  then show ?thesis
  proof cases
    case 1
    then have "utf8_prefix (of_nat c) bs = (Suc 0, True)" by (simp add: utf8_prefix_def utf8_widths)
    from lossy_step [OF this] show ?thesis using 1 by (simp add: utf8_char_def)
  next
    case 2
    let ?a = "of_nat (192 + c div 64) :: byte" and ?b = "of_nat (128 + c mod 64) :: byte"
    have w: "utf8_width ?a = 2" using 2 by (intro utf8_widths) auto
    have u: "unat ?a = 192 + c div 64" using 2 by (intro unat_byte) simp
    have "second_ok ?a ?b"
      unfolding second_ok_def using continuation_byte [of "c mod 64"] u 2 by (auto simp: word_unat_eq_iff simp del: of_nat_add)
    with w have "utf8_prefix ?a (?b # bs) = (Suc 1, True)" by (simp add: utf8_prefix_def del: of_nat_add)
    from lossy_step [OF this] show ?thesis using 2 by (simp add: utf8_char_def del: of_nat_add)
  next
    case 3
    let ?a = "of_nat (224 + c div 4096) :: byte" and ?b = "of_nat (128 + c div 64 mod 64) :: byte"
      and ?d = "of_nat (128 + c mod 64) :: byte"
    have w: "utf8_width ?a = 3" using 3 by (intro utf8_widths) auto
    have "utf8_prefix ?a (?b # ?d # bs) = (Suc 2, True)"
      using second_bytes(1) [OF c 3] continuation_byte [of "c mod 64"] w
      by (simp add: utf8_prefix_def numeral_2_eq_2 del: of_nat_add)
    from lossy_step [OF this] show ?thesis using 3 by (simp add: utf8_char_def del: of_nat_add)
  next
    case 4
    let ?a = "of_nat (240 + c div 262144) :: byte" and ?b = "of_nat (128 + c div 4096 mod 64) :: byte"
      and ?d = "of_nat (128 + c div 64 mod 64) :: byte" and ?e = "of_nat (128 + c mod 64) :: byte"
    have w: "utf8_width ?a = 4" using 4 bound by (intro utf8_widths) auto
    have "utf8_prefix ?a (?b # ?d # ?e # bs) = (Suc 3, True)"
      using second_bytes(2) [OF c _ 4] 4 continuation_byte [of "c mod 64"] continuation_byte [of "c div 64 mod 64"] w
      by (simp add: utf8_prefix_def numeral_2_eq_2 del: of_nat_add)
    from lossy_step [OF this] show ?thesis using 4 by (simp add: utf8_char_def del: of_nat_add)
  qed
qed

lemma from_utf8_lossy_text: "list_all scalar cs \<Longrightarrow> from_utf8_lossy (utf8 cs) = utf8 cs"
  by (induction cs) (simp_all add: lossy_char)

lemma length_latin1: "length (utf8 (map unat bs)) = length bs + length (filter (\<lambda>b. 128 \<le> b) (bs :: byte list))"
proof (induction bs)
  case (Cons b bs)
  have "unat b < 256" using unsigned_less [of b] by simp
  then show ?case using Cons by (simp add: utf8_char_def word_le_nat_alt)
qed simp

lemma takeWhile_terminator: "0 \<notin> set us \<Longrightarrow> takeWhile (\<lambda>u. u \<noteq> (0 :: nat)) (us @ 0 # vs) = us"
  by (induction us) auto

section \<open>Decoded text is well formed\<close>

lemma u16_units_bound: "list_all (\<lambda>u. u < 65536) (u16_units bs)"
proof (induction bs rule: u16_units.induct)
  case (1 a b bs)
  have "unat a < 256" "unat b < 256" using unsigned_less [of a] unsigned_less [of b] by simp_all
  then show ?case using 1 by simp
qed simp_all

lemma from_utf16_scalar: "list_all (\<lambda>u. u < 65536) us \<Longrightarrow> list_all scalar (from_utf16_lossy us)"
proof (induction us rule: from_utf16_lossy.induct)
  case (2 u us)
  have bad: "scalar 0xFFFD" by (simp add: scalar_def)
  show ?case
  proof (cases "u < 0xD800 \<or> 0xDFFF < u")
    case True
    then have "scalar u" using "2.prems" by (auto simp: scalar_def)
    then show ?thesis using 2 True by simp
  next
    case surrogate: False
    show ?thesis
    proof (cases "0xDC00 \<le> u \<or> us = []")
      case True
      then show ?thesis using 2 surrogate bad by auto
    next
      case False
      then obtain v vs where us: "us = v # vs" and high: "u < 0xDC00" by (cases us) auto
      show ?thesis
      proof (cases "v < 0xDC00 \<or> 0xDFFF < v")
        case True
        then show ?thesis using 2 surrogate high us bad by simp
      next
        case low: False
        have "u - 0xD800 \<le> 1023" using high by simp
        then have "(u - 0xD800) * 1024 \<le> 1023 * 1024" by (rule mult_le_mono1)
        then have "0x10000 + (u - 0xD800) * 1024 + (v - 0xDC00) < 0x110000" using low by simp
        then have "scalar (0x10000 + (u - 0xD800) * 1024 + (v - 0xDC00))" by (simp add: scalar_def)
        then show ?thesis using 2 surrogate high us low by simp
      qed
    qed
  qed
qed simp

lemma utf16le_str_ok: "str_ok (utf16le_to_utf8 data)"
proof -
  have "list_all (\<lambda>u. u < 65536) (takeWhile (\<lambda>u. u \<noteq> 0) (u16_units data))"
    using u16_units_bound [of data] by (auto simp: list_all_iff dest: set_takeWhileD)
  from from_utf16_scalar [OF this] show ?thesis using utf8_ok by (simp add: utf16le_to_utf8_def)
qed

lemma str_ok_high: "list_all (\<lambda>b. \<not> b < 128) bs \<Longrightarrow> str_ok bs"
  by (induction bs rule: str_ok.induct) auto

lemma continuation_high: "continuation b \<Longrightarrow> \<not> b < 128"
  by (simp add: continuation_iff word_less_nat_alt)

lemma continuations_prefix: "list_all continuation (take (continuations n bs) bs)"
  by (induction n bs rule: continuations.induct) auto

text \<open>A valid sequence is one ASCII byte or bytes beyond ASCII of which the first starts a character.\<close>

lemma utf8_prefix_shape:
  assumes "utf8_prefix a rest = (n, True)"
  shows "0 < n" and "str_ok (take n (a # rest))" and "\<not> continuation a"
proof -
  show "0 < n" using assms by (auto simp: utf8_prefix_def Let_def split: if_splits list.splits)
  have "unat a < 128 \<or> 192 \<le> unat a"
    using assms by (auto simp: utf8_prefix_def utf8_width_def word_less_nat_alt Let_def split: if_splits)
  then show "\<not> continuation a" by (auto simp: continuation_iff)
  show "str_ok (take n (a # rest))"
  proof (cases "utf8_width a = 1")
    case True
    then have "n = 1" using assms by (simp add: utf8_prefix_def)
    then show ?thesis by simp
  next
    case False
    then obtain b bs where rest: "rest = b # bs" and ok: "second_ok a b" and n: "n = 2 + continuations (utf8_width a - 2) bs"
      using assms by (auto simp: utf8_prefix_def Let_def split: if_splits list.splits)
    have "\<not> a < 128" using False assms by (auto simp: utf8_prefix_def utf8_width_def Let_def split: if_splits)
    moreover have "list_all (\<lambda>b. \<not> b < 128) (take (n - 1) (b # bs))"
      using ok n continuations_prefix [of "utf8_width a - 2" bs] continuation_high
      by (auto simp: second_ok_def list_all_iff)
    ultimately show ?thesis using n by (intro str_ok_high) (simp add: rest)
  qed
qed

lemma lossy_str_ok: "str_ok (from_utf8_lossy bs) \<and> (from_utf8_lossy bs = [] \<or> \<not> continuation (hd (from_utf8_lossy bs)))"
proof (induction bs rule: from_utf8_lossy.induct)
  case (2 a rest)
  obtain n valid where prefix: "utf8_prefix a rest = (n, valid)" by fastforce
  let ?piece = "if valid then take n (a # rest) else [0xEF, 0xBF, 0xBD]" and ?more = "from_utf8_lossy (drop (n - 1) rest)"
  have more: "str_ok ?more" "?more = [] \<or> \<not> continuation (hd ?more)" using "2.IH" [OF refl prefix [symmetric]] prefix by auto
  have piece: "str_ok ?piece \<and> ?piece \<noteq> [] \<and> \<not> continuation (hd ?piece)"
  proof (cases valid)
    case True
    then show ?thesis using utf8_prefix_shape [of a rest n] prefix by (cases n) auto
  next
    case False
    then show ?thesis by (simp add: continuation_def)
  qed
  then have "str_ok (?piece @ ?more)" using more by (intro str_ok_append) auto
  then show ?case using piece by (simp add: prefix)
qed simp

section \<open>Properties\<close>

text \<open>
  C37: Rewriting the line endings of a text never slices a character and equals the recursive definition;
  the LF form has no carriage return, the CRLF form read back gives the LF form again, and a text
  without carriage returns survives the trip unchanged.\<close>

theorem line_endings_roundtrip:
  assumes "list_all scalar cs" and "str = utf8 cs"
  shows "normalize_lf str = Some (lf_lines str) \<and> to_crlf str = Some (crlf_lines str) \<and> 13 \<notin> set (lf_lines str) \<and>
    Option.bind (to_crlf str) normalize_lf = normalize_lf str \<and>
    (13 \<notin> set str \<longrightarrow> Option.bind (to_crlf str) normalize_lf = Some str)"
  using utf8_ok [OF assms(1)] normalize_lf_eq [of "crlf_lines str"] crlf_ok [of str]
  by (simp add: assms(2) normalize_lf_eq to_crlf_eq lf_of_crlf lf_no_return lf_fixed)

theorem line_endings_roundtrip_witness: "Option.bind (to_crlf (utf8 [97, 10, 0x20AC])) normalize_lf = Some (utf8 [97, 10, 0x20AC])"
proof -
  have "list_all scalar [97, 10, 0x20AC]" by (simp add: scalar_def)
  note line_endings_roundtrip [OF this refl]
  moreover have "13 \<notin> set (utf8 [97, 10, 0x20AC])" by (simp add: utf8_char_def)
  ultimately show ?thesis by blast
qed

text \<open>
  C38: The text of a client, in UTF-16 with a terminator and anything after it, is decoded to exactly its
  characters, and the bytes stored for it are a fixed point of the lossy decoding.\<close>

theorem client_text_roundtrip:
  assumes "list_all scalar cs" and "0 \<notin> set cs"
  shows "utf16le_to_utf8 (utf16le cs @ [0, 0] @ junk) = utf8 cs \<and> from_utf8_lossy (utf8 cs) = utf8 cs"
proof -
  let ?us = "concat (map utf16_char cs)"
  have "list_all (\<lambda>u. u < 65536) ?us" using assms(1) utf16_char_units by (induction cs) auto
  then have "u16_units (utf16le cs @ [0, 0] @ junk) = ?us @ 0 # u16_units junk"
    unfolding utf16le_def by (simp add: u16_units_le)
  moreover have "0 \<notin> set ?us" using assms(2) by (induction cs) (auto simp: utf16_char_zero)
  ultimately have "takeWhile (\<lambda>u. u \<noteq> 0) (u16_units (utf16le cs @ [0, 0] @ junk)) = ?us"
    using takeWhile_terminator by presburger
  then show ?thesis
    using assms(1) by (simp only: utf16le_to_utf8_def from_utf16_chars from_utf8_lossy_text)
qed

theorem client_text_roundtrip_witness: "utf16le_to_utf8 (utf16le [97, 0x1F600] @ [0, 0] @ [1]) = utf8 [97, 0x1F600]"
  using client_text_roundtrip [of "[97, 0x1F600]" "[1]"] by (simp add: scalar_def)

text \<open>
  A text offer is converted exactly when its MIME type is known and the converted text fits the
  limit: UTF-8 text is passed through, Latin-1 text becomes the UTF-8 of the same characters.\<close>

theorem text_offer_decoded:
  assumes "limit \<le> u64_max"
  shows "decode_wayland_text_offer mime bytes limit =
    (if mime \<in> {text_mime, utf8_mime, text_plain_mime} \<and> length bytes \<le> limit then Some bytes
     else if mime = latin1_string_mime \<and> length (utf8 (map unat bytes)) \<le> limit then Some (utf8 (map unat bytes))
     else None)"
  using assms length_latin1 [of bytes]
  by (auto simp: decode_wayland_text_offer_def mime_defs u64_checked_add_def Let_def split: option.splits)

theorem text_offer_decoded_witness: "decode_wayland_text_offer latin1_string_mime [0xE9] 2 = Some [0xC3, 0xA9]"
  using text_offer_decoded [of 2 latin1_string_mime "[0xE9]"] by (simp add: mime_defs utf8_char_def)

text \<open>
  A bitmap repaired from BI_BITFIELDS keeps its header and its pixels, loses exactly the three colour
  masks, and is not repaired a second time.\<close>

theorem bitfields_repaired:
  assumes "fix_bitfields_dib data = Some fixed"
  shows "length fixed + 12 = length data \<and> (\<forall>i<40. fixed ! i = (if 16 \<le> i \<and> i < 20 then 0 else data ! i)) \<and>
    drop 40 fixed = drop 52 data \<and> fix_bitfields_dib fixed = None"
proof -
  have len: "52 \<le> length data" and fixed: "fixed = take 16 data @ [0, 0, 0, 0] @ subslice 20 40 data @ drop 52 data"
    using assms by (auto simp: fix_bitfields_dib_def split: if_splits)
  have zeros: "[0, 0, 0, 0] = replicate 4 (0 :: byte)" by (simp add: numeral_eq_Suc)
  have nth: "fixed ! i = (if 16 \<le> i \<and> i < 20 then 0 else data ! i)" if "i < 40" for i
    using len that unfolding fixed zeros by (auto simp: nth_append nth_subslice length_subslice)
  have zero: "subslice 16 20 fixed = [0, 0, 0, 0]" using len by (simp add: fixed subslice_def)
  have "drop 40 fixed = drop 52 data" using len by (simp add: fixed subslice_def)
  moreover have "fix_bitfields_dib fixed = None" by (simp add: fix_bitfields_dib_def zero)
  ultimately show ?thesis using nth len by (simp add: fixed length_subslice)
qed

theorem bitfields_repaired_witness:
  "fix_bitfields_dib (the (fix_bitfields_dib ([40, 0, 0, 0, 0, 0, 0, 0, 0, 0, 0, 0, 0, 0, 32, 0, 3, 0, 0, 0] @ replicate 32 0))) = None"
proof -
  let ?d = "[40, 0, 0, 0, 0, 0, 0, 0, 0, 0, 0, 0, 0, 0, 32, 0, 3, 0, 0, 0] @ replicate 32 0 :: byte list"
  have "fix_bitfields_dib ?d \<noteq> None" by (simp add: fix_bitfields_dib_def subslice_def)
  then obtain fixed where "fix_bitfields_dib ?d = Some fixed" by blast
  with bitfields_repaired [OF this] show ?thesis by simp
qed

end
