(* ===== verification/InboundService.thy ===== *)
theory InboundService
  imports InboundTransfer Formats
begin

text \<open>
  The lifetime of an inbound selection and its mounts (\<open>clipboard/inbound/mod.rs\<close>): the handle that
  the protocol thread and the Wayland watcher share, and the worker that mounts selections. Each
  lock-protected piece of an operation is one action; the two callers and the worker interleave
  their actions freely. A mount is the path it was created at, and the conversion of a path to a
  URL belongs to another package: it is the argument \<open>to_url\<close>.
\<close>

section \<open>State\<close>

type_synonym job = "nat \<times> string list"

datatype inbound_action =
    DropFiles
  | RetireSelection bool
  | ReadCurrent "nat list"
  | Release "nat list" "nat option"
  | SetCapabilities bool bool bool
  | AcceptFiles "file_descriptor list" "nat option"
  | CloseTransfer
  | UpdateService "job option" bool

datatype worker =
    WorkerWaiting
  | WorkerReconciling "job option"
  | WorkerChecking job
  | WorkerCreating job
  | WorkerPublishing job string
  | WorkerStopped

text \<open>
  \<open>ib_ticket\<close> is the generation the backend keeps from \<open>begin_remote_copy\<close> until it accepts a list for
  it; \<open>ib_protocol\<close> and \<open>ib_watcher\<close> are the actions the two calling threads have still to do.
\<close>

record 'f inbound =
  ib_transfer :: "'f transfer"
  ib_pending :: "pending_write option"
  ib_closed :: bool
  ib_dirty :: bool
  ib_job :: "job option"
  ib_worker :: worker
  ib_mounted :: "(nat \<times> string) list"
  ib_ticket :: "nat option"
  ib_protocol :: "inbound_action list"
  ib_watcher :: "inbound_action list"

definition inbound_new :: "int \<Rightarrow> 'f inbound" where
  "inbound_new now =
     \<lparr>ib_transfer = transfer_new now, ib_pending = None, ib_closed = False, ib_dirty = False, ib_job = None,
      ib_worker = WorkerWaiting, ib_mounted = [], ib_ticket = None, ib_protocol = [], ib_watcher = []\<rparr>"

section \<open>The payload of a mounted selection\<close>

definition path_join :: "string \<Rightarrow> string \<Rightarrow> string" where
  "path_join mount name =
     (if name \<noteq> [] \<and> hd name = CHR ''/'' then name
      else if mount = [] \<or> last mount = CHR ''/'' then mount @ name
      else mount @ ''/'' @ name)"

definition str_bytes :: "string \<Rightarrow> byte list" where
  "str_bytes s = map of_char s"

definition crlf :: string where
  "crlf = [CHR 0x0D, CHR 0x0A]"

fun join_lines :: "string list \<Rightarrow> string" where
  "join_lines [] = []"
| "join_lines [u] = u"
| "join_lines (u # us) = u @ [CHR 0x0A] @ join_lines us"

definition uri_payload :: "(string \<Rightarrow> string option) \<Rightarrow> string \<Rightarrow> string list \<Rightarrow> pending_write option" where
  "uri_payload to_url mount names =
     (case those (map (\<lambda>name. to_url (path_join mount name)) names) of
        None \<Rightarrow> None
      | Some uris \<Rightarrow>
          if uris = [] then None
          else Some (WriteFiles (str_bytes (concat (map (\<lambda>uri. uri @ crlf) uris)))
                      (str_bytes (''copy'' @ [CHR 0x0A] @ join_lines uris))))"

section \<open>Actions of the callers\<close>

fun is_files :: "pending_write option \<Rightarrow> bool" where
  "is_files (Some (WriteFiles _ _)) \<longleftrightarrow> True"
| "is_files _ \<longleftrightarrow> False"

definition drop_unpublished_files :: "'f inbound \<Rightarrow> 'f inbound" where
  "drop_unpublished_files s = (if is_files (ib_pending s) then s\<lparr>ib_pending := None\<rparr> else s)"

definition update_service :: "job option \<Rightarrow> bool \<Rightarrow> 'f inbound \<Rightarrow> 'f inbound" where
  "update_service job close s =
     s\<lparr>ib_closed := ib_closed s \<or> close, ib_job := (if job \<noteq> None then job else ib_job s), ib_dirty := True\<rparr>"

text \<open>The operations, as the actions they consist of.\<close>

definition retire :: "inbound_action list" where
  "retire = [RetireSelection False]"

definition begin_remote_copy :: "inbound_action list" where
  "begin_remote_copy = [RetireSelection True]"

definition release_inbound_locks :: "nat list \<Rightarrow> inbound_action list" where
  "release_inbound_locks data_ids = [ReadCurrent data_ids]"

definition set_inbound_capabilities :: "bool \<Rightarrow> bool \<Rightarrow> bool \<Rightarrow> inbound_action list" where
  "set_inbound_capabilities stream huge locking =
     [DropFiles, SetCapabilities stream huge locking, UpdateService None False]"

definition accept_inbound :: "file_descriptor list \<Rightarrow> nat option \<Rightarrow> inbound_action list" where
  "accept_inbound files data_id = [AcceptFiles files data_id]"

definition drop_inbound :: "inbound_action list" where
  "drop_inbound = [CloseTransfer, DropFiles, UpdateService None True]"

text \<open>One action: what is left to do afterwards, and the new state.\<close>

fun inbound_act :: "int \<Rightarrow> nat \<Rightarrow> inbound_action \<Rightarrow> 'f inbound \<Rightarrow> inbound_action list \<times> 'f inbound" where
  "inbound_act now max_entries DropFiles s = ([], drop_unpublished_files s)"
| "inbound_act now max_entries (RetireSelection keep) s =
     (let ((generation, _), transfer) = retire_generation now (ib_transfer s)
      in ([DropFiles, UpdateService None False],
          s\<lparr>ib_transfer := transfer, ib_ticket := (if keep then generation else ib_ticket s)\<rparr>))"
| "inbound_act now max_entries (ReadCurrent data_ids) s =
     ([Release data_ids (live_generation (ib_transfer s))], s)"
| "inbound_act now max_entries (Release data_ids current) s =
     (let (released, transfer) = release_locks now data_ids (ib_transfer s)
      in ((case current of None \<Rightarrow> [] | Some generation \<Rightarrow> if generation \<in> set released then [DropFiles] else []) @
          (if released = [] then [] else [UpdateService None False]),
          s\<lparr>ib_transfer := transfer\<rparr>))"
| "inbound_act now max_entries (SetCapabilities stream huge locking) s =
     ([], s\<lparr>ib_transfer := snd (capabilities now stream huge locking (ib_transfer s))\<rparr>)"
| "inbound_act now max_entries (AcceptFiles files data_id) s =
     (case ib_ticket s of
        None \<Rightarrow> ([], s)
      | Some expected \<Rightarrow>
          (case accept_for now max_entries expected files data_id (ib_transfer s) of
             (Some (generation, names, _), transfer) \<Rightarrow>
               ([UpdateService (Some (generation, names)) False], s\<lparr>ib_transfer := transfer, ib_ticket := None\<rparr>)
           | (None, transfer) \<Rightarrow> ([], s\<lparr>ib_transfer := transfer, ib_ticket := None\<rparr>)))"
| "inbound_act now max_entries CloseTransfer s =
     ([], s\<lparr>ib_transfer := snd (close_transfer now (ib_transfer s))\<rparr>)"
| "inbound_act now max_entries (UpdateService job close) s = ([], update_service job close s)"

section \<open>The worker\<close>

text \<open>One turn of the worker; \<open>created\<close> is the path of a new mount, or nothing when mounting fails.\<close>

definition worker_step :: "(string \<Rightarrow> string option) \<Rightarrow> string option \<Rightarrow> 'f inbound \<Rightarrow> 'f inbound" where
  "worker_step to_url created s = (case ib_worker s of
     WorkerWaiting \<Rightarrow>
       if ib_closed s then s\<lparr>ib_worker := WorkerStopped\<rparr>
       else if ib_dirty s
       then s\<lparr>ib_dirty := False, ib_job := None, ib_worker := WorkerReconciling (ib_job s)\<rparr>
       else s
   | WorkerReconciling job \<Rightarrow>
       (let s1 = s\<lparr>ib_mounted := filter (\<lambda>(generation, _). with_tree generation (ib_transfer s) \<noteq> None) (ib_mounted s)\<rparr>
        in s1\<lparr>ib_worker := (case job of None \<Rightarrow> WorkerWaiting | Some j \<Rightarrow> WorkerChecking j)\<rparr>)
   | WorkerChecking (generation, names) \<Rightarrow>
       s\<lparr>ib_worker := (if names = [] \<or> with_live_tree generation (ib_transfer s) = None
                       then WorkerWaiting else WorkerCreating (generation, names))\<rparr>
   | WorkerCreating job \<Rightarrow>
       s\<lparr>ib_worker := (case created of None \<Rightarrow> WorkerWaiting | Some path \<Rightarrow> WorkerPublishing job path)\<rparr>
   | WorkerPublishing (generation, names) path \<Rightarrow>
       (if with_live_tree generation (ib_transfer s) = None then s\<lparr>ib_worker := WorkerWaiting\<rparr>
        else (case uri_payload to_url path names of
            None \<Rightarrow> s\<lparr>ib_worker := WorkerWaiting\<rparr>
          | Some payload \<Rightarrow>
              s\<lparr>ib_pending := Some payload, ib_mounted := map_insert generation path (ib_mounted s),
                ib_worker := WorkerWaiting\<rparr>))
   | WorkerStopped \<Rightarrow> s)"

section \<open>Events\<close>

text \<open>\<open>Serve\<close> is a call of the mounted file system or an answer of the client, on any thread.\<close>

datatype caller = Protocol | Watcher

datatype inbound_event =
    Call caller "inbound_action list"
  | Act caller
  | Serve transfer_event
  | Work "string option"
  | WriteOther pending_write
  | TakeWrite

fun inbound_step :: "'f fetch_ops \<Rightarrow> int \<Rightarrow> nat \<Rightarrow> nat \<Rightarrow> (string \<Rightarrow> string option) \<Rightarrow> 'f inbound \<Rightarrow> inbound_event \<Rightarrow> 'f inbound" where
  "inbound_step ops now max_entries max_chunk to_url s (Call Protocol actions) =
     (if ib_protocol s = [] then s\<lparr>ib_protocol := actions\<rparr> else s)"
| "inbound_step ops now max_entries max_chunk to_url s (Call Watcher actions) =
     (if ib_watcher s = [] then s\<lparr>ib_watcher := actions\<rparr> else s)"
| "inbound_step ops now max_entries max_chunk to_url s (Act Protocol) = (case ib_protocol s of
     [] \<Rightarrow> s
   | a # rest \<Rightarrow> (let (more, s') = inbound_act now max_entries a s in s'\<lparr>ib_protocol := more @ rest\<rparr>))"
| "inbound_step ops now max_entries max_chunk to_url s (Act Watcher) = (case ib_watcher s of
     [] \<Rightarrow> s
   | a # rest \<Rightarrow> (let (more, s') = inbound_act now max_entries a s in s'\<lparr>ib_watcher := more @ rest\<rparr>))"
| "inbound_step ops now max_entries max_chunk to_url s (Serve e) =
     s\<lparr>ib_transfer := transfer_step ops now max_entries max_chunk (ib_transfer s) e\<rparr>"
| "inbound_step ops now max_entries max_chunk to_url s (Work created) = worker_step to_url created s"
| "inbound_step ops now max_entries max_chunk to_url s (WriteOther w) = s\<lparr>ib_pending := Some w\<rparr>"
| "inbound_step ops now max_entries max_chunk to_url s TakeWrite = s\<lparr>ib_pending := None\<rparr>"

section \<open>What the operations do to the live selection\<close>

definition root_names :: "remote_tree \<Rightarrow> string list" where
  "root_names t = filter_map (\<lambda>i. map_option rn_name (node t i)) (roots t)"

definition live_names :: "'f transfer \<Rightarrow> string list" where
  "live_names t = root_names (sl_tree (tf_current t))"

text \<open>The generation only grows, and while it stays live its files stay the same.\<close>

definition follows :: "'f transfer \<Rightarrow> 'f transfer \<Rightarrow> bool" where
  "follows t t' \<longleftrightarrow> tf_generation t \<le> tf_generation t' \<and>
     (live t' (tf_generation t) \<longrightarrow> live t (tf_generation t) \<and> live_names t' = live_names t)"

definition calm :: "'f transfer \<Rightarrow> 'f transfer \<Rightarrow> bool" where
  "calm t t' \<longleftrightarrow> tf_generation t' = tf_generation t \<and> tf_closed t' = tf_closed t \<and> tf_stream t' = tf_stream t \<and>
     live_names t' = live_names t \<and> sl_data_id (tf_current t') = sl_data_id (tf_current t)"

lemma calm_follows: "calm t t' \<Longrightarrow> follows t t'"
  by (simp add: calm_def follows_def live_def)

lemma calm_live: "calm t t' \<Longrightarrow> live t' g = live t g \<and> live_generation t' = live_generation t"
  by (simp add: calm_def live_def live_generation_def)

lemma live_self: "live t g \<Longrightarrow> g = tf_generation t"
  by (simp add: live_def)

lemma followed: "follows t t' \<Longrightarrow> g \<le> tf_generation t \<Longrightarrow> live t' g \<Longrightarrow>
    live t g \<and> live_names t' = live_names t \<and> tf_generation t' = tf_generation t \<and> g = tf_generation t"
  by (auto simp: follows_def live_def)

lemma trim_retiring_fields:
  "tf_generation (snd (trim_retiring fuel s)) = tf_generation s \<and> tf_current (snd (trim_retiring fuel s)) = tf_current s"
  by (induction fuel s rule: trim_retiring.induct) (auto simp: Let_def case_prod_beta split: list.splits)

lemma bump_live: "\<not> live (bump t) (tf_generation t)" "tf_generation t \<le> tf_generation (bump t)"
  "live_generation (bump t) = Some g \<Longrightarrow> g = tf_generation (bump t) \<and> tf_generation t < g"
  by (auto simp: bump_generation live_def live_generation_def split: if_splits)

lemma retire_current_live:
  assumes "retire_current now t = (released, t')"
  shows "tf_generation t \<le> tf_generation t'" and "\<not> live t' (tf_generation t)" and "tf_current t' = empty_selection now"
    and "live_generation t' = Some g \<Longrightarrow> g = tf_generation t' \<and> tf_generation t < g"
    and "live t' (tf_generation t') \<Longrightarrow> tf_generation t < tf_generation t'"
proof -
  obtain u where u: "t' = bump u" "tf_generation u = tf_generation t" "tf_current u = empty_selection now"
    using assms trim_retiring_fields [where 'a = 'a]
    by (fastforce simp: retire_current_def Let_def case_prod_beta split: if_splits)
  then show "tf_generation t \<le> tf_generation t'" "\<not> live t' (tf_generation t)" "tf_current t' = empty_selection now"
    "live_generation t' = Some g \<Longrightarrow> g = tf_generation t' \<and> tf_generation t < g"
    using bump_live [of u] by auto
  show "live t' (tf_generation t') \<Longrightarrow> tf_generation t < tf_generation t'"
    using u by (auto simp: live_def bump_generation)
qed

lemma fold_end_fields:
  "tf_generation (fold end_selection gs s) = tf_generation s \<and> tf_closed (fold end_selection gs s) = tf_closed s \<and>
   tf_stream (fold end_selection gs s) = tf_stream s \<and> tf_current (fold end_selection gs s) = tf_current s"
  by (induction gs arbitrary: s) simp_all

lemma release_locks_live:
  assumes "release_locks now ids t = (released, t')"
  shows "if covered ids (tf_current t)
    then tf_generation t \<in> set released \<and> tf_generation t \<le> tf_generation t' \<and> \<not> live t' (tf_generation t)
    else calm t t'"
proof (cases "covered ids (tf_current t)")
  case True
  let ?u = "bump (fail_pending (tf_generation t) (snd (take_current now t)))"
  have "t' = fold end_selection released ?u" "tf_generation t \<in> set released"
    using assms True by (auto simp: release_locks_def Let_def)
  then show ?thesis using True fold_end_fields [of released ?u] bump_live [of "fail_pending (tf_generation t) (snd (take_current now t))"]
    by (simp add: live_def)
next
  case False
  then show ?thesis
    using assms fold_end_fields [of released t] by (auto simp: release_locks_def Let_def calm_def live_names_def)
qed

lemma accept_for_live:
  assumes "accept_for now max_entries expected files data_id t = (r, t')"
  shows "case r of
      None \<Rightarrow> t' = t \<or> (live t expected \<and> expected = tf_generation t \<and> tf_generation t \<le> tf_generation t' \<and>
        \<not> live t' (tf_generation t'))
    | Some (g, names, _) \<Rightarrow> expected = tf_generation t \<and> live t expected \<and> g = tf_generation t' \<and>
        tf_generation t < g \<and> live t' g \<and> names = live_names t'"
proof -
  obtain released s1 where ret: "retire_current now t = (released, s1)" by fastforce
  show ?thesis
    using assms retire_current_live [OF ret]
    by (auto simp: accept_for_def ret Let_def live_def live_names_def root_names_def split: if_splits)
qed

lemma close_transfer_closed: "tf_closed (snd (close_transfer now t))" "tf_generation t \<le> tf_generation (snd (close_transfer now t))"
  using bump_live(2) by (auto simp: close_transfer_def shutdown_def Let_def case_prod_beta intro: order_trans [OF _ bump_live(2)])


text \<open>Serving a selection changes neither the generation nor the names.\<close>

fun serves :: "transfer_event \<Rightarrow> bool" where
  "serves (Size _ _) \<longleftrightarrow> True"
| "serves (Read _ _ _ _) \<longleftrightarrow> True"
| "serves (Response _) \<longleftrightarrow> True"
| "serves (Timeout _) \<longleftrightarrow> True"
| "serves (ReaderLeaves _) \<longleftrightarrow> True"
| "serves SenderCloses \<longleftrightarrow> True"
| "serves _ \<longleftrightarrow> False"

lemma calm_refl: "calm t t"
  by (simp add: calm_def)

lemma calm_trans: "calm t u \<Longrightarrow> calm u v \<Longrightarrow> calm t v"
  by (simp add: calm_def)

lemma calm_requests: "calm t (t\<lparr>tf_pending := p, tf_next_stream := n\<rparr>)" "calm t (t\<lparr>tf_pending := p\<rparr>)"
  "calm t (t\<lparr>tf_sent := x, tf_pending := p\<rparr>)" "calm t (deliver sid a t)"
  by (simp_all add: calm_def live_names_def deliver_def)

lemma calm_allocate: "allocate bytes t = (a, t') \<Longrightarrow> calm t t'"
  by (auto simp: allocate_def Let_def calm_def live_names_def split: option.splits if_splits)

lemma calm_submit: "submit g request op reserved t = (a, t') \<Longrightarrow> calm t t'"
  by (auto simp: submit_def calm_def live_names_def split: if_splits)

lemma calm_size: "calm t (snd (size_call g i t))"
proof -
  obtain r t' where run: "size_call g i t = (r, t')" by fastforce
  then have "calm t t'"
    by (auto simp: size_call_def calm_refl calm_allocate split: option.splits node_kind.splits prod.splits if_splits
        dest!: calm_allocate calm_submit intro: calm_trans)
  with run show ?thesis by simp
qed

lemma calm_read: "calm t (snd (read_call ops mc g i pos wanted t))"
proof -
  obtain r t' where run: "read_call ops mc g i pos wanted t = (r, t')" by fastforce
  then have "calm t t'"
    by (auto simp: read_call_def Let_def calm_refl split: option.splits node_kind.splits prod.splits if_splits
        dest!: calm_allocate calm_submit intro: calm_trans)
  with run show ?thesis by simp
qed

lemma root_names_set_size: "root_names (snd (set_size i sz t)) = root_names t"
proof -
  have "map_option rn_name (vec_get (tr_nodes (snd (set_size i sz t))) k) = map_option rn_name (vec_get (tr_nodes t) k)" for k
    by (auto simp: set_size_def vec_get_def update_node_def nth_list_update split: option.splits)
  moreover have "node_offset (snd (set_size i sz t)) j = node_offset t j" for j
    by (auto simp: set_size_def node_offset_def split: option.splits)
  ultimately have node: "map_option rn_name (node (snd (set_size i sz t)) j) = map_option rn_name (node t j)" for j
    by (simp add: node_def split: option.split)
  have "roots (snd (set_size i sz t)) = roots t"
    using same_tree_set_size [of "\<lparr>sl_tree = t, sl_data_id = None\<rparr>" i sz] by (simp add: same_tree_def)
  with node show ?thesis by (simp add: root_names_def)
qed

lemma calm_store_size: "store_size g i sz t = (b, t') \<Longrightarrow> calm t t'"
  using root_names_set_size
  by (auto simp: store_size_def calm_def live_names_def selection_of_def Let_def calm_refl split: option.splits prod.splits if_splits)
    (metis root_names_set_size snd_conv)

lemma calm_response: "calm t (on_response ops response t)"
proof (cases "map_of (tf_pending t) (rs_stream response)")
  case None
  then show ?thesis by (simp add: on_response_def Let_def calm_refl)
next
  case (Some p)
  let ?t1 = "t\<lparr>tf_pending := map_remove (rs_stream response) (tf_pending t)\<rparr>"
  have one: "calm t (deliver sid a ?t1)" for sid a by (rule calm_trans [OF calm_requests(2,4)])
  have two: "calm t (deliver sid a u)" if "store_size g i sz ?t1 = (b, u)" for sid a u g i sz b
    using calm_trans [OF calm_requests(2) calm_trans [OF calm_store_size [OF that] calm_requests(4)]] .
  have three: "calm t (?t1\<lparr>tf_sent := x, tf_pending := q\<rparr>)" for x q by (simp add: calm_def live_names_def)
  show ?thesis
    using Some one two three calm_requests(2)
    by (auto simp: on_response_def Let_def split: prod.splits fetch_progress.splits option.splits operation.splits)
qed

lemma calm_serve: "serves e \<Longrightarrow> calm t (transfer_step ops now max_entries max_chunk t e)"
proof (cases e)
  case (Timeout sid)
  then show ?thesis by (auto simp: timeout_expires_def Let_def calm_def live_names_def deliver_def split: option.splits)
qed (auto simp: calm_size calm_read calm_response reader_leaves_def calm_requests, simp add: calm_def live_names_def)


section \<open>Only live selections are published\<close>

definition protocol_ok :: "inbound_action list \<Rightarrow> bool" where
  "protocol_ok actions \<longleftrightarrow> actions = [] \<or>
     (\<exists>a. actions = [a] \<and> a \<noteq> CloseTransfer \<and> (\<forall>x y z. a \<noteq> SetCapabilities x y z)) \<or>
     (\<exists>c. actions = [DropFiles, UpdateService None c]) \<or>
     actions = [CloseTransfer, DropFiles, UpdateService None True]"

definition watcher_ok :: "inbound_action list \<Rightarrow> bool" where
  "watcher_ok actions \<longleftrightarrow>
     actions \<in> {[], [RetireSelection False], [DropFiles, UpdateService None False], [UpdateService None False]}"

definition jobs_in :: "inbound_action list \<Rightarrow> job set" where
  "jobs_in actions = {j. \<exists>c. UpdateService (Some j) c \<in> set actions}"

fun worker_jobs :: "worker \<Rightarrow> job set" where
  "worker_jobs (WorkerReconciling job) = set_option job"
| "worker_jobs (WorkerChecking j) = {j}"
| "worker_jobs (WorkerCreating j) = {j}"
| "worker_jobs (WorkerPublishing j _) = {j}"
| "worker_jobs _ = {}"

definition inbound_jobs :: "'f inbound \<Rightarrow> job set" where
  "inbound_jobs s = set_option (ib_job s) \<union> worker_jobs (ib_worker s) \<union> jobs_in (ib_protocol s)"

definition job_ok :: "'f transfer \<Rightarrow> nat option \<Rightarrow> job \<Rightarrow> bool" where
  "job_ok t ticket j \<longleftrightarrow> fst j \<le> tf_generation t \<and> ticket \<noteq> Some (fst j) \<and> (live t (fst j) \<longrightarrow> snd j = live_names t)"

definition published :: "(string \<Rightarrow> string option) \<Rightarrow> 'f transfer \<Rightarrow> nat option \<Rightarrow> pending_write option \<Rightarrow> bool" where
  "published to_url t ticket pending \<longleftrightarrow> live t (tf_generation t) \<and> ticket \<noteq> Some (tf_generation t) \<and>
     (\<exists>path. uri_payload to_url path (live_names t) = pending)"

definition release_ok :: "'f transfer \<Rightarrow> inbound_action list \<Rightarrow> bool" where
  "release_ok t actions \<longleftrightarrow> (\<forall>ids current. Release ids current \<in> set actions \<longrightarrow>
     current = live_generation t \<or> sl_data_id (tf_current t) = None)"

definition files_ok :: "(string \<Rightarrow> string option) \<Rightarrow> 'f inbound \<Rightarrow> bool" where
  "files_ok to_url s \<longleftrightarrow> (is_files (ib_pending s) \<longrightarrow>
     DropFiles \<in> set (ib_protocol s) \<union> set (ib_watcher s) \<or>
     published to_url (ib_transfer s) (ib_ticket s) (ib_pending s))"

definition service_inv :: "(string \<Rightarrow> string option) \<Rightarrow> 'f inbound \<Rightarrow> bool" where
  "service_inv to_url s \<longleftrightarrow> protocol_ok (ib_protocol s) \<and> watcher_ok (ib_watcher s) \<and>
     (\<forall>j\<in>inbound_jobs s. job_ok (ib_transfer s) (ib_ticket s) j) \<and>
     (\<forall>g. ib_ticket s = Some g \<longrightarrow> g \<le> tf_generation (ib_transfer s)) \<and>
     release_ok (ib_transfer s) (ib_protocol s) \<and> files_ok to_url s"

lemma service_invD:
  assumes "service_inv to_url s"
  shows "protocol_ok (ib_protocol s)" "watcher_ok (ib_watcher s)"
    "j \<in> inbound_jobs s \<Longrightarrow> job_ok (ib_transfer s) (ib_ticket s) j"
    "ib_ticket s = Some g \<Longrightarrow> g \<le> tf_generation (ib_transfer s)"
    "release_ok (ib_transfer s) (ib_protocol s)" "files_ok to_url s"
  using assms by (auto simp: service_inv_def)

lemma job_ok_follows: "job_ok t ticket j \<Longrightarrow> follows t t' \<Longrightarrow> job_ok t' ticket j"
  using followed [of t t' "fst j"] unfolding job_ok_def by (metis follows_def order_trans)

lemma job_ok_dead: "job_ok t ticket j \<Longrightarrow> tf_generation t \<le> tf_generation t' \<Longrightarrow> \<not> live t' (tf_generation t) \<Longrightarrow>
    ticket' = None \<or> ticket' = ticket \<or> (\<exists>g. ticket' = Some g \<and> tf_generation t < g) \<Longrightarrow> job_ok t' ticket' j"
  by (auto simp: job_ok_def live_def)

lemma published_calm: "published to_url t ticket p \<Longrightarrow> calm t t' \<Longrightarrow> published to_url t' ticket p"
  by (simp add: published_def calm_live) (simp add: calm_def live_def)

lemma not_files_drop [simp]: "\<not> is_files (ib_pending (drop_unpublished_files s))"
  by (simp add: drop_unpublished_files_def)

lemma drop_fields [simp]:
  "ib_transfer (drop_unpublished_files s) = ib_transfer s" "ib_job (drop_unpublished_files s) = ib_job s"
  "ib_worker (drop_unpublished_files s) = ib_worker s" "ib_ticket (drop_unpublished_files s) = ib_ticket s"
  "ib_protocol (drop_unpublished_files s) = ib_protocol s" "ib_watcher (drop_unpublished_files s) = ib_watcher s"
  by (simp_all add: drop_unpublished_files_def)

lemma files_ok_no_files: "\<not> is_files (ib_pending s) \<Longrightarrow> files_ok to_url s"
  by (simp add: files_ok_def)

lemma uri_payload_files: "uri_payload to_url path names = Some w \<Longrightarrow> is_files (Some w)"
  by (auto simp: uri_payload_def split: option.splits if_splits)

text \<open>The worker.\<close>

lemma worker_step_same:
  "ib_transfer (worker_step to_url c s) = ib_transfer s" "ib_ticket (worker_step to_url c s) = ib_ticket s"
  "ib_protocol (worker_step to_url c s) = ib_protocol s" "ib_watcher (worker_step to_url c s) = ib_watcher s"
  by (auto simp: worker_step_def Let_def split: worker.splits option.splits prod.splits)

lemma worker_step_jobs: "inbound_jobs (worker_step to_url c s) \<subseteq> inbound_jobs s"
  by (auto simp: worker_step_def Let_def inbound_jobs_def split: worker.splits option.splits prod.splits if_splits)

lemma worker_step_pending:
  assumes "is_files (ib_pending (worker_step to_url c s))" and "ib_pending (worker_step to_url c s) \<noteq> ib_pending s"
  shows "\<exists>g names path. (g, names) \<in> inbound_jobs s \<and> live (ib_transfer s) g \<and>
    uri_payload to_url path names = ib_pending (worker_step to_url c s)"
proof -
  obtain g names path where w: "ib_worker s = WorkerPublishing (g, names) path"
    using assms(2) by (auto simp: worker_step_def Let_def split: worker.splits option.splits prod.splits if_splits)
  then have "with_live_tree g (ib_transfer s) \<noteq> None" "uri_payload to_url path names = ib_pending (worker_step to_url c s)"
    using assms(2) by (auto simp: worker_step_def Let_def split: option.splits if_splits)
  then show ?thesis using w by (auto simp: with_live_tree_def inbound_jobs_def split: if_splits)
qed

lemma worker_keeps:
  assumes inv: "service_inv to_url s"
  shows "service_inv to_url (worker_step to_url c s)"
proof -
  have "files_ok to_url (worker_step to_url c s)"
  proof (cases "is_files (ib_pending (worker_step to_url c s)) \<and> ib_pending (worker_step to_url c s) \<noteq> ib_pending s")
    case True
    then obtain g names path where j: "(g, names) \<in> inbound_jobs s" "live (ib_transfer s) g"
      "uri_payload to_url path names = ib_pending (worker_step to_url c s)" using worker_step_pending by blast
    with service_invD(3) [OF inv j(1)] live_self [OF j(2)] show ?thesis
      by (auto simp: files_ok_def published_def job_ok_def worker_step_same)
  next
    case False
    with service_invD(6) [OF inv] show ?thesis by (auto simp: files_ok_def worker_step_same)
  qed
  then show ?thesis
    using inv worker_step_jobs [of to_url c s] by (auto simp: service_inv_def worker_step_same)
qed


text \<open>The calling threads.\<close>

lemma service_invI:
  assumes "protocol_ok (ib_protocol s)" and "watcher_ok (ib_watcher s)"
    and "\<And>j. j \<in> inbound_jobs s \<Longrightarrow> job_ok (ib_transfer s) (ib_ticket s) j"
    and "\<And>g. ib_ticket s = Some g \<Longrightarrow> g \<le> tf_generation (ib_transfer s)"
    and "release_ok (ib_transfer s) (ib_protocol s)" and "files_ok to_url s"
  shows "service_inv to_url s"
  using assms by (simp add: service_inv_def)

lemma jobs_in_simps [simp]:
  "jobs_in [] = {}" "jobs_in (UpdateService (Some j) c # as) = insert j (jobs_in as)"
  "jobs_in (UpdateService None c # as) = jobs_in as" "jobs_in (DropFiles # as) = jobs_in as"
  "jobs_in (RetireSelection k # as) = jobs_in as" "jobs_in (ReadCurrent ids # as) = jobs_in as"
  "jobs_in (Release ids cur # as) = jobs_in as" "jobs_in (CloseTransfer # as) = jobs_in as"
  "jobs_in (AcceptFiles f d # as) = jobs_in as" "jobs_in (as @ bs) = jobs_in as \<union> jobs_in bs"
  by (auto simp: jobs_in_def)

lemma release_ok_none: "\<not> (\<exists>ids c. Release ids c \<in> set as) \<Longrightarrow> release_ok t as"
  by (auto simp: release_ok_def)

lemma retire_action:
  assumes inv: "service_inv to_url s" and run: "retire_generation now (ib_transfer s) = ((g, released), t')"
  shows "j \<in> inbound_jobs s \<Longrightarrow> job_ok t' (if keep then g else ib_ticket s) j"
    and "(if keep then g else ib_ticket s) = Some k \<Longrightarrow> k \<le> tf_generation t'" and "sl_data_id (tf_current t') = None"
proof -
  let ?t = "ib_transfer s"
  obtain rel where ret: "retire_current now ?t = (rel, t')" and g: "g = live_generation t'"
    using run by (auto simp: retire_generation_def split: prod.splits)
  note live = retire_current_live [OF ret]
  have "(if keep then g else ib_ticket s) = None \<or> (if keep then g else ib_ticket s) = ib_ticket s \<or>
      (\<exists>k. (if keep then g else ib_ticket s) = Some k \<and> tf_generation ?t < k)"
    using live(4) g by (cases g) auto
  then show "j \<in> inbound_jobs s \<Longrightarrow> job_ok t' (if keep then g else ib_ticket s) j"
    using job_ok_dead [OF service_invD(3) [OF inv] live(1,2)] by blast
  show "(if keep then g else ib_ticket s) = Some k \<Longrightarrow> k \<le> tf_generation t'"
    using live(1) live(4) [of k] g service_invD(4) [OF inv, of k] by (auto split: if_splits)
  show "sl_data_id (tf_current t') = None" using live(3) by (simp add: empty_selection_def)
qed

lemma watcher_keeps:
  assumes inv: "service_inv to_url s" and todo: "ib_watcher s = a # rest" and act: "inbound_act now me a s = (left, s')"
  shows "service_inv to_url (s'\<lparr>ib_watcher := left @ rest\<rparr>)"
proof -
  note i = service_invD [OF inv]
  from i(2) todo consider "a = RetireSelection False" "rest = []" | "a = DropFiles" "rest = [UpdateService None False]"
    | "a = UpdateService None False" "rest = []" by (auto simp: watcher_ok_def)
  then show ?thesis
  proof cases
    case 1
    obtain g released t' where run: "retire_generation now (ib_transfer s) = ((g, released), t')"
      by (metis prod.collapse)
    note ret = retire_action(1,2) [OF inv run, where keep = False] retire_action(3) [OF inv run]
    from act 1 run have s': "left = [DropFiles, UpdateService None False]" "s' = s\<lparr>ib_transfer := t'\<rparr>" by auto
    show ?thesis
      by (rule service_invI) (use ret i 1 s' in \<open>auto simp: inbound_jobs_def watcher_ok_def release_ok_def files_ok_def\<close>)
  next
    case 2
    then have s': "left = []" "s' = drop_unpublished_files s" using act by auto
    show ?thesis
      by (rule service_invI) (use i 2 s' in \<open>auto simp: inbound_jobs_def watcher_ok_def files_ok_no_files\<close>)
  next
    case 3
    then have s': "left = []" "s' = update_service None False s" using act by auto
    show ?thesis
      by (rule service_invI) (use i 3 s' todo in \<open>auto simp: inbound_jobs_def watcher_ok_def files_ok_def update_service_def\<close>)
  qed
qed

lemma accept_action:
  assumes inv: "service_inv to_url s" and todo: "ib_protocol s = [AcceptFiles files data_id]" and ticket: "ib_ticket s = Some expected"
    and run: "accept_for now me expected files data_id (ib_transfer s) = (r, t')"
    and actions: "actions = (case r of None \<Rightarrow> [] | Some (g, names, _) \<Rightarrow> [UpdateService (Some (g, names)) False])"
  shows "service_inv to_url (s\<lparr>ib_transfer := t', ib_ticket := None, ib_protocol := actions\<rparr>)"
proof -
  note i = service_invD [OF inv]
  let ?t = "ib_transfer s"
  note acc = accept_for_live [OF run]
  have none: "job_ok ?t None j" if "j \<in> inbound_jobs s" for j using i(3) [OF that] by (simp add: job_ok_def)
  have dead: "files_ok to_url (s\<lparr>ib_transfer := t', ib_ticket := None, ib_protocol := actions\<rparr>)" if "expected = tf_generation ?t"
    using i(6) todo ticket that by (auto simp: files_ok_def published_def)
  show ?thesis
  proof (cases r)
    case None
    then have as: "actions = []" using actions by simp
    from acc None consider "t' = ?t" | "expected = tf_generation ?t" "tf_generation ?t \<le> tf_generation t'" "\<not> live t' (tf_generation t')"
      by auto
    then show ?thesis
    proof cases
      case 1
      show ?thesis
        by (rule service_invI) (use i none todo as 1 in \<open>auto simp: inbound_jobs_def protocol_ok_def release_ok_def files_ok_def published_def\<close>)
    next
      case 2
      have no: "\<not> live t' (tf_generation ?t)" using 2(3) live_self by metis
      have "job_ok t' None j" if "j \<in> inbound_jobs s" for j
        using job_ok_dead [OF i(3) [OF that] 2(2) no] by blast
      then show ?thesis
        by (intro service_invI) (use i dead [OF 2(1)] todo as in \<open>auto simp: inbound_jobs_def protocol_ok_def release_ok_def\<close>)
    qed
  next
    case (Some x)
    obtain g names rel where x: "x = (g, names, rel)" by (cases x)
    then have as: "actions = [UpdateService (Some (g, names)) False]" using actions Some by simp
    from acc Some x have t': "expected = tf_generation ?t" "g = tf_generation t'" "tf_generation ?t < g" "names = live_names t'"
      by auto
    have no: "\<not> live t' (tf_generation ?t)" using t'(2,3) live_self by fastforce
    have old: "job_ok t' None j" if "j \<in> inbound_jobs s" for j
      by (rule job_ok_dead [OF i(3) [OF that] _ no]) (use t'(2,3) in auto)
    have new: "job_ok t' None (g, names)" using t' by (simp add: job_ok_def)
    show ?thesis
      by (rule service_invI)
        (use i dead [OF t'(1)] todo as old new in \<open>auto simp: inbound_jobs_def protocol_ok_def release_ok_def\<close>)
  qed
qed


lemma release_action:
  assumes inv: "service_inv to_url s" and todo: "ib_protocol s = [Release ids current]"
    and run: "release_locks now ids (ib_transfer s) = (released, t')"
    and actions: "actions = (case current of None \<Rightarrow> [] | Some g \<Rightarrow> if g \<in> set released then [DropFiles] else []) @
      (if released = [] then [] else [UpdateService None False])"
  shows "service_inv to_url (s\<lparr>ib_transfer := t', ib_protocol := actions\<rparr>)"
proof -
  note i = service_invD [OF inv]
  let ?t = "ib_transfer s"
  have ok: "protocol_ok actions" "release_ok t' actions" "jobs_in actions = {}"
    by (auto simp: actions protocol_ok_def release_ok_def split: option.splits)
  note rel = release_locks_live [OF run]
  show ?thesis
  proof (cases "covered ids (tf_current ?t)")
    case True
    then have dead: "tf_generation ?t \<in> set released" "tf_generation ?t \<le> tf_generation t'" "\<not> live t' (tf_generation ?t)"
      using rel by auto
    have "sl_data_id (tf_current ?t) \<noteq> None" using True by (auto simp: covered_def split: option.splits)
    then have cur: "current = live_generation ?t" using i(5) todo by (auto simp: release_ok_def)
    have jobs: "job_ok t' (ib_ticket s) j" if "j \<in> inbound_jobs s" for j
      by (rule job_ok_dead [OF i(3) [OF that] dead(2,3)]) simp
    have "DropFiles \<in> set actions" if "live ?t (tf_generation ?t)"
      using that dead(1) by (simp add: actions cur live_generation_def)
    then have files: "files_ok to_url (s\<lparr>ib_transfer := t', ib_protocol := actions\<rparr>)"
      using i(6) todo by (auto simp: files_ok_def published_def)
    have ticket: "g \<le> tf_generation t'" if "ib_ticket s = Some g" for g using i(4) [OF that] dead(2) by simp
    show ?thesis
      by (rule service_invI) (use i(2) ok jobs files ticket todo in \<open>auto simp: inbound_jobs_def\<close>)
  next
    case False
    then have calm: "calm ?t t'" using rel by simp
    have jobs: "job_ok t' (ib_ticket s) j" if "j \<in> inbound_jobs s" for j
      by (rule job_ok_follows [OF i(3) [OF that] calm_follows [OF calm]])
    have files: "files_ok to_url (s\<lparr>ib_transfer := t', ib_protocol := actions\<rparr>)"
      using i(6) todo published_calm [OF _ calm] by (auto simp: files_ok_def)
    have ticket: "g \<le> tf_generation t'" if "ib_ticket s = Some g" for g using i(4) [OF that] calm by (simp add: calm_def)
    show ?thesis
      by (rule service_invI) (use i(2) ok jobs files ticket todo in \<open>auto simp: inbound_jobs_def\<close>)
  qed
qed

lemma protocol_keeps:
  assumes inv: "service_inv to_url s" and todo: "ib_protocol s = a # rest" and act: "inbound_act now me a s = (left, s')"
  shows "service_inv to_url (s'\<lparr>ib_protocol := left @ rest\<rparr>)"
proof -
  note i = service_invD [OF inv]
  have shape: "(rest = [] \<and> a \<noteq> CloseTransfer \<and> (\<forall>x y z. a \<noteq> SetCapabilities x y z)) \<or>
      (a = DropFiles \<and> (\<exists>c. rest = [UpdateService None c])) \<or> (a = CloseTransfer \<and> rest = [DropFiles, UpdateService None True])"
    using i(1) todo by (auto simp: protocol_ok_def)
  show ?thesis
  proof (cases a)
    case DropFiles
    then have "left = []" "s' = drop_unpublished_files s" using act by auto
    moreover have "protocol_ok rest" "jobs_in rest = {}" "release_ok t rest" for t using shape DropFiles by (auto simp: protocol_ok_def release_ok_def)
    ultimately show ?thesis
      by (intro service_invI) (use i todo DropFiles in \<open>auto simp: inbound_jobs_def files_ok_no_files\<close>)
  next
    case (RetireSelection keep)
    obtain g released t' where run: "retire_generation now (ib_transfer s) = ((g, released), t')" by (metis prod.collapse)
    note ret = retire_action(1,2) [OF inv run, where keep = keep] retire_action(3) [OF inv run]
    from act RetireSelection run have s': "left = [DropFiles, UpdateService None False]"
      "s' = s\<lparr>ib_transfer := t', ib_ticket := (if keep then g else ib_ticket s)\<rparr>" by auto
    moreover have "rest = []" using shape RetireSelection by auto
    ultimately show ?thesis
      by (intro service_invI) (use ret i todo RetireSelection in \<open>auto simp: inbound_jobs_def protocol_ok_def release_ok_def files_ok_def\<close>)
  next
    case (ReadCurrent ids)
    then have "left = [Release ids (live_generation (ib_transfer s))]" "s' = s" "rest = []" using act shape by auto
    then show ?thesis
      by (intro service_invI) (use i todo ReadCurrent in \<open>auto simp: inbound_jobs_def protocol_ok_def release_ok_def files_ok_def\<close>)
  next
    case (Release ids current)
    obtain released t' where run: "release_locks now ids (ib_transfer s) = (released, t')" by fastforce
    have r: "rest = []" using shape Release by auto
    show ?thesis using release_action [OF inv _ run refl, of current] act todo Release run r by auto
  next
    case (SetCapabilities x y z)
    with shape show ?thesis by auto
  next
    case (AcceptFiles files data_id)
    have r: "rest = []" using shape AcceptFiles by auto
    show ?thesis
    proof (cases "ib_ticket s")
      case None
      then have "left = []" "s' = s" using act AcceptFiles by auto
      then show ?thesis
        by (intro service_invI) (use i todo AcceptFiles r in \<open>auto simp: inbound_jobs_def protocol_ok_def release_ok_def files_ok_def\<close>)
    next
      case (Some expected)
      obtain res t' where run: "accept_for now me expected files data_id (ib_transfer s) = (res, t')" by fastforce
      show ?thesis using accept_action [OF inv _ Some run refl] act AcceptFiles Some run r todo
        by (auto split: option.splits prod.splits)
    qed
  next
    case CloseTransfer
    let ?t' = "snd (close_transfer now (ib_transfer s))"
    have rest: "rest = [DropFiles, UpdateService None True]" using shape CloseTransfer by auto
    have s': "left = []" "s' = s\<lparr>ib_transfer := ?t'\<rparr>" using act CloseTransfer by auto
    have dead: "\<not> live ?t' g" for g using close_transfer_closed(1) by (auto simp: live_def)
    have jobs: "job_ok ?t' (ib_ticket s) j" if "j \<in> inbound_jobs s" for j
      by (rule job_ok_dead [OF i(3) [OF that] close_transfer_closed(2) dead]) simp
    have ticket: "g \<le> tf_generation ?t'" if "ib_ticket s = Some g" for g
      using i(4) [OF that] close_transfer_closed(2) [of "ib_transfer s" now] by simp
    show ?thesis
      by (intro service_invI)
        (use i(2) jobs ticket todo rest s' CloseTransfer in \<open>auto simp: inbound_jobs_def protocol_ok_def release_ok_def files_ok_def\<close>)
  next
    case (UpdateService j c)
    then have "left = []" "s' = update_service j c s" "rest = []" using act shape by auto
    then show ?thesis
      by (intro service_invI)
        (use i todo UpdateService in \<open>auto simp: inbound_jobs_def protocol_ok_def release_ok_def files_ok_def update_service_def split: if_splits\<close>)
  qed
qed

fun inbound_admissible :: "inbound_event \<Rightarrow> bool" where
  "inbound_admissible (Call Protocol actions) \<longleftrightarrow>
     actions = begin_remote_copy \<or> (\<exists>ids. actions = release_inbound_locks ids) \<or>
     (\<exists>files data_id. actions = accept_inbound files data_id) \<or> actions = drop_inbound"
| "inbound_admissible (Call Watcher actions) \<longleftrightarrow> actions = retire"
| "inbound_admissible (Serve e) \<longleftrightarrow> serves e"
| "inbound_admissible (WriteOther w) \<longleftrightarrow> \<not> is_files (Some w)"
| "inbound_admissible _ \<longleftrightarrow> True"

lemma serve_keeps:
  assumes inv: "service_inv to_url s" and e: "serves e"
  shows "service_inv to_url (s\<lparr>ib_transfer := transfer_step ops now me mc (ib_transfer s) e\<rparr>)"
proof -
  note i = service_invD [OF inv]
  let ?t' = "transfer_step ops now me mc (ib_transfer s) e"
  note calm = calm_serve [OF e, of "ib_transfer s" ops now me mc]
  have jobs: "job_ok ?t' (ib_ticket s) j" if "j \<in> inbound_jobs s" for j
    by (rule job_ok_follows [OF i(3) [OF that] calm_follows [OF calm]])
  have files: "files_ok to_url (s\<lparr>ib_transfer := ?t'\<rparr>)"
    using i(6) published_calm [OF _ calm] by (auto simp: files_ok_def)
  have rel: "release_ok ?t' (ib_protocol s)"
    using i(5) calm_live [OF calm] calm unfolding release_ok_def calm_def by metis
  have ticket: "g \<le> tf_generation ?t'" if "ib_ticket s = Some g" for g using i(4) [OF that] calm by (simp add: calm_def)
  show ?thesis
    by (rule service_invI) (use i(1,2) jobs files rel ticket in \<open>auto simp: inbound_jobs_def\<close>)
qed


lemma inbound_step_keeps:
  assumes inv: "service_inv to_url s" and adm: "inbound_admissible e"
  shows "service_inv to_url (inbound_step ops now me mc to_url s e)"
proof (cases e)
  case (Call caller actions)
  note i = service_invD [OF inv]
  show ?thesis
  proof (cases caller)
    case Protocol
    then have "protocol_ok actions \<and> jobs_in actions = {} \<and> release_ok t actions" for t :: "'a transfer"
      using adm Call by (auto simp: protocol_ok_def release_ok_def begin_remote_copy_def release_inbound_locks_def
          accept_inbound_def drop_inbound_def)
    then have "service_inv to_url (s\<lparr>ib_protocol := actions\<rparr>)" if "ib_protocol s = []"
      using i that by (intro service_invI) (auto simp: inbound_jobs_def files_ok_def)
    then show ?thesis using inv Call Protocol by simp
  next
    case Watcher
    then have "service_inv to_url (s\<lparr>ib_watcher := actions\<rparr>)" if "ib_watcher s = []"
      using adm Call i that by (intro service_invI) (auto simp: inbound_jobs_def files_ok_def watcher_ok_def retire_def)
    then show ?thesis using inv Call Watcher by simp
  qed
next
  case (Act caller)
  then show ?thesis
  proof (cases caller)
    case Protocol
    then show ?thesis using inv Act protocol_keeps [OF inv] by (auto split: list.splits prod.splits)
  next
    case Watcher
    then show ?thesis using inv Act watcher_keeps [OF inv] by (auto split: list.splits prod.splits)
  qed
next
  case (Serve f)
  then show ?thesis using serve_keeps [OF inv] adm by simp
next
  case (Work c)
  then show ?thesis using worker_keeps [OF inv] by simp
next
  case (WriteOther w)
  then show ?thesis using service_invD [OF inv] adm
    by (intro service_invI) (auto simp: inbound_jobs_def files_ok_def)
next
  case TakeWrite
  then show ?thesis using service_invD [OF inv]
    by (intro service_invI) (auto simp: inbound_jobs_def files_ok_def)
qed

interpretation inbound: event_system "inbound_step ops now max_entries max_chunk to_url" inbound_admissible "service_inv to_url"
  for ops :: "'f fetch_ops" and now :: int and max_entries max_chunk :: nat and to_url :: "string \<Rightarrow> string option"
  by unfold_locales (rule inbound_step_keeps)

text \<open>A connection sets the capabilities before anything is copied.\<close>

definition inbound_ready :: "int \<Rightarrow> bool \<Rightarrow> bool \<Rightarrow> bool \<Rightarrow> 'f inbound" where
  "inbound_ready now stream huge locking =
     update_service None False
       ((inbound_new now)\<lparr>ib_transfer := snd (capabilities now stream huge locking (transfer_new now))\<rparr>)"

lemma inbound_ready_runs:
  "run_events (inbound_step ops now max_entries max_chunk to_url) (inbound_new now)
     [Call Protocol (set_inbound_capabilities stream huge locking), Act Protocol, Act Protocol, Act Protocol] =
   inbound_ready now stream huge locking"
  by (simp add: inbound_ready_def inbound_new_def set_inbound_capabilities_def drop_unpublished_files_def update_service_def)


abbreviation inbound_run where
  "inbound_run ops now max_entries max_chunk to_url stream huge locking \<equiv>
     run_events (inbound_step ops now max_entries max_chunk to_url) (inbound_ready now stream huge locking)"

section \<open>Properties\<close>


definition copy_files :: "inbound_event list" where
  "copy_files =
     [Call Protocol begin_remote_copy, Act Protocol, Act Protocol, Act Protocol,
      Call Protocol (accept_inbound [shared_file] (Some 7)), Act Protocol, Act Protocol,
      Work None, Work None, Work None, Work (Some ''/m'')]"

lemma copied:
  "let s = inbound_run whole_fetch 0 10 5 Some True True True copy_files in
   ib_worker s = WorkerPublishing (3, [''a'']) ''/m'' \<and> ib_protocol s = [] \<and> ib_watcher s = [] \<and> ib_closed s = False \<and>
   ib_ticket s = None \<and> ib_pending s = None \<and> ib_mounted s = [] \<and> tf_generation (ib_transfer s) = 3 \<and>
   tf_stream (ib_transfer s) \<and> \<not> tf_closed (ib_transfer s) \<and> tf_current (ib_transfer s) = \<lparr>sl_tree = shared_tree 2, sl_data_id = Some 7\<rparr>"
  using shared_tree_nodes(1,3) [of 2]
  by (simp add: Let_def copy_files_def inbound_ready_def inbound_new_def begin_remote_copy_def accept_inbound_def
      capabilities_def shutdown_def transfer_new_def accept_for_def live_def retire_current_def retire_generation_def
      drop_pending_def fail_pending_def bump_def take_current_def u64_checked_add_def empty_next_base update_service_def
      drop_unpublished_files_def live_generation_def worker_step_def with_live_tree_def)


abbreviation copied_state :: "contents_request inbound" where
  "copied_state \<equiv> inbound_run whole_fetch 0 10 5 Some True True True copy_files"

lemma publish_copied:
  "ib_pending (worker_step Some None copied_state) = uri_payload Some ''/m'' [''a'']"
  "ib_transfer (worker_step Some None copied_state) = ib_transfer copied_state"
  "ib_protocol (worker_step Some None copied_state) = []" "ib_watcher (worker_step Some None copied_state) = []"
proof -
  have "\<exists>w. uri_payload Some ''/m'' [''a''] = Some w" by (simp add: uri_payload_def)
  then show "ib_pending (worker_step Some None copied_state) = uri_payload Some ''/m'' [''a'']"
    using copied by (auto simp: Let_def worker_step_def with_live_tree_def live_def)
qed (use copied in \<open>simp_all add: Let_def worker_step_same\<close>)


text \<open>
  A change of the capabilities drops unpublished files before it retires the selection, so a worker
  that publishes in between leaves files of an ended selection waiting to be offered, with every
  caller idle and no live selection.\<close>

theorem capability_change_strands_files:
  "let s = inbound_run whole_fetch 0 10 5 Some True True True
       (copy_files @ [Call Protocol (set_inbound_capabilities False False False), Act Protocol, Work None, Act Protocol, Act Protocol])
   in is_files (ib_pending s) \<and> ib_protocol s = [] \<and> ib_watcher s = [] \<and> live_generation (ib_transfer s) = None"
proof -
  have files: "is_files (uri_payload Some ''/m'' [''a''])" by (simp add: uri_payload_def)
  have off: "\<not> live (snd (capabilities now False a b t)) g" for now a b g and t :: "contents_request transfer"
    by (simp add: capabilities_def live_def Let_def case_prod_beta)
  let ?s1 = "copied_state\<lparr>ib_protocol := [SetCapabilities False False False, UpdateService None False]\<rparr>"
  have s1: "inbound_step whole_fetch 0 10 5 Some (copied_state\<lparr>ib_protocol := set_inbound_capabilities False False False\<rparr>) (Act Protocol) = ?s1"
    using copied by (simp add: Let_def set_inbound_capabilities_def drop_unpublished_files_def)
  have w: "worker_step Some None ?s1 = (worker_step Some None copied_state)\<lparr>ib_protocol := ib_protocol ?s1\<rparr>"
    using copied by (simp add: Let_def worker_step_def split: option.split)
  show ?thesis
    using copied s1 w publish_copied files off
    by (simp add: Let_def update_service_def live_generation_def)
qed

end
