(* ===== verification/FrozenWalk.thy ===== *)
theory FrozenWalk
  imports Formats "HOL-Library.List_Lexorder"
begin

text \<open>
  Freezing the selection offered to a client (\<open>clipboard/files.rs\<close>): the walk of the selected paths, with
  its budget, and the names it gives out. Names are lists of Unicode characters, paths are bytes. The
  file system answers each call as it is at that moment: \<open>file_system\<close> is an argument, and no theorem
  assumes that it stands still. The upper-case table of the standard library is the argument \<open>upper\<close>.
  The code's loop for a free name and its recursion are total here: the one has enough fuel
  (\<open>free_name_total\<close>), the other the recursion limit of the code.
\<close>

unbundle bit_operations_syntax

section \<open>Names\<close>

type_synonym name = "nat list"

type_synonym path = "byte list"

text \<open>
  \<open>String::from_utf8_lossy\<close> as the characters it yields: each valid sequence its character, each
  maximal invalid prefix U+FFFD.
\<close>

fun utf8_code_point :: "byte list \<Rightarrow> nat" where
  "utf8_code_point [a] = unat a"
| "utf8_code_point [a, b] = unat (a AND 0x1F) * 64 + unat (b AND 0x3F)"
| "utf8_code_point [a, b, c] = unat (a AND 0x0F) * 4096 + unat (b AND 0x3F) * 64 + unat (c AND 0x3F)"
| "utf8_code_point (a # b # c # d # _) =
     unat (a AND 0x07) * 262144 + unat (b AND 0x3F) * 4096 + unat (c AND 0x3F) * 64 + unat (d AND 0x3F)"
| "utf8_code_point [] = 0"

function lossy_chars :: "byte list \<Rightarrow> name" where
  "lossy_chars [] = []"
| "lossy_chars (a # rest) =
     (let (n, valid) = utf8_prefix a rest
      in (if valid then utf8_code_point (take n (a # rest)) else 0xFFFD) # lossy_chars (drop (n - 1) rest))"
  by pat_completeness auto
termination
  by (relation "measure length") auto

text \<open>The last component of a path, unless it is \<open>..\<close> or there is none.\<close>

fun split_at :: "'a \<Rightarrow> 'a list \<Rightarrow> 'a list list" where
  "split_at sep [] = [[]]"
| "split_at sep (c # cs) =
     (if c = sep then [] # split_at sep cs
      else (case split_at sep cs of [] \<Rightarrow> [[c]] | p # ps \<Rightarrow> (c # p) # ps))"

definition path_pieces :: "path \<Rightarrow> path list" where
  "path_pieces p = filter (\<lambda>c. c \<noteq> [] \<and> c \<noteq> [46]) (split_at 47 p)"

definition path_file_name :: "path \<Rightarrow> path option" where
  "path_file_name p =
     (let pieces = path_pieces p
      in if pieces = [] \<or> last pieces = [46, 46] then None else Some (last pieces))"

text \<open>The ASCII letters of a name and its characters as numbers.\<close>

definition name_of :: "string \<Rightarrow> name" where
  "name_of s = map of_char s"

definition ascii_upper :: "nat \<Rightarrow> nat" where
  "ascii_upper c = (if 97 \<le> c \<and> c \<le> 122 then c - 32 else c)"

definition is_windows_device_name :: "name \<Rightarrow> bool" where
  "is_windows_device_name stem =
     (let name = map ascii_upper (takeWhile (\<lambda>c. c \<noteq> 46) stem) in
      name \<in> set (map name_of [''CON'', ''PRN'', ''AUX'', ''NUL'']) \<or>
      (take 3 name \<in> set (map name_of [''COM'', ''LPT'']) \<and>
       drop 3 name \<in> set (map (\<lambda>c. [c]) ([49..<58] @ [0xB9, 0xB2, 0xB3]))))"

definition forbidden_char :: "nat \<Rightarrow> bool" where
  "forbidden_char c \<longleftrightarrow> c \<in> set (name_of [CHR ''<'', CHR ''>'', CHR '':'', CHR 0x22, CHR ''/'', CHR 0x5C, CHR ''|'', CHR ''?'', CHR ''*'']) \<or> c \<le> 0x1F"

definition trim_end :: "('a \<Rightarrow> bool) \<Rightarrow> 'a list \<Rightarrow> 'a list" where
  "trim_end P xs = rev (dropWhile P (rev xs))"

definition sanitize_file_name :: "name \<Rightarrow> name" where
  "sanitize_file_name name =
     (let replaced = map (\<lambda>c. if forbidden_char c then 95 else c) name;
          trimmed = trim_end (\<lambda>c. c = 46 \<or> c = 32) replaced;
          sanitized = (if trimmed = [] \<or> trimmed = [46] \<or> trimmed = [46, 46] then name_of ''unnamed'' else trimmed)
      in if is_windows_device_name sanitized
         then takeWhile (\<lambda>c. c \<noteq> 46) sanitized @ [95] @ dropWhile (\<lambda>c. c \<noteq> 46) sanitized
         else sanitized)"

definition split_extension :: "name \<Rightarrow> name \<times> name" where
  "split_extension name =
     (let ext = takeWhile (\<lambda>c. c \<noteq> 46) (rev name); index = length name - length ext - 1 in
      if 46 \<notin> set name \<or> index = 0 then (name, []) else (take index name, drop index name))"

text \<open>
  \<open>str::to_uppercase\<close> maps each character by itself, to one or more: the table of the standard library
  is the argument \<open>upper\<close>.
\<close>

definition windows_name_key :: "(nat \<Rightarrow> name) \<Rightarrow> name \<Rightarrow> name" where
  "windows_name_key upper name = concat (map upper name)"

text \<open>The decimal digits of a number, as \<open>format!\<close> prints it.\<close>

fun decimal :: "nat \<Rightarrow> name" where
  "decimal n = (if n < 10 then [48 + n] else decimal (n div 10) @ [48 + n mod 10])"

declare decimal.simps [simp del]

definition decimal_int :: "int \<Rightarrow> name" where
  "decimal_int i = (if i < 0 then 45 # decimal (nat (- i)) else decimal (nat i))"

definition suffixed :: "name \<Rightarrow> name \<Rightarrow> int \<Rightarrow> name" where
  "suffixed stem extension suffix = stem @ name_of '' ('' @ decimal_int suffix @ name_of '')'' @ extension"

text \<open>
  The loop that looks for a free name, with fuel: one turn per name already used and one more are
  enough (\<open>free_name_total\<close>).
\<close>

fun free_name :: "nat \<Rightarrow> (nat \<Rightarrow> name) \<Rightarrow> name list \<Rightarrow> name \<Rightarrow> name \<Rightarrow> name \<Rightarrow> int \<Rightarrow> name option" where
  "free_name 0 upper used stem extension candidate suffix = None"
| "free_name (Suc fuel) upper used stem extension candidate suffix =
     (if windows_name_key upper candidate \<notin> set used then Some candidate
      else free_name fuel upper used stem extension (suffixed stem extension suffix) (i32_wrap (suffix + 1)))"

text \<open>The names used so far, as the pairs of a directory and a key.\<close>

type_synonym used_names = "(name list \<times> name) list"

definition used_in :: "name list \<Rightarrow> used_names \<Rightarrow> name list" where
  "used_in parent used = map snd (filter (\<lambda>(p, _). p = parent) used)"

definition unique_file_name :: "(nat \<Rightarrow> name) \<Rightarrow> name list \<Rightarrow> path \<Rightarrow> used_names \<Rightarrow> name option \<times> used_names" where
  "unique_file_name upper parent p used =
     (let raw_name = (case path_file_name p of Some n \<Rightarrow> lossy_chars n | None \<Rightarrow> name_of ''unnamed'');
          sanitized = sanitize_file_name raw_name;
          (stem, extension) = split_extension sanitized;
          names = used_in parent used
      in case free_name (length names + 2) upper names stem extension sanitized 2 of
           None \<Rightarrow> (None, used)
         | Some candidate \<Rightarrow> (Some candidate, (parent, windows_name_key upper candidate) # used))"

definition utf16_len :: "name \<Rightarrow> nat" where
  "utf16_len name = sum_list (map (\<lambda>c. if c < 0x10000 then 1 else 2) name)"

definition wire_name_fits :: "name list \<Rightarrow> name \<Rightarrow> bool" where
  "wire_name_fits parent name \<longleftrightarrow> sum_list (map (\<lambda>part. utf16_len part + 1) parent) + utf16_len name < 260"

section \<open>The walk\<close>

text \<open>
  The file system: what each call finds at the moment it is made, the number of calls so far. A
  \<open>SystemTime\<close> is a number of nanoseconds since the epoch.
\<close>

record stat_result =
  st_file :: bool
  st_dir :: bool
  st_device :: nat
  st_inode :: nat
  st_len :: nat
  st_modified :: "int option"

record file_system =
  sys_stat :: "nat \<Rightarrow> path \<Rightarrow> stat_result option"
  sys_open :: "nat \<Rightarrow> path \<Rightarrow> stat_result option option"
  sys_read_dir :: "nat \<Rightarrow> path \<Rightarrow> path option list option"

record clip_descriptor =
  cd_name :: name
  cd_relative_path :: "name option"
  cd_directory :: bool
  cd_size :: "nat option"
  cd_last_write :: nat

record frozen_file =
  fz_pinned :: bool
  fz_path :: path
  fz_device :: nat
  fz_inode :: nat
  fz_descriptor :: clip_descriptor

record walk =
  wk_huge :: bool
  wk_max :: nat
  wk_remaining :: nat
  wk_ancestors :: "(nat \<times> nat) set"
  wk_used :: used_names
  wk_files :: "frozen_file list"
  wk_truncated :: bool
  wk_calls :: nat

definition walk_new :: "nat \<Rightarrow> walk" where
  "walk_new max_entries =
     \<lparr>wk_huge = True, wk_max = max_entries, wk_remaining = max_entries, wk_ancestors = {}, wk_used = [],
      wk_files = [], wk_truncated = False, wk_calls = 0\<rparr>"

definition walk_is_full :: "walk \<Rightarrow> bool" where
  "walk_is_full w \<longleftrightarrow> wk_max w \<le> length (wk_files w)"

definition truncate_walk :: "walk \<Rightarrow> walk" where
  "truncate_walk w = w\<lparr>wk_truncated := True\<rparr>"

definition stat :: "file_system \<Rightarrow> path \<Rightarrow> walk \<Rightarrow> stat_result option \<times> walk" where
  "stat fs p w = (sys_stat fs (wk_calls w) p, w\<lparr>wk_calls := Suc (wk_calls w)\<rparr>)"

definition windows_epoch_secs :: nat where
  "windows_epoch_secs = 11644473600"

definition filetime :: "int option \<Rightarrow> nat" where
  "filetime modified = (case modified of
     None \<Rightarrow> 0
   | Some t \<Rightarrow> if t < 0 then 0 else u64_mul (u64_sat_add (nat (t div 1000000000)) windows_epoch_secs) 10000000)"

fun join_path :: "name list \<Rightarrow> name" where
  "join_path [] = []"
| "join_path [p] = p"
| "join_path (p # ps) = p @ [92] @ join_path ps"

definition new_frozen_file :: "path \<Rightarrow> name list \<Rightarrow> name \<Rightarrow> stat_result \<Rightarrow> bool \<Rightarrow> bool \<Rightarrow> frozen_file" where
  "new_frozen_file p parent name metadata directory pinned =
     \<lparr>fz_pinned = pinned, fz_path = p, fz_device = st_device metadata, fz_inode = st_inode metadata,
      fz_descriptor = \<lparr>cd_name = name, cd_relative_path = (if parent = [] then None else Some (join_path parent)),
        cd_directory = directory, cd_size = (if st_dir metadata then None else Some (st_len metadata)),
        cd_last_write = filetime (st_modified metadata)\<rparr>\<rparr>"

definition unique_name :: "(nat \<Rightarrow> name) \<Rightarrow> name list \<Rightarrow> path \<Rightarrow> walk \<Rightarrow> name option \<times> walk" where
  "unique_name upper parent p w =
     (let (name, used) = unique_file_name upper parent p (wk_used w) in (name, w\<lparr>wk_used := used\<rparr>))"


text \<open>
  A file changed after the year 60056 has a time that does not fit: the product wraps, although the sum
  before it saturates.
\<close>

lemma filetime_exact: "0 \<le> t \<Longrightarrow> t div 1000000000 \<le> 1833029933770 \<Longrightarrow>
    int (filetime (Some t)) = (t div 1000000000 + 11644473600) * 10000000"
  by (simp add: filetime_def u64_mul_def u64_sat_add_def windows_epoch_secs_def)

lemma filetime_wraps: "filetime (Some (1833029933771 * 1000000000)) = 448384"
  by (simp add: filetime_def u64_mul_def u64_sat_add_def windows_epoch_secs_def)

fun collect_children :: "path option list \<Rightarrow> walk \<Rightarrow> path list \<times> walk" where
  "collect_children [] w = ([], w)"
| "collect_children (entry # rest) w =
     (if wk_remaining w = 0 then ([], truncate_walk w)
      else (let (children, w') = collect_children rest (w\<lparr>wk_remaining := wk_remaining w - 1\<rparr>)
            in (case entry of Some child \<Rightarrow> child # children | None \<Rightarrow> children, w')))"

text \<open>Partition of the children: each is looked at once, in order.\<close>

fun partition_children :: "file_system \<Rightarrow> path list \<Rightarrow> walk \<Rightarrow> (path list \<times> path list) \<times> walk" where
  "partition_children fs [] w = (([], []), w)"
| "partition_children fs (child # rest) w =
     (let (found, w1) = stat fs child w;
          ((directories, leaves), w2) = partition_children fs rest w1
      in (if (case found of Some m \<Rightarrow> st_dir m | None \<Rightarrow> False)
          then (child # directories, leaves) else (directories, child # leaves), w2))"

definition freeze_file :: "file_system \<Rightarrow> (nat \<Rightarrow> name) \<Rightarrow> path \<Rightarrow> name list \<Rightarrow> walk \<Rightarrow> walk run" where
  "freeze_file fs upper p parent w =
     (let source = sys_open fs (wk_calls w) p; w1 = w\<lparr>wk_calls := Suc (wk_calls w)\<rparr> in
      case source of
        None \<Rightarrow> Some w1
      | Some None \<Rightarrow> Some w1
      | Some (Some metadata) \<Rightarrow>
          if \<not> st_file metadata then Some w1
          else if \<not> wk_huge w1 \<and> u32_max < st_len metadata then Some w1
          else (case unique_name upper parent p w1 of
              (None, _) \<Rightarrow> None
            | (Some name, w2) \<Rightarrow>
                Some (if \<not> wire_name_fits parent name then w2
                      else w2\<lparr>wk_files := wk_files w2 @ [new_frozen_file p parent name metadata False True]\<rparr>)))"

text \<open>
  \<open>freeze_path\<close> recurses into directories: \<open>levels\<close> counts the levels still allowed, so a path at depth
  \<open>d\<close> is frozen with \<open>129 - d\<close> and none is left beyond the recursion limit.
\<close>

definition max_walk_depth :: nat where
  "max_walk_depth = 128"

definition freeze_children :: "(path \<Rightarrow> walk \<Rightarrow> walk run) \<Rightarrow> file_system \<Rightarrow> path \<Rightarrow> walk \<Rightarrow> walk run" where
  "freeze_children freeze fs p w =
     (let listing = sys_read_dir fs (wk_calls w) p; w1 = w\<lparr>wk_calls := Suc (wk_calls w)\<rparr> in
      case listing of
        None \<Rightarrow> Some w1
      | Some entries \<Rightarrow>
          (let (children, w2) = collect_children entries w1;
               ((directories, leaves), w3) = partition_children fs (sort_key path_pieces children) w2
           in fold_run (\<lambda>child w. if walk_is_full w then Some (truncate_walk w) else freeze child w) (directories @ leaves) w3))"

fun freeze_path :: "file_system \<Rightarrow> (nat \<Rightarrow> name) \<Rightarrow> nat \<Rightarrow> path \<Rightarrow> name list \<Rightarrow> walk \<Rightarrow> walk run" where
  "freeze_path fs upper 0 p parent w = Some (if walk_is_full w then truncate_walk w else w)"
| "freeze_path fs upper (Suc levels) p parent w =
     (if walk_is_full w then Some (truncate_walk w)
      else (case stat fs p w of
          (None, w1) \<Rightarrow> Some w1
        | (Some metadata, w1) \<Rightarrow>
            if st_file metadata then freeze_file fs upper p parent w1
            else if \<not> st_dir metadata then Some w1
            else (let identity = (st_device metadata, st_inode metadata) in
                  if identity \<in> wk_ancestors w1 then Some w1
                  else (case unique_name upper parent p (w1\<lparr>wk_ancestors := insert identity (wk_ancestors w1)\<rparr>) of
                      (None, _) \<Rightarrow> None
                    | (Some name, w2) \<Rightarrow>
                        if \<not> wire_name_fits parent name then Some (w2\<lparr>wk_ancestors := wk_ancestors w2 - {identity}\<rparr>)
                        else (let w3 = w2\<lparr>wk_files := wk_files w2 @ [new_frozen_file p parent name metadata True False]\<rparr>
                              in map_option (\<lambda>w4. w4\<lparr>wk_ancestors := wk_ancestors w4 - {identity}\<rparr>)
                                   (freeze_children (\<lambda>child. freeze_path fs upper levels child (parent @ [name])) fs p w3))))))"

fun freeze_selected :: "file_system \<Rightarrow> (nat \<Rightarrow> name) \<Rightarrow> path list \<Rightarrow> walk \<Rightarrow> walk run" where
  "freeze_selected fs upper [] w = Some w"
| "freeze_selected fs upper (p # rest) w =
     (if wk_remaining w = 0 then Some (truncate_walk w)
      else (case freeze_path fs upper (Suc max_walk_depth) p [] (w\<lparr>wk_remaining := wk_remaining w - 1\<rparr>) of
          None \<Rightarrow> None
        | Some w1 \<Rightarrow>
            if walk_is_full w1 then Some (if rest = [] then w1 else truncate_walk w1)
            else freeze_selected fs upper rest w1))"

definition freeze_paths_with_limits :: "file_system \<Rightarrow> (nat \<Rightarrow> name) \<Rightarrow> path list \<Rightarrow> nat \<Rightarrow> bool \<Rightarrow> frozen_file list run" where
  "freeze_paths_with_limits fs upper paths max_entries huge_files =
     map_option wk_files (freeze_selected fs upper paths ((walk_new max_entries)\<lparr>wk_huge := huge_files\<rparr>))"

text \<open>
  The paths of a \<open>text/uri-list\<close> offer; \<open>parse\<close> is the URL library: the path of a \<open>file\<close> URL, if it is one.
\<close>

definition text_lines :: "name \<Rightarrow> name list" where
  "text_lines t = (let pieces = split_at 10 t in
     map (\<lambda>l. if l \<noteq> [] \<and> last l = 13 then butlast l else l) (if last pieces = [] then butlast pieces else pieces))"

definition uri_list_paths :: "(name \<Rightarrow> path option) \<Rightarrow> byte list \<Rightarrow> path list" where
  "uri_list_paths parse bytes =
     filter_map (\<lambda>line. let l = trim_end (\<lambda>c. c = 13) line in
                 if l = [] \<or> hd l = 35 then None else parse l)
       (text_lines (lossy_chars bytes))"

section \<open>Sanitized names\<close>

text \<open>A name Windows accepts.\<close>

definition windows_safe :: "name \<Rightarrow> bool" where
  "windows_safe n \<longleftrightarrow> n \<noteq> [] \<and> (\<forall>c\<in>set n. \<not> forbidden_char c) \<and> last n \<noteq> 46 \<and> last n \<noteq> 32 \<and> \<not> is_windows_device_name n"

lemma forbidden_iff: "forbidden_char c \<longleftrightarrow> c \<in> {60, 62, 58, 34, 47, 92, 124, 63, 42} \<or> c \<le> 31"
  by (simp add: forbidden_char_def name_of_def)

definition device_names :: "name set" where
  "device_names = {[67, 79, 78], [80, 82, 78], [65, 85, 88], [78, 85, 76]}"

lemma device_iff:
  "is_windows_device_name n \<longleftrightarrow> (let p = map ascii_upper (takeWhile (\<lambda>c. c \<noteq> 46) n) in
     p \<in> device_names \<or> (take 3 p \<in> {[67, 79, 77], [76, 80, 84]} \<and> (\<exists>c\<in>{49, 50, 51, 52, 53, 54, 55, 56, 57, 0xB9, 0xB2, 0xB3}. drop 3 p = [c])))"
  unfolding is_windows_device_name_def Let_def device_names_def
  by (simp add: name_of_def upt_rec insert_commute disj_ac)

lemma device_piece_last:
  assumes "is_windows_device_name n"
  shows "takeWhile (\<lambda>c. c \<noteq> 46) n \<noteq> []" and "last (takeWhile (\<lambda>c. c \<noteq> 46) n) \<notin> {41, 95}"
proof -
  define p where "p = map ascii_upper (takeWhile (\<lambda>c. c \<noteq> 46) n)"
  have p: "p \<in> device_names \<or> (take 3 p \<in> {[67, 79, 77], [76, 80, 84]} \<and> (\<exists>c\<in>{49, 50, 51, 52, 53, 54, 55, 56, 57, 0xB9, 0xB2, 0xB3}. drop 3 p = [c]))"
    using assms by (simp add: device_iff p_def Let_def)
  have last: "p \<noteq> [] \<and> last p \<notin> {41, 95}"
    using p
  proof
    assume "p \<in> device_names"
    then show ?thesis by (auto simp: device_names_def)
  next
    assume "take 3 p \<in> {[67, 79, 77], [76, 80, 84]} \<and> (\<exists>c\<in>{49, 50, 51, 52, 53, 54, 55, 56, 57, 0xB9, 0xB2, 0xB3}. drop 3 p = [c])"
    then obtain c where c: "c \<in> {49, 50, 51, 52, 53, 54, 55, 56, 57, 0xB9, 0xB2, 0xB3}" "drop 3 p = [c]" by auto
    then have "p = take 3 p @ [c]" using append_take_drop_id [of 3 p] by simp
    then have "p \<noteq> []" "last p = c" by (metis snoc_eq_iff_butlast)+
    then show ?thesis using c(1) by auto
  qed
  then show "takeWhile (\<lambda>c. c \<noteq> 46) n \<noteq> []" by (simp add: p_def)
  then have "last p = ascii_upper (last (takeWhile (\<lambda>c. c \<noteq> 46) n))" by (simp add: p_def last_map)
  then show "last (takeWhile (\<lambda>c. c \<noteq> 46) n) \<notin> {41, 95}" using last by (auto simp: ascii_upper_def split: if_splits)
qed

lemma trim_end_props:
  "trim_end P xs \<noteq> [] \<Longrightarrow> \<not> P (last (trim_end P xs))" "set (trim_end P xs) \<subseteq> set xs"
proof -
  show "\<not> P (last (trim_end P xs))" if "trim_end P xs \<noteq> []"
    using that hd_dropWhile [of P "rev xs"] by (simp add: trim_end_def last_rev)
  show "set (trim_end P xs) \<subseteq> set xs" by (auto simp: trim_end_def dest: set_dropWhileD)
qed

lemma unnamed_safe: "windows_safe (name_of ''unnamed'')"
  by (simp add: windows_safe_def name_of_def forbidden_iff device_iff ascii_upper_def device_names_def Let_def)

lemma sanitized_safe: "windows_safe (sanitize_file_name name)"
proof -
  define trimmed where "trimmed = trim_end (\<lambda>c. c = 46 \<or> c = 32) (map (\<lambda>c. if forbidden_char c then 95 else c) name)"
  define s where "s = (if trimmed = [] \<or> trimmed = [46] \<or> trimmed = [46, 46] then name_of ''unnamed'' else trimmed)"
  have "set trimmed \<subseteq> set (map (\<lambda>c. if forbidden_char c then 95 else c) name)"
    unfolding trimmed_def by (rule trim_end_props)
  then have chars: "\<forall>c\<in>set trimmed. \<not> forbidden_char c" by (auto simp: forbidden_iff)
  have s: "s \<noteq> [] \<and> (\<forall>c\<in>set s. \<not> forbidden_char c) \<and> last s \<noteq> 46 \<and> last s \<noteq> 32"
  proof (cases "trimmed = [] \<or> trimmed = [46] \<or> trimmed = [46, 46]")
    case True
    then show ?thesis using unnamed_safe by (simp add: s_def windows_safe_def)
  next
    case False
    then show ?thesis using chars trim_end_props(1) [of "\<lambda>c. c = 46 \<or> c = 32"] by (auto simp: s_def trimmed_def)
  qed
  let ?stem = "takeWhile (\<lambda>c. c \<noteq> 46) s" and ?ext = "dropWhile (\<lambda>c. c \<noteq> 46) s"
  have run: "sanitize_file_name name = (if is_windows_device_name s then ?stem @ [95] @ ?ext else s)"
    by (simp add: sanitize_file_name_def Let_def s_def trimmed_def)
  show ?thesis
  proof (cases "is_windows_device_name s")
    case True
    let ?n = "?stem @ [95] @ ?ext"
    have piece: "takeWhile (\<lambda>c. c \<noteq> 46) ?n = ?stem @ [95]"
    proof -
      have "takeWhile (\<lambda>c. c \<noteq> 46) ?ext = []"
      proof (cases ?ext)
        case Nil
        show ?thesis unfolding Nil by simp
      next
        case (Cons a b)
        then show ?thesis using hd_dropWhile [of "\<lambda>c. c \<noteq> 46" s] by simp
      qed
      then show ?thesis by (auto simp: takeWhile_append dest: set_takeWhileD)
    qed
    have "\<not> is_windows_device_name ?n"
    proof
      assume "is_windows_device_name ?n"
      from device_piece_last(2) [OF this] show False unfolding piece by simp
    qed
    moreover have "\<forall>c\<in>set ?n. \<not> forbidden_char c"
      using s by (auto simp: forbidden_iff dest!: set_takeWhileD set_dropWhileD)
    moreover have "last ?n \<in> {95, last s}"
    proof (cases "?ext = []")
      case True
      then show ?thesis unfolding True by simp
    next
      case False
      then have "last ?n = last ?ext" by (simp del: dropWhile_eq_Nil_conv)
      also have "\<dots> = last (?stem @ ?ext)" using False by (simp only: last_append if_False)
      also have "\<dots> = last s" by (simp only: takeWhile_dropWhile_id)
      finally show ?thesis by simp
    qed
    then have "last ?n \<noteq> 46 \<and> last ?n \<noteq> 32" using s by (elim insertE) (simp_all only:, simp_all)
    moreover have "?n \<noteq> []" by simp
    ultimately have "windows_safe ?n" unfolding windows_safe_def by blast
    then show ?thesis using True by (simp only: run if_True)
  next
    case False
    then show ?thesis using s by (simp add: run windows_safe_def)
  qed
qed

lemma split_extension_props:
  assumes "split_extension n = (stem, ext)"
  shows "stem @ ext = n" and "ext = [] \<or> (hd ext = 46 \<and> 46 \<notin> set (tl ext))"
proof -
  define e where "e = takeWhile (\<lambda>c. c \<noteq> 46) (rev n)"
  define i where "i = length n - length e - 1"
  have run: "split_extension n = (if 46 \<notin> set n \<or> i = 0 then (n, []) else (take i n, drop i n))"
    by (simp add: split_extension_def Let_def e_def i_def)
  show "stem @ ext = n" using assms unfolding run by (auto split: if_splits)
  show "ext = [] \<or> (hd ext = 46 \<and> 46 \<notin> set (tl ext))"
  proof (cases "46 \<notin> set n \<or> i = 0")
    case False
    then have mem: "46 \<in> set (rev n)" by simp
    define r where "r = dropWhile (\<lambda>c. c \<noteq> 46) (rev n)"
    have r: "rev n = e @ r" by (simp add: e_def r_def)
    have "r \<noteq> []" using mem by (auto simp: r_def)
    then obtain r' where r': "r = 46 # r'" using hd_dropWhile [of "\<lambda>c. c \<noteq> 46" "rev n"] by (cases r) (auto simp: r_def)
    have n: "n = rev r' @ [46] @ rev e" using r r' by (metis append.assoc rev_append rev_rev_ident rev.simps(2))
    then have "i = length (rev r')" by (simp add: i_def)
    then have "drop i n = 46 # rev e" by (simp add: n)
    then have "ext = 46 # rev e" using assms False unfolding run by (simp only: if_False prod.inject)
    moreover have "46 \<notin> set e" by (auto simp: e_def dest: set_takeWhileD)
    ultimately show ?thesis by simp
  qed (use assms run in auto)
qed

lemma decimal_digits: "\<forall>c\<in>set (decimal n). 48 \<le> c \<and> c \<le> 57" "decimal n \<noteq> []"
proof (induction n rule: decimal.induct)
  case (1 n)
  case 1 then show ?case using "1.IH" by (subst decimal.simps) auto
  case 2 then show ?case by (subst decimal.simps) simp
qed

lemma suffixed_safe:
  assumes safe: "windows_safe n" and split: "split_extension n = (stem, ext)" and suffix: "0 \<le> suffix"
  shows "windows_safe (suffixed stem ext suffix)"
proof -
  let ?mid = "name_of '' ('' @ decimal_int suffix @ name_of '')''" and ?p = "takeWhile (\<lambda>c. c \<noteq> 46)"
  note sp = split_extension_props [OF split]
  have n: "n = stem @ ext" using sp(1) by simp
  have digits: "\<forall>c\<in>set (decimal_int suffix). 48 \<le> c \<and> c \<le> 57" using suffix decimal_digits by (simp add: decimal_int_def)
  have mid: "?mid \<noteq> []" "last ?mid = 41" "\<forall>c\<in>set ?mid. c \<noteq> 46 \<and> \<not> forbidden_char c"
    using digits by (auto simp: name_of_def forbidden_iff)
  have run: "suffixed stem ext suffix = stem @ ?mid @ ext" by (simp add: suffixed_def)
  have "\<not> is_windows_device_name (suffixed stem ext suffix)"
  proof (cases "46 \<in> set stem")
    case True
    then have "?p (suffixed stem ext suffix) = ?p n" unfolding run n by (auto simp: takeWhile_append)
    then show ?thesis using safe by (simp add: windows_safe_def is_windows_device_name_def)
  next
    case False
    have "?p ext = []" using sp(2) by (cases ext) auto
    then have "?p (suffixed stem ext suffix) = stem @ ?mid"
      using False mid(3) unfolding run by (auto simp: takeWhile_append)
    moreover have "last (stem @ ?mid) = 41" using mid(1,2) by (simp only: last_append if_False)
    ultimately show ?thesis using device_piece_last(2) [of "suffixed stem ext suffix"] by auto
  qed
  moreover have "\<forall>c\<in>set (suffixed stem ext suffix). \<not> forbidden_char c"
    using safe mid(3) unfolding run n windows_safe_def by auto
  moreover have "last (suffixed stem ext suffix) = (if ext = [] then 41 else last n)"
  proof (cases "ext = []")
    case True
    then have "last (suffixed stem ext suffix) = last ?mid" unfolding run using mid(1) by (simp only: append_Nil2 last_append if_False)
    then show ?thesis using True mid(2) by simp
  qed (simp add: run n)
  moreover have "suffixed stem ext suffix \<noteq> []" using mid(1) unfolding run append_is_Nil_conv by blast
  ultimately show ?thesis using safe by (simp add: windows_safe_def)
qed

section \<open>Free names\<close>

text \<open>What the loop needs of the table: digits are their own upper case.\<close>

definition digits_fixed :: "(nat \<Rightarrow> name) \<Rightarrow> bool" where
  "digits_fixed upper \<longleftrightarrow> (\<forall>c. 48 \<le> c \<and> c \<le> 57 \<longrightarrow> upper c = [c])"

lemma decimal_inj: "decimal m = decimal n \<Longrightarrow> m = n"
proof (induction m arbitrary: n rule: decimal.induct)
  case (1 m)
  show ?case
  proof (cases "m < 10 \<or> n < 10")
    case True
    then show ?thesis using "1.prems" decimal_digits(2) [of "m div 10"] decimal_digits(2) [of "n div 10"]
      by (auto simp: decimal.simps [of m] decimal.simps [of n] split: if_splits)
  next
    case False
    then have "decimal (m div 10) = decimal (n div 10)" "m mod 10 = n mod 10"
      using "1.prems" by (auto simp: decimal.simps [of m] decimal.simps [of n])
    then have "m div 10 = n div 10" using "1.IH" False by auto
    with \<open>m mod 10 = n mod 10\<close> show ?thesis by (metis div_mult_mod_eq)
  qed
qed

lemma key_append: "windows_name_key upper (xs @ ys) = windows_name_key upper xs @ windows_name_key upper ys"
  by (simp add: windows_name_key_def)

lemma key_digits: "digits_fixed upper \<Longrightarrow> \<forall>c\<in>set xs. 48 \<le> c \<and> c \<le> 57 \<Longrightarrow> windows_name_key upper xs = xs"
  by (induction xs) (auto simp: windows_name_key_def digits_fixed_def)

lemma suffix_key_inj:
  assumes "digits_fixed upper" and "0 \<le> i" and "0 \<le> j"
    and "windows_name_key upper (suffixed stem ext i) = windows_name_key upper (suffixed stem ext j)"
  shows "i = j"
proof -
  have "windows_name_key upper (decimal_int i) = windows_name_key upper (decimal_int j)"
    using assms(4) by (simp add: suffixed_def key_append)
  then have "decimal (nat i) = decimal (nat j)"
    using assms(1-3) decimal_digits(1) by (simp add: key_digits decimal_int_def)
  then have "nat i = nat j" by (rule decimal_inj)
  with assms(2,3) show ?thesis by simp
qed

lemma free_name_result:
  assumes "free_name fuel upper used stem ext candidate suffix = Some n"
  shows "windows_name_key upper n \<notin> set used"
  using assms by (induction fuel upper used stem ext candidate suffix rule: free_name.induct) (auto split: if_splits)

text \<open>The names the loop tries after the first, and that all of them are used when it gives up.\<close>

lemma free_name_exhausted:
  assumes "free_name fuel upper used stem ext candidate suffix = None" and "0 \<le> suffix" and "suffix + int fuel \<le> i32_max"
  shows "\<forall>i < fuel - 1. windows_name_key upper (suffixed stem ext (suffix + int i)) \<in> set used"
  using assms
proof (induction fuel arbitrary: candidate suffix)
  case (Suc fuel)
  have wrap: "i32_wrap (suffix + 1) = suffix + 1" using Suc.prems by (intro i32_wrap_id) (simp add: is_i32_def)
  have rest: "free_name fuel upper used stem ext (suffixed stem ext suffix) (suffix + 1) = None"
    using Suc.prems(1) by (simp add: wrap split: if_splits)
  have ih: "\<forall>i < fuel - 1. windows_name_key upper (suffixed stem ext (suffix + 1 + int i)) \<in> set used"
    using Suc.IH [OF rest] Suc.prems by simp
  have zero: "windows_name_key upper (suffixed stem ext suffix) \<in> set used" if "0 < fuel"
    using rest that by (cases fuel) (auto split: if_splits)
  show ?case
  proof (intro allI impI)
    fix i assume "i < Suc fuel - 1"
    then show "windows_name_key upper (suffixed stem ext (suffix + int i)) \<in> set used"
      using zero ih [rule_format, of "i - 1"] by (cases i) (auto simp: algebra_simps)
  qed
qed simp

lemma free_name_total:
  assumes "digits_fixed upper" and "int (length used) + 4 \<le> i32_max"
  shows "free_name (length used + 2) upper used stem ext candidate 2 \<noteq> None"
proof
  assume none: "free_name (length used + 2) upper used stem ext candidate 2 = None"
  let ?key = "\<lambda>i. windows_name_key upper (suffixed stem ext (2 + int i))"
  have "?key ` {..<length used + 1} \<subseteq> set used"
    using free_name_exhausted [OF none] assms(2) by auto
  then have "card (?key ` {..<length used + 1}) \<le> length used"
    by (meson List.finite_set card_length card_mono order_trans)
  moreover have "inj_on ?key {..<length used + 1}"
  proof (rule inj_onI)
    fix i j assume "?key i = ?key j"
    from suffix_key_inj [OF assms(1) _ _ this] show "i = j" by simp
  qed
  ultimately show False by (simp add: card_image)
qed

lemma free_name_safe:
  assumes "free_name fuel upper used stem ext candidate suffix = Some m" and "windows_safe candidate"
    and "windows_safe n" and "split_extension n = (stem, ext)" and "0 \<le> suffix" and "suffix + int fuel \<le> i32_max"
  shows "windows_safe m"
  using assms
proof (induction fuel arbitrary: candidate suffix)
  case (Suc fuel)
  have wrap: "i32_wrap (suffix + 1) = suffix + 1" using Suc.prems by (intro i32_wrap_id) (simp add: is_i32_def)
  show ?case
    using Suc.prems Suc.IH [of "suffixed stem ext suffix" "suffix + 1"] suffixed_safe [OF Suc.prems(3,4,5)]
    by (auto simp: wrap split: if_splits)
qed simp

text \<open>The name a path gets: there is one, it is safe, its key is new in its directory and is recorded.\<close>

lemma unique_file_name_spec:
  assumes "digits_fixed upper" and "int (length used) + 4 \<le> i32_max"
  shows "\<exists>n. unique_file_name upper parent p used = (Some n, (parent, windows_name_key upper n) # used) \<and>
    windows_safe n \<and> (parent, windows_name_key upper n) \<notin> set used"
proof -
  define raw where "raw = (case path_file_name p of Some n \<Rightarrow> lossy_chars n | None \<Rightarrow> name_of ''unnamed'')"
  obtain stem ext where split: "split_extension (sanitize_file_name raw) = (stem, ext)" by fastforce
  let ?names = "used_in parent used"
  have len: "length ?names \<le> length used" by (simp add: used_in_def)
  then have "free_name (length ?names + 2) upper ?names stem ext (sanitize_file_name raw) 2 \<noteq> None"
    using assms by (intro free_name_total) auto
  then obtain n where n: "free_name (length ?names + 2) upper ?names stem ext (sanitize_file_name raw) 2 = Some n" by blast
  have "windows_safe n" using free_name_safe [OF n sanitized_safe sanitized_safe split] len assms(2) by simp
  moreover have "(parent, windows_name_key upper n) \<notin> set used"
    using free_name_result [OF n] by (auto simp: used_in_def image_iff)
  ultimately show ?thesis using n split by (simp add: unique_file_name_def raw_def Let_def)
qed

section \<open>The list a walk builds\<close>

text \<open>
  The entries of a walk with the directory each was found in, as the list grows: a new entry is safe,
  fits the wire, is in a directory already listed and its key is new there.
\<close>

definition entry_ok :: "bool \<Rightarrow> name list \<Rightarrow> frozen_file \<Rightarrow> bool" where
  "entry_ok huge p f \<longleftrightarrow> (let d = fz_descriptor f in
     cd_relative_path d = (if p = [] then None else Some (join_path p)) \<and> windows_safe (cd_name d) \<and>
     wire_name_fits p (cd_name d) \<and> (\<not> cd_directory d \<and> \<not> huge \<longrightarrow> (case cd_size d of Some n \<Rightarrow> n \<le> u32_max | None \<Rightarrow> True)))"

definition listed :: "(name list \<times> frozen_file) list \<Rightarrow> name list \<Rightarrow> bool" where
  "listed zs p \<longleftrightarrow> p = [] \<or>
     (\<exists>(q, g)\<in>set zs. cd_directory (fz_descriptor g) \<and> q @ [cd_name (fz_descriptor g)] = p)"

definition entry_key :: "(nat \<Rightarrow> name) \<Rightarrow> name list \<times> frozen_file \<Rightarrow> name list \<times> name" where
  "entry_key upper z = (fst z, windows_name_key upper (cd_name (fz_descriptor (snd z))))"

inductive frozen_list :: "(nat \<Rightarrow> name) \<Rightarrow> bool \<Rightarrow> (name list \<times> frozen_file) list \<Rightarrow> bool" for upper huge where
  nothing: "frozen_list upper huge []"
| entry: "frozen_list upper huge zs \<Longrightarrow> entry_ok huge p f \<Longrightarrow> listed zs p \<Longrightarrow> entry_key upper (p, f) \<notin> entry_key upper ` set zs
    \<Longrightarrow> frozen_list upper huge (zs @ [(p, f)])"

text \<open>
  The invariant of the walk, with the number of paths still to be frozen from those already counted:
  the names used never outgrow the entries inspected.
\<close>

definition walk_ok :: "(nat \<Rightarrow> name) \<Rightarrow> nat \<Rightarrow> nat \<Rightarrow> (name list \<times> frozen_file) list \<Rightarrow> walk \<Rightarrow> bool" where
  "walk_ok upper M c zs w \<longleftrightarrow> map snd zs = wk_files w \<and> frozen_list upper (wk_huge w) zs \<and>
     entry_key upper ` set zs \<subseteq> set (wk_used w) \<and> length (wk_files w) \<le> wk_max w \<and>
     length (wk_used w) + wk_remaining w + c \<le> M"

definition reaches :: "(nat \<Rightarrow> name) \<Rightarrow> nat \<Rightarrow> nat \<Rightarrow> (name list \<times> frozen_file) list \<Rightarrow> walk \<Rightarrow> walk run \<Rightarrow> bool" where
  "reaches upper M c zs w r \<longleftrightarrow> (\<exists>w' zs'. r = Some w' \<and> walk_ok upper M c (zs @ zs') w' \<and>
     wk_huge w' = wk_huge w \<and> wk_max w' = wk_max w)"

lemma listed_append: "listed zs p \<Longrightarrow> listed (zs @ zs') p"
  by (auto simp: listed_def)

lemma reaches_same:
  assumes "walk_ok upper M c zs w'" and "wk_huge w' = wk_huge w" and "wk_max w' = wk_max w"
  shows "reaches upper M c zs w (Some w')"
  unfolding reaches_def using assms by (intro exI [of _ w'] exI [of _ "[]"]) simp

lemma reaches_from:
  assumes "reaches upper M c zs u r" and "wk_huge u = wk_huge w" and "wk_max u = wk_max w"
  shows "reaches upper M c zs w r"
  using assms by (simp add: reaches_def)

lemma walk_ok_fields:
  assumes "walk_ok upper M c zs w" and "wk_files w' = wk_files w" and "wk_huge w' = wk_huge w" and "wk_used w' = wk_used w"
    and "wk_max w' = wk_max w" and "wk_remaining w' + c' \<le> wk_remaining w + c"
  shows "walk_ok upper M c' zs w'"
  using assms by (simp add: walk_ok_def)

text \<open>A new name costs one path of the budget and is free for its entry.\<close>

lemma unique_name_spec:
  assumes ok: "walk_ok upper M (Suc c) zs w" and upper: "digits_fixed upper" and M: "int M + 4 \<le> i32_max"
  shows "\<exists>n w'. unique_name upper parent p w = (Some n, w') \<and> walk_ok upper M c zs w' \<and> windows_safe n \<and>
    (parent, windows_name_key upper n) \<notin> entry_key upper ` set zs \<and> (parent, windows_name_key upper n) \<in> set (wk_used w') \<and>
    wk_huge w' = wk_huge w \<and> wk_max w' = wk_max w \<and> wk_files w' = wk_files w \<and> wk_ancestors w' = wk_ancestors w"
proof -
  have "int (length (wk_used w)) + 4 \<le> i32_max" using ok M by (simp add: walk_ok_def)
  from unique_file_name_spec [OF upper this, of parent p] obtain n where
    n: "unique_file_name upper parent p (wk_used w) = (Some n, (parent, windows_name_key upper n) # wk_used w)"
      "windows_safe n" "(parent, windows_name_key upper n) \<notin> set (wk_used w)" by blast
  define w' where "w' = w\<lparr>wk_used := (parent, windows_name_key upper n) # wk_used w\<rparr>"
  have "unique_name upper parent p w = (Some n, w')" using n(1) by (simp add: unique_name_def w'_def)
  moreover have "walk_ok upper M c zs w'" using ok by (auto simp: walk_ok_def w'_def)
  moreover have "(parent, windows_name_key upper n) \<notin> entry_key upper ` set zs" using ok n(3) by (auto simp: walk_ok_def)
  ultimately show ?thesis using n(2) by (auto simp: w'_def)
qed

lemma add_entry:
  assumes ok: "walk_ok upper M c zs w" and "\<not> walk_is_full w" and "entry_ok (wk_huge w) parent f" and "listed zs parent"
    and "entry_key upper (parent, f) \<notin> entry_key upper ` set zs" and "entry_key upper (parent, f) \<in> set (wk_used w)"
  shows "walk_ok upper M c (zs @ [(parent, f)]) (w\<lparr>wk_files := wk_files w @ [f]\<rparr>)"
  using assms by (auto simp: walk_ok_def walk_is_full_def intro: frozen_list.entry)

lemma freeze_file_spec:
  assumes ok: "walk_ok upper M (Suc c) zs w" and upper: "digits_fixed upper" and M: "int M + 4 \<le> i32_max"
    and room: "\<not> walk_is_full w" and parent: "listed zs parent"
  shows "reaches upper M c zs w (freeze_file fs upper p parent w)"
proof -
  define w1 where "w1 = w\<lparr>wk_calls := Suc (wk_calls w)\<rparr>"
  have ok1: "walk_ok upper M (Suc c) zs w1" using ok by (simp add: walk_ok_def w1_def)
  then have kept: "reaches upper M c zs w (Some w1)"
    by (intro reaches_same walk_ok_fields [OF ok1]) (simp_all add: w1_def)
  show ?thesis
  proof (cases "sys_open fs (wk_calls w) p")
    case None
    then show ?thesis using kept by (simp add: freeze_file_def w1_def)
  next
    case opened: (Some found)
    show ?thesis
    proof (cases found)
      case None
      then show ?thesis using kept opened by (simp add: freeze_file_def w1_def)
    next
      case (Some m)
      show ?thesis
      proof (cases "\<not> st_file m \<or> \<not> wk_huge w1 \<and> u32_max < st_len m")
        case True
        then show ?thesis using kept opened Some by (auto simp: freeze_file_def w1_def Let_def)
      next
        case False
        from unique_name_spec [OF ok1 upper M, of parent p] obtain n w2 where
          n: "unique_name upper parent p w1 = (Some n, w2)" "walk_ok upper M c zs w2" "windows_safe n"
            "(parent, windows_name_key upper n) \<notin> entry_key upper ` set zs" "(parent, windows_name_key upper n) \<in> set (wk_used w2)"
            "wk_huge w2 = wk_huge w" "wk_max w2 = wk_max w" "wk_files w2 = wk_files w"
          by (auto simp: w1_def)
        let ?f = "new_frozen_file p parent n m False True"
        have run: "freeze_file fs upper p parent w = Some (if \<not> wire_name_fits parent n then w2 else w2\<lparr>wk_files := wk_files w2 @ [?f]\<rparr>)"
          using opened Some False n(1) by (auto simp: freeze_file_def w1_def Let_def)
        show ?thesis
        proof (cases "wire_name_fits parent n")
          case False
          then show ?thesis unfolding run using n by (simp add: reaches_same)
        next
          case fits: True
          have size: "\<not> wk_huge w \<longrightarrow> st_len m \<le> u32_max" using False by (auto simp: w1_def)
          have "entry_ok (wk_huge w2) parent ?f"
            using n(3,6) fits size by (auto simp: entry_ok_def new_frozen_file_def split: option.splits if_splits)
          then have "walk_ok upper M c (zs @ [(parent, ?f)]) (w2\<lparr>wk_files := wk_files w2 @ [?f]\<rparr>)"
            using n room parent by (intro add_entry) (simp_all add: walk_is_full_def entry_key_def new_frozen_file_def)
          then show ?thesis unfolding run reaches_def using fits n(6,7)
            by (intro exI [of _ "w2\<lparr>wk_files := wk_files w2 @ [?f]\<rparr>"] exI [of _ "[(parent, ?f)]"]) simp
        qed
      qed
    qed
  qed
qed

lemma collect_children_spec:
  assumes "collect_children entries w = (children, w')"
  shows "length children + wk_remaining w' \<le> wk_remaining w" and "wk_files w' = wk_files w" and "wk_huge w' = wk_huge w"
    and "wk_used w' = wk_used w" and "wk_max w' = wk_max w" and "wk_ancestors w' = wk_ancestors w"
  using assms
  by (induction entries arbitrary: w children; force simp: Let_def truncate_walk_def split: prod.splits if_splits option.splits)+

lemma partition_children_spec:
  assumes "partition_children fs children w = ((directories, leaves), w')"
  shows "length directories + length leaves = length children" and "wk_files w' = wk_files w" and "wk_huge w' = wk_huge w"
    and "wk_used w' = wk_used w" and "wk_max w' = wk_max w" and "wk_remaining w' = wk_remaining w" and "wk_ancestors w' = wk_ancestors w"
  using assms
  by (induction children arbitrary: w directories leaves w'; force simp: Let_def stat_def split: prod.splits if_splits)+

lemma freeze_each_spec:
  assumes each: "\<And>child w zs c. walk_ok upper M (Suc c) zs w \<Longrightarrow> listed zs parent \<Longrightarrow> reaches upper M c zs w (freeze child w)"
    and "walk_ok upper M (length children + c) zs w" and "listed zs parent"
  shows "reaches upper M c zs w (fold_run (\<lambda>child w. if walk_is_full w then Some (truncate_walk w) else freeze child w) children w)"
  using assms(2,3)
proof (induction children arbitrary: w zs)
  case Nil
  then show ?case by (simp add: reaches_same)
next
  case (Cons child children)
  let ?r = "if walk_is_full w then Some (truncate_walk w) else freeze child w"
  have ok: "walk_ok upper M (Suc (length children + c)) zs w" using Cons.prems(1) by simp
  have "reaches upper M (length children + c) zs w ?r"
  proof (cases "walk_is_full w")
    case True
    then show ?thesis using ok by (simp add: reaches_same truncate_walk_def walk_ok_def)
  next
    case False
    then show ?thesis using each [OF ok Cons.prems(2)] by simp
  qed
  then obtain w1 zs1 where w1: "?r = Some w1" "walk_ok upper M (length children + c) (zs @ zs1) w1" "wk_huge w1 = wk_huge w" "wk_max w1 = wk_max w"
    by (auto simp: reaches_def)
  have "reaches upper M c (zs @ zs1) w1 (fold_run (\<lambda>child w. if walk_is_full w then Some (truncate_walk w) else freeze child w) children w1)"
    by (rule Cons.IH [OF w1(2) listed_append [OF Cons.prems(2)]])
  then show ?case using w1 by (auto simp: reaches_def)
qed

lemma freeze_children_spec:
  assumes each: "\<And>child w zs c. walk_ok upper M (Suc c) zs w \<Longrightarrow> listed zs parent \<Longrightarrow> reaches upper M c zs w (freeze child w)"
    and ok: "walk_ok upper M c zs w" and parent: "listed zs parent"
  shows "reaches upper M c zs w (freeze_children freeze fs p w)"
proof -
  define w1 where "w1 = w\<lparr>wk_calls := Suc (wk_calls w)\<rparr>"
  have ok1: "walk_ok upper M c zs w1" using ok by (simp add: walk_ok_def w1_def)
  show ?thesis
  proof (cases "sys_read_dir fs (wk_calls w) p")
    case None
    then show ?thesis using ok1 by (simp add: freeze_children_def Let_def reaches_same w1_def)
  next
    case (Some entries)
    obtain children w2 where collect: "collect_children entries w1 = (children, w2)" by fastforce
    obtain directories leaves w3 where split: "partition_children fs (sort_key path_pieces children) w2 = ((directories, leaves), w3)"
      by (metis prod.exhaust)
    note c = collect_children_spec [OF collect] and s = partition_children_spec [OF split]
    have ok3: "walk_ok upper M (length (directories @ leaves) + c) zs w3"
      by (rule walk_ok_fields [OF ok1]) (use c s in simp_all)
    have "freeze_children freeze fs p w =
        fold_run (\<lambda>child w. if walk_is_full w then Some (truncate_walk w) else freeze child w) (directories @ leaves) w3"
      using Some collect split by (simp add: freeze_children_def w1_def Let_def)
    moreover have "reaches upper M c zs w3
        (fold_run (\<lambda>child w. if walk_is_full w then Some (truncate_walk w) else freeze child w) (directories @ leaves) w3)"
      by (rule freeze_each_spec [OF _ ok3 parent]) (rule each)
    ultimately show ?thesis using c s by (auto intro: reaches_from simp: w1_def)
  qed
qed

lemma freeze_path_spec:
  assumes upper: "digits_fixed upper" and M: "int M + 4 \<le> i32_max"
    and "walk_ok upper M (Suc c) zs w" and "listed zs parent"
  shows "reaches upper M c zs w (freeze_path fs upper levels p parent w)"
  using assms(3,4)
proof (induction levels arbitrary: p parent w zs c)
  case 0
  then show ?case by (auto simp: walk_ok_def truncate_walk_def intro!: reaches_same)
next
  case (Suc levels)
  define w1 where "w1 = w\<lparr>wk_calls := Suc (wk_calls w)\<rparr>"
  have ok1: "walk_ok upper M (Suc c) zs w1" using Suc.prems(1) by (simp add: walk_ok_def w1_def)
  have same: "wk_huge w1 = wk_huge w" "wk_max w1 = wk_max w" by (simp_all add: w1_def)
  have kept: "reaches upper M c zs w (Some w1)"
    by (intro reaches_same walk_ok_fields [OF ok1]) (simp_all add: w1_def)
  have full: "reaches upper M c zs w (Some (truncate_walk w))"
    using Suc.prems(1) by (intro reaches_same) (auto simp: walk_ok_def truncate_walk_def)
  show ?case
  proof (cases "walk_is_full w")
    case True
    then show ?thesis using full by simp
  next
    case room: False
    show ?thesis
    proof (cases "sys_stat fs (wk_calls w) p")
      case None
      then show ?thesis using room kept by (simp add: stat_def w1_def)
    next
      case (Some m)
      have stat: "stat fs p w = (Some m, w1)" using Some by (simp add: stat_def w1_def)
      define d where "d = (st_device m, st_inode m)"
      show ?thesis
      proof (cases "st_file m")
        case True
        have "reaches upper M c zs w1 (freeze_file fs upper p parent w1)"
          using room Suc.prems(2) by (intro freeze_file_spec [OF ok1 upper M]) (simp_all add: walk_is_full_def w1_def)
        then show ?thesis using room stat True same by (auto intro: reaches_from)
      next
        case not_file: False
        show ?thesis
        proof (cases "\<not> st_dir m \<or> d \<in> wk_ancestors w1")
          case True
          then show ?thesis using room stat not_file kept by (auto simp: d_def)
        next
          case False
          define wa where "wa = w1\<lparr>wk_ancestors := insert d (wk_ancestors w1)\<rparr>"
          have oka: "walk_ok upper M (Suc c) zs wa" using ok1 by (simp add: walk_ok_def wa_def)
          from unique_name_spec [OF oka upper M, of parent p] obtain n w2 where
            n: "unique_name upper parent p wa = (Some n, w2)" "walk_ok upper M c zs w2" "windows_safe n"
              "(parent, windows_name_key upper n) \<notin> entry_key upper ` set zs" "(parent, windows_name_key upper n) \<in> set (wk_used w2)"
              "wk_huge w2 = wk_huge w" "wk_max w2 = wk_max w" "wk_files w2 = wk_files w"
            by (auto simp: wa_def w1_def)
          let ?f = "new_frozen_file p parent n m True False"
          let ?w3 = "w2\<lparr>wk_files := wk_files w2 @ [?f]\<rparr>" and ?drop = "\<lambda>w. w\<lparr>wk_ancestors := wk_ancestors w - {d}\<rparr>"
          have run: "freeze_path fs upper (Suc levels) p parent w =
              (if \<not> wire_name_fits parent n then Some (?drop w2)
               else map_option ?drop (freeze_children (\<lambda>child. freeze_path fs upper levels child (parent @ [n])) fs p ?w3))"
            using room stat not_file False n(1) by (simp add: d_def wa_def Let_def)
          have drop_ok: "walk_ok upper M c zs' (?drop u)" if "walk_ok upper M c zs' u" for zs' u
            using that by (simp add: walk_ok_def)
          show ?thesis
          proof (cases "wire_name_fits parent n")
            case False
            then show ?thesis unfolding run using drop_ok [OF n(2)] n by (simp add: reaches_same)
          next
            case fits: True
            have ok3: "walk_ok upper M c (zs @ [(parent, ?f)]) ?w3"
              using n room Suc.prems(2) fits by (intro add_entry) (simp_all add: walk_is_full_def entry_key_def entry_ok_def new_frozen_file_def)
            have "listed (zs @ [(parent, ?f)]) (parent @ [n])" by (simp add: listed_def new_frozen_file_def)
            from freeze_children_spec [OF Suc.IH ok3 this]
            have "reaches upper M c (zs @ [(parent, ?f)]) ?w3
                (freeze_children (\<lambda>child. freeze_path fs upper levels child (parent @ [n])) fs p ?w3)" .
            then obtain w4 zs' where "freeze_children (\<lambda>child. freeze_path fs upper levels child (parent @ [n])) fs p ?w3 = Some w4"
              "walk_ok upper M c (zs @ (parent, ?f) # zs') w4" "wk_huge w4 = wk_huge w" "wk_max w4 = wk_max w"
              using n(6,7) by (auto simp: reaches_def)
            then show ?thesis unfolding run reaches_def using fits drop_ok
              by (intro exI [of _ "?drop w4"] exI [of _ "(parent, ?f) # zs'"]) simp
          qed
        qed
      qed
    qed
  qed
qed

lemma freeze_selected_spec:
  assumes upper: "digits_fixed upper" and M: "int M + 4 \<le> i32_max" and "walk_ok upper M 0 zs w"
  shows "reaches upper M 0 zs w (freeze_selected fs upper paths w)"
  using assms(3)
proof (induction paths arbitrary: w zs)
  case Nil
  then show ?case by (simp add: reaches_same)
next
  case (Cons p paths)
  show ?case
  proof (cases "wk_remaining w = 0")
    case True
    then show ?thesis using Cons.prems by (simp add: reaches_same walk_ok_def truncate_walk_def)
  next
    case False
    define w0 where "w0 = w\<lparr>wk_remaining := wk_remaining w - 1\<rparr>"
    have ok0: "walk_ok upper M (Suc 0) zs w0" using Cons.prems False by (simp add: walk_ok_def w0_def)
    have "listed zs []" by (simp add: listed_def)
    from freeze_path_spec [OF upper M ok0 this, of fs "Suc max_walk_depth" p] obtain w1 zs1 where
      w1: "freeze_path fs upper (Suc max_walk_depth) p [] w0 = Some w1" "walk_ok upper M 0 (zs @ zs1) w1"
        "wk_huge w1 = wk_huge w" "wk_max w1 = wk_max w"
      by (auto simp: reaches_def w0_def simp del: freeze_path.simps)
    have trunc: "walk_ok upper M 0 (zs @ zs1) (truncate_walk w1)" using w1(2) by (simp add: walk_ok_def truncate_walk_def)
    have rest: "reaches upper M 0 (zs @ zs1) w1 (freeze_selected fs upper paths w1)" by (rule Cons.IH [OF w1(2)])
    have run: "freeze_selected fs upper (p # paths) w = (if walk_is_full w1 then Some (if paths = [] then w1 else truncate_walk w1)
        else freeze_selected fs upper paths w1)"
      using False w1(1) by (simp add: w0_def del: freeze_path.simps)
    show ?thesis
    proof (cases "walk_is_full w1")
      case True
      have "reaches upper M 0 (zs @ zs1) w1 (Some (if paths = [] then w1 else truncate_walk w1))"
        using w1(2) trunc by (auto intro: reaches_same simp: truncate_walk_def)
      then show ?thesis unfolding run reaches_def using True w1(3,4) by (auto simp del: freeze_selected.simps)
    next
      case False
      then show ?thesis using rest w1(3,4) unfolding run reaches_def by (auto simp del: freeze_selected.simps)
    qed
  qed
qed

section \<open>Properties\<close>

text \<open>The name of an entry as the client sees it: its directory, a separator, its own name.\<close>

definition wire_name :: "frozen_file \<Rightarrow> name" where
  "wire_name f = (case cd_relative_path (fz_descriptor f) of
     None \<Rightarrow> cd_name (fz_descriptor f)
   | Some r \<Rightarrow> r @ [92] @ cd_name (fz_descriptor f))"

definition place :: "(nat \<Rightarrow> name) \<Rightarrow> frozen_file \<Rightarrow> name option \<times> name" where
  "place upper f = (cd_relative_path (fz_descriptor f), windows_name_key upper (cd_name (fz_descriptor f)))"

lemma safe_no_separator: "windows_safe n \<Longrightarrow> 92 \<notin> set n"
  by (auto simp: windows_safe_def forbidden_iff)

lemma join_path_snoc: "join_path (p @ [n]) = (if p = [] then n else join_path p @ [92] @ n)"
  by (induction p rule: join_path.induct) auto

lemma split_at_append: "sep \<notin> set x \<Longrightarrow> split_at sep (x @ sep # y) = x # split_at sep y"
  by (induction x) auto

lemma split_at_alone: "sep \<notin> set x \<Longrightarrow> split_at sep x = [x]"
  by (induction x) auto

lemma split_join: "p \<noteq> [] \<Longrightarrow> \<forall>n\<in>set p. 92 \<notin> set n \<Longrightarrow> split_at 92 (join_path p) = p"
  by (induction p rule: join_path.induct) (simp_all add: split_at_alone split_at_append)

lemma join_path_inj:
  "p \<noteq> [] \<Longrightarrow> q \<noteq> [] \<Longrightarrow> \<forall>n\<in>set p. 92 \<notin> set n \<Longrightarrow> \<forall>n\<in>set q. 92 \<notin> set n \<Longrightarrow> join_path p = join_path q \<Longrightarrow> p = q"
  using split_join by metis

text \<open>Every directory of the list consists of safe names, and its own entry comes first.\<close>

lemma frozen_list_parents:
  assumes "frozen_list upper huge zs"
  shows "\<forall>(p, f)\<in>set zs. windows_safe (cd_name (fz_descriptor f)) \<and> (\<forall>n\<in>set p. windows_safe n) \<and> entry_ok huge p f"
  using assms
proof (induction rule: frozen_list.induct)
  case (entry zs p f)
  then have "\<forall>n\<in>set p. windows_safe n" by (fastforce simp: listed_def)
  with entry show ?case by (auto simp: entry_ok_def Let_def)
qed simp

lemma frozen_list_wire:
  assumes "frozen_list upper huge zs" and "(p, f) \<in> set zs"
  shows "wire_name f = join_path (p @ [cd_name (fz_descriptor f)])"
  using frozen_list_parents [OF assms(1)] assms(2)
  by (auto simp: wire_name_def entry_ok_def join_path_snoc Let_def split: option.splits if_splits)

lemma frozen_list_directories:
  assumes "frozen_list upper huge zs"
  shows "\<forall>i < length zs. \<forall>r. cd_relative_path (fz_descriptor (snd (zs ! i))) = Some r \<longrightarrow>
    (\<exists>j < i. cd_directory (fz_descriptor (snd (zs ! j))) \<and> wire_name (snd (zs ! j)) = r)"
  using assms
proof (induction rule: frozen_list.induct)
  case (entry zs p f)
  have new: "\<exists>j < length zs. cd_directory (fz_descriptor (snd (zs ! j))) \<and> wire_name (snd (zs ! j)) = r"
    if "cd_relative_path (fz_descriptor f) = Some r" for r
  proof -
    have p: "p \<noteq> []" "r = join_path p" using that entry.hyps by (auto simp: entry_ok_def Let_def split: if_splits)
    then obtain q g where g: "(q, g) \<in> set zs" "cd_directory (fz_descriptor g)" "q @ [cd_name (fz_descriptor g)] = p"
      using entry.hyps by (auto simp: listed_def)
    then obtain j where j: "j < length zs" "zs ! j = (q, g)" by (auto simp: in_set_conv_nth)
    have "wire_name g = r" using frozen_list_wire [OF entry.hyps(1) g(1)] g(3) p(2) by simp
    with j g(2) show ?thesis by (intro exI [of _ j]) simp
  qed
  show ?case
  proof (intro allI impI)
    fix i r
    assume i: "i < length (zs @ [(p, f)])" and r: "cd_relative_path (fz_descriptor (snd ((zs @ [(p, f)]) ! i))) = Some r"
    show "\<exists>j < i. cd_directory (fz_descriptor (snd ((zs @ [(p, f)]) ! j))) \<and> wire_name (snd ((zs @ [(p, f)]) ! j)) = r"
    proof (cases "i < length zs")
      case True
      then obtain j where "j < i" "cd_directory (fz_descriptor (snd (zs ! j)))" "wire_name (snd (zs ! j)) = r"
        using entry.IH r by (auto simp: nth_append)
      then show ?thesis using True by (intro exI [of _ j]) (simp add: nth_append)
    next
      case False
      then have il: "i = length zs" using i by simp
      then obtain j where "j < length zs" "cd_directory (fz_descriptor (snd (zs ! j)))" "wire_name (snd (zs ! j)) = r"
        using new r by auto
      then show ?thesis using il by (intro exI [of _ j]) (simp add: nth_append)
    qed
  qed
qed simp

lemma frozen_list_places:
  assumes "frozen_list upper huge zs"
  shows "distinct (map (\<lambda>z. place upper (snd z)) zs)"
  using assms
proof (induction rule: frozen_list.induct)
  case (entry zs p f)
  have all: "frozen_list upper huge (zs @ [(p, f)])" using entry.hyps by (intro frozen_list.entry)
  have "place upper g \<noteq> place upper f" if g: "(q, g) \<in> set zs" for q g
  proof
    assume eq: "place upper g = place upper f"
    have ok: "entry_ok huge q g" "\<forall>n\<in>set q. 92 \<notin> set n" "entry_ok huge p f" "\<forall>n\<in>set p. 92 \<notin> set n"
      using frozen_list_parents [OF all] g safe_no_separator by auto
    have "q = p"
      using eq ok join_path_inj [of q p] by (auto simp: place_def entry_ok_def Let_def split: if_splits)
    then have "entry_key upper (q, g) = entry_key upper (p, f)" using eq by (simp add: place_def entry_key_def)
    moreover have "entry_key upper (q, g) \<in> entry_key upper ` set zs" using g by (rule imageI)
    ultimately show False using entry.hyps(4) by simp
  qed
  then have "\<forall>z\<in>set zs. place upper f \<noteq> place upper (snd z)" by (metis surjective_pairing)
  then show ?case using entry.IH by auto
qed simp

lemma utf16_len_append: "utf16_len (a @ b) = utf16_len a + utf16_len b"
  by (simp add: utf16_len_def)

lemma utf16_len_join: "p \<noteq> [] \<Longrightarrow> utf16_len (join_path p) + 1 = sum_list (map (\<lambda>part. utf16_len part + 1) p)"
  by (induction p rule: join_path.induct) (simp_all add: utf16_len_append, simp add: utf16_len_def)

lemma wire_name_bound:
  assumes "entry_ok huge p f"
  shows "utf16_len (wire_name f) < 260"
proof (cases "p = []")
  case True
  then show ?thesis using assms by (simp add: entry_ok_def wire_name_def wire_name_fits_def Let_def)
next
  case False
  have "utf16_len (92 # n) = Suc (utf16_len n)" for n by (simp add: utf16_len_def)
  then show ?thesis
    using assms utf16_len_join [OF False] False
    by (simp add: entry_ok_def wire_name_def wire_name_fits_def utf16_len_append Let_def)
qed

text \<open>
  C9: Freezing a selection always returns, whatever the file system answers while it is walked, and the
  list it gives is one the client can rebuild: at most the configured number of entries; every name
  is one Windows accepts and fits the 260 units of the wire with its path; an entry of a directory
  comes after the entry of that directory; no two entries of a directory differ in case only; and no
  file is larger than a client without huge files can read.
\<close>

theorem frozen_selection_well_formed:
  assumes upper: "digits_fixed upper" and max: "int max_entries + 4 \<le> i32_max"
  shows "\<exists>files. freeze_paths_with_limits fs upper paths max_entries huge = Some files \<and> length files \<le> max_entries \<and>
    (\<forall>f\<in>set files. windows_safe (cd_name (fz_descriptor f)) \<and> utf16_len (wire_name f) < 260 \<and>
       (\<not> huge \<and> \<not> cd_directory (fz_descriptor f) \<longrightarrow> (case cd_size (fz_descriptor f) of Some n \<Rightarrow> n \<le> u32_max | None \<Rightarrow> True))) \<and>
    (\<forall>i < length files. \<forall>r. cd_relative_path (fz_descriptor (files ! i)) = Some r \<longrightarrow>
       (\<exists>j < i. cd_directory (fz_descriptor (files ! j)) \<and> wire_name (files ! j) = r)) \<and>
    distinct (map (place upper) files)"
proof -
  let ?w = "(walk_new max_entries)\<lparr>wk_huge := huge\<rparr>"
  have "walk_ok upper max_entries 0 [] ?w" by (simp add: walk_ok_def walk_new_def frozen_list.nothing)
  from freeze_selected_spec [OF upper max this, of fs paths] obtain w zs where
    w: "freeze_selected fs upper paths ?w = Some w" "walk_ok upper max_entries 0 zs w" "wk_huge w = huge" "wk_max w = max_entries"
    by (auto simp: reaches_def walk_new_def)
  have list: "frozen_list upper huge zs" and files: "wk_files w = map snd zs" and len: "length (wk_files w) \<le> max_entries"
    using w(2-4) by (auto simp: walk_ok_def)
  have "freeze_paths_with_limits fs upper paths max_entries huge = Some (map snd zs)"
    by (simp add: freeze_paths_with_limits_def w(1) files)
  moreover have "windows_safe (cd_name (fz_descriptor f)) \<and> utf16_len (wire_name f) < 260 \<and>
      (\<not> huge \<and> \<not> cd_directory (fz_descriptor f) \<longrightarrow> (case cd_size (fz_descriptor f) of Some n \<Rightarrow> n \<le> u32_max | None \<Rightarrow> True))"
    if "f \<in> set (map snd zs)" for f
    using that frozen_list_parents [OF list] wire_name_bound by (fastforce simp: entry_ok_def Let_def)
  moreover have "distinct (map (place upper) (map snd zs))" using frozen_list_places [OF list] by (simp add: o_def)
  moreover have "\<forall>i < length (map snd zs). \<forall>r. cd_relative_path (fz_descriptor (map snd zs ! i)) = Some r \<longrightarrow>
      (\<exists>j < i. cd_directory (fz_descriptor (map snd zs ! j)) \<and> wire_name (map snd zs ! j) = r)"
    using frozen_list_directories [OF list] by (metis (no_types, lifting) length_map less_trans nth_map)
  ultimately show ?thesis using len files by (intro exI [of _ "map snd zs"]) simp
qed

section \<open>A small directory\<close>

text \<open>A directory with two files whose names differ in case, read with ASCII upper case.\<close>

definition tiny_upper :: "nat \<Rightarrow> name" where
  "tiny_upper c = [ascii_upper c]"

definition tiny_stat :: "bool \<Rightarrow> nat \<Rightarrow> stat_result" where
  "tiny_stat directory inode = \<lparr>st_file = \<not> directory, st_dir = directory, st_device = 1, st_inode = inode, st_len = 5,
     st_modified = Some 0\<rparr>"

definition tiny_fs :: file_system where
  "tiny_fs = \<lparr>sys_stat = (\<lambda>t p. Some (tiny_stat (p = [47, 100]) (length p))),
     sys_open = (\<lambda>t p. Some (Some (tiny_stat False (length p)))),
     sys_read_dir = (\<lambda>t p. Some [Some [47, 100, 47, 97], None, Some [47, 100, 47, 65]])\<rparr>"

lemma tiny_digits: "digits_fixed tiny_upper"
  by (simp add: digits_fixed_def tiny_upper_def ascii_upper_def)

theorem frozen_selection_well_formed_witness:
  "\<exists>files. freeze_paths_with_limits tiny_fs tiny_upper [[47, 100]] 10 False = Some files \<and> length files \<le> 10 \<and>
     distinct (map (place tiny_upper) files)"
  using frozen_selection_well_formed [OF tiny_digits, of 10 tiny_fs "[[47, 100]]" False] by auto

end
