(* ===== verification/OutboundFiles.thy ===== *)
theory OutboundFiles
  imports FrozenWalk InboundTransfer
begin

text \<open>
  The file selection offered to the client (\<open>clipboard/files.rs\<close>): the frozen list under its mutex,
  the locks that pin older lists, the worker that freezes selections and answers reads. A lock
  section of the code is one operation; the worker interleaves with the threads that call it.
  Freezing walks the file system and is the subject of \<open>FrozenWalk\<close>: here its result is an input of
  the worker, and so is the answer of the file system to a read.
\<close>

section \<open>State\<close>

definition read_queue_depth :: nat where
  "read_queue_depth = 64"

definition max_locked_selections :: nat where
  "max_locked_selections = 100"

definition size_response_bytes :: nat where
  "size_response_bytes = 8"

record frozen_selection =
  fs_generation :: nat
  fs_stream :: bool
  fs_huge :: bool
  fs_entries :: "frozen_file list option"
  fs_lock_enabled :: bool
  fs_pending :: "nat option"
  fs_announced :: "frozen_file list option"
  fs_confirmed :: "frozen_file list option"
  fs_locked :: "(nat \<times> frozen_file list) list"

definition frozen_default :: frozen_selection where
  "frozen_default =
     \<lparr>fs_generation = 0, fs_stream = False, fs_huge = False, fs_entries = None, fs_lock_enabled = False,
      fs_pending = Some 0, fs_announced = None, fs_confirmed = None, fs_locked = []\<rparr>"

text \<open>The clipboard messages of the server, in the order it sends them.\<close>

datatype clip_message =
    SendInitiateCopy "nat list"
  | SendInitiateFileCopy "clip_descriptor list"
  | SendInitiatePaste nat
  | SendFormatData "byte list option"
  | SendFileContentsResponse contents_response

record file_request =
  fq_stream :: nat
  fq_index :: int
  fq_flags :: "32 word"
  fq_position :: nat
  fq_requested :: nat
  fq_data_id :: "nat option"

datatype worker_command = Wake | ReadFile file_request "frozen_file option"

text \<open>
  Where the worker is: at the head of its loop, waiting for a command, in the walk of a selection,
  with a request in hand (and whether streaming was enabled when it took it), or gone.
\<close>

datatype file_worker =
    FilesLooping
  | FilesReceiving
  | FilesWalking "path list" nat bool
  | FilesReading file_request "frozen_file option" bool
  | FilesStopped

record outbound =
  ob_files :: frozen_selection
  ob_sender_open :: bool
  ob_sent :: "clip_message list"
  ob_commands :: "worker_command list"
  ob_selection :: "(path list \<times> nat) option"
  ob_stopping :: bool
  ob_worker :: file_worker

definition outbound_new :: outbound where
  "outbound_new =
     \<lparr>ob_files = frozen_default, ob_sender_open = True, ob_sent = [], ob_commands = [], ob_selection = None,
      ob_stopping = False, ob_worker = FilesLooping\<rparr>"

section \<open>The frozen selection\<close>

definition fs_announce :: "bool \<Rightarrow> frozen_selection \<Rightarrow> frozen_selection" where
  "fs_announce files s =
     s\<lparr>fs_pending := Option.bind (fs_pending s) (\<lambda>n. u64_checked_add n 1), fs_confirmed := None,
       fs_announced := (if files then fs_entries s else None)\<rparr>"

definition next_generation :: "frozen_selection \<Rightarrow> frozen_selection" where
  "next_generation s = s\<lparr>fs_generation := u64_add (fs_generation s) 1, fs_entries := None\<rparr>"

definition file_format_list_response :: "bool \<Rightarrow> frozen_selection \<Rightarrow> frozen_selection" where
  "file_format_list_response accepted s = (case fs_pending s of
     None \<Rightarrow> s
   | Some 0 \<Rightarrow> s
   | Some (Suc n) \<Rightarrow>
       (let s1 = s\<lparr>fs_pending := Some n\<rparr>
        in if n = 0 \<and> accepted then s1\<lparr>fs_confirmed := fs_announced s\<rparr> else s1))"

definition set_file_capabilities :: "bool \<Rightarrow> bool \<Rightarrow> frozen_selection \<Rightarrow> frozen_selection" where
  "set_file_capabilities stream_enabled huge_files s =
     (let s1 = (if fs_stream s \<noteq> stream_enabled \<or> fs_huge s \<noteq> huge_files
                then (next_generation s)\<lparr>fs_locked := [], fs_confirmed := None, fs_announced := None\<rparr> else s)
      in s1\<lparr>fs_stream := stream_enabled, fs_huge := huge_files\<rparr>)"

definition set_file_lock_capability :: "bool \<Rightarrow> frozen_selection \<Rightarrow> frozen_selection" where
  "set_file_lock_capability locking s =
     (let s1 = s\<lparr>fs_lock_enabled := locking\<rparr>
      in if locking then s1 else s1\<lparr>fs_locked := [], fs_confirmed := None\<rparr>)"

definition lock_selection :: "nat \<Rightarrow> frozen_selection \<Rightarrow> frozen_selection" where
  "lock_selection lock s =
     (if \<not> fs_stream s \<or> \<not> fs_lock_enabled s \<or> map_of (fs_locked s) lock \<noteq> None \<or>
         max_locked_selections \<le> length (fs_locked s)
      then s
      else (case fs_confirmed s of
          None \<Rightarrow> s
        | Some frozen \<Rightarrow> s\<lparr>fs_locked := map_insert lock frozen (fs_locked s)\<rparr>))"

definition unlock_selection :: "nat \<Rightarrow> frozen_selection \<Rightarrow> frozen_selection" where
  "unlock_selection lock s = s\<lparr>fs_locked := map_remove lock (fs_locked s)\<rparr>"

definition clear_selection :: "frozen_selection \<Rightarrow> frozen_selection" where
  "clear_selection s = next_generation s"

definition entry_at :: "int \<Rightarrow> 'a list \<Rightarrow> 'a option" where
  "entry_at index xs = (if 0 \<le> index \<and> nat index < length xs then Some (xs ! nat index) else None)"

definition selected_file :: "frozen_selection \<Rightarrow> file_request \<Rightarrow> frozen_file option" where
  "selected_file s request =
     (if \<not> fs_stream s then None
      else (case fq_data_id request of
          Some lock \<Rightarrow> if fs_lock_enabled s then Option.bind (map_of (fs_locked s) lock) (entry_at (fq_index request)) else None
        | None \<Rightarrow> Option.bind (fs_entries s) (entry_at (fq_index request))))"

section \<open>Announcements\<close>

definition clip_send :: "clip_message \<Rightarrow> outbound \<Rightarrow> outbound" where
  "clip_send message s = (if ob_sender_open s then s\<lparr>ob_sent := ob_sent s @ [message]\<rparr> else s)"

definition with_files :: "(frozen_selection \<Rightarrow> frozen_selection) \<Rightarrow> outbound \<Rightarrow> outbound" where
  "with_files f s = s\<lparr>ob_files := f (ob_files s)\<rparr>"

fun is_file_copy :: "clip_message \<Rightarrow> bool" where
  "is_file_copy (SendInitiateFileCopy descriptors) \<longleftrightarrow> True"
| "is_file_copy message \<longleftrightarrow> False"

definition send_format_announcement :: "clip_message \<Rightarrow> outbound \<Rightarrow> bool \<times> outbound" where
  "send_format_announcement message s =
     (ob_sender_open s, clip_send message (with_files (fs_announce (is_file_copy message)) s))"

definition announce_file_formats :: "outbound \<Rightarrow> outbound" where
  "announce_file_formats s =
     (if \<not> fs_stream (ob_files s) then s
      else (case fs_entries (ob_files s) of
          None \<Rightarrow> s
        | Some frozen \<Rightarrow> clip_send (SendInitiateFileCopy (map fz_descriptor frozen)) (with_files (fs_announce True) s)))"

section \<open>The worker and its handle\<close>

definition error_response :: "nat \<Rightarrow> contents_response" where
  "error_response stream = \<lparr>rs_stream = stream, rs_error = True, rs_data = []\<rparr>"

text \<open>\<open>try_send\<close> on the bounded queue: refused when it is full or the worker is gone.\<close>

definition try_send :: "worker_command \<Rightarrow> outbound \<Rightarrow> bool \<times> outbound" where
  "try_send command s =
     (if ob_worker s \<noteq> FilesStopped \<and> length (ob_commands s) < read_queue_depth
      then (True, s\<lparr>ob_commands := ob_commands s @ [command]\<rparr>) else (False, s))"

definition worker_read :: "file_request \<Rightarrow> outbound \<Rightarrow> outbound" where
  "worker_read request s =
     (let (queued, s1) = try_send (ReadFile request (selected_file (ob_files s) request)) s
      in if queued then s1 else clip_send (SendFileContentsResponse (error_response (fq_stream request))) s1)"

definition worker_freeze :: "path list \<Rightarrow> nat \<Rightarrow> outbound \<Rightarrow> bool \<times> outbound" where
  "worker_freeze paths generation s =
     (if \<not> fs_stream (ob_files s) then (False, s)
      else (let s1 = s\<lparr>ob_selection := Some (paths, generation)\<rparr>
            in (ob_worker s \<noteq> FilesStopped, snd (try_send Wake s1))))"

definition selection_freeze :: "path list \<Rightarrow> outbound \<Rightarrow> bool \<times> outbound" where
  "selection_freeze paths s =
     (if paths = [] then (False, s)
      else (let s1 = with_files next_generation s
            in if \<not> fs_stream (ob_files s1) then (False, s1)
               else worker_freeze paths (fs_generation (ob_files s1)) s1))"

definition publish_selection :: "nat \<Rightarrow> frozen_file list \<Rightarrow> outbound \<Rightarrow> outbound" where
  "publish_selection generation frozen s =
     (if \<not> fs_stream (ob_files s) \<or> fs_generation (ob_files s) \<noteq> generation then s
      else (let s1 = with_files (\<lambda>f. f\<lparr>fs_entries := (if frozen = [] then None else Some frozen)\<rparr>) s
            in if frozen = [] then s1
               else clip_send (SendInitiateFileCopy (map fz_descriptor frozen)) (with_files (fs_announce True) s1)))"

text \<open>
  A step of the loop: at its head the stop flag and the slot are looked at; then the next command is
  received, once there is one. Then the end of a walk and of a read, with their results.
\<close>

definition worker_turn :: "outbound \<Rightarrow> outbound" where
  "worker_turn s = (case ob_worker s of
     FilesLooping \<Rightarrow>
       if ob_stopping s then s\<lparr>ob_worker := FilesStopped\<rparr>
       else (case ob_selection s of
           Some (paths, generation) \<Rightarrow>
             s\<lparr>ob_selection := None, ob_worker := FilesWalking paths generation (fs_huge (ob_files s))\<rparr>
         | None \<Rightarrow> s\<lparr>ob_worker := FilesReceiving\<rparr>)
   | FilesReceiving \<Rightarrow> (case ob_commands s of
       [] \<Rightarrow> s
     | Wake # rest \<Rightarrow> s\<lparr>ob_commands := rest, ob_worker := FilesLooping\<rparr>
     | ReadFile request fl # rest \<Rightarrow>
         s\<lparr>ob_commands := rest, ob_worker := FilesReading request fl (fs_stream (ob_files s))\<rparr>)
   | _ \<Rightarrow> s)"

definition walk_done :: "(path list \<Rightarrow> bool \<Rightarrow> frozen_file list) \<Rightarrow> outbound \<Rightarrow> outbound" where
  "walk_done walk s = (case ob_worker s of
     FilesWalking paths generation huge \<Rightarrow> publish_selection generation (walk paths huge) (s\<lparr>ob_worker := FilesLooping\<rparr>)
   | _ \<Rightarrow> s)"

definition read_done :: "(frozen_file option \<Rightarrow> file_request \<Rightarrow> contents_response) \<Rightarrow> outbound \<Rightarrow> outbound" where
  "read_done reader s = (case ob_worker s of
     FilesReading request fl streaming \<Rightarrow>
       (if ob_stopping s then s\<lparr>ob_worker := FilesStopped\<rparr>
        else clip_send (SendFileContentsResponse (if streaming then reader fl request else error_response (fq_stream request)))
               (s\<lparr>ob_worker := FilesLooping\<rparr>))
   | _ \<Rightarrow> s)"

text \<open>The end of a session: the flag, the selection forgotten, the locks dropped, a last wake.\<close>

definition drop_worker :: "outbound \<Rightarrow> outbound" where
  "drop_worker s =
     snd (try_send Wake (with_files (set_file_lock_capability False) (with_files clear_selection (s\<lparr>ob_stopping := True\<rparr>))))"

unbundle bit_operations_syntax

section \<open>Answering a read\<close>

datatype file_operation = SizeOf | RangeOf nat nat

definition flag_size :: "32 word" where "flag_size = 1"
definition flag_range :: "32 word" where "flag_range = 2"

definition requested_operation :: "file_request \<Rightarrow> file_operation option" where
  "requested_operation request =
     (let wants_size = fq_flags request AND flag_size = flag_size;
          wants_range = fq_flags request AND flag_range = flag_range
      in if wants_size \<and> \<not> wants_range \<and> fq_position request = 0 \<and> fq_requested request = size_response_bytes
         then Some SizeOf
         else if \<not> wants_size \<and> wants_range then Some (RangeOf (fq_position request) (fq_requested request))
         else None)"

record metadata =
  mt_device :: nat
  mt_inode :: nat
  mt_regular :: bool
  mt_len :: nat

text \<open>An open file: its metadata, whether it seeks, and what it reads there into a buffer of a size.\<close>

record open_file =
  of_metadata :: "metadata option"
  of_seek :: "nat \<Rightarrow> bool"
  of_read :: "nat \<Rightarrow> nat \<Rightarrow> byte list option"

definition le64 :: "nat \<Rightarrow> byte list" where
  "le64 n = map (\<lambda>i. of_nat (n div 256 ^ i)) [0..<8]"

definition read_frozen_file :: "(path \<Rightarrow> open_file option) \<Rightarrow> nat \<Rightarrow> frozen_file option \<Rightarrow> file_request \<Rightarrow> contents_response" where
  "read_frozen_file open_source max_chunk_bytes fl request =
     (let failed = error_response (fq_stream request) in
      case requested_operation request of
        None \<Rightarrow> failed
      | Some operation \<Rightarrow> (case fl of
          None \<Rightarrow> failed
        | Some frozen \<Rightarrow> (case open_source (fz_path frozen) of
            None \<Rightarrow> failed
          | Some opened \<Rightarrow> (case of_metadata opened of
              None \<Rightarrow> failed
            | Some m \<Rightarrow>
                (if mt_device m \<noteq> fz_device frozen \<or> mt_inode m \<noteq> fz_inode frozen \<or> \<not> mt_regular m then failed
                 else (case operation of
                     SizeOf \<Rightarrow> \<lparr>rs_stream = fq_stream request, rs_error = False, rs_data = le64 (mt_len m)\<rparr>
                   | RangeOf position len \<Rightarrow>
                       (if max_chunk_bytes < len \<or> \<not> of_seek opened position then failed
                        else (case of_read opened position len of
                            None \<Rightarrow> failed
                          | Some bytes \<Rightarrow> \<lparr>rs_stream = fq_stream request, rs_error = False, rs_data = take len bytes\<rparr>))))))))"

section \<open>Events\<close>

text \<open>
  The calls of the protocol thread and of the watcher, and the steps of the worker. \<open>walk\<close> freezes
  paths and \<open>reader\<close> answers a read; both depend on the file system at the moment of the event, the
  number the event carries.
\<close>

datatype files_event =
    LocalFormats "nat list"
  | AnnounceFiles
  | ListResponse bool
  | FileCapabilities bool bool
  | LockCapability bool
  | LockData nat
  | UnlockData nat
  | ReadRequest file_request
  | ClearFiles
  | FreezePaths "path list"
  | WorkerTurn
  | WalkDone nat
  | ReadDone nat
  | DropWorker
  | ChannelCloses

fun files_step :: "(nat \<Rightarrow> path list \<Rightarrow> bool \<Rightarrow> frozen_file list) \<Rightarrow> (nat \<Rightarrow> frozen_file option \<Rightarrow> file_request \<Rightarrow> contents_response)
    \<Rightarrow> outbound \<Rightarrow> files_event \<Rightarrow> outbound" where
  "files_step walk reader s (LocalFormats formats) = snd (send_format_announcement (SendInitiateCopy formats) s)"
| "files_step walk reader s AnnounceFiles = announce_file_formats s"
| "files_step walk reader s (ListResponse accepted) = with_files (file_format_list_response accepted) s"
| "files_step walk reader s (FileCapabilities stream huge) = with_files (set_file_capabilities stream huge) s"
| "files_step walk reader s (LockCapability locking) = with_files (set_file_lock_capability locking) s"
| "files_step walk reader s (LockData lock) = with_files (lock_selection lock) s"
| "files_step walk reader s (UnlockData lock) = with_files (unlock_selection lock) s"
| "files_step walk reader s (ReadRequest request) = worker_read request s"
| "files_step walk reader s ClearFiles = with_files clear_selection s"
| "files_step walk reader s (FreezePaths paths) = snd (selection_freeze paths s)"
| "files_step walk reader s WorkerTurn = worker_turn s"
| "files_step walk reader s (WalkDone t) = walk_done (walk t) s"
| "files_step walk reader s (ReadDone t) = read_done (reader t) s"
| "files_step walk reader s DropWorker = drop_worker s"
| "files_step walk reader s ChannelCloses = s\<lparr>ob_sender_open := False\<rparr>"

section \<open>Locks\<close>

text \<open>A lock does not see what is copied after it: only an unlock or a capability change ends it.\<close>

fun ends_lock :: "nat \<Rightarrow> files_event \<Rightarrow> bool" where
  "ends_lock lock (UnlockData l) \<longleftrightarrow> l = lock"
| "ends_lock lock (FileCapabilities stream huge) \<longleftrightarrow> True"
| "ends_lock lock (LockCapability locking) \<longleftrightarrow> True"
| "ends_lock lock DropWorker \<longleftrightarrow> True"
| "ends_lock lock e \<longleftrightarrow> False"

lemma fs_announce_simps [simp]:
  "fs_locked (fs_announce files f) = fs_locked f" "fs_stream (fs_announce files f) = fs_stream f"
  "fs_lock_enabled (fs_announce files f) = fs_lock_enabled f" "fs_entries (fs_announce files f) = fs_entries f"
  "fs_generation (fs_announce files f) = fs_generation f" "fs_huge (fs_announce files f) = fs_huge f"
  "fs_confirmed (fs_announce files f) = None" "fs_announced (fs_announce files f) = (if files then fs_entries f else None)"
  "fs_pending (fs_announce files f) = Option.bind (fs_pending f) (\<lambda>n. u64_checked_add n 1)"
  by (simp_all add: fs_announce_def)

lemma next_generation_simps [simp]:
  "fs_locked (next_generation f) = fs_locked f" "fs_stream (next_generation f) = fs_stream f"
  "fs_lock_enabled (next_generation f) = fs_lock_enabled f" "fs_entries (next_generation f) = None"
  "fs_generation (next_generation f) = u64_add (fs_generation f) 1" "fs_huge (next_generation f) = fs_huge f"
  "fs_confirmed (next_generation f) = fs_confirmed f" "fs_announced (next_generation f) = fs_announced f"
  "fs_pending (next_generation f) = fs_pending f"
  by (simp_all add: next_generation_def)

lemma clip_send_simps [simp]:
  "ob_files (clip_send m s) = ob_files s" "ob_sender_open (clip_send m s) = ob_sender_open s"
  "ob_commands (clip_send m s) = ob_commands s" "ob_selection (clip_send m s) = ob_selection s"
  "ob_stopping (clip_send m s) = ob_stopping s" "ob_worker (clip_send m s) = ob_worker s"
  "ob_sent (clip_send m s) = (if ob_sender_open s then ob_sent s @ [m] else ob_sent s)"
  by (simp_all add: clip_send_def)

lemma with_files_simps [simp]:
  "ob_files (with_files f s) = f (ob_files s)" "ob_sender_open (with_files f s) = ob_sender_open s"
  "ob_commands (with_files f s) = ob_commands s" "ob_selection (with_files f s) = ob_selection s"
  "ob_stopping (with_files f s) = ob_stopping s" "ob_worker (with_files f s) = ob_worker s" "ob_sent (with_files f s) = ob_sent s"
  by (simp_all add: with_files_def)

lemma try_send_simps [simp]:
  "ob_files (snd (try_send c s)) = ob_files s" "ob_sender_open (snd (try_send c s)) = ob_sender_open s"
  "ob_selection (snd (try_send c s)) = ob_selection s" "ob_stopping (snd (try_send c s)) = ob_stopping s"
  "ob_worker (snd (try_send c s)) = ob_worker s" "ob_sent (snd (try_send c s)) = ob_sent s"
  by (simp_all add: try_send_def)

text \<open>What a step does to the selection itself.\<close>

lemma step_files:
  "ob_files (files_step walk reader s e) = (case e of
     LocalFormats formats \<Rightarrow> fs_announce False (ob_files s)
   | AnnounceFiles \<Rightarrow> (if fs_stream (ob_files s) \<and> fs_entries (ob_files s) \<noteq> None then fs_announce True (ob_files s) else ob_files s)
   | ListResponse accepted \<Rightarrow> file_format_list_response accepted (ob_files s)
   | FileCapabilities stream huge \<Rightarrow> set_file_capabilities stream huge (ob_files s)
   | LockCapability locking \<Rightarrow> set_file_lock_capability locking (ob_files s)
   | LockData lock \<Rightarrow> lock_selection lock (ob_files s)
   | UnlockData lock \<Rightarrow> unlock_selection lock (ob_files s)
   | ClearFiles \<Rightarrow> next_generation (ob_files s)
   | FreezePaths paths \<Rightarrow> (if paths = [] then ob_files s else next_generation (ob_files s))
   | WalkDone t \<Rightarrow> (case ob_worker s of
       FilesWalking paths generation huge \<Rightarrow>
         (if fs_stream (ob_files s) \<and> fs_generation (ob_files s) = generation
          then (if walk t paths huge = [] then (ob_files s)\<lparr>fs_entries := None\<rparr>
                else fs_announce True ((ob_files s)\<lparr>fs_entries := Some (walk t paths huge)\<rparr>)) else ob_files s)
     | _ \<Rightarrow> ob_files s)
   | DropWorker \<Rightarrow> set_file_lock_capability False (next_generation (ob_files s))
   | _ \<Rightarrow> ob_files s)"
  by (cases e)
    (auto simp: send_format_announcement_def announce_file_formats_def worker_read_def clear_selection_def selection_freeze_def
       worker_freeze_def worker_turn_def walk_done_def publish_selection_def read_done_def drop_worker_def Let_def
       case_prod_beta split: option.splits file_worker.splits list.splits worker_command.splits)

lemma response_simps [simp]:
  "fs_locked (file_format_list_response a f) = fs_locked f" "fs_stream (file_format_list_response a f) = fs_stream f"
  "fs_lock_enabled (file_format_list_response a f) = fs_lock_enabled f" "fs_entries (file_format_list_response a f) = fs_entries f"
  "fs_generation (file_format_list_response a f) = fs_generation f" "fs_huge (file_format_list_response a f) = fs_huge f"
  "fs_announced (file_format_list_response a f) = fs_announced f"
  by (auto simp: file_format_list_response_def Let_def split: option.splits nat.splits)

lemma lock_selection_simps [simp]:
  "fs_stream (lock_selection l f) = fs_stream f" "fs_lock_enabled (lock_selection l f) = fs_lock_enabled f"
  "fs_entries (lock_selection l f) = fs_entries f" "fs_generation (lock_selection l f) = fs_generation f"
  "fs_huge (lock_selection l f) = fs_huge f" "fs_announced (lock_selection l f) = fs_announced f"
  "fs_confirmed (lock_selection l f) = fs_confirmed f" "fs_pending (lock_selection l f) = fs_pending f"
  by (simp_all add: lock_selection_def split: option.splits)

lemma unlock_selection_simps [simp]:
  "fs_stream (unlock_selection l f) = fs_stream f" "fs_lock_enabled (unlock_selection l f) = fs_lock_enabled f"
  "fs_entries (unlock_selection l f) = fs_entries f" "fs_generation (unlock_selection l f) = fs_generation f"
  "fs_huge (unlock_selection l f) = fs_huge f" "fs_announced (unlock_selection l f) = fs_announced f"
  "fs_confirmed (unlock_selection l f) = fs_confirmed f" "fs_pending (unlock_selection l f) = fs_pending f"
  "fs_locked (unlock_selection l f) = map_remove l (fs_locked f)"
  by (simp_all add: unlock_selection_def)

lemma lock_capability_simps [simp]:
  "fs_stream (set_file_lock_capability b f) = fs_stream f" "fs_lock_enabled (set_file_lock_capability b f) = b"
  "fs_entries (set_file_lock_capability b f) = fs_entries f" "fs_generation (set_file_lock_capability b f) = fs_generation f"
  "fs_huge (set_file_lock_capability b f) = fs_huge f" "fs_announced (set_file_lock_capability b f) = fs_announced f"
  "fs_confirmed (set_file_lock_capability b f) = (if b then fs_confirmed f else None)"
  "fs_pending (set_file_lock_capability b f) = fs_pending f"
  "fs_locked (set_file_lock_capability b f) = (if b then fs_locked f else [])"
  by (simp_all add: set_file_lock_capability_def Let_def)

lemma capabilities_simps [simp]:
  "fs_stream (set_file_capabilities b h f) = b" "fs_huge (set_file_capabilities b h f) = h"
  "fs_lock_enabled (set_file_capabilities b h f) = fs_lock_enabled f" "fs_pending (set_file_capabilities b h f) = fs_pending f"
  "fs_entries (set_file_capabilities b h f) = (if fs_stream f \<noteq> b \<or> fs_huge f \<noteq> h then None else fs_entries f)"
  "fs_generation (set_file_capabilities b h f) = (if fs_stream f \<noteq> b \<or> fs_huge f \<noteq> h then u64_add (fs_generation f) 1 else fs_generation f)"
  "fs_announced (set_file_capabilities b h f) = (if fs_stream f \<noteq> b \<or> fs_huge f \<noteq> h then None else fs_announced f)"
  "fs_confirmed (set_file_capabilities b h f) = (if fs_stream f \<noteq> b \<or> fs_huge f \<noteq> h then None else fs_confirmed f)"
  "fs_locked (set_file_capabilities b h f) = (if fs_stream f \<noteq> b \<or> fs_huge f \<noteq> h then [] else fs_locked f)"
  by (auto simp: set_file_capabilities_def Let_def)

lemma map_of_remove: "map_of (map_remove k xs) k' = (if k' = k then None else map_of xs k')"
  by (induction xs) (auto simp: map_remove_def)

lemma map_of_insert: "map_of (map_insert k v xs) k' = (if k' = k then Some v else map_of xs k')"
  by (simp add: map_insert_def map_of_remove)

lemma map_of_lock:
  "map_of (fs_locked (lock_selection l f)) k =
     (if k = l \<and> fs_stream f \<and> fs_lock_enabled f \<and> map_of (fs_locked f) l = None \<and> length (fs_locked f) < max_locked_selections
      then fs_confirmed f else map_of (fs_locked f) k)"
  by (auto simp: lock_selection_def map_of_insert split: option.splits)

lemma lock_kept_by_step:
  assumes "\<not> ends_lock lock e" and "map_of (fs_locked (ob_files s)) lock = Some frozen"
  shows "map_of (fs_locked (ob_files (files_step walk reader s e))) lock = Some frozen"
    and "fs_stream (ob_files (files_step walk reader s e)) = fs_stream (ob_files s)"
    and "fs_lock_enabled (ob_files (files_step walk reader s e)) = fs_lock_enabled (ob_files s)"
  using assms unfolding step_files
  by (cases e; auto simp: map_of_remove map_of_lock split: file_worker.splits)+

lemma lock_kept_by_run:
  assumes "list_all (\<lambda>e. \<not> ends_lock lock e) es" and "map_of (fs_locked (ob_files s)) lock = Some frozen"
  shows "map_of (fs_locked (ob_files (run_events (files_step walk reader) s es))) lock = Some frozen \<and>
    fs_stream (ob_files (run_events (files_step walk reader) s es)) = fs_stream (ob_files s) \<and>
    fs_lock_enabled (ob_files (run_events (files_step walk reader) s es)) = fs_lock_enabled (ob_files s)"
  using assms
proof (induction es arbitrary: s)
  case (Cons e es)
  note k = lock_kept_by_step [of lock e s frozen walk reader]
  from Cons k show ?case by simp
qed simp

section \<open>The run, with what the client and the watcher have done\<close>

text \<open>
  The ghost state of a run: the answers of the client to the format lists, the paths of the newest
  selection that nothing has replaced or ended since, how often the selection was replaced, and the
  reads received. A client answers every format list once.
\<close>

record files_world =
  fw_out :: outbound
  fw_responses :: "bool list"
  fw_latest :: "path list option"
  fw_changes :: nat
  fw_reads :: "nat list"

definition format_lists :: "outbound \<Rightarrow> clip_message list" where
  "format_lists s = filter (\<lambda>m. case m of SendInitiateCopy fs \<Rightarrow> True | SendInitiateFileCopy ds \<Rightarrow> True | _ \<Rightarrow> False) (ob_sent s)"

definition replaces_selection :: "frozen_selection \<Rightarrow> files_event \<Rightarrow> bool" where
  "replaces_selection f e = (case e of
     ClearFiles \<Rightarrow> True
   | FreezePaths paths \<Rightarrow> paths \<noteq> []
   | FileCapabilities stream huge \<Rightarrow> fs_stream f \<noteq> stream \<or> fs_huge f \<noteq> huge
   | DropWorker \<Rightarrow> True
   | _ \<Rightarrow> False)"

definition client_waits :: "files_world \<Rightarrow> files_event \<Rightarrow> bool" where
  "client_waits w e \<longleftrightarrow> (case e of ListResponse a \<Rightarrow> length (format_lists (fw_out w)) \<le> length (fw_responses w) | _ \<Rightarrow> False)"

definition world_step :: "(nat \<Rightarrow> path list \<Rightarrow> bool \<Rightarrow> frozen_file list) \<Rightarrow> (nat \<Rightarrow> frozen_file option \<Rightarrow> file_request \<Rightarrow> contents_response)
    \<Rightarrow> files_world \<Rightarrow> files_event \<Rightarrow> files_world" where
  "world_step walk reader w e =
     (if client_waits w e then w
      else \<lparr>fw_out = files_step walk reader (fw_out w) e,
            fw_responses = (case e of ListResponse a \<Rightarrow> fw_responses w @ [a] | _ \<Rightarrow> fw_responses w),
            fw_latest = (if replaces_selection (ob_files (fw_out w)) e
                         then (case e of FreezePaths paths \<Rightarrow> if fs_stream (ob_files (fw_out w)) then Some paths else None | _ \<Rightarrow> None)
                         else fw_latest w),
            fw_changes = (if replaces_selection (ob_files (fw_out w)) e then Suc (fw_changes w) else fw_changes w),
            fw_reads = (case e of ReadRequest request \<Rightarrow> fw_reads w @ [fq_stream request] | _ \<Rightarrow> fw_reads w)\<rparr>)"

definition world_start :: files_world where
  "world_start = \<lparr>fw_out = outbound_new, fw_responses = [], fw_latest = None, fw_changes = 0, fw_reads = []\<rparr>"

section \<open>What the client knows of a locked selection\<close>

text \<open>The format list a step sends, when the channel is open.\<close>

definition announces :: "(nat \<Rightarrow> path list \<Rightarrow> bool \<Rightarrow> frozen_file list) \<Rightarrow> outbound \<Rightarrow> files_event \<Rightarrow> clip_message option" where
  "announces walk s e = (case e of
     LocalFormats formats \<Rightarrow> Some (SendInitiateCopy formats)
   | AnnounceFiles \<Rightarrow> (if fs_stream (ob_files s)
       then map_option (\<lambda>frozen. SendInitiateFileCopy (map fz_descriptor frozen)) (fs_entries (ob_files s)) else None)
   | WalkDone t \<Rightarrow> (case ob_worker s of
       FilesWalking paths generation huge \<Rightarrow>
         (if fs_stream (ob_files s) \<and> fs_generation (ob_files s) = generation \<and> walk t paths huge \<noteq> []
          then Some (SendInitiateFileCopy (map fz_descriptor (walk t paths huge))) else None)
     | _ \<Rightarrow> None)
   | _ \<Rightarrow> None)"

lemma step_open: "ob_sender_open (files_step walk reader s e) = (if e = ChannelCloses then False else ob_sender_open s)"
  by (cases e)
    (auto simp: send_format_announcement_def announce_file_formats_def worker_read_def selection_freeze_def
       worker_freeze_def worker_turn_def walk_done_def publish_selection_def read_done_def drop_worker_def Let_def
       case_prod_beta split: option.splits file_worker.splits list.splits worker_command.splits)

lemma step_lists:
  "format_lists (files_step walk reader s e) = format_lists s @
     (if ob_sender_open s then (case announces walk s e of None \<Rightarrow> [] | Some m \<Rightarrow> [m]) else [])"
  by (cases e)
    (auto simp: format_lists_def announces_def send_format_announcement_def announce_file_formats_def worker_read_def selection_freeze_def
       worker_freeze_def worker_turn_def walk_done_def publish_selection_def read_done_def drop_worker_def Let_def
       case_prod_beta split: option.splits file_worker.splits list.splits worker_command.splits)

text \<open>How a step changes the bookkeeping of announcements.\<close>

lemma step_announced:
  assumes "announces walk s e = Some m"
  shows "fs_pending (ob_files (files_step walk reader s e)) = Option.bind (fs_pending (ob_files s)) (\<lambda>n. u64_checked_add n 1)"
    and "fs_confirmed (ob_files (files_step walk reader s e)) = None"
    and "fs_announced (ob_files (files_step walk reader s e)) = Some frozen \<Longrightarrow> m = SendInitiateFileCopy (map fz_descriptor frozen)"
  using assms unfolding step_files
  by (cases e; auto simp: announces_def split: file_worker.splits if_splits)+

lemma step_silent:
  assumes "announces walk s e = None" and "\<nexists>a. e = ListResponse a"
  shows "fs_pending (ob_files (files_step walk reader s e)) = fs_pending (ob_files s)"
    and "fs_confirmed (ob_files (files_step walk reader s e)) = Some frozen \<Longrightarrow> fs_confirmed (ob_files s) = Some frozen"
    and "fs_announced (ob_files (files_step walk reader s e)) = Some frozen \<Longrightarrow> fs_announced (ob_files s) = Some frozen"
  using assms unfolding step_files
  by (cases e; auto simp: announces_def split: file_worker.splits if_splits)+

definition lists_inv :: "files_world \<Rightarrow> bool" where
  "lists_inv w \<longleftrightarrow> (let f = ob_files (fw_out w); L = format_lists (fw_out w); r = fw_responses w in
     length r \<le> length L \<and>
     (\<forall>n. fs_pending f = Some n \<longrightarrow> length L \<le> n + length r \<and>
        (n + length r = length L \<longrightarrow> (\<forall>frozen. fs_announced f = Some frozen \<longrightarrow>
           L \<noteq> [] \<and> last L = SendInitiateFileCopy (map fz_descriptor frozen)))) \<and>
     (\<forall>frozen. fs_confirmed f = Some frozen \<longrightarrow> fs_pending f = Some 0 \<and> length r = length L \<and> L \<noteq> [] \<and>
        last L = SendInitiateFileCopy (map fz_descriptor frozen) \<and> last r))"

lemma lists_inv_response:
  assumes inv: "lists_inv w" and due: "length (fw_responses w) < length (format_lists (fw_out w))"
  shows "lists_inv (world_step walk reader w (ListResponse a))"
proof -
  let ?f = "ob_files (fw_out w)"
  have world: "ob_files (fw_out (world_step walk reader w (ListResponse a))) = file_format_list_response a ?f"
    "fw_responses (world_step walk reader w (ListResponse a)) = fw_responses w @ [a]"
    "format_lists (fw_out (world_step walk reader w (ListResponse a))) = format_lists (fw_out w)"
    using due by (simp_all add: world_step_def client_waits_def format_lists_def)
  have conf: "fs_confirmed ?f = None" using inv due by (cases "fs_confirmed ?f") (auto simp: lists_inv_def Let_def)
  show ?thesis
  proof (cases "fs_pending ?f")
    case None
    then have "file_format_list_response a ?f = ?f" by (simp add: file_format_list_response_def)
    then show ?thesis using due None conf unfolding lists_inv_def world Let_def by simp
  next
    case (Some m)
    then have m: "length (format_lists (fw_out w)) \<le> m + length (fw_responses w)" using inv by (simp add: lists_inv_def Let_def)
    then obtain n where n: "m = Suc n" using due by (cases m) auto
    have resp: "fs_pending (file_format_list_response a ?f) = Some n"
      "fs_confirmed (file_format_list_response a ?f) = (if n = 0 \<and> a then fs_announced ?f else None)"
      using Some n conf by (auto simp: file_format_list_response_def Let_def)
    have ann: "m + length (fw_responses w) = length (format_lists (fw_out w)) \<Longrightarrow> fs_announced ?f = Some frozen \<Longrightarrow>
        last (format_lists (fw_out w)) = SendInitiateFileCopy (map fz_descriptor frozen)" for frozen
      using inv Some by (simp add: lists_inv_def Let_def)
    show ?thesis
      using due m n ann unfolding lists_inv_def world Let_def by (auto simp: resp split: if_splits)
  qed
qed

lemma lists_inv_keeps:
  assumes inv: "lists_inv w"
  shows "lists_inv (world_step walk reader w e)"
proof (cases "\<exists>a. e = ListResponse a")
  case True
  then obtain a where e: "e = ListResponse a" ..
  show ?thesis
  proof (cases "client_waits w e")
    case True
    then show ?thesis using inv by (simp add: world_step_def)
  next
    case False
    then have "length (fw_responses w) < length (format_lists (fw_out w))" by (simp add: e client_waits_def)
    from lists_inv_response [OF inv this] show ?thesis unfolding e .
  qed
next
  case False
  let ?s = "fw_out w" and ?s' = "files_step walk reader (fw_out w) e"
  have world: "fw_out (world_step walk reader w e) = ?s'" "fw_responses (world_step walk reader w e) = fw_responses w"
    using False by (auto simp: world_step_def client_waits_def split: files_event.splits)
  show ?thesis
  proof (cases "announces walk ?s e")
    case None
    then have "format_lists ?s' = format_lists ?s" by (simp add: step_lists)
    then show ?thesis
      using inv step_silent [OF None False, of reader] unfolding lists_inv_def world Let_def by auto
  next
    case (Some m)
    note a = step_announced [OF Some, of reader]
    have L: "format_lists ?s' = format_lists ?s @ (if ob_sender_open ?s then [m] else [])" using Some by (simp add: step_lists)
    have "length (fw_responses w) \<le> length (format_lists ?s)" and
      "\<And>n. fs_pending (ob_files ?s) = Some n \<Longrightarrow> length (format_lists ?s) \<le> n + length (fw_responses w)"
      using inv by (simp_all add: lists_inv_def Let_def)
    then show ?thesis
      unfolding lists_inv_def world Let_def a(1,2) L using a(3)
      by (fastforce simp: u64_checked_add_def bind_eq_Some_conv split: if_splits)
  qed
qed

section \<open>Only the newest selection is published\<close>

definition tagged :: "files_world \<Rightarrow> path list \<Rightarrow> nat \<Rightarrow> bool" where
  "tagged w paths generation \<longleftrightarrow> generation \<le> fw_changes w \<and> (generation = fw_changes w \<longrightarrow> fw_latest w = Some paths)"

definition newest_inv :: "(nat \<Rightarrow> path list \<Rightarrow> bool \<Rightarrow> frozen_file list) \<Rightarrow> files_world \<Rightarrow> bool" where
  "newest_inv walk w \<longleftrightarrow> (let s = fw_out w; f = ob_files s in
     fs_generation f = fw_changes w \<and>
     (\<forall>paths g. ob_selection s = Some (paths, g) \<longrightarrow> tagged w paths g) \<and>
     (\<forall>paths g h. ob_worker s = FilesWalking paths g h \<longrightarrow> tagged w paths g \<and> (g = fw_changes w \<longrightarrow> h = fs_huge f)) \<and>
     (\<forall>frozen. fs_entries f = Some frozen \<longrightarrow> fs_stream f \<and>
        (\<exists>paths t. fw_latest w = Some paths \<and> frozen = walk t paths (fs_huge f))))"

lemma step_generation:
  "fs_generation (ob_files (files_step walk reader s e)) =
     (if replaces_selection (ob_files s) e then u64_add (fs_generation (ob_files s)) 1 else fs_generation (ob_files s))"
  unfolding step_files by (cases e) (auto simp: replaces_selection_def split: file_worker.splits)

lemma step_huge:
  "fs_huge (ob_files (files_step walk reader s e)) = (case e of FileCapabilities stream huge \<Rightarrow> huge | _ \<Rightarrow> fs_huge (ob_files s))"
  unfolding step_files by (cases e) (auto split: file_worker.splits)

lemma step_stream:
  "fs_stream (ob_files (files_step walk reader s e)) = (case e of FileCapabilities stream huge \<Rightarrow> stream | _ \<Rightarrow> fs_stream (ob_files s))"
  unfolding step_files by (cases e) (auto split: file_worker.splits)

lemma step_slot:
  "ob_selection (files_step walk reader s e) = (case e of
     FreezePaths paths \<Rightarrow> (if paths \<noteq> [] \<and> fs_stream (ob_files s)
       then Some (paths, u64_add (fs_generation (ob_files s)) 1) else ob_selection s)
   | WorkerTurn \<Rightarrow> (if ob_worker s = FilesLooping \<and> \<not> ob_stopping s then None else ob_selection s)
   | _ \<Rightarrow> ob_selection s)"
  by (cases e)
    (auto simp: send_format_announcement_def announce_file_formats_def worker_read_def selection_freeze_def
       worker_freeze_def worker_turn_def walk_done_def publish_selection_def read_done_def drop_worker_def Let_def
       case_prod_beta split: option.splits file_worker.splits list.splits worker_command.splits)

lemma step_walking:
  "ob_worker (files_step walk reader s e) = FilesWalking paths g h \<longleftrightarrow>
     (if e = WorkerTurn \<and> ob_worker s = FilesLooping
      then \<not> ob_stopping s \<and> ob_selection s = Some (paths, g) \<and> h = fs_huge (ob_files s)
      else ob_worker s = FilesWalking paths g h \<and> (\<nexists>t. e = WalkDone t))"
  by (cases e)
    (auto simp: send_format_announcement_def announce_file_formats_def worker_read_def selection_freeze_def
       worker_freeze_def worker_turn_def walk_done_def publish_selection_def read_done_def drop_worker_def Let_def
       case_prod_beta split: option.splits file_worker.splits list.splits worker_command.splits)

lemma step_entries:
  "fs_entries (ob_files (files_step walk reader s e)) =
     (if replaces_selection (ob_files s) e then None
      else (case e of WalkDone t \<Rightarrow> (case ob_worker s of
          FilesWalking paths g h \<Rightarrow>
            (if fs_stream (ob_files s) \<and> fs_generation (ob_files s) = g
             then (if walk t paths h = [] then None else Some (walk t paths h)) else fs_entries (ob_files s))
        | _ \<Rightarrow> fs_entries (ob_files s))
      | _ \<Rightarrow> fs_entries (ob_files s)))"
  unfolding step_files by (cases e) (auto simp: replaces_selection_def split: file_worker.splits)

lemma newest_inv_keeps:
  assumes inv: "newest_inv walk w" and few: "fw_changes (world_step walk reader w e) \<le> u64_max"
  shows "newest_inv walk (world_step walk reader w e)"
proof (cases "client_waits w e")
  case True
  then show ?thesis using inv by (simp add: world_step_def)
next
  case False
  let ?s = "fw_out w" and ?f = "ob_files (fw_out w)" and ?s' = "files_step walk reader (fw_out w) e"
  define w' where "w' = world_step walk reader w e"
  have world: "fw_out w' = ?s'" "fw_changes w' = (if replaces_selection ?f e then Suc (fw_changes w) else fw_changes w)"
    "fw_latest w' = (if replaces_selection ?f e
       then (case e of FreezePaths paths \<Rightarrow> if fs_stream ?f then Some paths else None | _ \<Rightarrow> None) else fw_latest w)"
    using False by (simp_all add: w'_def world_step_def)
  have i: "fs_generation ?f = fw_changes w" "\<And>paths g. ob_selection ?s = Some (paths, g) \<Longrightarrow> tagged w paths g"
    "\<And>paths g h. ob_worker ?s = FilesWalking paths g h \<Longrightarrow> tagged w paths g \<and> (g = fw_changes w \<longrightarrow> h = fs_huge ?f)"
    "\<And>frozen. fs_entries ?f = Some frozen \<Longrightarrow> fs_stream ?f \<and> (\<exists>paths t. fw_latest w = Some paths \<and> frozen = walk t paths (fs_huge ?f))"
    using inv by (simp_all add: newest_inv_def Let_def)
  have bump: "u64_add (fs_generation ?f) 1 = Suc (fw_changes w)" if "replaces_selection ?f e"
    using few that world(2) i(1) by (simp add: w'_def u64_add_def)
  have tag: "tagged w' paths g" if "tagged w paths g" for paths g
    using that world(2,3) by (auto simp: tagged_def)
  have gen: "fs_generation (ob_files ?s') = fw_changes w'"
    using bump i(1) world(2) by (simp add: step_generation)
  have slot: "tagged w' paths g" if "ob_selection ?s' = Some (paths, g)" for paths g
  proof (cases "\<exists>ps. e = FreezePaths ps \<and> ps \<noteq> [] \<and> fs_stream ?f")
    case True
    then have e: "e = FreezePaths paths" "paths \<noteq> []" "fs_stream ?f" "g = u64_add (fs_generation ?f) 1"
      using that by (auto simp: step_slot)
    then have "replaces_selection ?f e" by (simp add: replaces_selection_def)
    then show ?thesis using e bump world(2,3) by (simp add: tagged_def)
  next
    case False
    then have "ob_selection ?s = Some (paths, g)" using that by (auto simp: step_slot split: files_event.splits if_splits)
    then show ?thesis using i(2) tag by blast
  qed
  have huge: "fs_huge (ob_files ?s') = fs_huge ?f \<and> fs_stream (ob_files ?s') = fs_stream ?f" if "\<not> replaces_selection ?f e"
    using that by (simp add: step_huge step_stream replaces_selection_def split: files_event.splits)
  have walking: "tagged w' paths g \<and> (g = fw_changes w' \<longrightarrow> h = fs_huge (ob_files ?s'))" if "ob_worker ?s' = FilesWalking paths g h" for paths g h
  proof -
    have "tagged w paths g \<and> (g = fw_changes w \<longrightarrow> h = fs_huge ?f)"
      using that i(2,3) by (auto simp: step_walking split: if_splits)
    moreover have "replaces_selection ?f e \<Longrightarrow> g \<noteq> fw_changes w'" using calculation world(2) by (simp add: tagged_def)
    ultimately show ?thesis using tag huge world(2) by auto
  qed
  have entries: "fs_stream (ob_files ?s') \<and> (\<exists>paths t. fw_latest w' = Some paths \<and> frozen = walk t paths (fs_huge (ob_files ?s')))"
    if new: "fs_entries (ob_files ?s') = Some frozen" for frozen
  proof -
    have same: "\<not> replaces_selection ?f e" using new by (auto simp: step_entries)
    have latest: "fw_latest w' = fw_latest w" using same world(3) by simp
    show ?thesis
    proof (cases "fs_entries ?f = Some frozen")
      case True
      then show ?thesis using i(4) huge [OF same] latest by auto
    next
      case False
      then obtain t paths g h where "e = WalkDone t" and work: "ob_worker ?s = FilesWalking paths g h" and "fs_stream ?f"
        and g: "fs_generation ?f = g" and "frozen = walk t paths h"
        using new same by (auto simp: step_entries split: files_event.splits file_worker.splits if_splits)
      then have "fw_latest w = Some paths" "h = fs_huge ?f" using i(1) i(3) [OF work] by (simp_all add: tagged_def)
      then show ?thesis using huge [OF same] latest \<open>fs_stream ?f\<close> \<open>frozen = walk t paths h\<close> by auto
    qed
  qed
  show ?thesis using gen slot walking entries by (simp add: newest_inv_def Let_def world(1) flip: w'_def)
qed

section \<open>Every read is answered once\<close>

fun queued_reads :: "worker_command list \<Rightarrow> nat list" where
  "queued_reads [] = []"
| "queued_reads (Wake # cs) = queued_reads cs"
| "queued_reads (ReadFile request fl # cs) = fq_stream request # queued_reads cs"

fun read_in_hand :: "file_worker \<Rightarrow> nat list" where
  "read_in_hand (FilesReading request fl streaming) = [fq_stream request]"
| "read_in_hand _ = []"

definition answered :: "outbound \<Rightarrow> nat list" where
  "answered s = filter_map (\<lambda>m. case m of SendFileContentsResponse r \<Rightarrow> Some (rs_stream r) | _ \<Rightarrow> None) (ob_sent s)"

lemma queued_reads_append [simp]: "queued_reads (xs @ ys) = queued_reads xs @ queued_reads ys"
  by (induction xs rule: queued_reads.induct) simp_all

lemma filter_map_append [simp]: "filter_map f (xs @ ys) = filter_map f xs @ filter_map f ys"
  by (induction xs) (auto split: option.splits)

lemma answered_simps [simp]:
  "answered (with_files f s) = answered s" "answered (snd (try_send c s)) = answered s"
  "answered (clip_send m s) = (if ob_sender_open s
     then answered s @ (case m of SendFileContentsResponse r \<Rightarrow> [rs_stream r] | _ \<Rightarrow> []) else answered s)"
  by (auto simp: answered_def split: clip_message.splits)

lemma answered_same: "ob_sent s' = ob_sent s \<Longrightarrow> answered s' = answered s"
  by (simp add: answered_def)

text \<open>A reader answers on the stream of its request.\<close>

definition answers_stream :: "(nat \<Rightarrow> frozen_file option \<Rightarrow> file_request \<Rightarrow> contents_response) \<Rightarrow> bool" where
  "answers_stream reader \<longleftrightarrow> (\<forall>t fl request. rs_stream (reader t fl request) = fq_stream request)"

definition reads_inv :: "files_world \<Rightarrow> bool" where
  "reads_inv w \<longleftrightarrow> (let s = fw_out w in
     length (ob_commands s) \<le> read_queue_depth \<and>
     (ob_worker s = FilesStopped \<longrightarrow> ob_stopping s) \<and>
     (ob_sender_open s \<and> \<not> ob_stopping s \<longrightarrow>
        mset (fw_reads w) = mset (answered s) + mset (queued_reads (ob_commands s)) + mset (read_in_hand (ob_worker s))))"

lemma reads_inv_keeps:
  assumes inv: "reads_inv w" and reader: "answers_stream reader"
  shows "reads_inv (world_step walk reader w e)"
proof (cases "client_waits w e")
  case True
  then show ?thesis using inv by (simp add: world_step_def)
next
  case False
  let ?s = "fw_out w"
  have world: "fw_out (world_step walk reader w e) = files_step walk reader ?s e"
    "fw_reads (world_step walk reader w e) = (case e of ReadRequest request \<Rightarrow> fw_reads w @ [fq_stream request] | _ \<Rightarrow> fw_reads w)"
    using False by (simp_all add: world_step_def)
  have i: "length (ob_commands ?s) \<le> read_queue_depth" "ob_worker ?s = FilesStopped \<Longrightarrow> ob_stopping ?s"
    "ob_sender_open ?s \<Longrightarrow> \<not> ob_stopping ?s \<Longrightarrow>
       mset (fw_reads w) = mset (answered ?s) + mset (queued_reads (ob_commands ?s)) + mset (read_in_hand (ob_worker ?s))"
    using inv by (simp_all add: reads_inv_def Let_def)
  have resp: "rs_stream (error_response n) = n" for n by (simp add: error_response_def)
  note r = reader [unfolded answers_stream_def, rule_format]
  show ?thesis
    unfolding reads_inv_def Let_def world using i
    by (cases e)
      (auto simp: send_format_announcement_def announce_file_formats_def worker_read_def selection_freeze_def
         worker_freeze_def worker_turn_def walk_done_def publish_selection_def read_done_def drop_worker_def try_send_def Let_def
         case_prod_beta resp r answered_def read_queue_depth_def
         split: option.splits file_worker.splits list.splits worker_command.splits if_splits)
qed

section \<open>The invariant of a run\<close>

definition locks_inv :: "files_world \<Rightarrow> bool" where
  "locks_inv w \<longleftrightarrow> length (fs_locked (ob_files (fw_out w))) \<le> max_locked_selections"

definition world_inv :: "(nat \<Rightarrow> path list \<Rightarrow> bool \<Rightarrow> frozen_file list) \<Rightarrow> files_world \<Rightarrow> bool" where
  "world_inv walk w \<longleftrightarrow> lists_inv w \<and> reads_inv w \<and> locks_inv w \<and> (fw_changes w \<le> u64_max \<longrightarrow> newest_inv walk w)"

lemma locks_inv_keeps: "locks_inv w \<Longrightarrow> locks_inv (world_step walk reader w e)"
proof -
  assume inv: "locks_inv w"
  let ?f = "ob_files (fw_out w)"
  have remove: "length (map_remove l xs) \<le> length xs" for l and xs :: "(nat \<times> frozen_file list) list"
    by (simp add: map_remove_def)
  have "length (fs_locked (lock_selection l ?f)) \<le> max_locked_selections" for l
    using inv remove [of l "fs_locked ?f"] by (auto simp: locks_inv_def lock_selection_def map_insert_def split: option.splits)
  moreover have "length (map_remove l (fs_locked ?f)) \<le> max_locked_selections" for l
    using inv remove [of l "fs_locked ?f"] by (simp add: locks_inv_def)
  ultimately have "length (fs_locked (ob_files (files_step walk reader (fw_out w) e))) \<le> max_locked_selections"
    using inv unfolding step_files locks_inv_def by (cases e) (auto split: file_worker.splits)
  then show ?thesis using inv by (simp add: world_step_def locks_inv_def)
qed

lemma changes_mono: "fw_changes w \<le> fw_changes (world_step walk reader w e)"
  by (simp add: world_step_def)

lemma world_inv_keeps: "world_inv walk w \<Longrightarrow> answers_stream reader \<Longrightarrow> world_inv walk (world_step walk reader w e)"
  using changes_mono [of w walk reader e]
  by (auto simp: world_inv_def intro: lists_inv_keeps reads_inv_keeps locks_inv_keeps newest_inv_keeps)

lemma world_start_inv: "world_inv walk world_start"
  by (simp add: world_inv_def lists_inv_def reads_inv_def locks_inv_def newest_inv_def world_start_def outbound_new_def
      frozen_default_def format_lists_def answered_def Let_def)

interpretation files: event_system "world_step walk reader" "\<lambda>_. answers_stream reader" "world_inv walk"
  for walk :: "nat \<Rightarrow> path list \<Rightarrow> bool \<Rightarrow> frozen_file list" and reader
  by unfold_locales (rule world_inv_keeps)

lemma world_run_inv: "answers_stream reader \<Longrightarrow> world_inv walk (run_events (world_step walk reader) world_start es)"
  by (rule files.run_keeps [OF world_start_inv]) (simp add: list_all_iff)

lemma changes_bounded: "fw_changes (run_events (world_step walk reader) w es) \<le> fw_changes w + length es"
proof (induction es arbitrary: w)
  case (Cons e es)
  have "fw_changes (world_step walk reader w e) \<le> Suc (fw_changes w)" by (simp add: world_step_def)
  with Cons [of "world_step walk reader w e"] show ?case by simp
qed simp

section \<open>Properties\<close>

text \<open>
  C8: A lock pins the file list that the client knows: when \<open>LockData\<close> pins a list, the client has
  answered every format list sent to it, accepted the last one, and that one carried exactly the
  descriptors of the pinned files.
\<close>

theorem lock_pins_acknowledged_list:
  assumes "answers_stream reader" and "w = run_events (world_step walk reader) world_start es"
    and "map_of (fs_locked (ob_files (fw_out w))) lock = None"
    and "map_of (fs_locked (lock_selection lock (ob_files (fw_out w)))) lock = Some frozen"
  shows "length (fw_responses w) = length (format_lists (fw_out w)) \<and> format_lists (fw_out w) \<noteq> [] \<and>
    last (format_lists (fw_out w)) = SendInitiateFileCopy (map fz_descriptor frozen) \<and> last (fw_responses w)"
proof -
  have "fs_confirmed (ob_files (fw_out w)) = Some frozen" using assms(3,4) by (simp add: map_of_lock split: if_splits)
  with world_run_inv [OF assms(1), of walk es] show ?thesis by (simp add: assms(2) world_inv_def lists_inv_def Let_def)
qed

text \<open>
  C26: A locked list is stable: until the lock is released or the capabilities change, a read through it
  names the same file at the same index, whatever is copied, announced, frozen or read in between.
\<close>

theorem locked_files_stay:
  assumes "list_all (\<lambda>e. \<not> ends_lock lock e) es" and "map_of (fs_locked (ob_files s)) lock = Some frozen"
    and "fq_data_id request = Some lock"
  shows "selected_file (ob_files (run_events (files_step walk reader) s es)) request = selected_file (ob_files s) request"
  using lock_kept_by_run [OF assms(1,2), of walk reader] assms(2,3) by (simp add: selected_file_def)

text \<open>
  C24: The list offered without a lock is always a walk of the newest selection: no walk that finishes
  after the selection was cleared, replaced or cut off is published, for fewer than \<open>2 ^ 64\<close> events.
\<close>

theorem offered_files_are_newest:
  assumes "answers_stream reader" and "w = run_events (world_step walk reader) world_start es" and "length es \<le> u64_max"
    and "fs_entries (ob_files (fw_out w)) = Some frozen"
  shows "\<exists>paths t. fw_latest w = Some paths \<and> frozen = walk t paths (fs_huge (ob_files (fw_out w)))"
proof -
  have "fw_changes w \<le> u64_max"
    using changes_bounded [of walk reader world_start es] assms(2,3) by (simp add: world_start_def)
  then have "newest_inv walk w" using world_run_inv [OF assms(1), of walk es] by (simp add: assms(2) world_inv_def)
  then show ?thesis using assms(4) by (simp add: newest_inv_def Let_def)
qed

text \<open>
  While the session lasts every read of the client is answered exactly once or still waits: the
  streams of the reads received are those answered, those of the queue, which never holds more than 64
  commands, and the one the worker has in hand.
\<close>

theorem reads_answered_once:
  assumes "answers_stream reader" and "w = run_events (world_step walk reader) world_start es"
    and "ob_sender_open (fw_out w)" and "\<not> ob_stopping (fw_out w)"
  shows "mset (fw_reads w) = mset (answered (fw_out w)) + mset (queued_reads (ob_commands (fw_out w))) +
      mset (read_in_hand (ob_worker (fw_out w))) \<and> length (ob_commands (fw_out w)) \<le> 64"
  using world_run_inv [OF assms(1), of walk es] assms(3,4)
  by (simp add: assms(2) world_inv_def reads_inv_def read_queue_depth_def Let_def)

lemma le_value_bytes: "le_value (map (\<lambda>i. of_nat (n div 256 ^ i)) [0..<k]) = n mod 256 ^ k"
proof (induction k arbitrary: n)
  case (Suc k)
  have "map (\<lambda>i. of_nat (n div 256 ^ i) :: byte) [0..<Suc k] = of_nat n # map (\<lambda>i. of_nat ((n div 256) div 256 ^ i)) [0..<k]"
    by (simp add: upt_conv_Cons map_Suc_upt [symmetric] div_mult2_eq [symmetric] mult.commute del: upt_Suc)
  then have "le_value (map (\<lambda>i. of_nat (n div 256 ^ i)) [0..<Suc k]) = n mod 256 + 256 * ((n div 256) mod 256 ^ k)"
    using Suc by (simp add: unsigned_of_nat take_bit_eq_mod del: upt_Suc)
  then show ?case by (simp add: mod_mult2_eq del: upt_Suc)
qed simp

text \<open>
  C28: An answer that is not an error serves the frozen file and nothing else: the request asked for one
  operation, the path still opens the regular file with the device and inode that were frozen, and
  the bytes are its length in eight bytes or at most the bytes asked for, never more than the
  configured chunk, from the position asked for. The answer goes to the stream of the request.
\<close>

theorem reads_serve_frozen_file:
  assumes "r = read_frozen_file open_source max_chunk_bytes fl request"
  shows "rs_stream r = fq_stream request \<and> length (rs_data r) \<le> max 8 max_chunk_bytes \<and>
    (\<not> rs_error r \<longrightarrow> (\<exists>frozen opened m operation. fl = Some frozen \<and> requested_operation request = Some operation \<and>
       open_source (fz_path frozen) = Some opened \<and> of_metadata opened = Some m \<and>
       mt_device m = fz_device frozen \<and> mt_inode m = fz_inode frozen \<and> mt_regular m \<and>
       (case operation of
          SizeOf \<Rightarrow> length (rs_data r) = 8 \<and> (mt_len m \<le> u64_max \<longrightarrow> le_value (rs_data r) = mt_len m)
        | RangeOf position len \<Rightarrow> len \<le> max_chunk_bytes \<and> length (rs_data r) \<le> len \<and>
            (\<exists>bytes. of_read opened position len = Some bytes \<and> rs_data r = take len bytes))))"
proof -
  have size: "le_value (le64 n) = n" if "n \<le> u64_max" for n
    using that le_value_bytes [of n 8] by (simp add: le64_def)
  have len: "length (le64 n) = 8" for n by (simp add: le64_def)
  show ?thesis
    unfolding assms read_frozen_file_def Let_def
    by (auto simp: error_response_def size len split: option.splits file_operation.splits)
qed

section \<open>A small session\<close>

text \<open>One text file is frozen, announced, accepted and locked; then another one replaces it.\<close>

definition tiny_file :: "path \<Rightarrow> nat \<Rightarrow> frozen_file" where
  "tiny_file name inode = \<lparr>fz_pinned = True, fz_path = name, fz_device = 1, fz_inode = inode,
     fz_descriptor = \<lparr>cd_name = map unat name, cd_relative_path = None, cd_directory = False, cd_size = Some 3, cd_last_write = 0\<rparr>\<rparr>"

definition tiny_walk :: "nat \<Rightarrow> path list \<Rightarrow> bool \<Rightarrow> frozen_file list" where
  "tiny_walk t paths huge = map (\<lambda>path. tiny_file path (length path)) paths"

definition tiny_reader :: "nat \<Rightarrow> frozen_file option \<Rightarrow> file_request \<Rightarrow> contents_response" where
  "tiny_reader t fl request = error_response (fq_stream request)"

definition tiny_run :: "files_event list" where
  "tiny_run = [FileCapabilities True True, LockCapability True, FreezePaths [[97]], WorkerTurn, WalkDone 0, ListResponse True]"

definition tiny_request :: file_request where
  "tiny_request = \<lparr>fq_stream = 7, fq_index = 0, fq_flags = 2, fq_position = 1, fq_requested = 4, fq_data_id = Some 5\<rparr>"

lemma tiny_reader_answers: "answers_stream tiny_reader"
  by (simp add: answers_stream_def tiny_reader_def error_response_def)

lemmas tiny_step_defs =
  world_step_def client_waits_def replaces_selection_def world_start_def outbound_new_def frozen_default_def format_lists_def
  send_format_announcement_def announce_file_formats_def worker_read_def selection_freeze_def worker_freeze_def worker_turn_def
  walk_done_def publish_selection_def read_done_def with_files_def clip_send_def try_send_def fs_announce_def next_generation_def
  set_file_capabilities_def set_file_lock_capability_def file_format_list_response_def read_queue_depth_def
  u64_add_def u64_checked_add_def

definition tiny_world :: files_world where
  "tiny_world = \<lparr>fw_out = \<lparr>ob_files = \<lparr>fs_generation = 2, fs_stream = True, fs_huge = True, fs_entries = Some [tiny_file [97] 1],
        fs_lock_enabled = True, fs_pending = Some 0, fs_announced = Some [tiny_file [97] 1],
        fs_confirmed = Some [tiny_file [97] 1], fs_locked = []\<rparr>,
      ob_sender_open = True, ob_sent = [SendInitiateFileCopy [fz_descriptor (tiny_file [97] 1)]], ob_commands = [Wake],
      ob_selection = None, ob_stopping = False, ob_worker = FilesLooping\<rparr>,
    fw_responses = [True], fw_latest = Some [[97]], fw_changes = 2, fw_reads = []\<rparr>"

lemma tiny_run_world: "run_events (world_step tiny_walk reader) world_start tiny_run = tiny_world"
  by (simp add: tiny_run_def tiny_step_defs tiny_walk_def tiny_world_def Let_def)

theorem lock_pins_acknowledged_list_witness:
  "last (format_lists (fw_out tiny_world)) = SendInitiateFileCopy [fz_descriptor (tiny_file [97] 1)]"
  using lock_pins_acknowledged_list [OF tiny_reader_answers tiny_run_world [symmetric], of 5 "[tiny_file [97] 1]"]
  by (simp add: tiny_world_def lock_selection_def map_insert_def map_remove_def max_locked_selections_def)

theorem locked_files_stay_witness:
  "selected_file (ob_files (run_events (files_step tiny_walk tiny_reader) (with_files (lock_selection 5) (fw_out tiny_world))
      [FreezePaths [[98], [99]], WorkerTurn, WalkDone 1, ListResponse True, ClearFiles])) tiny_request = Some (tiny_file [97] 1)"
proof -
  have "map_of (fs_locked (ob_files (with_files (lock_selection 5) (fw_out tiny_world)))) 5 = Some [tiny_file [97] 1]"
    by (simp add: tiny_world_def lock_selection_def map_insert_def map_remove_def max_locked_selections_def)
  from locked_files_stay [OF _ this, of "[FreezePaths [[98], [99]], WorkerTurn, WalkDone 1, ListResponse True, ClearFiles]"
      tiny_request tiny_walk tiny_reader]
  show ?thesis
    by (simp add: tiny_request_def) (simp add: selected_file_def tiny_world_def lock_selection_def map_insert_def map_remove_def
        max_locked_selections_def entry_at_def)
qed

theorem offered_files_are_newest_witness:
  "\<exists>paths t. fw_latest tiny_world = Some paths \<and> [tiny_file [97] 1] = tiny_walk t paths True"
  using offered_files_are_newest [OF tiny_reader_answers tiny_run_world [symmetric], of "[tiny_file [97] 1]"]
  by (simp add: tiny_world_def tiny_run_def)

theorem reads_answered_once_witness:
  "mset (fw_reads (run_events (world_step tiny_walk tiny_reader) world_start (tiny_run @ [ReadRequest tiny_request]))) = {#7#}"
proof -
  define w where "w = run_events (world_step tiny_walk tiny_reader) world_start (tiny_run @ [ReadRequest tiny_request])"
  have w: "fw_out w = (fw_out tiny_world)\<lparr>ob_commands := [Wake, ReadFile tiny_request None]\<rparr>"
    by (simp add: w_def tiny_run_world) (simp add: tiny_world_def tiny_step_defs tiny_request_def selected_file_def)
  have "ob_sender_open (fw_out w)" "\<not> ob_stopping (fw_out w)" by (simp_all add: w tiny_world_def)
  from reads_answered_once [OF tiny_reader_answers w_def this] show ?thesis
    unfolding w_def [symmetric] by (simp add: w tiny_world_def answered_def tiny_request_def)
qed

theorem reads_serve_frozen_file_witness:
  "length (rs_data (read_frozen_file (\<lambda>path. Some \<lparr>of_metadata = Some \<lparr>mt_device = 1, mt_inode = 1, mt_regular = True, mt_len = 3\<rparr>,
      of_seek = \<lambda>position. True, of_read = \<lambda>position len. Some [98, 99]\<rparr>) 64 (Some (tiny_file [97] 1)) tiny_request)) \<le> max 8 64"
  using reads_serve_frozen_file [OF refl] by blast

end
