(* ===== verification/ClipboardBackend.thy ===== *)
theory ClipboardBackend
  imports InboundService OutboundFiles
begin

text \<open>
  The clipboard backend (\<open>clipboard/backend.rs\<close>): what the protocol thread does with each message of the
  clipboard channel. Its state holds the outbound files with their worker and the channel to the
  client, and the transfer of the inbound service. A handler runs to its end here; how the actions of
  the inbound service interleave with other threads is the subject of \<open>InboundService\<close>. The two image
  converters and the encoder of a Unicode answer belong to other packages: they are arguments.
  A handler whose string functions could panic has the type \<open>run\<close>.
\<close>

section \<open>State\<close>

definition cf_dib :: nat where "cf_dib = 8"
definition cf_unicodetext :: nat where "cf_unicodetext = 13"
definition cf_dibv5 :: nat where "cf_dibv5 = 17"

text \<open>A format the client offers: its identifier, and whether its name is that of a file list.\<close>

record clip_format =
  ft_format :: nat
  ft_file_list :: bool

record echo_candidate =
  ec_text :: "byte list option"
  ec_dib :: "byte list option"

record remote_selection =
  rs_format :: nat
  rs_generation :: "nat option"

datatype remote_request =
    Waiting "nat option"
  | Draining "remote_selection option"

record file_mode =
  fm_to_client :: bool
  fm_to_server :: bool

record 'f backend =
  bk_out :: outbound
  bk_worker :: bool
  bk_inbound :: "'f transfer option"
  bk_mode :: file_mode
  bk_remote_formats :: "clip_format list"
  bk_text :: "byte list option"
  bk_image :: "byte list option"
  bk_write :: "pending_write option"
  bk_echo :: "echo_candidate option"
  bk_last :: "nat option"
  bk_pending_echo :: "echo_candidate option"
  bk_request :: "remote_request option"

definition backend_new :: "int \<Rightarrow> file_mode \<Rightarrow> 'f backend" where
  "backend_new now mode =
     \<lparr>bk_out = outbound_new, bk_worker = True,
      bk_inbound = (if fm_to_server mode then Some (transfer_new now) else None), bk_mode = mode,
      bk_remote_formats = [], bk_text = None, bk_image = None, bk_write = None, bk_echo = None, bk_last = None,
      bk_pending_echo = None, bk_request = None\<rparr>"

definition with_out :: "(outbound \<Rightarrow> outbound) \<Rightarrow> 'f backend \<Rightarrow> 'f backend" where
  "with_out f s = s\<lparr>bk_out := f (bk_out s)\<rparr>"

definition post :: "clip_message \<Rightarrow> 'f backend \<Rightarrow> 'f backend" where
  "post message s = with_out (clip_send message) s"

section \<open>Kinds and formats\<close>

definition nonempty :: "byte list option \<Rightarrow> bool" where
  "nonempty data = (case data of Some d \<Rightarrow> d \<noteq> [] | None \<Rightarrow> False)"

fun has_local_selection :: "'f backend \<Rightarrow> selection_kind \<Rightarrow> bool" where
  "has_local_selection s Text = nonempty (bk_text s)"
| "has_local_selection s Image = nonempty (bk_image s)"
| "has_local_selection s Files = False"

fun local_format_for_kind :: "selection_kind \<Rightarrow> nat option" where
  "local_format_for_kind Text = Some cf_unicodetext"
| "local_format_for_kind Image = Some cf_dib"
| "local_format_for_kind Files = None"

definition local_kind_for_format :: "nat \<Rightarrow> selection_kind option" where
  "local_kind_for_format format =
     (if format = cf_unicodetext then Some Text else if format = cf_dib then Some Image else None)"

fun remote_format_for_kind :: "selection_kind \<Rightarrow> clip_format list \<Rightarrow> nat option" where
  "remote_format_for_kind Text formats = (if cf_unicodetext \<in> ft_format ` set formats then Some cf_unicodetext else None)"
| "remote_format_for_kind Image formats =
     (if cf_dibv5 \<in> ft_format ` set formats then Some cf_dibv5
      else if cf_dib \<in> ft_format ` set formats then Some cf_dib else None)"
| "remote_format_for_kind Files formats = None"

fun find_map :: "('a \<Rightarrow> 'b option) \<Rightarrow> 'a list \<Rightarrow> 'b option" where
  "find_map f [] = None"
| "find_map f (x # xs) = (case f x of None \<Rightarrow> find_map f xs | Some y \<Rightarrow> Some y)"

section \<open>The inbound service, as the protocol thread calls it\<close>

definition drop_files :: "pending_write option \<Rightarrow> pending_write option" where
  "drop_files w = (if is_files w then None else w)"

definition inbound_begin :: "int \<Rightarrow> 'f backend \<Rightarrow> nat option \<times> 'f backend" where
  "inbound_begin now s = (case bk_inbound s of
     None \<Rightarrow> (None, s)
   | Some transfer \<Rightarrow>
       (let ((generation, _), transfer') = retire_generation now transfer
        in (generation, s\<lparr>bk_inbound := Some transfer', bk_write := drop_files (bk_write s)\<rparr>)))"

definition inbound_capabilities :: "int \<Rightarrow> bool \<Rightarrow> bool \<Rightarrow> bool \<Rightarrow> 'f backend \<Rightarrow> 'f backend" where
  "inbound_capabilities now stream huge locking s = (case bk_inbound s of
     None \<Rightarrow> s
   | Some transfer \<Rightarrow> s\<lparr>bk_inbound := Some (snd (capabilities now stream huge locking transfer)), bk_write := drop_files (bk_write s)\<rparr>)"

definition inbound_release :: "int \<Rightarrow> nat list \<Rightarrow> 'f backend \<Rightarrow> 'f backend" where
  "inbound_release now data_ids s = (case bk_inbound s of
     None \<Rightarrow> s
   | Some transfer \<Rightarrow>
       (let (released, transfer') = release_locks now data_ids transfer;
            covers = (case live_generation transfer of Some g \<Rightarrow> g \<in> set released | None \<Rightarrow> False)
        in s\<lparr>bk_inbound := Some transfer', bk_write := (if covers then drop_files (bk_write s) else bk_write s)\<rparr>))"

section \<open>Local copies\<close>

definition announce_local_formats :: "nat list \<Rightarrow> 'f backend \<Rightarrow> 'f backend" where
  "announce_local_formats formats s =
     (if formats = [] then s
      else (let candidate = \<lparr>ec_text = (if cf_unicodetext \<in> set formats then bk_text s else None),
                             ec_dib = (if cf_dib \<in> set formats then bk_image s else None)\<rparr>;
                (sent, out) = send_format_announcement (SendInitiateCopy formats) (bk_out s)
            in s\<lparr>bk_out := out, bk_echo := (if sent then Some candidate else None)\<rparr>))"

definition on_request_format_list :: "'f backend \<Rightarrow> 'f backend" where
  "on_request_format_list s =
     (let formats = filter_map local_format_for_kind (filter (has_local_selection s) all_kinds)
      in with_out announce_file_formats (announce_local_formats formats s))"

definition on_format_list_response :: "bool \<Rightarrow> 'f backend \<Rightarrow> 'f backend" where
  "on_format_list_response accepted = with_out (with_files (file_format_list_response accepted))"

definition on_format_data_request :: "(byte list \<Rightarrow> byte list) \<Rightarrow> nat \<Rightarrow> 'f backend \<Rightarrow> 'f backend run" where
  "on_format_data_request unicode_string format s =
     (case local_kind_for_format format of
        Some Text \<Rightarrow>
          if nonempty (bk_text s)
          then map_option (\<lambda>text. post (SendFormatData (Some (unicode_string text))) s)
                 (to_crlf (from_utf8_lossy (the (bk_text s))))
          else Some (post (SendFormatData None) s)
      | Some Image \<Rightarrow>
          Some (post (SendFormatData (if nonempty (bk_image s) then bk_image s else None)) s)
      | Some Files \<Rightarrow> Some (post (SendFormatData None) s)
      | None \<Rightarrow> Some (post (SendFormatData None) s))"

section \<open>Remote copies\<close>

definition request_remote_selection :: "remote_selection \<Rightarrow> 'f backend \<Rightarrow> 'f backend" where
  "request_remote_selection selection s =
     (if ob_sender_open (bk_out s)
      then (post (SendInitiatePaste (rs_format selection)) s)
             \<lparr>bk_last := Some (rs_format selection), bk_request := Some (Waiting (rs_generation selection))\<rparr>
      else s\<lparr>bk_pending_echo := None\<rparr>)"

definition finish_remote_request :: "remote_request \<Rightarrow> 'f backend \<Rightarrow> 'f backend" where
  "finish_remote_request request s =
     (let s1 = s\<lparr>bk_last := None\<rparr>; given_up = s1\<lparr>bk_pending_echo := None\<rparr> in
      case request of
        Draining (Some selection) \<Rightarrow>
          (case rs_generation selection of
             Some generation \<Rightarrow>
               if Option.bind (bk_inbound s1) live_generation \<noteq> Some generation then given_up
               else request_remote_selection selection s1
           | None \<Rightarrow> request_remote_selection selection s1)
      | _ \<Rightarrow> given_up)"

definition remote_format :: "'f backend \<Rightarrow> clip_format list \<Rightarrow> nat option \<times> nat option" where
  "remote_format s formats =
     (let file_format = (case bk_inbound s of
            Some transfer \<Rightarrow> if enabled transfer then map_option ft_format (find ft_file_list formats) else None
          | None \<Rightarrow> None)
      in (file_format, if file_format \<noteq> None then file_format
                       else find_map (\<lambda>kind. remote_format_for_kind kind formats) remote_preference))"

definition on_remote_copy :: "int \<Rightarrow> clip_format list \<Rightarrow> 'f backend \<Rightarrow> 'f backend" where
  "on_remote_copy now formats s =
     (let s1 = with_out (with_files clear_selection) (s\<lparr>bk_remote_formats := formats\<rparr>);
          (remote_generation, s2) = inbound_begin now s1;
          candidate = bk_echo s2;
          s3 = s2\<lparr>bk_echo := None\<rparr>;
          (file_format, format) = remote_format s3 formats;
          file_generation = (if file_format = None then None else remote_generation);
          selection = map_option (\<lambda>f. \<lparr>rs_format = f, rs_generation = file_generation\<rparr>) format
      in if bk_request s3 \<noteq> None \<or> bk_last s3 \<noteq> None
         then s3\<lparr>bk_request := Some (Draining selection),
                 bk_pending_echo := (if candidate \<noteq> None then candidate else bk_pending_echo s3)\<rparr>
         else (case selection of
             None \<Rightarrow> s3\<lparr>bk_last := None, bk_pending_echo := None\<rparr>
           | Some sel \<Rightarrow> request_remote_selection sel (s3\<lparr>bk_pending_echo := candidate\<rparr>)))"

text \<open>The converters of another package: a DIB or a DIBV5 to PNG.\<close>

record image_ops =
  im_dib :: "byte list \<Rightarrow> byte list option"
  im_dibv5 :: "byte list \<Rightarrow> byte list option"

definition dib_png :: "image_ops \<Rightarrow> byte list \<Rightarrow> byte list option" where
  "dib_png images data = (case im_dib images data of
     Some png \<Rightarrow> Some png
   | None \<Rightarrow> Option.bind (fix_bitfields_dib data) (im_dib images))"

definition handle_format_data_response :: "image_ops \<Rightarrow> byte list option \<Rightarrow> nat \<Rightarrow> 'f backend \<Rightarrow> 'f backend run" where
  "handle_format_data_response images response max_size s =
     (let requested = bk_last s; candidate = bk_pending_echo s; s1 = s\<lparr>bk_last := None, bk_pending_echo := None\<rparr> in
      case response of
        None \<Rightarrow> Some s1
      | Some data \<Rightarrow>
          if data = [] \<or> max_size < length data then Some s1
          else if requested = Some cf_dibv5
          then Some (case im_dibv5 images data of Some png \<Rightarrow> s1\<lparr>bk_write := Some (WriteImage png)\<rparr> | None \<Rightarrow> s1)
          else if requested = Some cf_dib
          then Some (if Option.bind candidate ec_dib = Some data then s1
                     else (case dib_png images data of Some png \<Rightarrow> s1\<lparr>bk_write := Some (WriteImage png)\<rparr> | None \<Rightarrow> s1))
          else if requested = Some cf_unicodetext
          then (let text = utf16le_to_utf8 data in
                if text = [] then Some s1
                else do {
                  normalized \<leftarrow> normalize_lf text;
                  echo \<leftarrow> (case Option.bind candidate ec_text of
                      None \<Rightarrow> Some False
                    | Some announced \<Rightarrow> map_option (\<lambda>n. n = normalized) (normalize_lf (from_utf8_lossy announced)));
                  Some (if echo then s1 else s1\<lparr>bk_write := Some (WriteText normalized)\<rparr>)
                })
          else Some s1)"

definition on_format_data_response :: "image_ops \<Rightarrow> byte list option \<Rightarrow> 'f backend \<Rightarrow> 'f backend run" where
  "on_format_data_response images response s =
     (let s1 = s\<lparr>bk_request := None\<rparr> in case bk_request s of
        Some (Draining selection) \<Rightarrow> Some (finish_remote_request (Draining selection) s1)
      | Some (Waiting (Some generation)) \<Rightarrow> Some (finish_remote_request (Waiting (Some generation)) s1)
      | _ \<Rightarrow> handle_format_data_response images response max_clipboard_size s1)"

definition on_remote_file_list :: "int \<Rightarrow> nat \<Rightarrow> file_descriptor list \<Rightarrow> nat option \<Rightarrow> 'f backend \<Rightarrow> 'f backend" where
  "on_remote_file_list now max_entries files data_id s =
     (let s1 = s\<lparr>bk_request := None\<rparr> in case bk_request s of
        Some (Waiting (Some generation)) \<Rightarrow>
          s1\<lparr>bk_last := None, bk_pending_echo := None,
             bk_inbound := map_option (\<lambda>transfer. snd (accept_for now max_entries generation files data_id transfer)) (bk_inbound s1)\<rparr>
      | Some request \<Rightarrow> finish_remote_request request s1
      | None \<Rightarrow> s1)"

section \<open>Files, locks and capabilities\<close>

definition to_client_worker :: "'f backend \<Rightarrow> bool" where
  "to_client_worker s \<longleftrightarrow> bk_worker s \<and> fs_stream (ob_files (bk_out s))"

definition on_file_contents_request :: "file_request \<Rightarrow> 'f backend \<Rightarrow> 'f backend" where
  "on_file_contents_request request s =
     (if to_client_worker s then with_out (worker_read request) s
      else post (SendFileContentsResponse (error_response (fq_stream request))) s)"

definition on_file_contents_response :: "'f fetch_ops \<Rightarrow> contents_response \<Rightarrow> 'f backend \<Rightarrow> 'f backend" where
  "on_file_contents_response ops response s = s\<lparr>bk_inbound := map_option (on_response ops response) (bk_inbound s)\<rparr>"

definition on_lock :: "nat \<Rightarrow> 'f backend \<Rightarrow> 'f backend" where
  "on_lock data_id = with_out (with_files (lock_selection data_id))"

definition on_unlock :: "nat \<Rightarrow> 'f backend \<Rightarrow> 'f backend" where
  "on_unlock data_id = with_out (with_files (unlock_selection data_id))"

definition on_outgoing_locks_cleared :: "int \<Rightarrow> nat list \<Rightarrow> 'f backend \<Rightarrow> 'f backend" where
  "on_outgoing_locks_cleared now data_ids = inbound_release now data_ids"

record clip_capabilities =
  cc_stream :: bool
  cc_huge :: bool
  cc_locking :: bool

definition on_process_negotiated_capabilities :: "int \<Rightarrow> clip_capabilities \<Rightarrow> 'f backend \<Rightarrow> 'f backend" where
  "on_process_negotiated_capabilities now c s =
     inbound_capabilities now (cc_stream c) (cc_huge c) (cc_locking c)
       (with_out (with_files (set_file_lock_capability (cc_locking c)))
         (with_out (with_files (set_file_capabilities (fm_to_client (bk_mode s) \<and> cc_stream c) (cc_huge c))) s))"

text \<open>The end of the session: the transfer is closed first, the file worker goes with the backend.\<close>

definition drop_backend :: "int \<Rightarrow> 'f backend \<Rightarrow> 'f backend" where
  "drop_backend now s =
     (let s1 = (case bk_inbound s of
          None \<Rightarrow> s
        | Some transfer \<Rightarrow> s\<lparr>bk_inbound := Some (snd (close_transfer now transfer)), bk_write := drop_files (bk_write s)\<rparr>)
      in if bk_worker s1 then with_out drop_worker s1 else s1)"

section \<open>Handlers never panic\<close>

lemma data_request_total: "\<exists>s'. on_format_data_request unicode_string format s = Some s'"
  using to_crlf_eq lossy_str_ok
  by (fastforce simp: on_format_data_request_def split: option.splits selection_kind.splits)

text \<open>What an answer leaves to be written to the desktop.\<close>

definition answer_write :: "image_ops \<Rightarrow> nat \<Rightarrow> byte list \<Rightarrow> nat option \<Rightarrow> echo_candidate option \<Rightarrow> pending_write option \<Rightarrow> pending_write option" where
  "answer_write images max_size data requested candidate w =
     (if data = [] \<or> max_size < length data then w
      else if requested = Some cf_dibv5 then (case im_dibv5 images data of Some png \<Rightarrow> Some (WriteImage png) | None \<Rightarrow> w)
      else if requested = Some cf_dib
      then (if Option.bind candidate ec_dib = Some data then w
            else (case dib_png images data of Some png \<Rightarrow> Some (WriteImage png) | None \<Rightarrow> w))
      else if requested = Some cf_unicodetext
      then (if utf16le_to_utf8 data = [] then w
            else (case Option.bind candidate ec_text of
                None \<Rightarrow> Some (WriteText (lf_lines (utf16le_to_utf8 data)))
              | Some announced \<Rightarrow>
                  if lf_lines (from_utf8_lossy announced) = lf_lines (utf16le_to_utf8 data) then w
                  else Some (WriteText (lf_lines (utf16le_to_utf8 data)))))
      else w)"

lemma handle_response_eq:
  "handle_format_data_response images response max_size s =
     Some (s\<lparr>bk_last := None, bk_pending_echo := None,
       bk_write := (case response of None \<Rightarrow> bk_write s
         | Some data \<Rightarrow> answer_write images max_size data (bk_last s) (bk_pending_echo s) (bk_write s))\<rparr>)"
proof (cases response)
  case None
  then show ?thesis by (simp add: handle_format_data_response_def)
next
  case (Some data)
  have decoded: "normalize_lf (utf16le_to_utf8 data) = Some (lf_lines (utf16le_to_utf8 data))"
    "normalize_lf (from_utf8_lossy shown) = Some (lf_lines (from_utf8_lossy shown))" for shown
    using normalize_lf_eq utf16le_str_ok lossy_str_ok by auto
  show ?thesis
  proof (cases "data = [] \<or> max_size < length data \<or> bk_last s \<noteq> Some cf_unicodetext")
    case True
    then show ?thesis using Some by (auto simp: handle_format_data_response_def answer_write_def Let_def split: option.splits)
  next
    case False
    then show ?thesis using Some
      by (cases "Option.bind (bk_pending_echo s) ec_text")
        (simp_all add: handle_format_data_response_def answer_write_def Let_def decoded cf_dib_def cf_dibv5_def cf_unicodetext_def)
  qed
qed

lemma data_response_total: "\<exists>s'. on_format_data_response images response s = Some s'"
  by (auto simp: on_format_data_response_def handle_response_eq Let_def split: option.splits remote_request.splits)

section \<open>Events\<close>

text \<open>
  The callbacks of the channel, what the Wayland watcher and the other threads do to the shared state,
  and steps of the outbound worker. \<open>SharedWrite\<close> is the watcher taking the pending write or the mount
  worker storing one.
\<close>

datatype 'f backend_event =
    RequestFormatList
  | FormatListAnswer bool
  | Negotiated clip_capabilities
  | RemoteCopy "clip_format list"
  | FormatDataRequest nat
  | FormatDataAnswer "byte list option"
  | FileContentsRequest file_request
  | FileContentsAnswer contents_response
  | RemoteFileList "file_descriptor list" "nat option"
  | ClientLock nat
  | ClientUnlock nat
  | LocksCleared "nat list"
  | LocalCopy "byte list option" "byte list option" "nat list"
  | LocalOwnerChanged
  | SharedWrite "pending_write option"
  | OutboundStep files_event
  | TransferStep "'f transfer \<Rightarrow> 'f transfer"

record 'f backend_env =
  en_now :: int
  en_fetch :: "'f fetch_ops"
  en_images :: image_ops
  en_unicode :: "byte list \<Rightarrow> byte list"
  en_max_entries :: nat
  en_walk :: "nat \<Rightarrow> path list \<Rightarrow> bool \<Rightarrow> frozen_file list"
  en_reader :: "nat \<Rightarrow> frozen_file option \<Rightarrow> file_request \<Rightarrow> contents_response"

text \<open>The watcher announces a new local selection, or forgets it: the echo candidate goes first.\<close>

definition local_copy :: "byte list option \<Rightarrow> byte list option \<Rightarrow> nat list \<Rightarrow> 'f backend \<Rightarrow> 'f backend" where
  "local_copy words img formats s =
     announce_local_formats formats (s\<lparr>bk_echo := None, bk_text := words, bk_image := img\<rparr>)"

fun backend_step :: "'f backend_env \<Rightarrow> 'f backend \<Rightarrow> 'f backend_event \<Rightarrow> 'f backend" where
  "backend_step env s RequestFormatList = on_request_format_list s"
| "backend_step env s (FormatListAnswer accepted) = on_format_list_response accepted s"
| "backend_step env s (Negotiated c) = on_process_negotiated_capabilities (en_now env) c s"
| "backend_step env s (RemoteCopy formats) = on_remote_copy (en_now env) formats s"
| "backend_step env s (FormatDataRequest format) = the (on_format_data_request (en_unicode env) format s)"
| "backend_step env s (FormatDataAnswer response) = the (on_format_data_response (en_images env) response s)"
| "backend_step env s (FileContentsRequest request) = on_file_contents_request request s"
| "backend_step env s (FileContentsAnswer response) = on_file_contents_response (en_fetch env) response s"
| "backend_step env s (RemoteFileList files data_id) = on_remote_file_list (en_now env) (en_max_entries env) files data_id s"
| "backend_step env s (ClientLock data_id) = on_lock data_id s"
| "backend_step env s (ClientUnlock data_id) = on_unlock data_id s"
| "backend_step env s (LocksCleared data_ids) = on_outgoing_locks_cleared (en_now env) data_ids s"
| "backend_step env s (LocalCopy words img formats) = local_copy words img formats s"
| "backend_step env s LocalOwnerChanged = snd (inbound_begin (en_now env) (with_out (with_files clear_selection) s))"
| "backend_step env s (SharedWrite w) = s\<lparr>bk_write := w\<rparr>"
| "backend_step env s (OutboundStep e) = with_out (\<lambda>out. files_step (en_walk env) (en_reader env) out e) s"
| "backend_step env s (TransferStep f) = s\<lparr>bk_inbound := map_option f (bk_inbound s)\<rparr>"

section \<open>Pastes and copies\<close>

text \<open>
  The ghost state of a run: the copies the client has announced, the pastes it has not answered yet and
  all pastes so far, each by the copy that was the newest when it was requested, and whether the newest
  copy offers text or an image to paste. An answer belongs to the oldest paste without one.
\<close>

record 'f clip_world =
  cw_backend :: "'f backend"
  cw_copies :: nat
  cw_outstanding :: "nat list"
  cw_pasted :: "nat list"
  cw_wanted :: bool

definition paste_count :: "'f backend \<Rightarrow> nat" where
  "paste_count s = length (filter (\<lambda>m. case m of SendInitiatePaste f \<Rightarrow> True | _ \<Rightarrow> False) (ob_sent (bk_out s)))"

fun answers_paste :: "'f backend_event \<Rightarrow> bool" where
  "answers_paste (FormatDataAnswer r) \<longleftrightarrow> True"
| "answers_paste (RemoteFileList fs d) \<longleftrightarrow> True"
| "answers_paste e \<longleftrightarrow> False"

definition copy_wanted :: "int \<Rightarrow> clip_format list \<Rightarrow> 'f backend \<Rightarrow> bool" where
  "copy_wanted now formats s \<longleftrightarrow>
     (let (file_format, format) = remote_format (snd (inbound_begin now s)) formats in file_format = None \<and> format \<noteq> None)"

definition clip_step :: "'f backend_env \<Rightarrow> 'f clip_world \<Rightarrow> 'f backend_event \<Rightarrow> 'f clip_world" where
  "clip_step env w e =
     (let s' = backend_step env (cw_backend w) e;
          copies = (case e of RemoteCopy formats \<Rightarrow> Suc (cw_copies w) | _ \<Rightarrow> cw_copies w);
          pastes = replicate (paste_count s' - paste_count (cw_backend w)) copies
      in \<lparr>cw_backend = s', cw_copies = copies,
          cw_outstanding = (if answers_paste e then tl (cw_outstanding w) else cw_outstanding w) @ pastes,
          cw_pasted = cw_pasted w @ pastes,
          cw_wanted = (case e of RemoteCopy formats \<Rightarrow> copy_wanted (en_now env) formats (cw_backend w) | _ \<Rightarrow> cw_wanted w)\<rparr>)"

definition clip_start :: "int \<Rightarrow> file_mode \<Rightarrow> 'f clip_world" where
  "clip_start now mode = \<lparr>cw_backend = backend_new now mode, cw_copies = 0, cw_outstanding = [], cw_pasted = [], cw_wanted = False\<rparr>"

text \<open>The three situations: nothing under way, the newest copy requested, an older one still to drain.\<close>

definition clip_inv :: "'f clip_world \<Rightarrow> bool" where
  "clip_inv w \<longleftrightarrow> (let s = cw_backend w; c = cw_copies w; q = cw_outstanding w in
     distinct (cw_pasted w) \<and> (\<forall>k\<in>set (cw_pasted w). k \<le> c) \<and>
     ((q = [] \<and> bk_request s = None \<and> bk_last s = None \<and> (cw_wanted w \<and> ob_sender_open (bk_out s) \<longrightarrow> c \<in> set (cw_pasted w))) \<or>
      (q = [c] \<and> c \<in> set (cw_pasted w) \<and> (\<exists>g. bk_request s = Some (Waiting g)) \<and> bk_last s \<noteq> None) \<or>
      (\<exists>k sel. q = [k] \<and> k < c \<and> c \<notin> set (cw_pasted w) \<and> bk_request s = Some (Draining sel) \<and> bk_last s \<noteq> None \<and>
         (cw_wanted w \<longrightarrow> (\<exists>f. sel = Some \<lparr>rs_format = f, rs_generation = None\<rparr>)))))"

text \<open>Everything but a remote copy and an answer leaves the exchange of pastes alone.\<close>

definition quiet :: "'f backend \<Rightarrow> 'f backend \<Rightarrow> bool" where
  "quiet s s' \<longleftrightarrow> paste_count s' = paste_count s \<and> bk_request s' = bk_request s \<and> bk_last s' = bk_last s \<and>
     (ob_sender_open (bk_out s') \<longrightarrow> ob_sender_open (bk_out s))"

lemma paste_count_send [simp]:
  "paste_count (with_out (clip_send m) s) = (case m of SendInitiatePaste f \<Rightarrow> if ob_sender_open (bk_out s) then Suc (paste_count s) else paste_count s
     | _ \<Rightarrow> paste_count s)"
  by (simp add: paste_count_def with_out_def split: clip_message.splits)

lemma files_step_pastes:
  "filter (\<lambda>m. case m of SendInitiatePaste f \<Rightarrow> True | _ \<Rightarrow> False) (ob_sent (files_step walk reader s e)) =
   filter (\<lambda>m. case m of SendInitiatePaste f \<Rightarrow> True | _ \<Rightarrow> False) (ob_sent s)"
  by (cases e)
    (auto simp: send_format_announcement_def announce_file_formats_def worker_read_def selection_freeze_def
       worker_freeze_def worker_turn_def walk_done_def publish_selection_def read_done_def drop_worker_def Let_def
       case_prod_beta split: option.splits file_worker.splits list.splits worker_command.splits)

lemma quiet_refl: "quiet s s"
  by (simp add: quiet_def)

lemma quiet_trans: "quiet s u \<Longrightarrow> quiet u v \<Longrightarrow> quiet s v"
  by (simp add: quiet_def)

lemma quiet_out: "quiet s (with_out (\<lambda>out. files_step walk reader out e) s)"
  by (simp add: quiet_def paste_count_def with_out_def files_step_pastes step_open)

lemma quiet_files [simp]: "quiet s (with_out (with_files f) s)"
  by (simp add: quiet_def paste_count_def with_out_def)

lemma quiet_post: "(\<nexists>f. m = SendInitiatePaste f) \<Longrightarrow> quiet s (post m s)"
  by (auto simp: quiet_def post_def with_out_def paste_count_def split: clip_message.splits)

lemma quiet_announce: "quiet s (announce_local_formats formats s)"
  by (auto simp: quiet_def announce_local_formats_def send_format_announcement_def paste_count_def Let_def)

lemma quiet_begin: "quiet s (snd (inbound_begin now s))"
  by (auto simp: quiet_def inbound_begin_def paste_count_def split: option.splits prod.splits)

lemma quiet_step:
  assumes "\<nexists>formats. e = RemoteCopy formats" and "\<not> answers_paste e"
  shows "quiet s (backend_step env s e)"
proof (cases e)
  case RequestFormatList
  have "quiet s (with_out announce_file_formats u)" if "quiet s u" for u
    using that quiet_out [of u "en_walk env" "en_reader env" AnnounceFiles] by (auto intro: quiet_trans)
  then show ?thesis by (simp add: RequestFormatList on_request_format_list_def quiet_announce Let_def)
next
  case (FormatDataRequest format)
  have "quiet s (the (on_format_data_request (en_unicode env) format s))"
    using data_request_total [of "en_unicode env" format s] quiet_post [where s = s]
    by (auto simp: on_format_data_request_def split: option.splits selection_kind.splits if_splits)
  then show ?thesis by (simp add: FormatDataRequest)
next
  case (Negotiated c)
  have cap: "quiet u (inbound_capabilities now a b d u)" for u :: "'a backend" and now a b d
    by (simp add: quiet_def inbound_capabilities_def paste_count_def split: option.splits)
  show ?thesis unfolding Negotiated backend_step.simps on_process_negotiated_capabilities_def
    by (rule quiet_trans [OF quiet_trans [OF quiet_files quiet_files] cap])
next
  case (FileContentsRequest request)
  then show ?thesis
    using quiet_out [of s "en_walk env" "en_reader env" "ReadRequest request"] quiet_post [of "SendFileContentsResponse (error_response (fq_stream request))" s]
    by (simp add: on_file_contents_request_def)
next
  case (LocksCleared ids)
  then show ?thesis
    by (auto simp: on_outgoing_locks_cleared_def inbound_release_def quiet_def paste_count_def Let_def split: option.splits prod.splits)
next
  case (LocalCopy words img formats)
  have "quiet s (s\<lparr>bk_echo := None, bk_text := words, bk_image := img\<rparr>)" by (simp add: quiet_def paste_count_def)
  then show ?thesis using quiet_announce by (auto simp: LocalCopy local_copy_def intro: quiet_trans)
next
  case LocalOwnerChanged
  show ?thesis unfolding LocalOwnerChanged backend_step.simps by (rule quiet_trans [OF quiet_files quiet_begin])
next
  case (OutboundStep f)
  then show ?thesis by (simp add: quiet_out)
qed (use assms in \<open>simp_all add: on_format_list_response_def on_lock_def on_unlock_def on_file_contents_response_def quiet_def paste_count_def with_out_def\<close>)

lemma quiet_keeps:
  assumes inv: "clip_inv w" and "\<nexists>formats. e = RemoteCopy formats" and "\<not> answers_paste e"
  shows "clip_inv (clip_step env w e)"
proof -
  have q: "quiet (cw_backend w) (backend_step env (cw_backend w) e)" using assms(2,3) by (rule quiet_step)
  have "clip_step env w e = w\<lparr>cw_backend := backend_step env (cw_backend w) e\<rparr>"
    using assms(2,3) q by (cases e) (simp_all add: clip_step_def quiet_def)
  then show ?thesis using inv q by (auto simp: clip_inv_def quiet_def Let_def)
qed

text \<open>Requesting a selection: one paste and a wait for its answer, or nothing when the channel is closed.\<close>

lemma request_spec:
  "ob_sender_open (bk_out s) \<Longrightarrow> paste_count (request_remote_selection sel s) = Suc (paste_count s) \<and>
     bk_request (request_remote_selection sel s) = Some (Waiting (rs_generation sel)) \<and>
     bk_last (request_remote_selection sel s) = Some (rs_format sel)"
  "\<not> ob_sender_open (bk_out s) \<Longrightarrow> paste_count (request_remote_selection sel s) = paste_count s \<and>
     bk_request (request_remote_selection sel s) = bk_request s \<and> bk_last (request_remote_selection sel s) = bk_last s"
  "ob_sender_open (bk_out (request_remote_selection sel s)) = ob_sender_open (bk_out s)"
  "bk_write (request_remote_selection sel s) = bk_write s"
  by (auto simp: request_remote_selection_def paste_count_def post_def with_out_def)

text \<open>The end of a request: idle again, or the drained selection requested.\<close>

definition settles :: "'f backend \<Rightarrow> 'f backend \<Rightarrow> bool" where
  "settles s s' \<longleftrightarrow> ob_sender_open (bk_out s') = ob_sender_open (bk_out s) \<and> bk_write s' = bk_write s \<and>
     ((paste_count s' = paste_count s \<and> bk_request s' = None \<and> bk_last s' = None) \<or>
      (paste_count s' = Suc (paste_count s) \<and> (\<exists>g. bk_request s' = Some (Waiting g)) \<and> bk_last s' \<noteq> None))"

lemma finish_settles:
  assumes "bk_request s = None"
  shows "settles s (finish_remote_request request s)"
    and "request = Draining (Some \<lparr>rs_format = f, rs_generation = None\<rparr>) \<Longrightarrow> ob_sender_open (bk_out s) \<Longrightarrow>
      paste_count (finish_remote_request request s) = Suc (paste_count s)"
    and "(\<nexists>sel. request = Draining (Some sel)) \<Longrightarrow> paste_count (finish_remote_request request s) = paste_count s"
proof -
  let ?s1 = "s\<lparr>bk_last := None\<rparr>"
  have same: "paste_count (s\<lparr>bk_last := None\<rparr>) = paste_count s" "paste_count (s\<lparr>bk_last := None, bk_pending_echo := None\<rparr>) = paste_count s"
    by (simp_all add: paste_count_def)
  have given: "settles s (s\<lparr>bk_last := None, bk_pending_echo := None\<rparr>)" using assms same by (simp add: settles_def)
  have asked: "settles s (request_remote_selection sel ?s1)" for sel
    using assms request_spec [where s = ?s1 and sel = sel] same by (cases "ob_sender_open (bk_out s)") (auto simp: settles_def)
  show "settles s (finish_remote_request request s)"
    using given asked by (auto simp: finish_remote_request_def Let_def split: remote_request.splits option.splits)
  show "request = Draining (Some \<lparr>rs_format = f, rs_generation = None\<rparr>) \<Longrightarrow> ob_sender_open (bk_out s) \<Longrightarrow>
      paste_count (finish_remote_request request s) = Suc (paste_count s)"
    using request_spec(1) [where s = ?s1] same by (simp add: finish_remote_request_def)
  show "(\<nexists>sel. request = Draining (Some sel)) \<Longrightarrow> paste_count (finish_remote_request request s) = paste_count s"
    using same by (auto simp: finish_remote_request_def Let_def split: remote_request.splits option.splits)
qed

text \<open>An answer: what it does to the exchange of pastes, and when it may write.\<close>

lemma answer_spec:
  fixes s :: "'f backend" and env :: "'f backend_env"
  assumes "answers_paste e"
  defines "s' \<equiv> backend_step env s e"
  shows "bk_request s = None \<Longrightarrow> bk_last s = None \<Longrightarrow> paste_count s' = paste_count s \<and> bk_request s' = None \<and> bk_last s' = None \<and>
      ob_sender_open (bk_out s') = ob_sender_open (bk_out s) \<and> bk_write s' = bk_write s"
    and "bk_request s = Some (Waiting g) \<Longrightarrow> paste_count s' = paste_count s \<and> bk_request s' = None \<and> bk_last s' = None \<and>
      ob_sender_open (bk_out s') = ob_sender_open (bk_out s)"
    and "bk_request s = Some (Draining sel) \<Longrightarrow> s' = finish_remote_request (Draining sel) (s\<lparr>bk_request := None\<rparr>)"
proof -
  have plain: "paste_count (s\<lparr>bk_request := None\<rparr>) = paste_count s" by (simp add: paste_count_def)
  have fields: "paste_count (u\<lparr>bk_last := a, bk_pending_echo := b, bk_write := d\<rparr>) = paste_count u"
    "paste_count (u\<lparr>bk_last := a, bk_pending_echo := b, bk_inbound := i\<rparr>) = paste_count u" for u :: "'f backend" and a b d i
    by (simp_all add: paste_count_def)
  note waiting = finish_settles [of "s\<lparr>bk_request := None\<rparr>" "Waiting g"]
  have idle: "answer_write images n data None candidate w = w" for images n data candidate w
    by (simp add: answer_write_def)
  consider r where "e = FormatDataAnswer r" | fs d where "e = RemoteFileList fs d"
    using assms(1) by (cases e) auto
  note which = this
  show "bk_request s = None \<Longrightarrow> bk_last s = None \<Longrightarrow> paste_count s' = paste_count s \<and> bk_request s' = None \<and> bk_last s' = None \<and>
      ob_sender_open (bk_out s') = ob_sender_open (bk_out s) \<and> bk_write s' = bk_write s"
    unfolding s'_def using which plain
    by cases (auto simp: on_format_data_response_def on_remote_file_list_def handle_response_eq fields idle Let_def split: option.splits)
  show "bk_request s = Some (Draining sel) \<Longrightarrow> s' = finish_remote_request (Draining sel) (s\<lparr>bk_request := None\<rparr>)"
    unfolding s'_def using which by cases (simp_all add: on_format_data_response_def on_remote_file_list_def)
  show "bk_request s = Some (Waiting g) \<Longrightarrow> paste_count s' = paste_count s \<and> bk_request s' = None \<and> bk_last s' = None \<and>
      ob_sender_open (bk_out s') = ob_sender_open (bk_out s)"
    unfolding s'_def using which
  proof cases
    case 1
    assume "bk_request s = Some (Waiting g)"
    then show "paste_count (backend_step env s e) = paste_count s \<and> bk_request (backend_step env s e) = None \<and>
        bk_last (backend_step env s e) = None \<and> ob_sender_open (bk_out (backend_step env s e)) = ob_sender_open (bk_out s)"
      using 1 waiting plain by (cases g) (auto simp: on_format_data_response_def handle_response_eq fields settles_def Let_def)
  next
    case 2
    assume "bk_request s = Some (Waiting g)"
    then show "paste_count (backend_step env s e) = paste_count s \<and> bk_request (backend_step env s e) = None \<and>
        bk_last (backend_step env s e) = None \<and> ob_sender_open (bk_out (backend_step env s e)) = ob_sender_open (bk_out s)"
      using 2 waiting plain by (cases g) (auto simp: on_remote_file_list_def fields settles_def Let_def)
  qed
qed

lemma answer_keeps:
  assumes inv: "clip_inv w" and e: "answers_paste e"
  shows "clip_inv (clip_step env w e)"
proof -
  let ?s = "cw_backend w" and ?c = "cw_copies w"
  define s' where "s' = backend_step env ?s e"
  have step: "clip_step env w e = w\<lparr>cw_backend := s',
      cw_outstanding := tl (cw_outstanding w) @ replicate (paste_count s' - paste_count ?s) ?c,
      cw_pasted := cw_pasted w @ replicate (paste_count s' - paste_count ?s) ?c\<rparr>"
    using e by (cases e) (simp_all add: clip_step_def s'_def Let_def)
  note a = answer_spec [OF e, where s = ?s and env = env, folded s'_def]
  have base: "distinct (cw_pasted w)" "\<forall>k\<in>set (cw_pasted w). k \<le> ?c" using inv by (simp_all add: clip_inv_def Let_def)
  consider (idle) "cw_outstanding w = []" "bk_request ?s = None" "bk_last ?s = None"
      "cw_wanted w \<and> ob_sender_open (bk_out ?s) \<longrightarrow> ?c \<in> set (cw_pasted w)"
    | (waiting) g where "cw_outstanding w = [?c]" "?c \<in> set (cw_pasted w)" "bk_request ?s = Some (Waiting g)"
    | (draining) k sel where "cw_outstanding w = [k]" "?c \<notin> set (cw_pasted w)" "bk_request ?s = Some (Draining sel)"
      "cw_wanted w \<longrightarrow> (\<exists>f. sel = Some \<lparr>rs_format = f, rs_generation = None\<rparr>)"
    using inv unfolding clip_inv_def Let_def by (elim conjE disjE exE; metis)
  then show ?thesis
  proof cases
    case idle
    then show ?thesis using a(1) base by (simp add: step clip_inv_def)
  next
    case waiting
    then show ?thesis using a(2) base by (simp add: step clip_inv_def)
  next
    case draining
    let ?u = "?s\<lparr>bk_request := None\<rparr>"
    have s': "s' = finish_remote_request (Draining sel) ?u" using a(3) draining(3) by simp
    have count: "paste_count ?u = paste_count ?s" by (simp add: paste_count_def)
    note f = finish_settles [of ?u "Draining sel", folded s']
    have "paste_count s' = Suc (paste_count ?s)" if "cw_wanted w" "ob_sender_open (bk_out ?s)"
      using draining(4) that f(2) count by auto
    then show ?thesis
      using f(1) base draining(1,2) count by (auto simp: step clip_inv_def settles_def Let_def)
  qed
qed

lemma copy_keeps:
  assumes inv: "clip_inv w"
  shows "clip_inv (clip_step env w (RemoteCopy formats))"
proof -
  let ?s = "cw_backend w" and ?c = "cw_copies w" and ?now = "en_now env"
  define s1 where "s1 = with_out (with_files clear_selection) (?s\<lparr>bk_remote_formats := formats\<rparr>)"
  obtain generation s2 where started: "inbound_begin ?now s1 = (generation, s2)" by fastforce
  define s3 where "s3 = s2\<lparr>bk_echo := None\<rparr>"
  obtain file_format format where fmt: "remote_format s3 formats = (file_format, format)" by fastforce
  define sel where "sel = map_option (\<lambda>f. \<lparr>rs_format = f, rs_generation = (if file_format = None then None else generation)\<rparr>) format"
  define s' where "s' = backend_step env ?s (RemoteCopy formats)"
  have quiet: "quiet ?s s3"
    using quiet_begin [where s = s1 and now = ?now] started
    by (simp add: quiet_def s3_def paste_count_def s1_def with_out_def)
  have run: "s' = (if bk_request s3 \<noteq> None \<or> bk_last s3 \<noteq> None
      then s3\<lparr>bk_request := Some (Draining sel), bk_pending_echo := (if bk_echo s2 \<noteq> None then bk_echo s2 else bk_pending_echo s3)\<rparr>
      else (case sel of None \<Rightarrow> s3\<lparr>bk_last := None, bk_pending_echo := None\<rparr>
        | Some x \<Rightarrow> request_remote_selection x (s3\<lparr>bk_pending_echo := bk_echo s2\<rparr>)))"
    unfolding s'_def backend_step.simps on_remote_copy_def Let_def s1_def [symmetric] started prod.case s3_def [symmetric] fmt sel_def [symmetric]
    by (rule refl)
  have wanted: "copy_wanted ?now formats ?s \<longleftrightarrow> file_format = None \<and> format \<noteq> None"
  proof -
    have "bk_inbound (snd (inbound_begin ?now ?s)) = bk_inbound s3"
      using started by (auto simp: inbound_begin_def s1_def with_out_def s3_def Let_def split: option.splits prod.splits)
    then have "remote_format (snd (inbound_begin ?now ?s)) formats = (file_format, format)"
      using fmt by (simp add: remote_format_def)
    then show ?thesis by (simp add: copy_wanted_def)
  qed
  have step: "clip_step env w (RemoteCopy formats) = w\<lparr>cw_backend := s', cw_copies := Suc ?c,
      cw_outstanding := cw_outstanding w @ replicate (paste_count s' - paste_count ?s) (Suc ?c),
      cw_pasted := cw_pasted w @ replicate (paste_count s' - paste_count ?s) (Suc ?c),
      cw_wanted := copy_wanted ?now formats ?s\<rparr>"
    by (simp add: clip_step_def s'_def Let_def)
  have base: "distinct (cw_pasted w)" "\<forall>k\<in>set (cw_pasted w). k \<le> ?c" using inv by (simp_all add: clip_inv_def Let_def)
  then have fresh: "Suc ?c \<notin> set (cw_pasted w)" "\<forall>k\<in>set (cw_pasted w). k \<le> Suc ?c" by auto
  have busy: "bk_request ?s \<noteq> None \<longleftrightarrow> bk_last ?s \<noteq> None" "bk_request ?s = None \<longleftrightarrow> cw_outstanding w = []"
    using inv unfolding clip_inv_def Let_def by auto
  show ?thesis
  proof (cases "bk_request ?s = None")
    case False
    then obtain k where k: "cw_outstanding w = [k]" "k \<le> ?c" using inv unfolding clip_inv_def Let_def by auto
    have s': "s' = s3\<lparr>bk_request := Some (Draining sel), bk_pending_echo := (if bk_echo s2 \<noteq> None then bk_echo s2 else bk_pending_echo s3)\<rparr>"
      using False quiet run by (simp add: quiet_def)
    have "paste_count s' = paste_count ?s" using quiet by (simp add: s' quiet_def paste_count_def)
    moreover have "copy_wanted ?now formats ?s \<longrightarrow> (\<exists>f. sel = Some \<lparr>rs_format = f, rs_generation = None\<rparr>)"
      using wanted by (auto simp: sel_def)
    ultimately show ?thesis
      using base(1) fresh k busy False quiet by (simp add: step clip_inv_def s' quiet_def)
  next
    case idle: True
    let ?u = "s3\<lparr>bk_pending_echo := bk_echo s2\<rparr>"
    have u: "paste_count ?u = paste_count ?s" "bk_request ?u = None" "bk_last ?u = None"
      "ob_sender_open (bk_out ?u) \<longrightarrow> ob_sender_open (bk_out ?s)"
      using quiet idle busy by (simp_all add: quiet_def paste_count_def)
    show ?thesis
    proof (cases sel)
      case None
      then have s': "s' = s3\<lparr>bk_last := None, bk_pending_echo := None\<rparr>" using run quiet idle busy by (simp add: quiet_def)
      have "paste_count s' = paste_count ?s" using quiet by (simp add: s' quiet_def paste_count_def)
      moreover have "\<not> copy_wanted ?now formats ?s" using None wanted by (simp add: sel_def)
      ultimately show ?thesis using base(1) fresh idle busy quiet by (simp add: step clip_inv_def s' quiet_def)
    next
      case (Some x)
      then have s': "s' = request_remote_selection x ?u" using run quiet idle busy by (simp add: quiet_def)
      show ?thesis
      proof (cases "ob_sender_open (bk_out ?u)")
        case True
        from request_spec(1) [OF True, of x] show ?thesis
          using base(1) fresh idle busy u by (simp add: step clip_inv_def s')
      next
        case False
        from request_spec(2) [OF False, of x] request_spec(3) [of x ?u] False show ?thesis
          using base(1) fresh idle busy u by (simp add: step clip_inv_def s')
      qed
    qed
  qed
qed

lemma clip_step_keeps: "clip_inv w \<Longrightarrow> clip_inv (clip_step env w e)"
  using copy_keeps answer_keeps quiet_keeps by metis

lemma clip_start_inv: "clip_inv (clip_start now mode)"
  by (simp add: clip_inv_def clip_start_def backend_new_def outbound_new_def)

interpretation clip: event_system "clip_step env" "\<lambda>_. True" clip_inv
  for env :: "'f backend_env"
  by unfold_locales (rule clip_step_keeps)

lemma clip_run_inv: "clip_inv (run_events (clip_step env) (clip_start now mode) es)"
  by (rule clip.run_keeps [OF clip_start_inv]) (simp add: list_all_iff)

section \<open>Properties\<close>

text \<open>
  C4: However copies, answers, local copies and the other threads interleave, the backend never has more
  than one paste under way, never requests the same copy twice, and does not lose the newest one: when
  nothing is under way, the channel is open and the newest copy offers text or an image, it has been
  requested.
\<close>

theorem newest_copy_is_pasted:
  assumes "w = run_events (clip_step env) (clip_start now mode) es"
  shows "length (cw_outstanding w) \<le> 1 \<and> distinct (cw_pasted w) \<and>
    (cw_outstanding w = [] \<and> cw_wanted w \<and> ob_sender_open (bk_out (cw_backend w)) \<longrightarrow> cw_copies w \<in> set (cw_pasted w))"
  using clip_run_inv [of env now mode es] unfolding assms [symmetric] clip_inv_def Let_def by auto

text \<open>
  C16: An answer is only ever written to the desktop when it answers the paste of the newest copy: the
  answer to a paste that a later copy has superseded is drained, whichever format it is in.
\<close>

theorem superseded_answers_are_dropped:
  assumes "w = run_events (clip_step env) (clip_start now mode) es" and "answers_paste e"
    and "bk_write (backend_step env (cw_backend w) e) \<noteq> bk_write (cw_backend w)"
  shows "cw_outstanding w = [cw_copies w]"
proof -
  note inv = clip_run_inv [of env now mode es, folded assms(1)]
  note a = answer_spec [OF assms(2), where s = "cw_backend w" and env = env]
  have "\<not> (bk_request (cw_backend w) = None \<and> bk_last (cw_backend w) = None)" using a(1) assms(3) by auto
  moreover have "bk_request (cw_backend w) \<noteq> Some (Draining sel)" for sel
  proof
    assume "bk_request (cw_backend w) = Some (Draining sel)"
    from a(3) [OF this] finish_settles(1) [of "(cw_backend w)\<lparr>bk_request := None\<rparr>" "Draining sel"] assms(3)
    show False by (simp add: settles_def)
  qed
  ultimately show ?thesis using inv unfolding clip_inv_def Let_def by auto
qed

text \<open>
  No answer and no request of a client makes the string functions panic: decoded and announced text
  is always cut at character boundaries.
\<close>

theorem clipboard_handlers_return:
  "on_format_data_request unicode_string format s \<noteq> None \<and> on_format_data_response images response s \<noteq> None"
  using data_request_total [of unicode_string format s] data_response_total [of images response s] by auto

text \<open>
  A text the server announced is not written back when the client echoes it: the answer to the copy
  that follows the announcement is dropped exactly when it is the same text up to line endings, and is
  otherwise what the desktop gets.
\<close>

theorem announced_text_not_echoed:
  assumes chars: "list_all scalar cs" and have_text: "bk_text s = Some (utf8 cs)" and sender: "ob_sender_open (bk_out s)"
    and idle: "bk_request s = None" "bk_last s = None" and no_files: "bk_inbound s = None"
    and offered: "cf_unicodetext \<in> ft_format ` set formats"
    and data: "data \<noteq> []" "length data \<le> max_clipboard_size" "utf16le_to_utf8 data \<noteq> []"
  shows "map_option bk_write (on_format_data_response images (Some data)
      (on_remote_copy now formats (announce_local_formats [cf_unicodetext] s))) =
    Some (if lf_lines (utf16le_to_utf8 data) = lf_lines (utf8 cs) then bk_write s
          else Some (WriteText (lf_lines (utf16le_to_utf8 data))))"
proof -
  define candidate where "candidate = \<lparr>ec_text = Some (utf8 cs), ec_dib = None\<rparr>"
  define s1 where "s1 = announce_local_formats [cf_unicodetext] s"
  have s1: "bk_echo s1 = Some candidate" "bk_request s1 = None" "bk_last s1 = None" "bk_inbound s1 = None" "bk_write s1 = bk_write s"
    "ob_sender_open (bk_out s1)"
    using have_text sender idle no_files
    by (simp_all add: s1_def announce_local_formats_def send_format_announcement_def candidate_def cf_dib_def cf_unicodetext_def Let_def)
  define s2 where "s2 = on_remote_copy now formats s1"
  have s2: "bk_request s2 = Some (Waiting None)" "bk_last s2 = Some cf_unicodetext" "bk_pending_echo s2 = Some candidate"
    "bk_write s2 = bk_write s"
    using s1 offered
    by (simp_all add: s2_def on_remote_copy_def inbound_begin_def with_out_def remote_format_def remote_preference_def
        request_remote_selection_def post_def Let_def)
  have "answer_write images max_clipboard_size data (Some cf_unicodetext) (Some candidate) (bk_write s) =
      (if lf_lines (utf16le_to_utf8 data) = lf_lines (utf8 cs) then bk_write s
       else Some (WriteText (lf_lines (utf16le_to_utf8 data))))"
    using data from_utf8_lossy_text [OF chars]
    by (auto simp: answer_write_def candidate_def cf_dib_def cf_dibv5_def cf_unicodetext_def)
  then show ?thesis
    using s2 by (simp add: s1_def [symmetric] s2_def [symmetric] on_format_data_response_def handle_response_eq Let_def)
qed

section \<open>A short exchange\<close>

definition tiny_env :: "unit backend_env" where
  "tiny_env = \<lparr>en_now = 0,
     en_fetch = \<lparr>cf_new = \<lambda>_ _ _ _ _ _. (), cf_next_request = \<lambda>f. (None, f), cf_on_response = \<lambda>r f. (FetchFailed, f), cf_into_data = \<lambda>f. []\<rparr>,
     en_images = \<lparr>im_dib = Some, im_dibv5 = Some\<rparr>, en_unicode = (\<lambda>t. t), en_max_entries = 10,
     en_walk = tiny_walk, en_reader = tiny_reader\<rparr>"

definition text_format :: clip_format where
  "text_format = \<lparr>ft_format = cf_unicodetext, ft_file_list = False\<rparr>"

definition tiny_exchange :: "unit backend_event list" where
  "tiny_exchange = [RemoteCopy [text_format], RemoteCopy [text_format], FormatDataAnswer (Some [97, 0, 0, 0])]"

definition tiny_clip :: "unit clip_world" where
  "tiny_clip = run_events (clip_step tiny_env) (clip_start 0 \<lparr>fm_to_client = True, fm_to_server = False\<rparr>) tiny_exchange"

lemmas exchange_defs =
  clip_step_def clip_start_def backend_new_def outbound_new_def on_remote_copy_def inbound_begin_def with_out_def with_files_def
  clear_selection_def next_generation_def frozen_default_def u64_add_def remote_format_def remote_preference_def
  request_remote_selection_def post_def clip_send_def on_format_data_response_def finish_remote_request_def paste_count_def
  text_format_def copy_wanted_def

lemma tiny_clip_fields:
  "cw_outstanding tiny_clip = [2]" "cw_copies tiny_clip = 2" "bk_write (cw_backend tiny_clip) = None"
  "bk_request (cw_backend tiny_clip) = Some (Waiting None)" "bk_last (cw_backend tiny_clip) = Some cf_unicodetext"
  "cw_pasted tiny_clip = [1, 2]" "bk_pending_echo (cw_backend tiny_clip) = None"
  by (simp_all add: tiny_clip_def tiny_exchange_def exchange_defs Let_def numeral_2_eq_2)

theorem newest_copy_is_pasted_witness: "length (cw_outstanding tiny_clip) \<le> 1 \<and> distinct (cw_pasted tiny_clip)"
  using newest_copy_is_pasted [OF tiny_clip_def] by blast

theorem superseded_answers_are_dropped_witness: "cw_outstanding tiny_clip = [cw_copies tiny_clip]"
proof (rule superseded_answers_are_dropped [OF tiny_clip_def])
  show "answers_paste (FormatDataAnswer (Some [97, 0, 0, 0]) :: unit backend_event)" by simp
  have decoded: "utf16le_to_utf8 [97, 0, 0, 0] = [97]" by (simp add: utf16le_to_utf8_def utf8_def utf8_char_def)
  show "bk_write (backend_step tiny_env (cw_backend tiny_clip) (FormatDataAnswer (Some [97, 0, 0, 0]))) \<noteq> bk_write (cw_backend tiny_clip)"
    by (simp add: on_format_data_response_def handle_response_eq tiny_clip_fields answer_write_def decoded max_clipboard_size_def
        cf_dib_def cf_dibv5_def cf_unicodetext_def)
qed

theorem announced_text_not_echoed_witness:
  "map_option bk_write (on_format_data_response (en_images tiny_env) (Some [97, 0, 13, 0, 10, 0, 0, 0])
      (on_remote_copy 0 [text_format] (announce_local_formats [cf_unicodetext]
        ((backend_new 0 \<lparr>fm_to_client = True, fm_to_server = False\<rparr> :: unit backend)\<lparr>bk_text := Some (utf8 [97, 10])\<rparr>)))) = Some None"
proof -
  have decoded: "utf16le_to_utf8 [97, 0, 13, 0, 10, 0, 0, 0] = [97, 13, 10]" by (simp add: utf16le_to_utf8_def utf8_def utf8_char_def)
  let ?s = "(backend_new 0 \<lparr>fm_to_client = True, fm_to_server = False\<rparr> :: unit backend)\<lparr>bk_text := Some (utf8 [97, 10])\<rparr>"
  have "list_all scalar [97, 10]" by (simp add: scalar_def)
  from announced_text_not_echoed [OF this, of ?s "[text_format]" "[97, 0, 13, 0, 10, 0, 0, 0]" "en_images tiny_env" 0] decoded
  show ?thesis by (simp add: backend_new_def outbound_new_def text_format_def max_clipboard_size_def utf8_def utf8_char_def)
qed

end
