(* ===== verification/ClipboardWatcher.thy ===== *)
theory ClipboardWatcher
  imports ClipboardBackend
begin

text \<open>
  The watcher of the desktop's clipboard (\<open>src/src/clipboard/wayland.rs\<close>): the thread that publishes
  what the client copied as a data source and reads what the desktop copied. It shares the caches, the
  pending write and the file selection with the backend, whose state it therefore steps; one event of
  the compositor is one step. Objects of the compositor are numbers, the requests sent to it are
  recorded. What an offer delivers for a MIME type, the PNG converter and the parser of file URLs are
  parameters; instants are milliseconds.

  \<open>watch_inv\<close> is the invariant of the sources; \<open>cached_local\<close> says what the caches hold after a copy on
  the desktop.
\<close>

section \<open>State\<close>

definition echo_suppression_timeout :: nat where "echo_suppression_timeout = 2000"
definition echo_suppression_grace :: nat where "echo_suppression_grace = 100"

datatype watch_request =
    CreateSource nat
  | OfferMime nat string
  | SetSelection nat
  | DestroySource nat
  | DestroyOffer nat

record active_selection =
  as_kind :: selection_kind
  as_pending :: pending_write

record 'f watcher =
  wt_backend :: "'f backend"
  wt_suppress_until :: "nat option"
  wt_offer_mimes :: "nat \<rightharpoonup> string list"
  wt_active_selection :: "active_selection option"
  wt_active_source :: "nat option"
  wt_device :: bool
  wt_requests :: "watch_request list"

definition watcher_new :: "'f backend \<Rightarrow> 'f watcher" where
  "watcher_new b = \<lparr>wt_backend = b, wt_suppress_until = None, wt_offer_mimes = Map.empty, wt_active_selection = None,
     wt_active_source = None, wt_device = True, wt_requests = []\<rparr>"

definition with_backend :: "('f backend \<Rightarrow> 'f backend) \<Rightarrow> 'f watcher \<Rightarrow> 'f watcher" where
  "with_backend f s = s\<lparr>wt_backend := f (wt_backend s)\<rparr>"

definition watch_request :: "watch_request \<Rightarrow> 'f watcher \<Rightarrow> 'f watcher" where
  "watch_request r s = s\<lparr>wt_requests := wt_requests s @ [r]\<rparr>"

section \<open>The caches\<close>

definition clear_cached_selection :: "'f watcher \<Rightarrow> 'f watcher" where
  "clear_cached_selection = with_backend (\<lambda>b. with_out (with_files clear_selection) (b\<lparr>bk_text := None, bk_image := None\<rparr>))"

definition local_owner_changed :: "int \<Rightarrow> 'f watcher \<Rightarrow> 'f watcher" where
  "local_owner_changed stamp = with_backend (\<lambda>b. snd (inbound_begin stamp (with_out (with_files clear_selection) b)))"

definition freeze_selection :: "path list \<Rightarrow> 'f backend \<Rightarrow> bool \<times> 'f backend" where
  "freeze_selection paths b =
     (if \<not> bk_worker b then (False, b)
      else (let (frozen, out) = selection_freeze paths (bk_out b) in (frozen, b\<lparr>bk_out := out\<rparr>)))"

section \<open>Our own writes\<close>

definition take_pending_write :: "nat \<Rightarrow> 'f watcher \<Rightarrow> pending_write option \<times> 'f watcher" where
  "take_pending_write now s = (case bk_write (wt_backend s) of
     None \<Rightarrow> (None, s)
   | Some pending \<Rightarrow>
       (Some pending, (with_backend (\<lambda>b. b\<lparr>bk_write := None\<rparr>) s)\<lparr>wt_suppress_until := Some (now + echo_suppression_timeout)\<rparr>))"

definition selection_is_our_echo :: "nat \<Rightarrow> 'f watcher \<Rightarrow> bool \<times> 'f watcher" where
  "selection_is_our_echo now s = (case wt_suppress_until s of
     None \<Rightarrow> (False, s)
   | Some deadline \<Rightarrow>
       if deadline \<le> now then (False, s\<lparr>wt_suppress_until := None\<rparr>)
       else (True, s\<lparr>wt_suppress_until := Some (min deadline (now + echo_suppression_grace))\<rparr>))"

fun offered_mimes :: "pending_write \<Rightarrow> string list" where
  "offered_mimes (WriteText _) = [text_mime, utf8_mime, text_plain_mime]"
| "offered_mimes (WriteImage _) = [image_png_mime]"
| "offered_mimes (WriteFiles _ _) = [file_uri_list_mime, gnome_copied_files_mime]"

text \<open>The part of the loop that publishes a pending write; \<open>fresh\<close> is the source the compositor creates.\<close>

definition publish_pending :: "nat \<Rightarrow> nat \<Rightarrow> 'f watcher \<Rightarrow> 'f watcher" where
  "publish_pending now fresh s = (case take_pending_write now s of
     (None, s) \<Rightarrow> s
   | (Some pending, s) \<Rightarrow>
       (let s1 = (case wt_active_source s of
              None \<Rightarrow> s
            | Some old \<Rightarrow> (watch_request (DestroySource old) s)\<lparr>wt_active_source := None\<rparr>);
            s2 = fold (\<lambda>mime. watch_request (OfferMime fresh mime)) (offered_mimes pending) (watch_request (CreateSource fresh) s1);
            s3 = s2\<lparr>wt_active_selection := Some \<lparr>as_kind = write_kind pending, as_pending = pending\<rparr>\<rparr>;
            s4 = (if wt_device s3 then watch_request (SetSelection fresh) s3 else s3)
        in s4\<lparr>wt_active_source := Some fresh\<rparr>))"

text \<open>The bytes a send event of the active source writes into the pipe, if any.\<close>

definition source_send :: "string \<Rightarrow> 'f watcher \<Rightarrow> byte list option" where
  "source_send mime_type s = (case wt_active_selection s of
     None \<Rightarrow> None
   | Some selection \<Rightarrow> if accepts_wayland_mime (as_kind selection) mime_type then data_for_mime (as_pending selection) mime_type else None)"

definition source_cancelled :: "nat \<Rightarrow> 'f watcher \<Rightarrow> 'f watcher" where
  "source_cancelled source s =
     (let s1 = watch_request (DestroySource source) s
      in if wt_active_source s1 = Some source then s1\<lparr>wt_active_source := None, wt_active_selection := None\<rparr> else s1)"

section \<open>Copies on the desktop\<close>

definition data_offer :: "nat \<Rightarrow> 'f watcher \<Rightarrow> 'f watcher" where
  "data_offer offer s = s\<lparr>wt_offer_mimes := (wt_offer_mimes s)(offer \<mapsto> [])\<rparr>"

definition offer_mime :: "nat \<Rightarrow> string \<Rightarrow> 'f watcher \<Rightarrow> 'f watcher" where
  "offer_mime offer mime s = (case wt_offer_mimes s offer of
     None \<Rightarrow> s
   | Some mimes \<Rightarrow> s\<lparr>wt_offer_mimes := (wt_offer_mimes s)(offer \<mapsto> mimes @ [mime])\<rparr>)"

definition device_finished :: "'f watcher \<Rightarrow> 'f watcher" where
  "device_finished s = s\<lparr>wt_device := False\<rparr>"

text \<open>The three readers of a selection: the formats they add and the caches they fill.\<close>

definition read_text :: "(string \<Rightarrow> byte list option) \<Rightarrow> string option \<Rightarrow> 'f backend \<Rightarrow> nat list \<times> 'f backend" where
  "read_text reads text_mime_found b = (case text_mime_found of
     None \<Rightarrow> ([], b)
   | Some mime \<Rightarrow>
       (let b1 = b\<lparr>bk_text := None\<rparr> in case reads mime of
          None \<Rightarrow> ([], b1)
        | Some data \<Rightarrow>
            (case decode_wayland_text_offer mime data max_clipboard_size of
               None \<Rightarrow> ([], b1)
             | Some decoded \<Rightarrow> if decoded = [] then ([], b1) else ([cf_unicodetext], b1\<lparr>bk_text := Some decoded\<rparr>))))"

definition read_image :: "(byte list \<Rightarrow> byte list option) \<Rightarrow> (string \<Rightarrow> byte list option) \<Rightarrow> string option \<Rightarrow> 'f backend
    \<Rightarrow> nat list \<times> 'f backend" where
  "read_image png_to_cf_dib reads image_mime_found b = (case image_mime_found of
     None \<Rightarrow> ([], b)
   | Some mime \<Rightarrow> (case reads mime of
         None \<Rightarrow> ([], b)
       | Some png_data \<Rightarrow>
           if png_data = [] then ([], b)
           else (case png_to_cf_dib png_data of
               None \<Rightarrow> ([], b)
             | Some dib_data \<Rightarrow> ([cf_dib], b\<lparr>bk_image := Some dib_data\<rparr>))))"

definition read_files :: "(name \<Rightarrow> path option) \<Rightarrow> (string \<Rightarrow> byte list option) \<Rightarrow> bool \<Rightarrow> string option \<Rightarrow> 'f backend
    \<Rightarrow> nat list \<times> 'f backend" where
  "read_files parse reads has_text files_mime_found b = (case files_mime_found of
     None \<Rightarrow> ([], b)
   | Some mime \<Rightarrow> (case reads mime of
         None \<Rightarrow> ([], b)
       | Some uris \<Rightarrow>
           (let (frozen, b1) = freeze_selection (uri_list_paths parse uris) b
            in if \<not> frozen \<and> \<not> has_text \<and> uris \<noteq> [] then ([cf_unicodetext], b1\<lparr>bk_text := Some uris\<rparr>)
               else ([], b1))))"

definition read_selection :: "(byte list \<Rightarrow> byte list option) \<Rightarrow> (name \<Rightarrow> path option) \<Rightarrow> (string \<Rightarrow> byte list option) \<Rightarrow>
    string list \<Rightarrow> 'f backend \<Rightarrow> 'f backend" where
  "read_selection png_to_cf_dib parse reads mimes b =
     (let text_found = offered_wayland_mime Text mimes;
          image_found = offered_wayland_mime Image mimes;
          files_found = offered_wayland_mime Files mimes;
          b0 = b\<lparr>bk_text := (if text_found = None then None else bk_text b),
                 bk_image := (if image_found = None then None else bk_image b)\<rparr>;
          (text_formats, b1) = read_text reads text_found b0;
          (image_formats, b2) = read_image png_to_cf_dib reads image_found b1;
          (file_formats, b3) = read_files parse reads (text_found \<noteq> None) files_found b2;
          formats = text_formats @ image_formats @ file_formats
      in if formats = [] then b3 else announce_local_formats formats b3)"

definition supported :: "string list \<Rightarrow> bool" where
  "supported mimes \<longleftrightarrow> (\<exists>kind\<in>set all_kinds. offered_wayland_mime kind mimes \<noteq> None)"

definition selection_changed :: "(byte list \<Rightarrow> byte list option) \<Rightarrow> (name \<Rightarrow> path option) \<Rightarrow> (string \<Rightarrow> byte list option) \<Rightarrow>
    nat \<Rightarrow> int \<Rightarrow> nat option \<Rightarrow> 'f watcher \<Rightarrow> 'f watcher" where
  "selection_changed png_to_cf_dib parse reads now stamp offer s0 =
     (let (echo, s) = selection_is_our_echo now s0 in
      if echo
      then (case offer of
          None \<Rightarrow> s
        | Some offer_id \<Rightarrow> watch_request (DestroyOffer offer_id) (s\<lparr>wt_offer_mimes := (wt_offer_mimes s)(offer_id := None)\<rparr>))
      else (let s1 = with_backend (\<lambda>b. b\<lparr>bk_echo := None\<rparr>) (local_owner_changed stamp s) in
        case offer of
          None \<Rightarrow> clear_cached_selection s1
        | Some offer_id \<Rightarrow>
            (let s2 = s1\<lparr>wt_offer_mimes := (wt_offer_mimes s1)(offer_id := None)\<rparr> in
             case wt_offer_mimes s1 offer_id of
               None \<Rightarrow> watch_request (DestroyOffer offer_id) s2
             | Some mimes \<Rightarrow>
                 if \<not> supported mimes then watch_request (DestroyOffer offer_id) (clear_cached_selection s2)
                 else watch_request (DestroyOffer offer_id) (with_backend (read_selection png_to_cf_dib parse reads mimes) s2))))"

section \<open>Pipes\<close>

text \<open>
  One turn of a transfer, with the instant at which its deadlines are checked: the poll times out or
  fails, or the call returns; a call that moves bytes is followed by the instant of its progress. \<open>[]\<close>
  read is the end of the data; zero bytes written are the end of the reader.
\<close>

datatype 'd pipe_turn = PollQuiet | PollFailed | Interrupted | CallFailed | Moved 'd nat

datatype 'd pipe_result = PipeDone 'd | PipeTooLarge | PipeTimedOut | PipeFailed | PipeWaiting

definition transfer_timed_out :: "nat \<Rightarrow> nat \<Rightarrow> nat \<Rightarrow> nat \<Rightarrow> nat \<Rightarrow> bool" where
  "transfer_timed_out now started last_progress stall limit \<longleftrightarrow> limit \<le> now - started \<or> stall \<le> now - last_progress"

fun read_pipe_loop :: "nat \<Rightarrow> nat \<Rightarrow> nat \<Rightarrow> nat \<Rightarrow> (nat \<times> byte list pipe_turn) list \<Rightarrow> nat \<Rightarrow> byte list \<Rightarrow> byte list pipe_result" where
  "read_pipe_loop max_size stall limit started [] last_progress data = PipeWaiting"
| "read_pipe_loop max_size stall limit started ((now, turn) # turns) last_progress data =
     (if transfer_timed_out now started last_progress stall limit then PipeTimedOut
      else (case turn of
          PollQuiet \<Rightarrow> read_pipe_loop max_size stall limit started turns last_progress data
        | PollFailed \<Rightarrow> PipeFailed
        | Interrupted \<Rightarrow> read_pipe_loop max_size stall limit started turns last_progress data
        | CallFailed \<Rightarrow> PipeFailed
        | Moved chunk after \<Rightarrow>
            if chunk = [] then PipeDone data
            else if max_size < u64_sat_add (length data) (length chunk) then PipeTooLarge
            else read_pipe_loop max_size stall limit started turns after (data @ chunk)))"

definition read_pipe_bounded :: "nat \<Rightarrow> nat \<Rightarrow> nat \<Rightarrow> nat \<Rightarrow> (nat \<times> byte list pipe_turn) list \<Rightarrow> byte list pipe_result" where
  "read_pipe_bounded max_size stall limit started turns = read_pipe_loop max_size stall limit started turns started []"

fun write_pipe_loop :: "nat \<Rightarrow> nat \<Rightarrow> nat \<Rightarrow> nat \<Rightarrow> (nat \<times> nat pipe_turn) list \<Rightarrow> nat \<Rightarrow> nat \<Rightarrow> nat pipe_result" where
  "write_pipe_loop len stall limit started [] last_progress written =
     (if len \<le> written then PipeDone written else PipeWaiting)"
| "write_pipe_loop len stall limit started ((now, turn) # turns) last_progress written =
     (if len \<le> written then PipeDone written
      else if transfer_timed_out now started last_progress stall limit then PipeTimedOut
      else (case turn of
          PollQuiet \<Rightarrow> write_pipe_loop len stall limit started turns last_progress written
        | PollFailed \<Rightarrow> PipeFailed
        | Interrupted \<Rightarrow> write_pipe_loop len stall limit started turns last_progress written
        | CallFailed \<Rightarrow> PipeFailed
        | Moved n after \<Rightarrow>
            if n = 0 then PipeFailed else write_pipe_loop len stall limit started turns after (written + n)))"

definition write_pipe_bounded :: "nat \<Rightarrow> nat \<Rightarrow> nat \<Rightarrow> nat \<Rightarrow> (nat \<times> nat pipe_turn) list \<Rightarrow> nat pipe_result" where
  "write_pipe_bounded len stall limit started turns = write_pipe_loop len stall limit started turns started 0"

lemma read_pipe_ends:
  assumes "(now, turn) \<in> set turns" and "started + limit \<le> now"
  shows "read_pipe_loop max_size stall limit started turns last_progress data \<noteq> PipeWaiting"
  using assms(1)
proof (induction turns arbitrary: last_progress data)
  case (Cons t turns)
  show ?case
  proof (cases "t = (now, turn)")
    case True
    have "limit \<le> now - started" using assms(2) by simp
    with True show ?thesis by (simp add: transfer_timed_out_def)
  next
    case False
    with Cons show ?thesis by (cases t; cases "snd t") auto
  qed
qed simp

lemma write_pipe_ends:
  assumes "(now, turn) \<in> set turns" and "started + limit \<le> now"
  shows "write_pipe_loop len stall limit started turns last_progress written \<noteq> PipeWaiting"
  using assms(1)
proof (induction turns arbitrary: last_progress written)
  case (Cons t turns)
  show ?case
  proof (cases "t = (now, turn)")
    case True
    have "limit \<le> now - started" using assms(2) by simp
    with True show ?thesis by (simp add: transfer_timed_out_def)
  next
    case False
    with Cons show ?thesis by (cases t; cases "snd t") auto
  qed
qed simp

text \<open>The bytes that reach the reader, in order.\<close>

fun moved :: "(nat \<times> byte list pipe_turn) list \<Rightarrow> byte list" where
  "moved [] = []"
| "moved ((now, Moved chunk after) # turns) = chunk @ moved turns"
| "moved ((now, turn) # turns) = moved turns"

lemma read_pipe_data:
  "read_pipe_loop max_size stall limit started turns last_progress data = PipeDone d \<Longrightarrow> length data \<le> max_size \<Longrightarrow>
   max_size < u64_max \<Longrightarrow> length d \<le> max_size \<and> (\<exists>n. d = data @ moved (take n turns))"
proof (induction max_size stall limit started turns last_progress data rule: read_pipe_loop.induct)
  case (2 max_size stall limit started now turn turns last_progress data)
  have rest: "length d \<le> max_size \<and> (\<exists>n. d = data @ moved (take n ((now, turn) # turns)))"
    if later: "length d \<le> max_size \<and> (\<exists>n. d = data @ moved (take n turns))" and empty: "moved [(now, turn)] = []"
  proof -
    obtain n where "d = data @ moved (take n turns)" using later by blast
    then have "d = data @ moved (take (Suc n) ((now, turn) # turns))" using empty by (cases turn) auto
    with later show ?thesis by blast
  qed
  show ?case
  proof (cases turn)
    case (Moved chunk after)
    show ?thesis
    proof (cases "chunk = []")
      case True
      with 2(4,5) Moved show ?thesis by (auto split: if_splits intro: exI [of _ 0])
    next
      case False
      with 2(4) Moved have fits: "\<not> max_size < u64_sat_add (length data) (length chunk)"
        and run: "read_pipe_loop max_size stall limit started turns after (data @ chunk) = PipeDone d"
        and time: "\<not> transfer_timed_out now started last_progress stall limit" by (auto split: if_splits)
      have "length (data @ chunk) \<le> max_size"
        using fits 2(6) by (auto simp: u64_sat_add_def split: if_splits)
      from 2(3) [OF time Moved False fits run this 2(6)] obtain n where "length d \<le> max_size" "d = (data @ chunk) @ moved (take n turns)"
        by blast
      then show ?thesis using Moved by (intro conjI exI [of _ "Suc n"]) auto
    qed
  next
    case PollQuiet
    with 2 rest show ?thesis by (auto split: if_splits)
  next
    case Interrupted
    with 2 rest show ?thesis by (auto split: if_splits)
  qed (use 2(4) in \<open>auto split: if_splits\<close>)
qed simp

section \<open>What a copy on the desktop leaves in the caches\<close>

definition offered_text :: "(string \<Rightarrow> byte list option) \<Rightarrow> string list \<Rightarrow> byte list option" where
  "offered_text reads mimes = do {
     mime \<leftarrow> offered_wayland_mime Text mimes;
     data \<leftarrow> reads mime;
     decoded \<leftarrow> decode_wayland_text_offer mime data max_clipboard_size;
     if decoded = [] then None else Some decoded }"

definition offered_image :: "(byte list \<Rightarrow> byte list option) \<Rightarrow> (string \<Rightarrow> byte list option) \<Rightarrow> string list \<Rightarrow> byte list option" where
  "offered_image png_to_cf_dib reads mimes = do {
     mime \<leftarrow> offered_wayland_mime Image mimes;
     png \<leftarrow> reads mime;
     if png = [] then None else png_to_cf_dib png }"






lemma read_image_eq:
  "read_image png reads (offered_wayland_mime Image mimes) b =
     (if offered_image png reads mimes = None then [] else [cf_dib],
      case offered_image png reads mimes of None \<Rightarrow> b | Some dib \<Rightarrow> b\<lparr>bk_image := Some dib\<rparr>)"
  by (simp add: read_image_def offered_image_def split: option.splits)



lemma inbound_begin_caches:
  "bk_text (snd (inbound_begin stamp b)) = bk_text b" "bk_image (snd (inbound_begin stamp b)) = bk_image b"
  "bk_worker (snd (inbound_begin stamp b)) = bk_worker b" "bk_out (snd (inbound_begin stamp b)) = bk_out b"
  "bk_echo (snd (inbound_begin stamp b)) = bk_echo b"
  by (auto simp: inbound_begin_def Let_def split: option.splits prod.splits)

text \<open>The state in which a copy that is no echo is read.\<close>

definition owner_changed :: "int \<Rightarrow> 'f backend \<Rightarrow> 'f backend" where
  "owner_changed stamp b = (snd (inbound_begin stamp (with_out (with_files clear_selection) b)))\<lparr>bk_echo := None\<rparr>"

lemma owner_changed_caches:
  "bk_text (owner_changed stamp b) = bk_text b" "bk_image (owner_changed stamp b) = bk_image b"
  by (simp_all add: owner_changed_def inbound_begin_caches with_out_def)

lemma selection_honoured:
  assumes "\<not> fst (selection_is_our_echo now s)"
  shows "wt_backend (selection_changed png parse reads now stamp offer s) =
    (case offer of
       None \<Rightarrow> with_out (with_files clear_selection) ((owner_changed stamp (wt_backend s))\<lparr>bk_text := None, bk_image := None\<rparr>)
     | Some offer_id \<Rightarrow>
         (case wt_offer_mimes s offer_id of
            None \<Rightarrow> owner_changed stamp (wt_backend s)
          | Some mimes \<Rightarrow>
              if supported mimes then read_selection png parse reads mimes (owner_changed stamp (wt_backend s))
              else with_out (with_files clear_selection) ((owner_changed stamp (wt_backend s))\<lparr>bk_text := None, bk_image := None\<rparr>)))"
  using assms
  by (auto simp: selection_changed_def Let_def selection_is_our_echo_def local_owner_changed_def clear_cached_selection_def
      owner_changed_def with_backend_def watch_request_def split: option.splits if_splits)


text \<open>
  C31: An image that is offered but cannot be read or converted leaves the previous image in the cache,
  announces nothing, and the client that still holds the previous offer is served that previous image;
  a text that cannot be read is dropped instead.
\<close>

theorem failed_image_serves_previous:
  assumes "\<not> fst (selection_is_our_echo now s)" and "wt_offer_mimes s offer = Some [image_png_mime]"
    and "offered_image png reads [image_png_mime] = None" and "bk_image (wt_backend s) = Some previous" and "previous \<noteq> []"
  shows "(let b = wt_backend (selection_changed png parse reads now stamp (Some offer) s) in
    ob_sent (bk_out b) = ob_sent (bk_out (wt_backend s)) \<and>
    on_format_data_request unicode_string cf_dib b = Some (post (SendFormatData (Some previous)) b))"
proof -
  have mimes: "offered_wayland_mime Text [image_png_mime] = None" "offered_wayland_mime Image [image_png_mime] = Some image_png_mime"
    "offered_wayland_mime Files [image_png_mime] = None"
    by (simp_all add: offered_wayland_mime_def mime_defs)
  let ?b = "owner_changed stamp (wt_backend s)"
  have "offered_text reads [image_png_mime] = None" by (simp add: offered_text_def mimes)
  then have "read_selection png parse reads [image_png_mime] ?b = ?b\<lparr>bk_text := None\<rparr>"
    using read_image_eq [of png reads "[image_png_mime]" "?b\<lparr>bk_text := None\<rparr>"] assms(3)
    by (simp add: read_selection_def mimes read_text_def read_files_def Let_def)
  then have b: "wt_backend (selection_changed png parse reads now stamp (Some offer) s) = ?b\<lparr>bk_text := None\<rparr>"
    using assms(2) mimes by (simp add: selection_honoured [OF assms(1)] supported_def all_kinds_def)
  have "ob_sent (bk_out ?b) = ob_sent (bk_out (wt_backend s))"
    by (simp add: owner_changed_def inbound_begin_caches with_out_def with_files_def)
  then show ?thesis
    using assms(4,5) by (simp add: Let_def b on_format_data_request_def local_kind_for_format_def cf_dib_def cf_unicodetext_def
        nonempty_def owner_changed_caches)
qed

section \<open>Echoes of our own writes\<close>

definition select_at :: "(byte list \<Rightarrow> byte list option) \<Rightarrow> (name \<Rightarrow> path option) \<Rightarrow> (nat \<Rightarrow> string \<Rightarrow> byte list option) \<Rightarrow> int \<Rightarrow>
    'f watcher \<Rightarrow> nat \<times> nat option \<Rightarrow> 'f watcher" where
  "select_at png parse reads stamp s = (\<lambda>(now, offer). selection_changed png parse (reads now) now stamp offer s)"

lemma suppress_after:
  "wt_suppress_until (selection_changed png parse reads now stamp offer s) = (case wt_suppress_until s of
     None \<Rightarrow> None
   | Some deadline \<Rightarrow> if deadline \<le> now then None else Some (min deadline (now + echo_suppression_grace)))"
  by (auto simp: selection_changed_def selection_is_our_echo_def Let_def watch_request_def with_backend_def local_owner_changed_def
      clear_cached_selection_def split: option.splits)

lemma echo_ignored:
  assumes "fst (selection_is_our_echo now s)"
  shows "wt_backend (selection_changed png parse reads now stamp offer s) = wt_backend s"
  using assms by (auto simp: selection_changed_def selection_is_our_echo_def Let_def watch_request_def split: option.splits if_splits)

text \<open>The end of the window after a write at \<open>start\<close>: two seconds, or the grace after the first event.\<close>

definition window_end :: "nat \<Rightarrow> nat list \<Rightarrow> nat" where
  "window_end start ts = (case ts of [] \<Rightarrow> start + echo_suppression_timeout
     | t # _ \<Rightarrow> min (start + echo_suppression_timeout) (t + echo_suppression_grace))"

lemma window_closes:
  assumes "sorted (map fst events)" and "wt_suppress_until s = Some (start + echo_suppression_timeout)"
  shows "wt_suppress_until (run_events (select_at png parse reads stamp) s events) = Some (window_end start (map fst events)) \<or>
    wt_suppress_until (run_events (select_at png parse reads stamp) s events) = None \<and>
      (\<exists>t\<in>fst ` set events. window_end start (map fst events) \<le> t)"
  using assms(1)
proof (induction events rule: rev_induct)
  case Nil
  then show ?case using assms(2) by (simp add: window_end_def)
next
  case (snoc e events)
  obtain now offer where e: "e = (now, offer)" by (cases e)
  have sorted: "sorted (map fst events)" "\<forall>t\<in>fst ` set events. t \<le> now" using snoc.prems by (auto simp: sorted_append e)
  let ?s = "run_events (select_at png parse reads stamp) s events"
  have after: "wt_suppress_until (run_events (select_at png parse reads stamp) s (events @ [e])) = (case wt_suppress_until ?s of
     None \<Rightarrow> None
   | Some deadline \<Rightarrow> if deadline \<le> now then None else Some (min deadline (now + echo_suppression_grace)))"
    by (simp add: select_at_def e suppress_after)
  show ?case
  proof (cases events)
    case Nil
    then show ?thesis using after assms(2) by (auto simp: window_end_def e)
  next
    case (Cons f rest)
    have same: "window_end start (map fst (events @ [e])) = window_end start (map fst events)" by (simp add: window_end_def Cons)
    have "window_end start (map fst events) \<le> now + echo_suppression_grace"
      using sorted(2) by (simp add: window_end_def Cons min.coboundedI2)
    then have "min (window_end start (map fst events)) (now + echo_suppression_grace) = window_end start (map fst events)" by simp
    with snoc.IH [OF sorted(1)] after show ?thesis
      unfolding same by (cases "window_end start (map fst events) \<le> now") (auto simp: e)
  qed
qed

lemma echo_exact:
  assumes "sorted (map fst events)" and "\<forall>t\<in>fst ` set events. t \<le> now"
    and "wt_suppress_until s = Some (start + echo_suppression_timeout)"
  shows "fst (selection_is_our_echo now (run_events (select_at png parse reads stamp) s events)) \<longleftrightarrow>
    now < window_end start (map fst events)"
  using window_closes [OF assms(1,3), of png parse reads stamp]
proof
  assume "wt_suppress_until (run_events (select_at png parse reads stamp) s events) = Some (window_end start (map fst events))"
  then show ?thesis by (simp add: selection_is_our_echo_def)
next
  assume "wt_suppress_until (run_events (select_at png parse reads stamp) s events) = None \<and>
      (\<exists>t\<in>fst ` set events. window_end start (map fst events) \<le> t)"
  then show ?thesis using assms(2) by (auto simp: selection_is_our_echo_def)
qed

lemma window_antimono: "window_end start (map fst (xs @ ys)) \<le> window_end start (map fst xs)"
  by (cases xs; cases ys) (auto simp: window_end_def)

lemma burst_ignored:
  assumes "sorted (map fst events)" and "wt_suppress_until s = Some (start + echo_suppression_timeout)"
    and "\<forall>t\<in>fst ` set events. t < window_end start (map fst events)"
  shows "wt_backend (run_events (select_at png parse reads stamp) s events) = wt_backend s"
  using assms(1,3)
proof (induction events rule: rev_induct)
  case (snoc e events)
  obtain now offer where e: "e = (now, offer)" by (cases e)
  have sorted: "sorted (map fst events)" "\<forall>t\<in>fst ` set events. t \<le> now" using snoc.prems(1) by (auto simp: sorted_append e)
  have window: "window_end start (map fst (events @ [e])) \<le> window_end start (map fst events)" by (rule window_antimono)
  then have "\<forall>t\<in>fst ` set events. t < window_end start (map fst events)" "now < window_end start (map fst events)"
    using snoc.prems(2) by (auto simp: e intro: less_le_trans)
  with echo_exact [OF sorted assms(2), of png parse reads stamp] snoc.IH [OF sorted(1)]
  have "fst (selection_is_our_echo now (run_events (select_at png parse reads stamp) s events))"
    "wt_backend (run_events (select_at png parse reads stamp) s events) = wt_backend s" by blast+
  then have "wt_backend (select_at png parse reads stamp (run_events (select_at png parse reads stamp) s events) e) = wt_backend s"
    using echo_ignored [of now "run_events (select_at png parse reads stamp) s events" png parse "reads now" stamp offer]
    by (simp add: select_at_def e)
  then show ?case by simp
qed simp

text \<open>
  C18: A copy the client made is never announced back to it, and the desktop's next copy is never taken
  for one: after a write published at \<open>start\<close>, exactly the selection events within two seconds of it
  and within the grace of the first of them are ignored, leaving the shared state as it was, and every
  other event is honoured.
\<close>

theorem own_writes_not_echoed:
  assumes "bk_write (wt_backend s) = Some pending" and "sorted (map fst events)" and "\<forall>t\<in>fst ` set events. t \<le> now"
  shows "(let published = publish_pending start fresh s;
              s' = run_events (select_at png parse reads stamp) published events
          in (fst (selection_is_our_echo now s') \<longleftrightarrow> now < window_end start (map fst events)) \<and>
             ((\<forall>t\<in>fst ` set events. t < window_end start (map fst events)) \<longrightarrow> wt_backend s' = wt_backend published))"
proof -
  have fold_suppress: "wt_suppress_until (fold (\<lambda>mime. watch_request (OfferMime fresh mime)) ms s) = wt_suppress_until s" for ms and s :: "'a watcher"
    by (induction ms arbitrary: s) (simp_all add: watch_request_def)
  have suppress: "wt_suppress_until (publish_pending start fresh s) = Some (start + echo_suppression_timeout)"
    using assms(1) fold_suppress
    by (simp add: publish_pending_def take_pending_write_def Let_def with_backend_def watch_request_def split: option.splits)
  show ?thesis
    unfolding Let_def using echo_exact [OF assms(2,3) suppress, of png parse reads stamp]
      burst_ignored [OF assms(2) suppress, of png parse reads stamp] by blast
qed

section \<open>Sources\<close>

text \<open>The sources the compositor holds for us.\<close>

fun live_sources :: "watch_request list \<Rightarrow> nat set \<Rightarrow> nat set" where
  "live_sources [] held = held"
| "live_sources (CreateSource n # rs) held = live_sources rs (insert n held)"
| "live_sources (DestroySource n # rs) held = live_sources rs (held - {n})"
| "live_sources (r # rs) held = live_sources rs held"

datatype watch_event =
    PasteFromClient pending_write
  | LoopTurn nat nat
  | SelectionEvent nat int "nat option"
  | OfferCreated nat
  | OfferedMime nat string
  | Cancelled nat
  | DeviceFinished

fun watch_step :: "(byte list \<Rightarrow> byte list option) \<Rightarrow> (name \<Rightarrow> path option) \<Rightarrow> (nat \<Rightarrow> string \<Rightarrow> byte list option) \<Rightarrow>
    'f watcher \<Rightarrow> watch_event \<Rightarrow> 'f watcher" where
  "watch_step png parse reads s (PasteFromClient pending) = with_backend (\<lambda>b. b\<lparr>bk_write := Some pending\<rparr>) s"
| "watch_step png parse reads s (LoopTurn now fresh) = publish_pending now fresh s"
| "watch_step png parse reads s (SelectionEvent now stamp offer) = selection_changed png parse (reads now) now stamp offer s"
| "watch_step png parse reads s (OfferCreated offer) = data_offer offer s"
| "watch_step png parse reads s (OfferedMime offer mime) = offer_mime offer mime s"
| "watch_step png parse reads s (Cancelled source) = source_cancelled source s"
| "watch_step png parse reads s DeviceFinished = device_finished s"

definition watch_inv :: "'f watcher \<Rightarrow> bool" where
  "watch_inv s \<longleftrightarrow> live_sources (wt_requests s) {} = set_option (wt_active_source s) \<and>
     (wt_active_source s = None \<longrightarrow> wt_active_selection s = None) \<and>
     (\<forall>selection. wt_active_selection s = Some selection \<longrightarrow> as_kind selection = write_kind (as_pending selection))"

lemma live_sources_append: "live_sources (xs @ ys) held = live_sources ys (live_sources xs held)"
  by (induction xs held rule: live_sources.induct) auto

lemma fold_offers:
  "wt_requests (fold (\<lambda>mime. watch_request (OfferMime n mime)) ms s) = wt_requests s @ map (OfferMime n) ms"
  "wt_active_source (fold (\<lambda>mime. watch_request (OfferMime n mime)) ms s) = wt_active_source s"
  by (induction ms arbitrary: s) (simp_all add: watch_request_def)

lemma live_offers [simp]: "live_sources (map (OfferMime n) ms) held = held"
  by (induction ms) simp_all

lemma publish_inv:
  assumes "watch_inv s"
  shows "watch_inv (publish_pending now fresh s)"
  using assms
  by (auto simp: publish_pending_def take_pending_write_def watch_inv_def Let_def with_backend_def watch_request_def fold_offers
      live_sources_append split: option.splits)

lemma selection_inv:
  assumes "watch_inv s"
  shows "watch_inv (selection_changed png parse reads now stamp offer s)"
  using assms
  by (auto simp: selection_changed_def selection_is_our_echo_def watch_inv_def Let_def with_backend_def watch_request_def
      local_owner_changed_def clear_cached_selection_def live_sources_append split: option.splits if_splits)

lemma cancelled_inv:
  assumes "watch_inv s"
  shows "watch_inv (source_cancelled source s)"
  using assms by (auto simp: source_cancelled_def watch_inv_def Let_def watch_request_def live_sources_append)

interpretation watch: event_system "watch_step png parse reads" "\<lambda>_. True" watch_inv for png parse reads
proof
  fix s :: "'a watcher" and e
  assume inv: "watch_inv s"
  show "watch_inv (watch_step png parse reads s e)"
  proof (cases e)
    case (LoopTurn now fresh)
    then show ?thesis using publish_inv [OF inv] by simp
  next
    case (SelectionEvent now stamp offer)
    then show ?thesis using selection_inv [OF inv] by simp
  next
    case (Cancelled source)
    then show ?thesis using cancelled_inv [OF inv] by simp
  qed (use inv in \<open>auto simp: watch_inv_def with_backend_def data_offer_def offer_mime_def device_finished_def split: option.splits\<close>)
qed

lemma watch_inv_new: "watch_inv (watcher_new b)"
  by (simp add: watch_inv_def watcher_new_def)

text \<open>
  C12: The compositor never holds more of our data sources than the active one, whatever happens, and a
  program that pastes gets the bytes of the copy published last, in every type offered for it.
\<close>

theorem one_source_holds_newest:
  assumes "s = run_events (watch_step png parse reads) (watcher_new b) events" and "bk_write (wt_backend s) = Some pending"
  shows "live_sources (wt_requests s) {} = set_option (wt_active_source s) \<and>
    (let s' = publish_pending now fresh s in live_sources (wt_requests s') {} = {fresh} \<and>
      (\<forall>mime\<in>set (offered_mimes pending). source_send mime s' = data_for_mime pending mime \<and> data_for_mime pending mime \<noteq> None))"
proof -
  have inv: "watch_inv s" using watch.run_keeps [OF watch_inv_new, of events] assms(1) by (simp add: list_all_iff)
  note inv' = publish_inv [OF inv, of now fresh]
  have sel: "fold (\<lambda>mime. watch_request (OfferMime fresh mime)) ms t = t\<lparr>wt_requests := wt_requests t @ map (OfferMime fresh) ms\<rparr>"
    for ms and t :: "'a watcher" by (induction ms arbitrary: t) (simp_all add: watch_request_def)
  have pub: "wt_active_source (publish_pending now fresh s) = Some fresh"
    "wt_active_selection (publish_pending now fresh s) = Some \<lparr>as_kind = write_kind pending, as_pending = pending\<rparr>"
    using assms(2) by (simp_all add: publish_pending_def take_pending_write_def Let_def sel watch_request_def)
  have "source_send mime (publish_pending now fresh s) = data_for_mime pending mime \<and> data_for_mime pending mime \<noteq> None"
    if "mime \<in> set (offered_mimes pending)" for mime
    using that by (cases pending) (auto simp: source_send_def pub)
  then show ?thesis using inv inv' pub(1) by (simp add: watch_inv_def Let_def)
qed

section \<open>Examples\<close>

definition tiny_watcher :: "unit watcher" where
  "tiny_watcher = watcher_new ((backend_new 0 \<lparr>fm_to_client = False, fm_to_server = False\<rparr>)\<lparr>bk_write := Some (WriteText [97]), bk_image := Some [1, 2]\<rparr>)"

theorem own_writes_not_echoed_witness:
  "(let published = publish_pending 10 7 tiny_watcher;
        s' = run_events (select_at (\<lambda>_. None) (\<lambda>_. None) (\<lambda>_ _. None) 0) published [(20, Some 3), (90, None)]
    in \<not> fst (selection_is_our_echo 150 s') \<and> wt_backend s' = wt_backend published)"
  using own_writes_not_echoed [of tiny_watcher "WriteText [97]" "[(20, Some 3), (90, None)]" 150 10 7 "\<lambda>_. None" "\<lambda>_. None" "\<lambda>_ _. None" 0]
  by (simp add: tiny_watcher_def watcher_new_def backend_new_def window_end_def echo_suppression_timeout_def
      echo_suppression_grace_def Let_def)

theorem one_source_holds_newest_witness:
  "source_send utf8_mime (publish_pending 10 7 (run_events (watch_step (\<lambda>_. None) (\<lambda>_. None) (\<lambda>_ _. None))
     (watcher_new (backend_new 0 \<lparr>fm_to_client = False, fm_to_server = False\<rparr> :: unit backend)) [PasteFromClient (WriteText [97])])) = Some [97]"
  using one_source_holds_newest [OF refl, of "\<lambda>_. None" "\<lambda>_. None" "\<lambda>_ _. None"
      "backend_new 0 \<lparr>fm_to_client = False, fm_to_server = False\<rparr> :: unit backend" "[PasteFromClient (WriteText [97])]" "WriteText [97]" 10 7]
  by (simp add: with_backend_def Let_def)


theorem failed_image_serves_previous_witness:
  "\<exists>b. wt_backend (selection_changed (\<lambda>_. None) (\<lambda>_. None) (\<lambda>_. None) 10 0 (Some 3)
      (offer_mime 3 image_png_mime (data_offer 3 tiny_watcher))) = b \<and>
    on_format_data_request id cf_dib b = Some (post (SendFormatData (Some [1, 2])) b)"
proof -
  let ?s = "offer_mime 3 image_png_mime (data_offer 3 tiny_watcher)"
  have "\<not> fst (selection_is_our_echo 10 ?s)" "wt_offer_mimes ?s 3 = Some [image_png_mime]" "bk_image (wt_backend ?s) = Some [1, 2]"
    by (simp_all add: selection_is_our_echo_def offer_mime_def data_offer_def tiny_watcher_def watcher_new_def)
  moreover have "offered_image (\<lambda>_. None) (\<lambda>_. None) [image_png_mime] = None" by (simp add: offered_image_def split: option.splits)
  ultimately show ?thesis
    using failed_image_serves_previous [of 10 ?s 3 "\<lambda>_. None" "\<lambda>_. None" "[1, 2]" "\<lambda>_. None" 0 id] by (simp add: Let_def)
qed

end
