(* ===== verification/RemoteFilesystem.thy ===== *)
theory RemoteFilesystem
  imports InboundTransfer
begin

text \<open>
  The read-only file system of one remote selection (\<open>src/src/clipboard/inbound/filesystem.rs\<close>). A
  handler that waits for the client is split where it waits: its first part is the call on the
  transfer, its second the reply computed from the state found afterwards. The owner and group of the
  process and the fields of an attribute that are constants are left out.

  \<open>pages_listing\<close>: a directory read in pages is its listing; \<open>listed_child\<close>: what the listing holds;
  \<open>directory_listed_once\<close> puts the two together for the state after any run of the transfer.
\<close>

section \<open>Attributes\<close>

datatype errno = EIO | ENOENT | ENOTDIR | EISDIR

datatype file_type = DirectoryType | RegularFile

record file_attr =
  at_ino :: nat
  at_size :: nat
  at_blocks :: nat
  at_modified :: int
  at_kind :: file_type
  at_perm :: nat
  at_nlink :: nat

definition file_type :: "remote_node \<Rightarrow> file_type" where
  "file_type n = (if node_is_directory n then DirectoryType else RegularFile)"

definition div_ceil :: "nat \<Rightarrow> nat \<Rightarrow> nat" where
  "div_ceil a b = (if a mod b = 0 then a div b else a div b + 1)"

definition node_attr :: "remote_tree \<Rightarrow> nat \<Rightarrow> remote_node \<Rightarrow> file_attr" where
  "node_attr tree inode n =
     (let s = (case rn_size n of None \<Rightarrow> 0 | Some s \<Rightarrow> s)
      in \<lparr>at_ino = inode, at_size = s, at_blocks = div_ceil s 512, at_modified = rn_modified n, at_kind = file_type n,
          at_perm = permissions n, at_nlink = link_count tree inode\<rparr>)"

section \<open>Handlers\<close>

text \<open>\<open>files.size(...)\<close> may have to ask the client; \<open>answered\<close> is whether it returned a size in the end.\<close>

definition getattr_call :: "nat \<Rightarrow> nat \<Rightarrow> 'f transfer \<Rightarrow> nat call \<times> 'f transfer" where
  "getattr_call generation ino s = size_call generation ino s"

definition attr_reply :: "nat \<Rightarrow> nat \<Rightarrow> bool \<Rightarrow> 'f transfer \<Rightarrow> errno + file_attr" where
  "attr_reply generation ino answered s =
     (if \<not> answered then Inl EIO
      else (case Option.bind (with_tree generation s) (\<lambda>tree. map_option (node_attr tree ino) (node tree ino)) of
          Some attr \<Rightarrow> Inr attr
        | None \<Rightarrow> Inl ENOENT))"

text \<open>\<open>lookup\<close>; a name that is not UTF-8 is \<open>None\<close>.\<close>

definition lookup_call :: "nat \<Rightarrow> nat \<Rightarrow> string option \<Rightarrow> 'f transfer \<Rightarrow> (errno + nat \<times> nat call) \<times> 'f transfer" where
  "lookup_call generation parent name s =
     (case Option.bind name (\<lambda>n. Option.bind (with_tree generation s) (\<lambda>tree. node_lookup tree parent n)) of
        None \<Rightarrow> (Inl ENOENT, s)
      | Some inode \<Rightarrow> (let (call, s') = size_call generation inode s in (Inr (inode, call), s')))"

definition dir_listing :: "nat \<Rightarrow> remote_tree \<Rightarrow> errno + (nat \<times> file_type \<times> string) list" where
  "dir_listing ino tree = (case node tree ino of
     None \<Rightarrow> Inl ENOENT
   | Some n \<Rightarrow>
       if \<not> node_is_directory n then Inl ENOTDIR
       else Inr ((ino, DirectoryType, ''.'') # (rn_parent n, DirectoryType, ''..'') #
         filter_map (\<lambda>inode. map_option (\<lambda>child. (inode, file_type child, rn_name child)) (node tree inode)) (children tree ino)))"

text \<open>\<open>room\<close> is how many entries the buffer of the reply takes before it is full.\<close>

definition readdir :: "nat \<Rightarrow> nat \<Rightarrow> nat \<Rightarrow> nat \<Rightarrow> 'f transfer \<Rightarrow> errno + (nat \<times> nat \<times> file_type \<times> string) list" where
  "readdir generation ino offset room s =
     (case (case with_tree generation s of None \<Rightarrow> Inl ENOENT | Some tree \<Rightarrow> dir_listing ino tree) of
        Inl e \<Rightarrow> Inl e
      | Inr listing \<Rightarrow>
          Inr (take room (drop offset (map (\<lambda>(entry_offset, inode, kind, name). (inode, entry_offset + 1, kind, name))
            (enumerate 0 listing)))))"

definition open_file :: "nat \<Rightarrow> nat \<Rightarrow> 'f transfer \<Rightarrow> errno + bool" where
  "open_file generation ino s =
     (case Option.bind (with_tree generation s) (\<lambda>tree. map_option rn_kind (node tree ino)) of
        Some (File _) \<Rightarrow> Inr True
      | Some Directory \<Rightarrow> Inl EISDIR
      | None \<Rightarrow> Inl ENOENT)"

definition read_reply :: "byte list option \<Rightarrow> errno + byte list" where
  "read_reply result = (case result of Some data \<Rightarrow> Inr data | None \<Rightarrow> Inl EIO)"

section \<open>Reading a directory\<close>

text \<open>A reader that continues each page at the offset of the last entry it got.\<close>

fun read_pages :: "nat \<Rightarrow> nat \<Rightarrow> nat list \<Rightarrow> nat \<Rightarrow> 'f transfer \<Rightarrow> (nat \<times> nat \<times> file_type \<times> string) list" where
  "read_pages generation ino [] offset s = []"
| "read_pages generation ino (room # rooms) offset s = (case readdir generation ino offset room s of
     Inl e \<Rightarrow> []
   | Inr page \<Rightarrow>
       if page = [] then []
       else page @ read_pages generation ino rooms (fst (snd (last page))) s)"

definition numbered :: "(nat \<times> file_type \<times> string) list \<Rightarrow> (nat \<times> nat \<times> file_type \<times> string) list" where
  "numbered listing = map (\<lambda>(entry_offset, inode, kind, name). (inode, entry_offset + 1, kind, name)) (enumerate 0 listing)"

lemma length_numbered [simp]: "length (numbered listing) = length listing"
  by (simp add: numbered_def)

lemma numbered_nth: "i < length listing \<Longrightarrow> fst (snd (numbered listing ! i)) = i + 1"
  by (simp add: numbered_def nth_enumerate_eq split: prod.splits)

lemma pages_listing:
  assumes "with_tree generation s = Some tree" and "dir_listing ino tree = Inr listing" and "list_all (\<lambda>r. 0 < r) rooms"
  shows "read_pages generation ino rooms offset s = take (sum_list rooms) (drop offset (numbered listing))"
  using assms(3)
proof (induction rooms arbitrary: offset)
  case (Cons room rooms)
  have page: "readdir generation ino offset room s = Inr (take room (drop offset (numbered listing)))"
    by (simp add: readdir_def assms(1,2) numbered_def)
  let ?page = "take room (drop offset (numbered listing))"
  show ?case
  proof (cases "offset < length listing")
    case False
    then show ?thesis using page by simp
  next
    case True
    define n where "n = min room (length listing - offset)"
    have len: "length ?page = n" "0 < n" "?page \<noteq> []" "n \<le> room" "offset + n \<le> length listing"
      using True Cons.prems by (auto simp: n_def)
    have "last ?page = numbered listing ! (offset + (n - 1))"
      using len by (simp add: last_conv_nth del: length_take length_drop)
    then have "fst (snd (last ?page)) = offset + n" using numbered_nth [of "offset + (n - 1)" listing] len by simp
    then have "read_pages generation ino (room # rooms) offset s =
        ?page @ take (sum_list rooms) (drop (offset + n) (numbered listing))"
      using page len(3) Cons by simp
    also have "\<dots> = take (room + sum_list rooms) (drop offset (numbered listing))"
    proof (cases "room \<le> length listing - offset")
      case True
      then have "n = room" by (simp add: n_def)
      then show ?thesis by (simp add: take_add add.commute)
    next
      case False
      then have "offset + n = length listing" using \<open>offset < length listing\<close> by (simp add: n_def)
      then show ?thesis using False by simp
    qed
    finally show ?thesis by simp
  qed
qed simp

lemma filter_map_all:
  "list_all (\<lambda>x. f x \<noteq> None) xs \<Longrightarrow> filter_map f xs = map (\<lambda>x. the (f x)) xs"
  by (induction xs) auto

lemma listed_child:
  assumes inv: "tree_inv tree" and n: "node tree ino = Some n" and dir: "node_is_directory n"
  shows "\<exists>rest. dir_listing ino tree = Inr ((ino, DirectoryType, ''.'') # (rn_parent n, DirectoryType, ''..'') # rest) \<and>
    distinct (map fst rest) \<and> map fst rest = children tree ino \<and>
    (\<forall>inode kind name. (inode, kind, name) \<in> set rest \<longleftrightarrow> node_lookup tree ino name = Some inode \<and>
       (\<exists>child. node tree inode = Some child \<and> file_type child = kind)) \<and>
    (\<forall>(inode, kind, name)\<in>set rest. safe_name name)"
proof -
  have base: "2 \<le> tr_base tree" by (rule tree_invD(1) [OF inv])
  obtain j where j: "j < length (tr_nodes tree)" "ino = inode_at tree j" "n = tr_nodes tree ! j"
    using n unfolding node_iff [OF base] by blast
  have kids: "children tree ino = rn_children n" by (simp add: children_def n)
  have kid: "i \<in> set (rn_children n) \<longleftrightarrow> (\<exists>k. child_of tree j k \<and> i = inode_at tree k)" for i
    using tree_invD(8) [OF inv j(1)] j(3) by simp
  have look: "node_lookup tree ino name = Some i \<longleftrightarrow>
      (\<exists>k. child_of tree j k \<and> i = inode_at tree k \<and> rn_name (tr_nodes tree ! k) = name)" for name i
    unfolding node_lookup_def tree_invD(5) [OF inv] child_of_def j(2) by metis
  have at: "node tree (inode_at tree k) = Some (tr_nodes tree ! k)" if "child_of tree j k" for k
    using that node_at [OF base] by (simp add: child_of_def)
  define rest where "rest = map (\<lambda>i. (i, file_type (the (node tree i)), rn_name (the (node tree i)))) (rn_children n)"
  have some: "list_all (\<lambda>i. node tree i \<noteq> None) (rn_children n)"
    unfolding list_all_iff using kid at by force
  have "filter_map (\<lambda>i. map_option (\<lambda>child. (i, file_type child, rn_name child)) (node tree i)) (rn_children n) = rest"
    unfolding rest_def using some by (subst filter_map_all) (auto simp: list_all_iff)
  then have "dir_listing ino tree = Inr ((ino, DirectoryType, ''.'') # (rn_parent n, DirectoryType, ''..'') # rest)"
    by (simp add: dir_listing_def n dir kids)
  moreover have "map fst rest = children tree ino" by (simp add: rest_def comp_def kids)
  moreover have "distinct (map fst rest)" using tree_invD(7) [OF inv j(1)] j(3) by (simp add: rest_def comp_def)
  moreover have mem: "(i, kind, name) \<in> set rest \<longleftrightarrow>
      (\<exists>k. child_of tree j k \<and> i = inode_at tree k \<and> rn_name (tr_nodes tree ! k) = name \<and> file_type (tr_nodes tree ! k) = kind)"
    for i kind name unfolding rest_def using kid at by force
  moreover have "safe_name name" if "(i, kind, name) \<in> set rest" for i kind name
    using that tree_invD(6) [OF inv] unfolding mem child_of_def by blast
  moreover have "(i, kind, name) \<in> set rest \<longleftrightarrow> node_lookup tree ino name = Some i \<and>
       (\<exists>child. node tree i = Some child \<and> file_type child = kind)" for i kind name
    unfolding mem look using at by fastforce
  ultimately show ?thesis by (intro exI [of _ rest]) auto
qed

lemma numbered_listing [simp]:
  "map (\<lambda>(inode, next, entry). (inode, entry)) (numbered listing) = listing"
  unfolding numbered_def
  by (rule nth_equalityI) (simp_all add: nth_enumerate_eq split_beta)

lemma served_tree_inv:
  assumes ops: "fetch_keeps_stream ops" and s: "s = transfer_run ops now max_entries max_chunk es" and tree: "with_tree g s = Some tree"
  shows "tree_inv tree"
proof -
  have "inodes_inv s" using transfer_run_inv [OF ops] s by (simp add: transfer_inv_def)
  then show ?thesis using tree unfolding inodes_inv_def with_tree_def selection_of_def
    by (auto split: if_splits dest: map_of_SomeD)
qed

lemma child_lookup:
  assumes inv: "tree_inv tree" and i: "i \<in> set (children tree ino)" and n: "node tree i = Some n"
  shows "node_lookup tree ino (rn_name n) = Some i"
proof -
  obtain p where p: "node tree ino = Some p" using i by (cases "node tree ino") (auto simp: children_def)
  obtain j where j: "j < length (tr_nodes tree)" "ino = inode_at tree j" "p = tr_nodes tree ! j"
    using p unfolding node_iff [OF tree_invD(1) [OF inv]] by blast
  obtain k where k: "child_of tree j k" "i = inode_at tree k"
    using i tree_invD(8) [OF inv j(1)] by (auto simp: children_def p j(3))
  then have "rn_name n = rn_name (tr_nodes tree ! k)" using n node_at [OF tree_invD(1) [OF inv]] by (simp add: child_of_def)
  then show ?thesis unfolding node_lookup_def tree_invD(5) [OF inv] using k j(2) unfolding child_of_def by metis
qed

text \<open>C0: a reader that starts at the beginning of a directory of a served selection, continues each page at the
  offset of the last entry it got and keeps reading gets \<open>.\<close> and \<open>..\<close>, then every child exactly once,
  whatever the sizes of its buffers: an entry is listed under a name exactly when looking the name up in the
  directory gives its inode, with the type its attributes carry, and no name is empty, \<open>.\<close>, \<open>..\<close> or contains a
  separator.\<close>

theorem directory_listed_once:
  assumes ops: "fetch_keeps_stream ops" and s: "s = transfer_run ops now max_entries max_chunk es"
    and tree: "with_tree g s = Some tree" and n: "node tree ino = Some n" and dir: "node_is_directory n"
    and rooms: "list_all (\<lambda>r. 0 < r) rooms" "length (children tree ino) + 2 \<le> sum_list rooms"
  shows "\<exists>rest. map (\<lambda>(inode, next, entry). (inode, entry)) (read_pages g ino rooms 0 s) =
      (ino, DirectoryType, ''.'') # (rn_parent n, DirectoryType, ''..'') # rest \<and>
    distinct (map fst rest) \<and>
    (\<forall>inode kind name. (inode, kind, name) \<in> set rest \<longleftrightarrow>
       node_lookup tree ino name = Some inode \<and> (\<exists>child. node tree inode = Some child \<and> file_type child = kind)) \<and>
    (\<forall>(inode, kind, name)\<in>set rest. safe_name name)"
proof -
  have inv: "tree_inv tree" using served_tree_inv [OF ops s tree] .
  obtain rest where rest: "dir_listing ino tree = Inr ((ino, DirectoryType, ''.'') # (rn_parent n, DirectoryType, ''..'') # rest)"
    "distinct (map fst rest)" "map fst rest = children tree ino"
    "\<And>inode kind name. (inode, kind, name) \<in> set rest \<longleftrightarrow> node_lookup tree ino name = Some inode \<and>
       (\<exists>child. node tree inode = Some child \<and> file_type child = kind)"
    "\<forall>(inode, kind, name)\<in>set rest. safe_name name"
    using listed_child [OF inv n dir] by blast
  have "length rest = length (children tree ino)" unfolding rest(3) [symmetric] by simp
  then have "read_pages g ino rooms 0 s = numbered ((ino, DirectoryType, ''.'') # (rn_parent n, DirectoryType, ''..'') # rest)"
    using pages_listing [OF tree rest(1) rooms(1), of 0] rooms(2) by simp
  then show ?thesis using rest(2,4,5) by (intro exI [of _ rest]) (simp add: numbered_listing)
qed

text \<open>The selection with one file \<open>a\<close>, read with a buffer of two entries and then of one.\<close>

theorem directory_listed_once_witness:
  "(2, RegularFile, ''a'') \<in> set (map (\<lambda>(inode, next, entry). (inode, entry)) (read_pages 2 1 [2, 1] 0 after_sharing))"
proof -
  note sh = shared_tree_nodes [of 2, simplified]
  have tree: "with_tree 2 after_sharing = Some (shared_tree 2)"
    by (simp add: with_tree_def selection_of_def after_sharing_fields)
  obtain n where n: "node (shared_tree 2) 1 = Some n" "rn_children n = [2]"
    using sh(1) by (auto simp: roots_def children_def root_inode_def split: option.splits)
  have inv: "tree_inv (shared_tree 2)" by (rule served_tree_inv [OF whole_fetch_keeps refl tree])
  have dir: "node_is_directory n" using tree_invD(3,4) [OF inv] n(1) by (simp add: node_def root_inode_def vec_get_def split: if_splits)
  have kids: "children (shared_tree 2) 1 = [2]" unfolding children_def n(1) by (simp add: n(2))
  obtain rest where rest: "map (\<lambda>(inode, next, entry). (inode, entry)) (read_pages 2 1 [2, 1] 0 after_sharing) =
      (1, DirectoryType, ''.'') # (rn_parent n, DirectoryType, ''..'') # rest"
    "\<forall>inode kind name. (inode, kind, name) \<in> set rest \<longleftrightarrow>
       node_lookup (shared_tree 2) 1 name = Some inode \<and> (\<exists>child. node (shared_tree 2) inode = Some child \<and> file_type child = kind)"
    using directory_listed_once [OF whole_fetch_keeps refl tree n(1) dir, of "[2, 1]"] kids by auto
  have "node_lookup (shared_tree 2) 1 ''a'' = Some 2" using child_lookup [OF inv _ sh(3)] kids by simp
  then show ?thesis unfolding rest(1) using rest(2) sh(3) by (simp add: file_type_def node_is_directory_def)
qed

end
