(* ===== verification/Keyboard.thy ===== *)
theory Keyboard
  imports Formats
begin

text \<open>
  Scancodes (\<open>input/keymap.rs\<close>) and the replica of the keyboard state (\<open>input/keyboard.rs\<close>). The XKB
  library belongs to another package: its keymaps and states are the type parameters \<open>'m\<close> and \<open>'x\<close>,
  its functions the record \<open>xkb_ops\<close>. The call \<open>xkb_state_update_latched_locked\<close> is looked up at run
  time; a library without it is the case \<open>None\<close>.
\<close>

section \<open>Scancodes\<close>

definition xt_extended_table :: "(nat \<times> nat) list" where
  "xt_extended_table =
     [(0x10, 165), (0x19, 163), (0x1C, 96), (0x1D, 97), (0x20, 113), (0x21, 140), (0x22, 164), (0x24, 166),
      (0x2E, 114), (0x30, 115), (0x32, 172), (0x35, 98), (0x37, 99), (0x38, 100), (0x46, 119), (0x47, 102),
      (0x48, 103), (0x49, 104), (0x4B, 105), (0x4D, 106), (0x4F, 107), (0x50, 108), (0x51, 109), (0x52, 110),
      (0x53, 111), (0x5B, 125), (0x5C, 126), (0x5D, 127), (0x65, 217), (0x66, 156), (0x6B, 157), (0x6C, 155)]"

definition xt_extended_to_evdev :: "nat \<Rightarrow> nat option" where
  "xt_extended_to_evdev code = map_of xt_extended_table code"

definition xt_to_evdev :: "nat \<Rightarrow> bool \<Rightarrow> nat option" where
  "xt_to_evdev code extended =
     (if \<not> extended \<and> (0x01 \<le> code \<and> code \<le> 0x53 \<or> 0x56 \<le> code \<and> code \<le> 0x58) then Some code
      else if \<not> extended \<and> code = 0x70 then Some 93
      else if \<not> extended \<and> code = 0x73 then Some 89
      else if \<not> extended \<and> code = 0x79 then Some 92
      else if \<not> extended \<and> code = 0x7B then Some 94
      else if \<not> extended \<and> code = 0x7D then Some 124
      else if \<not> extended \<and> code = 0x7E then Some 121
      else if extended then xt_extended_to_evdev code
      else None)"

section \<open>The keyboard library\<close>

record modifier_state =
  md_depressed :: nat
  md_latched :: nat
  md_locked :: nat
  md_group :: nat

record ('m, 'x) xkb_ops =
  xk_compile :: "byte list \<Rightarrow> 'm option"
  xk_state :: "'m \<Rightarrow> 'x"
  xk_update_key :: "nat \<Rightarrow> bool \<Rightarrow> 'x \<Rightarrow> 'x"
  xk_serialize :: "'x \<Rightarrow> modifier_state"
  xk_update_latched_locked :: "(nat \<Rightarrow> nat \<Rightarrow> bool \<Rightarrow> int \<Rightarrow> 'x \<Rightarrow> 'x) option"
  xk_min_keycode :: "'m \<Rightarrow> nat"
  xk_max_keycode :: "'m \<Rightarrow> nat"
  xk_layouts_for_key :: "'m \<Rightarrow> nat \<Rightarrow> nat"
  xk_levels_for_key :: "'m \<Rightarrow> nat \<Rightarrow> nat \<Rightarrow> nat"
  xk_syms :: "'m \<Rightarrow> nat \<Rightarrow> nat \<Rightarrow> nat \<Rightarrow> nat list"
  xk_to_utf32 :: "nat \<Rightarrow> nat"
  xk_num_layouts :: "'m \<Rightarrow> nat"
  xk_layout_name :: "'m \<Rightarrow> nat \<Rightarrow> string"
  xk_keymap_from_names :: "string \<Rightarrow> string \<Rightarrow> string option \<Rightarrow> 'm option"
  xk_keymap_string :: "'m \<Rightarrow> byte list"

definition xkb_keycode_offset :: nat where
  "xkb_keycode_offset = 8"

definition key_capslock :: nat where "key_capslock = 58"
definition key_numlock :: nat where "key_numlock = 69"
definition key_scrolllock :: nat where "key_scrolllock = 70"
definition key_katakanahiragana :: nat where "key_katakanahiragana = 93"

section \<open>Keymaps\<close>

record xkb_names =
  xn_layout :: "string option"
  xn_variant :: "string option"
  xn_options :: "string option"

definition xkb_names_is_empty :: "xkb_names \<Rightarrow> bool" where
  "xkb_names_is_empty n \<longleftrightarrow> xn_layout n = None \<and> xn_variant n = None \<and> xn_options n = None"

definition rdp_layout_table :: "(nat \<times> string) list" where
  "rdp_layout_table =
     [(0x0401, ''ara''), (0x0404, ''cn''), (0x0804, ''cn''), (0x0c04, ''cn''), (0x1004, ''cn''), (0x1404, ''cn''),
      (0x0405, ''cz''), (0x0406, ''dk''), (0x0407, ''de''), (0x0408, ''gr''), (0x0409, ''us''), (0x040a, ''es''),
      (0x0c0a, ''es''), (0x040b, ''fi''), (0x040c, ''fr''), (0x040d, ''il''), (0x040e, ''hu''), (0x0410, ''it''),
      (0x0411, ''jp''), (0x0412, ''kr''), (0x0413, ''nl''), (0x0414, ''no''), (0x0415, ''pl''), (0x0416, ''br''),
      (0x0419, ''ru''), (0x041d, ''se''), (0x041f, ''tr''), (0x0807, ''ch''), (0x0809, ''gb''), (0x0816, ''pt'')]"

definition xkb_names_for_rdp_keyboard_layout :: "nat \<Rightarrow> xkb_names option" where
  "xkb_names_for_rdp_keyboard_layout keyboard_layout =
     (case map_of rdp_layout_table (keyboard_layout mod 65536) of
        None \<Rightarrow> None
      | Some layout \<Rightarrow>
          Some \<lparr>xn_layout = Some layout,
                xn_variant = (if keyboard_layout = 0x00010405 then Some ''qwerty'' else None),
                xn_options = None\<rparr>)"

text \<open>\<open>String::from_utf8\<close> succeeds.\<close>

function utf8_valid :: "byte list \<Rightarrow> bool" where
  "utf8_valid [] \<longleftrightarrow> True"
| "utf8_valid (a # rest) \<longleftrightarrow> (let (n, valid) = utf8_prefix a rest in valid \<and> utf8_valid (drop (n - 1) rest))"
  by pat_completeness auto
termination
  by (relation "measure length") auto

definition compile_xkb_keymap :: "('m, 'x) xkb_ops \<Rightarrow> byte list \<Rightarrow> 'm option" where
  "compile_xkb_keymap xkb keymap_data = (if utf8_valid keymap_data then xk_compile xkb keymap_data else None)"

record unicode_mapping =
  um_evdev_key :: nat
  um_needs_shift :: bool

text \<open>The loop over keycodes, layouts, levels and symbols, and what one symbol adds to the map.\<close>

definition sym_positions :: "('m, 'x) xkb_ops \<Rightarrow> 'm \<Rightarrow> (nat \<times> nat \<times> nat) list" where
  "sym_positions xkb keymap =
     [(keycode, level, keysym).
        keycode \<leftarrow> [xk_min_keycode xkb keymap..<Suc (xk_max_keycode xkb keymap)],
        layout \<leftarrow> [0..<xk_layouts_for_key xkb keymap keycode],
        level \<leftarrow> [0..<xk_levels_for_key xkb keymap keycode layout],
        keysym \<leftarrow> xk_syms xkb keymap keycode layout level]"

definition add_sym :: "('m, 'x) xkb_ops \<Rightarrow> nat \<times> nat \<times> nat \<Rightarrow> (nat \<rightharpoonup> unicode_mapping) \<Rightarrow> (nat \<rightharpoonup> unicode_mapping)" where
  "add_sym xkb = (\<lambda>(keycode, level, keysym) map.
     let ch = xk_to_utf32 xkb keysym in
     if 0 < ch \<and> ch \<le> u16_max \<and> map ch = None
     then map(ch \<mapsto> \<lparr>um_evdev_key = u32_sub keycode xkb_keycode_offset, um_needs_shift = (level = 1)\<rparr>)
     else map)"

definition build_unicode_to_keycode :: "('m, 'x) xkb_ops \<Rightarrow> 'm \<Rightarrow> (nat \<rightharpoonup> unicode_mapping)" where
  "build_unicode_to_keycode xkb keymap = fold (add_sym xkb) (sym_positions xkb keymap) Map.empty"

definition build_layout_names :: "('m, 'x) xkb_ops \<Rightarrow> 'm \<Rightarrow> string list" where
  "build_layout_names xkb keymap = map (xk_layout_name xkb keymap) [0..<xk_num_layouts xkb keymap]"

definition locked_mask_for_key :: "('m, 'x) xkb_ops \<Rightarrow> 'm \<Rightarrow> nat \<Rightarrow> nat" where
  "locked_mask_for_key xkb keymap evdev_key =
     md_locked (xk_serialize xkb (xk_update_key xkb (evdev_key + xkb_keycode_offset) True (xk_state xkb keymap)))"

text \<open>A generated keymap ends in a NUL byte.\<close>

definition generate_xkb_keymap_from_names :: "('m, 'x) xkb_ops \<Rightarrow> xkb_names \<Rightarrow> byte list option" where
  "generate_xkb_keymap_from_names xkb names =
     (case xk_keymap_from_names xkb (case_option '''' (\<lambda>l. l) (xn_layout names)) (case_option '''' (\<lambda>v. v) (xn_variant names))
        (xn_options names) of
        None \<Rightarrow> None
      | Some keymap \<Rightarrow>
          (let data = xk_keymap_string xkb keymap in
           if data = [] then None
           else Some (if last data = 0 then data else data @ [0])))"

section \<open>The tracker\<close>

record 'x tracker =
  kt_unicode :: "nat \<rightharpoonup> unicode_mapping"
  kt_layout_names :: "string list"
  kt_state :: 'x
  kt_caps_mask :: nat
  kt_num_mask :: nat
  kt_scroll_mask :: nat
  kt_kana_mask :: nat

record lock_flags =
  lf_caps :: bool
  lf_num :: bool
  lf_scroll :: bool
  lf_kana :: bool

definition tracker_new :: "('m, 'x) xkb_ops \<Rightarrow> byte list \<Rightarrow> 'x tracker option" where
  "tracker_new xkb keymap_data = (case compile_xkb_keymap xkb keymap_data of
     None \<Rightarrow> None
   | Some keymap \<Rightarrow> Some
       \<lparr>kt_unicode = build_unicode_to_keycode xkb keymap,
        kt_layout_names = build_layout_names xkb keymap,
        kt_state = xk_state xkb keymap,
        kt_caps_mask = locked_mask_for_key xkb keymap key_capslock,
        kt_num_mask = locked_mask_for_key xkb keymap key_numlock,
        kt_scroll_mask = locked_mask_for_key xkb keymap key_scrolllock,
        kt_kana_mask = locked_mask_for_key xkb keymap key_katakanahiragana\<rparr>)"

definition unicode_to_evdev :: "'x tracker \<Rightarrow> nat \<Rightarrow> unicode_mapping option" where
  "unicode_to_evdev t code_point = kt_unicode t code_point"

fun position :: "('a \<Rightarrow> bool) \<Rightarrow> 'a list \<Rightarrow> nat option" where
  "position P [] = None"
| "position P (x # xs) = (if P x then Some 0 else map_option Suc (position P xs))"

definition layout_index_by_name :: "'x tracker \<Rightarrow> string \<Rightarrow> nat option" where
  "layout_index_by_name t name = position (\<lambda>layout. layout = name) (kt_layout_names t)"

definition modifiers_of :: "('m, 'x) xkb_ops \<Rightarrow> 'x tracker \<Rightarrow> modifier_state" where
  "modifiers_of xkb t = xk_serialize xkb (kt_state t)"

definition tracker_key :: "('m, 'x) xkb_ops \<Rightarrow> nat \<Rightarrow> bool \<Rightarrow> 'x tracker \<Rightarrow> bool \<times> 'x tracker" where
  "tracker_key xkb evdev_key pressed t =
     (let t' = t\<lparr>kt_state := xk_update_key xkb (evdev_key + xkb_keycode_offset) pressed (kt_state t)\<rparr>
      in (modifiers_of xkb t' \<noteq> modifiers_of xkb t, t'))"

definition apply_latched_locked :: "('m, 'x) xkb_ops \<Rightarrow> nat \<Rightarrow> nat \<Rightarrow> bool \<Rightarrow> int \<Rightarrow> 'x tracker \<Rightarrow> bool \<times> 'x tracker" where
  "apply_latched_locked xkb affect_mods mods affect_layout layout t = (case xk_update_latched_locked xkb of
     None \<Rightarrow> (False, t)
   | Some update \<Rightarrow>
       (let t' = t\<lparr>kt_state := update affect_mods mods affect_layout layout (kt_state t)\<rparr>
        in (modifiers_of xkb t' \<noteq> modifiers_of xkb t, t')))"

definition locked_mods_from_flags :: "'x tracker \<Rightarrow> lock_flags \<Rightarrow> nat" where
  "locked_mods_from_flags t flags =
     (let m0 = (0 :: nat);
          m1 = (if lf_caps flags then m0 OR kt_caps_mask t else m0);
          m2 = (if lf_num flags then m1 OR kt_num_mask t else m1);
          m3 = (if lf_scroll flags then m2 OR kt_scroll_mask t else m2)
      in if lf_kana flags then m3 OR kt_kana_mask t else m3)"

text \<open>The fallback presses and releases the key of every lock that differs from the client's view.\<close>

definition toggle_lock :: "('m, 'x) xkb_ops \<Rightarrow> nat \<Rightarrow> nat \<Rightarrow> nat \<times> nat \<Rightarrow> 'x tracker \<Rightarrow> 'x tracker" where
  "toggle_lock xkb before target = (\<lambda>(lock, key) t.
     if lock \<noteq> 0 \<and> (before XOR target) AND lock \<noteq> 0
     then snd (tracker_key xkb key False (snd (tracker_key xkb key True t)))
     else t)"

definition synchronize_locks :: "('m, 'x) xkb_ops \<Rightarrow> lock_flags \<Rightarrow> 'x tracker \<Rightarrow> bool \<times> 'x tracker" where
  "synchronize_locks xkb flags t =
     (let target = locked_mods_from_flags t flags in
      if xk_update_latched_locked xkb \<noteq> None
      then apply_latched_locked xkb (kt_caps_mask t OR kt_num_mask t OR kt_scroll_mask t OR kt_kana_mask t) target False 0 t
      else (let before = modifiers_of xkb t;
                t' = fold (toggle_lock xkb (md_locked before) target)
                       [(kt_caps_mask t, key_capslock), (kt_num_mask t, key_numlock),
                        (kt_scroll_mask t, key_scrolllock), (kt_kana_mask t, key_katakanahiragana)] t
            in (modifiers_of xkb t' \<noteq> before, t')))"

definition supports_locked_layout :: "('m, 'x) xkb_ops \<Rightarrow> bool" where
  "supports_locked_layout xkb \<longleftrightarrow> xk_update_latched_locked xkb \<noteq> None"

text \<open>\<open>group as i32\<close>; groups are list positions, far below the range of a signed integer.\<close>

definition set_locked_group :: "('m, 'x) xkb_ops \<Rightarrow> nat \<Rightarrow> 'x tracker \<Rightarrow> bool \<times> 'x tracker" where
  "set_locked_group xkb g t = apply_latched_locked xkb 0 0 True (i32_wrap (int g)) t"

section \<open>Properties\<close>

lemma xt_extended_values:
  assumes "xt_extended_to_evdev code = Some k"
  shows "(code, k) \<in> set xt_extended_table" and "96 \<le> k" and "k \<le> 217" and "k \<noteq> 121" and "k \<noteq> 124"
proof -
  show mem: "(code, k) \<in> set xt_extended_table" using assms by (simp add: xt_extended_to_evdev_def map_of_SomeD)
  have "list_all (\<lambda>(c, k). 96 \<le> k \<and> k \<le> 217 \<and> k \<noteq> 121 \<and> k \<noteq> 124) xt_extended_table"
    by (simp add: xt_extended_table_def)
  with mem show "96 \<le> k" "k \<le> 217" "k \<noteq> 121" "k \<noteq> 124" by (auto simp: list_all_iff)
qed

lemma xt_extended_injective:
  assumes "xt_extended_to_evdev c = Some k" and "xt_extended_to_evdev c' = Some k"
  shows "c = c'"
proof -
  have "distinct (map snd xt_extended_table)" by (simp add: xt_extended_table_def)
  then have "inj_on snd (set xt_extended_table)" by (simp only: distinct_map)
  from inj_onD [OF this _ xt_extended_values(1) [OF assms(1)] xt_extended_values(1) [OF assms(2)]] show ?thesis by simp
qed

text \<open>
  No two scancodes of a client type the same key: the translation to kernel key codes is injective,
  and a translated key is never the reserved code 0.\<close>

theorem scancodes_distinct:
  assumes "xt_to_evdev c e = Some k" and "xt_to_evdev c' e' = Some k"
  shows "c = c' \<and> e = e' \<and> 0 < k \<and> k \<le> 217"
proof (cases e)
  case True
  then have k: "xt_extended_to_evdev c = Some k" using assms(1) by (simp add: xt_to_evdev_def)
  note v = xt_extended_values [OF k]
  have e': "e'" using assms(2) v(2-5) by (auto simp: xt_to_evdev_def split: if_splits)
  then have "xt_extended_to_evdev c' = Some k" using assms(2) by (simp add: xt_to_evdev_def)
  with xt_extended_injective [OF k] True e' v show ?thesis by auto
next
  case False
  have e': "\<not> e'"
  proof
    assume "e'"
    then have "xt_extended_to_evdev c' = Some k" using assms(2) by (simp add: xt_to_evdev_def)
    from xt_extended_values [OF this] assms(1) False show False by (auto simp: xt_to_evdev_def split: if_splits)
  qed
  then show ?thesis using assms False by (auto simp: xt_to_evdev_def split: if_splits)
qed

theorem scancodes_distinct_witness: "xt_to_evdev 0x1D True = Some 97 \<and> 0 < (97 :: nat)"
proof -
  have "xt_to_evdev 0x1D True = Some 97" by (simp add: xt_to_evdev_def xt_extended_to_evdev_def xt_extended_table_def)
  with scancodes_distinct [OF this this] show ?thesis by blast
qed

section \<open>The Unicode map\<close>

lemma add_sym_keeps: "m c = Some u \<Longrightarrow> add_sym xkb p m c = Some u"
  by (cases p) (auto simp: add_sym_def Let_def)

lemma fold_add_sym_keeps: "m c = Some u \<Longrightarrow> fold (add_sym xkb) ps m c = Some u"
  by (induction ps arbitrary: m) (simp_all add: add_sym_keeps)

lemma fold_add_sym_sound:
  "fold (add_sym xkb) ps m c = Some u \<Longrightarrow> m c = Some u \<or> (\<exists>keycode level s. (keycode, level, s) \<in> set ps \<and> xk_to_utf32 xkb s = c \<and>
     0 < c \<and> c \<le> u16_max \<and> u = \<lparr>um_evdev_key = u32_sub keycode xkb_keycode_offset, um_needs_shift = (level = 1)\<rparr>)"
proof (induction ps arbitrary: m)
  case (Cons p ps)
  obtain keycode level s where p: "p = (keycode, level, s)" by (cases p)
  from Cons.IH [of "add_sym xkb p m"] Cons.prems show ?case
    by (auto simp: p add_sym_def Let_def split: if_splits)
qed simp

lemma fold_add_sym_complete:
  "(keycode, level, s) \<in> set ps \<Longrightarrow> xk_to_utf32 xkb s = c \<Longrightarrow> 0 < c \<Longrightarrow> c \<le> u16_max \<Longrightarrow> fold (add_sym xkb) ps m c \<noteq> None"
proof (induction ps arbitrary: m)
  case (Cons p ps)
  show ?case
  proof (cases "p = (keycode, level, s)")
    case True
    then have "add_sym xkb p m c \<noteq> None" using Cons.prems by (auto simp: add_sym_def Let_def)
    then show ?thesis using fold_add_sym_keeps by fastforce
  next
    case False
    then show ?thesis using Cons by simp
  qed
qed simp

text \<open>
  A character has a key exactly when some key, level and layout of the keymap types it, and the key
  chosen types that character, with Shift exactly on the second level.\<close>

theorem unicode_keys_type_their_character:
  assumes new: "tracker_new xkb keymap_data = Some t" and comp: "compile_xkb_keymap xkb keymap_data = Some keymap"
    and c: "0 < c" "c \<le> u16_max"
  shows "(unicode_to_evdev t c \<noteq> None \<longleftrightarrow> (\<exists>keycode level s. (keycode, level, s) \<in> set (sym_positions xkb keymap) \<and> xk_to_utf32 xkb s = c)) \<and>
    (\<forall>u. unicode_to_evdev t c = Some u \<longrightarrow> (\<exists>keycode level s. (keycode, level, s) \<in> set (sym_positions xkb keymap) \<and>
       xk_to_utf32 xkb s = c \<and> um_evdev_key u = u32_sub keycode xkb_keycode_offset \<and> (um_needs_shift u \<longleftrightarrow> level = 1)))"
proof -
  have t: "unicode_to_evdev t c = fold (add_sym xkb) (sym_positions xkb keymap) Map.empty c"
    using new comp by (auto simp: tracker_new_def unicode_to_evdev_def build_unicode_to_keycode_def)
  show ?thesis
    using fold_add_sym_sound [of xkb "sym_positions xkb keymap" Map.empty c]
      fold_add_sym_complete [of _ _ _ "sym_positions xkb keymap" xkb c Map.empty] c
    unfolding t by fastforce
qed

section \<open>Locks\<close>

text \<open>What the development relies on of the library: the direct update sets exactly the affected locks, and
  a press and release of a lock key toggles its lock.\<close>

definition updates_locks :: "('m, 'x) xkb_ops \<Rightarrow> bool" where
  "updates_locks xkb \<longleftrightarrow> (\<forall>update affect mods x n. xk_update_latched_locked xkb = Some update \<longrightarrow>
     bit (md_locked (xk_serialize xkb (update affect mods False 0 x))) n =
       (if bit affect n then bit mods n else bit (md_locked (xk_serialize xkb x)) n))"

definition toggles_lock :: "('m, 'x) xkb_ops \<Rightarrow> nat \<Rightarrow> nat \<Rightarrow> bool" where
  "toggles_lock xkb lm key \<longleftrightarrow> (\<forall>t. md_locked (modifiers_of xkb (snd (tracker_key xkb key False (snd (tracker_key xkb key True t))))) =
     md_locked (modifiers_of xkb t) XOR lm)"

definition lock_list :: "'x tracker \<Rightarrow> (nat \<times> nat) list" where
  "lock_list t = [(kt_caps_mask t, key_capslock), (kt_num_mask t, key_numlock), (kt_scroll_mask t, key_scrolllock),
     (kt_kana_mask t, key_katakanahiragana)]"

text \<open>Every lock is one bit, or none, and no two locks share one.\<close>

definition single_bits :: "nat list \<Rightarrow> bool" where
  "single_bits masks \<longleftrightarrow> (\<forall>m\<in>set masks. m = 0 \<or> (\<exists>i. m = 2 ^ i)) \<and> sorted_wrt (\<lambda>a b. a AND b = 0) masks"

lemma disjoint_bits: "(a :: nat) AND b = 0 \<Longrightarrow> bit a n \<Longrightarrow> \<not> bit b n"
  by (metis bit_0_eq bit_and_iff bot_apply bot_bool_def)

lemma bit_single: "bit ((2 :: nat) ^ i) n \<longleftrightarrow> n = i"
  by (auto simp: bit_exp_iff)

lemma and_single: "(a AND 2 ^ i) \<noteq> (0 :: nat) \<longleftrightarrow> bit a i"
proof -
  have "(a AND 2 ^ i) = (if bit a i then 2 ^ i else 0)"
    by (rule bit_eqI) (auto simp: bit_and_iff bit_single)
  then show ?thesis by simp
qed

lemma fold_toggle:
  assumes "\<And>lm key. (lm, key) \<in> set ls \<Longrightarrow> lm \<noteq> 0 \<Longrightarrow> toggles_lock xkb lm key" and "single_bits (map fst ls)"
  shows "bit (md_locked (modifiers_of xkb (fold (toggle_lock xkb before target) ls t))) n =
    (bit (md_locked (modifiers_of xkb t)) n \<noteq> ((\<exists>lm\<in>fst ` set ls. bit lm n) \<and> bit before n \<noteq> bit target n))"
  using assms
proof (induction ls arbitrary: t)
  case (Cons p ls)
  obtain lm key where p: "p = (lm, key)" by fastforce
  have IH: "bit (md_locked (modifiers_of xkb (fold (toggle_lock xkb before target) ls u))) n =
    (bit (md_locked (modifiers_of xkb u)) n \<noteq> ((\<exists>lm\<in>fst ` set ls. bit lm n) \<and> bit before n \<noteq> bit target n))" for u
    using Cons.prems by (intro Cons.IH) (auto simp: single_bits_def split: if_splits)
  show ?case
  proof (cases "lm = 0")
    case True
    then show ?thesis using IH by (simp add: p toggle_lock_def)
  next
    case False
    then obtain i where i: "lm = 2 ^ i" using Cons.prems(2) by (auto simp: p single_bits_def)
    have tog: "toggles_lock xkb lm key" using Cons.prems(1) False by (simp add: p)
    have step: "bit (md_locked (modifiers_of xkb (toggle_lock xkb before target p t))) n =
        (bit (md_locked (modifiers_of xkb t)) n \<noteq> (n = i \<and> bit before n \<noteq> bit target n))"
    proof (cases "bit before i = bit target i")
      case True
      then have "\<not> (before XOR target) AND lm \<noteq> 0" unfolding i and_single by (simp add: bit_xor_iff)
      then show ?thesis using True by (auto simp: p toggle_lock_def)
    next
      case ne: False
      then have "(before XOR target) AND lm \<noteq> 0" unfolding i and_single by (simp add: bit_xor_iff)
      then have "toggle_lock xkb before target p t = snd (tracker_key xkb key False (snd (tracker_key xkb key True t)))"
        using False by (simp add: p toggle_lock_def)
      then have "md_locked (modifiers_of xkb (toggle_lock xkb before target p t)) = md_locked (modifiers_of xkb t) XOR lm"
        using tog by (simp add: toggles_lock_def)
      then show ?thesis using ne by (auto simp: i bit_xor_iff bit_single)
    qed
    have "\<not> (\<exists>m\<in>fst ` set ls. bit m n)" if ni: "n = i"
    proof
      assume "\<exists>m\<in>fst ` set ls. bit m n"
      then obtain m where m: "m \<in> fst ` set ls" "bit m i" using ni by blast
      have "sorted_wrt (\<lambda>a b. a AND b = 0) (map fst (p # ls))" using Cons.prems(2) unfolding single_bits_def by (rule conjunct2)
      then have "lm AND m = 0" using m(1) by (auto simp: p)
      from disjoint_bits [OF this, of i] m(2) show False by (simp add: i bit_single)
    qed
    moreover have "(\<exists>lm\<in>fst ` set (p # ls). bit lm n) \<longleftrightarrow> n = i \<or> (\<exists>lm\<in>fst ` set ls. bit lm n)"
      by (auto simp: p i bit_single)
    ultimately show ?thesis using IH [of "toggle_lock xkb before target p t"] step unfolding fold_simps comp_apply by argo
  qed
qed simp

lemma bit_locked_mods: "bit (locked_mods_from_flags t flags) n \<longleftrightarrow>
    (lf_caps flags \<and> bit (kt_caps_mask t) n) \<or> (lf_num flags \<and> bit (kt_num_mask t) n) \<or>
    (lf_scroll flags \<and> bit (kt_scroll_mask t) n) \<or> (lf_kana flags \<and> bit (kt_kana_mask t) n)"
  by (auto simp: locked_mods_from_flags_def Let_def bit_simps)

text \<open>
  Synchronising the locks gives the client's view on every lock the keymap has and leaves every other
  locked modifier alone, with the direct update of a recent library as with the key presses that
  stand in for it.\<close>

theorem locks_follow_client:
  assumes "updates_locks xkb" and "\<And>lm key. (lm, key) \<in> set (lock_list t) \<Longrightarrow> lm \<noteq> 0 \<Longrightarrow> toggles_lock xkb lm key"
    and "single_bits (map fst (lock_list t))" and "synchronize_locks xkb flags t = (changed, t')"
  shows "bit (md_locked (modifiers_of xkb t')) n =
    (if bit (kt_caps_mask t) n then lf_caps flags else if bit (kt_num_mask t) n then lf_num flags
     else if bit (kt_scroll_mask t) n then lf_scroll flags else if bit (kt_kana_mask t) n then lf_kana flags
     else bit (md_locked (modifiers_of xkb t)) n)"
proof -
  have apart: "kt_caps_mask t AND kt_num_mask t = 0" "kt_caps_mask t AND kt_scroll_mask t = 0" "kt_caps_mask t AND kt_kana_mask t = 0"
    "kt_num_mask t AND kt_scroll_mask t = 0" "kt_num_mask t AND kt_kana_mask t = 0" "kt_scroll_mask t AND kt_kana_mask t = 0"
    using assms(3) by (simp_all add: single_bits_def lock_list_def)
  let ?target = "locked_mods_from_flags t flags"
  let ?any = "bit (kt_caps_mask t) n \<or> bit (kt_num_mask t) n \<or> bit (kt_scroll_mask t) n \<or> bit (kt_kana_mask t) n"
  have "bit (md_locked (modifiers_of xkb t')) n = (if ?any then bit ?target n else bit (md_locked (modifiers_of xkb t)) n)"
  proof (cases "xk_update_latched_locked xkb")
    case None
    have t': "t' = fold (toggle_lock xkb (md_locked (modifiers_of xkb t)) ?target) (lock_list t) t"
      using assms(4) None by (simp add: synchronize_locks_def Let_def lock_list_def)
    have "(\<exists>lm\<in>fst ` set (lock_list t). bit lm n) \<longleftrightarrow> ?any" by (auto simp: lock_list_def)
    then show ?thesis unfolding t' using fold_toggle [OF assms(2,3)] by auto
  next
    case (Some update)
    let ?affect = "kt_caps_mask t OR kt_num_mask t OR kt_scroll_mask t OR kt_kana_mask t"
    have "modifiers_of xkb t' = xk_serialize xkb (update ?affect ?target False 0 (kt_state t))"
      using assms(4) Some by (auto simp: synchronize_locks_def Let_def apply_latched_locked_def modifiers_of_def)
    moreover have "bit ?affect n \<longleftrightarrow> ?any" by (auto simp: bit_or_iff)
    ultimately show ?thesis using assms(1) Some by (simp add: updates_locks_def modifiers_of_def)
  qed
  moreover have "bit ?target n = (if bit (kt_caps_mask t) n then lf_caps flags else if bit (kt_num_mask t) n then lf_num flags
     else if bit (kt_scroll_mask t) n then lf_scroll flags else lf_kana flags)" if ?any
    unfolding bit_locked_mods using that apart [THEN disjoint_bits, of n] by auto
  ultimately show ?thesis by auto
qed


text \<open>A small keyboard for the examples: one letter key, two lock keys, no direct update of locks.\<close>

definition tiny_toggle :: "nat \<Rightarrow> nat" where
  "tiny_toggle keycode = (if keycode = 66 then 2 else if keycode = 77 then 16 else 0)"

definition tiny_xkb :: "(unit, nat) xkb_ops" where
  "tiny_xkb =
     \<lparr>xk_compile = \<lambda>_. Some (), xk_state = \<lambda>_. 0,
      xk_update_key = \<lambda>keycode pressed x. if pressed then x XOR tiny_toggle keycode else x,
      xk_serialize = \<lambda>x. \<lparr>md_depressed = 0, md_latched = 0, md_locked = x, md_group = 0\<rparr>,
      xk_update_latched_locked = None, xk_min_keycode = \<lambda>_. 38, xk_max_keycode = \<lambda>_. 38,
      xk_layouts_for_key = \<lambda>_ _. 1, xk_levels_for_key = \<lambda>_ _ _. 2,
      xk_syms = \<lambda>_ _ _ level. if level = 0 then [97] else [65], xk_to_utf32 = \<lambda>s. s,
      xk_num_layouts = \<lambda>_. 1, xk_layout_name = \<lambda>_ _. ''English'', xk_keymap_from_names = \<lambda>_ _ _. Some (), xk_keymap_string = \<lambda>_. [1]\<rparr>"

definition tiny_tracker :: "nat tracker" where
  "tiny_tracker = \<lparr>kt_unicode = [97 \<mapsto> \<lparr>um_evdev_key = 30, um_needs_shift = False\<rparr>, 65 \<mapsto> \<lparr>um_evdev_key = 30, um_needs_shift = True\<rparr>],
     kt_layout_names = [''English''], kt_state = 0, kt_caps_mask = 2, kt_num_mask = 16, kt_scroll_mask = 0, kt_kana_mask = 0\<rparr>"

lemma tiny_positions: "sym_positions tiny_xkb () = [(38, 0, 97), (38, 1, 65)]"
  by (simp add: sym_positions_def tiny_xkb_def upt_rec)

lemma tiny_fields:
  "compile_xkb_keymap tiny_xkb [] = Some ()" "xk_to_utf32 tiny_xkb s = s" "xk_num_layouts tiny_xkb () = 1"
  "xk_layout_name tiny_xkb () n = ''English''" "xk_state tiny_xkb () = 0"
  "xk_update_key tiny_xkb k pressed x = (if pressed then x XOR tiny_toggle k else x)" "md_locked (xk_serialize tiny_xkb x) = x"
  by (simp_all add: tiny_xkb_def compile_xkb_keymap_def)

lemma tiny_tracker_new: "tracker_new tiny_xkb [] = Some tiny_tracker"
  by (simp add: tracker_new_def tiny_fields build_unicode_to_keycode_def tiny_positions build_layout_names_def
      locked_mask_for_key_def key_capslock_def key_numlock_def key_scrolllock_def key_katakanahiragana_def
      tiny_tracker_def xkb_keycode_offset_def u32_sub_def add_sym_def Let_def upt_rec tiny_toggle_def)

theorem unicode_keys_type_their_character_witness: "unicode_to_evdev tiny_tracker 65 \<noteq> None"
proof -
  from unicode_keys_type_their_character [OF tiny_tracker_new tiny_fields(1), of 65] show ?thesis
    by (auto simp: tiny_positions) (simp add: tiny_xkb_def)
qed

theorem locks_follow_client_witness:
  "bit (md_locked (modifiers_of tiny_xkb (snd (synchronize_locks tiny_xkb \<lparr>lf_caps = True, lf_num = False, lf_scroll = False, lf_kana = False\<rparr> tiny_tracker)))) 1"
proof -
  have upd: "updates_locks tiny_xkb" by (simp add: updates_locks_def tiny_xkb_def)
  have tog: "toggles_lock tiny_xkb lm key" if "(lm, key) \<in> set (lock_list tiny_tracker)" "lm \<noteq> 0" for lm key
    using that by (auto simp: lock_list_def tiny_tracker_def toggles_lock_def tracker_key_def modifiers_of_def tiny_xkb_def
        tiny_toggle_def key_capslock_def key_numlock_def xkb_keycode_offset_def Let_def)
  have "single_bits (map fst (lock_list tiny_tracker))"
    unfolding single_bits_def lock_list_def tiny_tracker_def
    by (auto intro: exI [of _ 1] exI [of _ 4])
  moreover obtain changed t' where run: "synchronize_locks tiny_xkb \<lparr>lf_caps = True, lf_num = False, lf_scroll = False, lf_kana = False\<rparr> tiny_tracker = (changed, t')"
    by fastforce
  ultimately have "bit (md_locked (modifiers_of tiny_xkb t')) 1 = (if bit (kt_caps_mask tiny_tracker) 1 then True else
      if bit (kt_num_mask tiny_tracker) 1 then False else if bit (kt_scroll_mask tiny_tracker) 1 then False
      else if bit (kt_kana_mask tiny_tracker) 1 then False else bit (md_locked (modifiers_of tiny_xkb tiny_tracker)) 1)"
    using locks_follow_client [OF upd _ _ run, where n = 1] tog by simp
  moreover have "bit (kt_caps_mask tiny_tracker) 1" using bit_single [of 1 1] by (simp add: tiny_tracker_def)
  ultimately show ?thesis using run by simp
qed

end
