(* ===== verification/InputActor.thy ===== *)
theory InputActor
  imports Keyboard
begin

text \<open>
  The input actor (\<open>input/actor.rs\<close>): the thread that owns the keyboard replica, the keys a client
  holds and the virtual device. Its backend is the list of the requests made so far; whether the
  device accepts a keymap is an input of the command. A mouse event is passed on untouched and its
  contents belong to another package (the type \<open>'e\<close>).
\<close>

section \<open>State\<close>

definition left_shift_key :: nat where
  "left_shift_key = 42"

definition is_modifier :: "nat \<Rightarrow> bool" where
  "is_modifier evdev_key \<longleftrightarrow> evdev_key \<in> {29, left_shift_key, 54, 56, 97, 100, 125, 126}"

record depressed_keys =
  dk_plain :: "nat list"
  dk_modifiers :: "nat list"
  dk_shift_owners :: "nat list"

definition no_keys :: depressed_keys where
  "no_keys = \<lparr>dk_plain = [], dk_modifiers = [], dk_shift_owners = []\<rparr>"

datatype 'e request =
    SendKey nat nat bool
  | SendModifiers modifier_state
  | SendKeymap "byte list" bool
  | SendMouse nat 'e
  | Flush

record ('x, 'e) actor =
  ac_tracker :: "'x tracker"
  ac_keymap :: "byte list"
  ac_depressed :: depressed_keys
  ac_requests :: "'e request list"

datatype keyboard_event =
    Pressed nat bool
  | Released nat bool
  | Synchronize lock_flags
  | UnicodePressed nat
  | UnicodeReleased nat

record layout_candidates =
  lc_main :: "(string \<times> string) option"
  lc_others :: "(string \<times> string) list"

datatype 'e input_command =
    KeyboardCommand keyboard_event
  | MouseCommand 'e
  | ReleaseHeldKeys
  | ApplyKeymap "byte list"
  | SetLockedLayout string bool
  | SetInitialLayout layout_candidates

section \<open>The keys a client holds\<close>

definition keys_is_empty :: "depressed_keys \<Rightarrow> bool" where
  "keys_is_empty d \<longleftrightarrow> dk_plain d = [] \<and> dk_modifiers d = [] \<and> dk_shift_owners d = []"

definition holds_modifier :: "nat \<Rightarrow> depressed_keys \<Rightarrow> bool" where
  "holds_modifier evdev_key d \<longleftrightarrow> evdev_key \<in> set (dk_modifiers d)"

definition press_unicode_shift :: "nat \<Rightarrow> depressed_keys \<Rightarrow> depressed_keys" where
  "press_unicode_shift code_point d =
     (if code_point \<in> set (dk_shift_owners d) then d
      else d\<lparr>dk_shift_owners := dk_shift_owners d @ [code_point]\<rparr>)"

definition release_unicode_shift :: "nat \<Rightarrow> depressed_keys \<Rightarrow> bool \<times> depressed_keys" where
  "release_unicode_shift code_point d =
     (let owners = filter (\<lambda>owner. owner \<noteq> code_point) (dk_shift_owners d)
      in (length owners \<noteq> length (dk_shift_owners d), d\<lparr>dk_shift_owners := owners\<rparr>))"

definition push_new :: "nat \<Rightarrow> nat list \<Rightarrow> nat list" where
  "push_new k keys = (if k \<in> set keys then keys else keys @ [k])"

definition press_key :: "nat \<Rightarrow> bool \<Rightarrow> depressed_keys \<Rightarrow> depressed_keys" where
  "press_key evdev_key modifier d =
     (if modifier then d\<lparr>dk_modifiers := push_new evdev_key (dk_modifiers d)\<rparr>
      else d\<lparr>dk_plain := push_new evdev_key (dk_plain d)\<rparr>)"

definition release_key :: "nat \<Rightarrow> bool \<Rightarrow> depressed_keys \<Rightarrow> depressed_keys" where
  "release_key evdev_key modifier d =
     (if modifier then d\<lparr>dk_modifiers := filter (\<lambda>key. key \<noteq> evdev_key) (dk_modifiers d)\<rparr>
      else d\<lparr>dk_plain := filter (\<lambda>key. key \<noteq> evdev_key) (dk_plain d)\<rparr>)"

definition release_all :: "depressed_keys \<Rightarrow> nat list \<times> depressed_keys" where
  "release_all d = (rev (dk_plain d) @ rev (dk_modifiers d), d\<lparr>dk_plain := [], dk_modifiers := []\<rparr>)"

section \<open>Requests to the device\<close>

definition request :: "'e request \<Rightarrow> ('x, 'e) actor \<Rightarrow> ('x, 'e) actor" where
  "request r s = s\<lparr>ac_requests := ac_requests s @ [r]\<rparr>"

definition announce :: "('m, 'x) xkb_ops \<Rightarrow> ('x, 'e) actor \<Rightarrow> ('x, 'e) actor" where
  "announce xkb s = request (SendModifiers (modifiers_of xkb (ac_tracker s))) s"

definition set_depressed :: "depressed_keys \<Rightarrow> ('x, 'e) actor \<Rightarrow> ('x, 'e) actor" where
  "set_depressed d s = s\<lparr>ac_depressed := d\<rparr>"

definition feed_key :: "('m, 'x) xkb_ops \<Rightarrow> nat \<Rightarrow> bool \<Rightarrow> ('x, 'e) actor \<Rightarrow> bool \<times> ('x, 'e) actor" where
  "feed_key xkb evdev_key pressed s =
     (let (changed, t) = tracker_key xkb evdev_key pressed (ac_tracker s) in (changed, s\<lparr>ac_tracker := t\<rparr>))"

text \<open>\<open>sink.key\<close>, then the replica, then the modifiers when they changed.\<close>

definition send_key :: "('m, 'x) xkb_ops \<Rightarrow> nat \<Rightarrow> nat \<Rightarrow> bool \<Rightarrow> ('x, 'e) actor \<Rightarrow> ('x, 'e) actor" where
  "send_key xkb t evdev_key pressed s =
     (let (changed, s1) = feed_key xkb evdev_key pressed (request (SendKey t evdev_key pressed) s)
      in if changed then announce xkb s1 else s1)"

definition release_one :: "('m, 'x) xkb_ops \<Rightarrow> nat \<Rightarrow> nat \<Rightarrow> ('x, 'e) actor \<Rightarrow> ('x, 'e) actor" where
  "release_one xkb t evdev_key s = snd (feed_key xkb evdev_key False (request (SendKey t evdev_key False) s))"

definition release_depressed :: "('m, 'x) xkb_ops \<Rightarrow> nat \<Rightarrow> ('x, 'e) actor \<Rightarrow> ('x, 'e) actor" where
  "release_depressed xkb t s =
     (let d = ac_depressed s;
          unicode_shift_only = dk_shift_owners d \<noteq> [] \<and> \<not> holds_modifier left_shift_key d;
          (keys, d1) = release_all d;
          s1 = fold (release_one xkb t) keys (set_depressed d1 s);
          s2 = (if unicode_shift_only then release_one xkb t left_shift_key s1 else s1)
      in set_depressed (d1\<lparr>dk_shift_owners := []\<rparr>) s2)"

definition release_held_keys :: "('m, 'x) xkb_ops \<Rightarrow> nat \<Rightarrow> ('x, 'e) actor \<Rightarrow> ('x, 'e) actor" where
  "release_held_keys xkb t s =
     (if keys_is_empty (ac_depressed s) then s
      else request Flush (announce xkb (release_depressed xkb t s)))"

section \<open>Keyboard events\<close>

fun handle_rdp_event :: "('m, 'x) xkb_ops \<Rightarrow> nat \<Rightarrow> keyboard_event \<Rightarrow> ('x, 'e) actor \<Rightarrow> ('x, 'e) actor" where
  "handle_rdp_event xkb t (Pressed code extended) s = (case xt_to_evdev code extended of
     None \<Rightarrow> s
   | Some evdev_key \<Rightarrow>
       (let modifier = is_modifier evdev_key in
        if modifier \<and> holds_modifier evdev_key (ac_depressed s) then s
        else (let already_active = evdev_key = left_shift_key \<and> dk_shift_owners (ac_depressed s) \<noteq> [];
                  s1 = set_depressed (press_key evdev_key modifier (ac_depressed s)) s
              in if already_active then s1 else request Flush (send_key xkb t evdev_key True s1))))"
| "handle_rdp_event xkb t (Released code extended) s = (case xt_to_evdev code extended of
     None \<Rightarrow> s
   | Some evdev_key \<Rightarrow>
       (let modifier = is_modifier evdev_key in
        if modifier \<and> \<not> holds_modifier evdev_key (ac_depressed s) then s
        else (let s1 = set_depressed (release_key evdev_key modifier (ac_depressed s)) s
              in if evdev_key = left_shift_key \<and> dk_shift_owners (ac_depressed s1) \<noteq> [] then s1
                 else request Flush (send_key xkb t evdev_key False s1))))"
| "handle_rdp_event xkb t (Synchronize flags) s =
     (let s1 = release_depressed xkb t s
      in request Flush (announce xkb (s1\<lparr>ac_tracker := snd (synchronize_locks xkb flags (ac_tracker s1))\<rparr>)))"
| "handle_rdp_event xkb t (UnicodePressed code_point) s = (case unicode_to_evdev (ac_tracker s) code_point of
     None \<Rightarrow> s
   | Some mapping \<Rightarrow>
       (let s1 = (if um_needs_shift mapping
                  then (let d = ac_depressed s;
                            shift_already_active = holds_modifier left_shift_key d \<or> dk_shift_owners d \<noteq> [];
                            s' = set_depressed (press_unicode_shift code_point d) s
                        in if shift_already_active then s' else send_key xkb t left_shift_key True s')
                  else s);
            s2 = request (SendKey t (um_evdev_key mapping) True) s1
        in request Flush (set_depressed (press_key (um_evdev_key mapping) False (ac_depressed s2)) s2)))"
| "handle_rdp_event xkb t (UnicodeReleased code_point) s = (case unicode_to_evdev (ac_tracker s) code_point of
     None \<Rightarrow> s
   | Some mapping \<Rightarrow>
       (let s1 = request (SendKey t (um_evdev_key mapping) False) s;
            s2 = set_depressed (release_key (um_evdev_key mapping) False (ac_depressed s1)) s1
        in if \<not> um_needs_shift mapping then request Flush s2
           else (let (owned, d) = release_unicode_shift code_point (ac_depressed s2);
                     s3 = set_depressed d s2
                 in request Flush
                      (if owned \<and> dk_shift_owners d = [] \<and> \<not> holds_modifier left_shift_key d
                       then send_key xkb t left_shift_key False s3 else s3))))"

section \<open>Layouts\<close>

definition pick_initial_layout :: "'x tracker \<Rightarrow> layout_candidates \<Rightarrow> (string \<times> nat) option" where
  "pick_initial_layout tracker candidates =
     (case Option.bind (lc_main candidates)
             (\<lambda>(device, layout). map_option (Pair device) (layout_index_by_name tracker layout)) of
        Some found \<Rightarrow> Some found
      | None \<Rightarrow>
          (let resolved = filter_map (\<lambda>(device, layout). map_option (Pair device) (layout_index_by_name tracker layout))
                 (lc_others candidates)
           in case find (\<lambda>(_, g). g \<noteq> 0) resolved of
                Some found \<Rightarrow> Some found
              | None \<Rightarrow> (case resolved of [] \<Rightarrow> None | first # _ \<Rightarrow> Some first)))"

definition handle_own_layout_event :: "('m, 'x) xkb_ops \<Rightarrow> bool \<Rightarrow> string \<Rightarrow> ('x, 'e) actor \<Rightarrow> ('x, 'e) actor" where
  "handle_own_layout_event xkb accepts layout_name s =
     (let replica_group = md_group (modifiers_of xkb (ac_tracker s)) in
      case layout_index_by_name (ac_tracker s) layout_name of
        Some g \<Rightarrow> if g = replica_group then s else request Flush (announce xkb s)
      | None \<Rightarrow>
          (let s1 = request (SendKeymap (ac_keymap s) accepts) s
           in request Flush (if accepts then announce xkb s1 else s1)))"

definition lock_group :: "('m, 'x) xkb_ops \<Rightarrow> nat \<Rightarrow> ('x, 'e) actor \<Rightarrow> ('x, 'e) actor" where
  "lock_group xkb g s =
     (let (changed, t) = set_locked_group xkb g (ac_tracker s); s1 = s\<lparr>ac_tracker := t\<rparr>
      in if changed then request Flush (announce xkb s1) else s1)"

section \<open>Commands\<close>

fun handle_command :: "('m, 'x) xkb_ops \<Rightarrow> nat \<Rightarrow> bool \<Rightarrow> 'e input_command \<Rightarrow> ('x, 'e) actor \<Rightarrow> ('x, 'e) actor" where
  "handle_command xkb t accepts ReleaseHeldKeys s = release_held_keys xkb t s"
| "handle_command xkb t accepts (KeyboardCommand event) s = handle_rdp_event xkb t event s"
| "handle_command xkb t accepts (MouseCommand event) s = request (SendMouse t event) s"
| "handle_command xkb t accepts (ApplyKeymap new_keymap) s = (case tracker_new xkb new_keymap of
     None \<Rightarrow> s
   | Some new_tracker \<Rightarrow>
       (let s1 = request (SendKeymap new_keymap accepts) s
        in if \<not> accepts then s1
           else (let s2 = release_depressed xkb t s1
                 in request Flush (announce xkb (s2\<lparr>ac_tracker := new_tracker, ac_keymap := new_keymap\<rparr>)))))"
| "handle_command xkb t accepts (SetLockedLayout layout_name from_own_keyboard) s =
     (if from_own_keyboard then handle_own_layout_event xkb accepts layout_name s
      else (case layout_index_by_name (ac_tracker s) layout_name of
          None \<Rightarrow> s
        | Some g \<Rightarrow> lock_group xkb g s))"
| "handle_command xkb t accepts (SetInitialLayout candidates) s =
     (case pick_initial_layout (ac_tracker s) candidates of
        None \<Rightarrow> s
      | Some (_, g) \<Rightarrow> lock_group xkb g s)"

text \<open>
  The start of the actor, and its whole run: the commands in order, each with its time and whether
  the device accepts a keymap, then the release at shutdown. It does not start when the first keymap
  does not compile or is refused.
\<close>

definition actor_start :: "('m, 'x) xkb_ops \<Rightarrow> byte list \<Rightarrow> bool \<Rightarrow> ('x, 'e) actor option" where
  "actor_start xkb initial_keymap accepts = (case tracker_new xkb initial_keymap of
     None \<Rightarrow> None
   | Some tracker \<Rightarrow>
       (let s = \<lparr>ac_tracker = tracker, ac_keymap = initial_keymap, ac_depressed = no_keys,
                 ac_requests = [SendKeymap initial_keymap accepts]\<rparr>
        in if accepts then Some (request Flush (announce xkb s)) else None))"

definition actor_step :: "('m, 'x) xkb_ops \<Rightarrow> ('x, 'e) actor \<Rightarrow> nat \<times> bool \<times> 'e input_command \<Rightarrow> ('x, 'e) actor" where
  "actor_step xkb s = (\<lambda>(t, accepts, command). handle_command xkb t accepts command s)"

definition run_input_actor :: "('m, 'x) xkb_ops \<Rightarrow> byte list \<Rightarrow> bool \<Rightarrow> (nat \<times> bool \<times> 'e input_command) list \<Rightarrow> nat
    \<Rightarrow> ('x, 'e) actor option" where
  "run_input_actor xkb initial_keymap accepts commands shutdown_time =
     map_option (\<lambda>s. release_held_keys xkb shutdown_time (run_events (actor_step xkb) s commands))
       (actor_start xkb initial_keymap accepts)"

section \<open>The device\<close>

text \<open>What the device holds after the requests: its pressed keys, its modifiers and its keymap.\<close>

record device =
  dv_held :: "nat set"
  dv_modifiers :: "modifier_state option"
  dv_keymap :: "byte list option"

fun device_act :: "'e request \<Rightarrow> device \<Rightarrow> device" where
  "device_act (SendKey t k True) d = d\<lparr>dv_held := insert k (dv_held d)\<rparr>"
| "device_act (SendKey t k False) d = d\<lparr>dv_held := dv_held d - {k}\<rparr>"
| "device_act (SendModifiers m) d = d\<lparr>dv_modifiers := Some m\<rparr>"
| "device_act (SendKeymap data accepted) d = (if accepted then d\<lparr>dv_keymap := Some data\<rparr> else d)"
| "device_act (SendMouse t e) d = d"
| "device_act Flush d = d"

definition device_of :: "('x, 'e) actor \<Rightarrow> device" where
  "device_of s = fold device_act (ac_requests s) \<lparr>dv_held = {}, dv_modifiers = None, dv_keymap = None\<rparr>"

lemma device_request [simp]: "device_of (request r s) = device_act r (device_of s)"
  by (simp add: device_of_def request_def)

lemma request_fields [simp]:
  "ac_tracker (request r s) = ac_tracker s" "ac_keymap (request r s) = ac_keymap s" "ac_depressed (request r s) = ac_depressed s"
  by (simp_all add: request_def)

lemma set_depressed_fields [simp]:
  "ac_tracker (set_depressed d s) = ac_tracker s" "ac_keymap (set_depressed d s) = ac_keymap s"
  "ac_depressed (set_depressed d s) = d" "device_of (set_depressed d s) = device_of s"
  by (simp_all add: set_depressed_def device_of_def)

lemma announce_fields [simp]:
  "ac_tracker (announce xkb s) = ac_tracker s" "ac_keymap (announce xkb s) = ac_keymap s" "ac_depressed (announce xkb s) = ac_depressed s"
  "dv_held (device_of (announce xkb s)) = dv_held (device_of s)" "dv_keymap (device_of (announce xkb s)) = dv_keymap (device_of s)"
  "dv_modifiers (device_of (announce xkb s)) = Some (modifiers_of xkb (ac_tracker s))"
  by (simp_all add: announce_def)

text \<open>The parts of the state every key request leaves alone.\<close>

definition same_client :: "('x, 'e) actor \<Rightarrow> ('x, 'e) actor \<Rightarrow> bool" where
  "same_client s s' \<longleftrightarrow> ac_keymap s' = ac_keymap s \<and> ac_depressed s' = ac_depressed s \<and>
     kt_unicode (ac_tracker s') = kt_unicode (ac_tracker s) \<and> dv_keymap (device_of s') = dv_keymap (device_of s)"

definition announced :: "('m, 'x) xkb_ops \<Rightarrow> ('x, 'e) actor \<Rightarrow> bool" where
  "announced xkb s \<longleftrightarrow> dv_modifiers (device_of s) = Some (modifiers_of xkb (ac_tracker s))"

lemma tracker_key_fields:
  assumes "tracker_key xkb k pressed t = (changed, t')"
  shows "kt_unicode t' = kt_unicode t" and "changed \<longleftrightarrow> modifiers_of xkb t' \<noteq> modifiers_of xkb t"
  using assms by (auto simp: tracker_key_def Let_def)

lemma feed_key_fields:
  assumes "feed_key xkb k pressed s = (changed, s')"
  shows "same_client s s'" and "device_of s' = device_of s"
    and "changed \<longleftrightarrow> modifiers_of xkb (ac_tracker s') \<noteq> modifiers_of xkb (ac_tracker s)"
  using assms tracker_key_fields [of xkb k pressed "ac_tracker s"]
  by (auto simp: feed_key_def same_client_def device_of_def split: prod.splits)

lemma send_key_spec:
  "same_client s (send_key xkb t k pressed s)"
  "dv_held (device_of (send_key xkb t k pressed s)) = dv_held (device_act (SendKey t k pressed :: 'e request) (device_of s))"
  "announced xkb s \<Longrightarrow> announced xkb (send_key xkb t k pressed (s :: ('x, 'e) actor))"
proof -
  let ?r = "request (SendKey t k pressed) s"
  obtain changed s1 where feed: "feed_key xkb k pressed ?r = (changed, s1)" by fastforce
  note f = feed_key_fields [OF feed]
  have run: "send_key xkb t k pressed s = (if changed then announce xkb s1 else s1)" by (simp add: send_key_def feed)
  have dev: "dv_keymap (device_act (SendKey t k pressed :: 'e request) d) = dv_keymap d"
    "dv_modifiers (device_act (SendKey t k pressed :: 'e request) d) = dv_modifiers d" for d
    by (cases pressed; simp)+
  show "same_client s (send_key xkb t k pressed s)"
    using f(1) by (simp add: run same_client_def dev)
  show "dv_held (device_of (send_key xkb t k pressed s)) = dv_held (device_act (SendKey t k pressed :: 'e request) (device_of s))"
    using f(2) by (simp add: run)
  show "announced xkb s \<Longrightarrow> announced xkb (send_key xkb t k pressed s)"
    using f(2,3) by (simp add: run announced_def dev)
qed

lemma send_key_held:
  "dv_held (device_of (send_key xkb t k True s)) = insert k (dv_held (device_of s))"
  "dv_held (device_of (send_key xkb t k False s)) = dv_held (device_of s) - {k}"
  by (simp_all add: send_key_spec(2))

lemma release_one_spec:
  "same_client s (release_one xkb t k s)" "dv_held (device_of (release_one xkb t k s)) = dv_held (device_of s) - {k}"
proof -
  obtain changed s1 where feed: "feed_key xkb k False (request (SendKey t k False) s) = (changed, s1)" by fastforce
  note f = feed_key_fields [OF feed]
  show "same_client s (release_one xkb t k s)" using f(1) by (simp add: release_one_def feed same_client_def)
  show "dv_held (device_of (release_one xkb t k s)) = dv_held (device_of s) - {k}" using f(2) by (simp add: release_one_def feed)
qed

lemma same_client_trans: "same_client s u \<Longrightarrow> same_client u v \<Longrightarrow> same_client s v"
  by (simp add: same_client_def)

lemma release_keys_spec:
  "same_client s (fold (release_one xkb t) ks s) \<and> dv_held (device_of (fold (release_one xkb t) ks s)) = dv_held (device_of s) - set ks"
proof (induction ks arbitrary: s)
  case Nil
  then show ?case by (simp add: same_client_def)
next
  case (Cons k ks)
  let ?s = "release_one xkb t k s"
  have "same_client s (fold (release_one xkb t) ks ?s)"
    using same_client_trans [OF release_one_spec(1) [of s xkb t k] conjunct1 [OF Cons [of ?s]]] .
  then show ?case using Cons [of ?s] release_one_spec(2) [of xkb t k s] by auto
qed

section \<open>The device holds what the client holds\<close>

definition held_keys :: "depressed_keys \<Rightarrow> nat set" where
  "held_keys d = set (dk_plain d) \<union> set (dk_modifiers d) \<union> (if dk_shift_owners d = [] then {} else {left_shift_key})"

definition no_modifier_characters :: "'x tracker \<Rightarrow> bool" where
  "no_modifier_characters t \<longleftrightarrow> (\<forall>c u. kt_unicode t c = Some u \<longrightarrow> \<not> is_modifier (um_evdev_key u))"

definition actor_inv :: "('m, 'x) xkb_ops \<Rightarrow> ('x, 'e) actor \<Rightarrow> bool" where
  "actor_inv xkb s \<longleftrightarrow> dv_held (device_of s) = held_keys (ac_depressed s) \<and> announced xkb s \<and>
     dv_keymap (device_of s) = Some (ac_keymap s) \<and>
     (\<forall>k\<in>set (dk_plain (ac_depressed s)). \<not> is_modifier k) \<and> (\<forall>k\<in>set (dk_modifiers (ac_depressed s)). is_modifier k) \<and>
     no_modifier_characters (ac_tracker s)"

lemma shift_is_modifier [simp]: "is_modifier left_shift_key"
  by (simp add: is_modifier_def)

lemma release_depressed_spec:
  assumes "dv_held (device_of s) = held_keys (ac_depressed s)"
  shows "dv_held (device_of (release_depressed xkb t s)) = {}" and "ac_depressed (release_depressed xkb t s) = no_keys"
    and "ac_keymap (release_depressed xkb t s) = ac_keymap s"
    and "dv_keymap (device_of (release_depressed xkb t s)) = dv_keymap (device_of s)"
    and "kt_unicode (ac_tracker (release_depressed xkb t s)) = kt_unicode (ac_tracker s)"
proof -
  let ?d = "ac_depressed s" and ?keys = "rev (dk_plain (ac_depressed s)) @ rev (dk_modifiers (ac_depressed s))"
  let ?d1 = "?d\<lparr>dk_plain := [], dk_modifiers := []\<rparr>"
  define s1 where "s1 = fold (release_one xkb t) ?keys (set_depressed ?d1 s)"
  let ?only = "dk_shift_owners ?d \<noteq> [] \<and> \<not> holds_modifier left_shift_key ?d"
  let ?s2 = "if ?only then release_one xkb t left_shift_key s1 else s1"
  have run: "release_depressed xkb t s = set_depressed (?d1\<lparr>dk_shift_owners := []\<rparr>) ?s2"
    by (simp add: release_depressed_def release_all_def Let_def s1_def)
  have s1: "same_client (set_depressed ?d1 s) s1" "dv_held (device_of s1) = held_keys ?d - set ?keys"
    using release_keys_spec [of "set_depressed ?d1 s" xkb t ?keys] assms unfolding s1_def by simp_all
  have s2: "same_client (set_depressed ?d1 s) ?s2"
    using s1(1) same_client_trans [OF s1(1) release_one_spec(1) [where xkb = xkb]] by simp
  have "dv_held (device_of ?s2) = {}"
  proof (cases ?only)
    case True
    then have "held_keys ?d - set ?keys - {left_shift_key} = {}" by (auto simp: held_keys_def)
    then show ?thesis using True s1(2) by (simp add: release_one_spec(2))
  next
    case False
    then have "held_keys ?d - set ?keys = {}" by (auto simp: held_keys_def holds_modifier_def)
    moreover have "?s2 = s1" using False by (simp only: if_False)
    ultimately show ?thesis using s1(2) by (simp only:)
  qed
  then show "dv_held (device_of (release_depressed xkb t s)) = {}" by (simp add: run)
  show "ac_depressed (release_depressed xkb t s) = no_keys" by (simp add: run no_keys_def)
  show "ac_keymap (release_depressed xkb t s) = ac_keymap s" "dv_keymap (device_of (release_depressed xkb t s)) = dv_keymap (device_of s)"
    "kt_unicode (ac_tracker (release_depressed xkb t s)) = kt_unicode (ac_tracker s)"
    using s2 by (simp_all add: run same_client_def)
qed


section \<open>The client as the specification sees it\<close>

record client =
  cl_plain :: "nat set"
  cl_modifiers :: "nat set"
  cl_owners :: "nat set"
  cl_characters :: "nat \<Rightarrow> unicode_mapping option"

definition client_keys :: "client \<Rightarrow> nat set" where
  "client_keys c = cl_plain c \<union> cl_modifiers c \<union> (if cl_owners c = {} then {} else {left_shift_key})"

definition nothing_held :: "client \<Rightarrow> client" where
  "nothing_held c = c\<lparr>cl_plain := {}, cl_modifiers := {}, cl_owners := {}\<rparr>"

definition client_key :: "(nat \<Rightarrow> nat set \<Rightarrow> nat set) \<Rightarrow> nat \<Rightarrow> client \<Rightarrow> client" where
  "client_key f k c = (if is_modifier k then c\<lparr>cl_modifiers := f k (cl_modifiers c)\<rparr> else c\<lparr>cl_plain := f k (cl_plain c)\<rparr>)"

definition without :: "nat \<Rightarrow> nat set \<Rightarrow> nat set" where
  "without k K = K - {k}"

fun client_event :: "keyboard_event \<Rightarrow> client \<Rightarrow> client" where
  "client_event (Pressed code extended) c = (case xt_to_evdev code extended of None \<Rightarrow> c | Some k \<Rightarrow> client_key insert k c)"
| "client_event (Released code extended) c = (case xt_to_evdev code extended of None \<Rightarrow> c | Some k \<Rightarrow> client_key without k c)"
| "client_event (Synchronize flags) c = nothing_held c"
| "client_event (UnicodePressed p) c = (case cl_characters c p of None \<Rightarrow> c
   | Some u \<Rightarrow> c\<lparr>cl_plain := insert (um_evdev_key u) (cl_plain c),
                 cl_owners := (if um_needs_shift u then insert p (cl_owners c) else cl_owners c)\<rparr>)"
| "client_event (UnicodeReleased p) c = (case cl_characters c p of None \<Rightarrow> c
   | Some u \<Rightarrow> c\<lparr>cl_plain := without (um_evdev_key u) (cl_plain c),
                 cl_owners := (if um_needs_shift u then without p (cl_owners c) else cl_owners c)\<rparr>)"

fun client_command :: "('m, 'x) xkb_ops \<Rightarrow> bool \<Rightarrow> 'e input_command \<Rightarrow> client \<Rightarrow> client" where
  "client_command xkb accepts (KeyboardCommand event) c = client_event event c"
| "client_command xkb accepts ReleaseHeldKeys c = nothing_held c"
| "client_command xkb accepts (ApplyKeymap data) c = (case tracker_new xkb data of None \<Rightarrow> c
   | Some tracker \<Rightarrow> if accepts then (nothing_held c)\<lparr>cl_characters := kt_unicode tracker\<rparr> else c)"
| "client_command xkb accepts (MouseCommand event) c = c"
| "client_command xkb accepts (SetLockedLayout layout_name own) c = c"
| "client_command xkb accepts (SetInitialLayout candidates) c = c"

definition client_of :: "('x, 'e) actor \<Rightarrow> client" where
  "client_of s = \<lparr>cl_plain = set (dk_plain (ac_depressed s)), cl_modifiers = set (dk_modifiers (ac_depressed s)),
     cl_owners = set (dk_shift_owners (ac_depressed s)), cl_characters = kt_unicode (ac_tracker s)\<rparr>"

lemma client_keys_of: "client_keys (client_of s) = held_keys (ac_depressed s)"
  by (simp add: client_keys_def client_of_def held_keys_def)

lemma synchronize_locks_unicode: "kt_unicode (snd (synchronize_locks xkb flags t)) = kt_unicode t"
proof -
  have toggle: "kt_unicode (toggle_lock xkb locked target mk t) = kt_unicode t" for locked target mk and t
    by (cases mk) (simp add: toggle_lock_def tracker_key_def Let_def)
  show ?thesis
    by (simp add: synchronize_locks_def apply_latched_locked_def Let_def toggle split: option.splits)
qed

lemma set_locked_group_fields:
  assumes "set_locked_group xkb g t = (changed, t')"
  shows "kt_unicode t' = kt_unicode t" and "\<not> changed \<Longrightarrow> modifiers_of xkb t' = modifiers_of xkb t"
  using assms by (auto simp: set_locked_group_def apply_latched_locked_def Let_def split: option.splits)

lemma push_new_set [simp]: "set (push_new k ks) = insert k (set ks)"
  by (auto simp: push_new_def)

lemma press_key_fields:
  "set (dk_plain (press_key k m d)) = (if m then set (dk_plain d) else insert k (set (dk_plain d)))"
  "set (dk_modifiers (press_key k m d)) = (if m then insert k (set (dk_modifiers d)) else set (dk_modifiers d))"
  "dk_shift_owners (press_key k m d) = dk_shift_owners d"
  by (simp_all add: press_key_def)

lemma release_key_fields:
  "set (dk_plain (release_key k m d)) = (if m then set (dk_plain d) else set (dk_plain d) - {k})"
  "set (dk_modifiers (release_key k m d)) = (if m then set (dk_modifiers d) - {k} else set (dk_modifiers d))"
  "dk_shift_owners (release_key k m d) = dk_shift_owners d"
  by (auto simp: release_key_def)

lemmas client_defs = client_of_def client_key_def without_def nothing_held_def

lemma announced_simps [simp]:
  "announced xkb (request Flush s) = announced xkb s"
  "announced xkb (request (SendKey t k p) s) = announced xkb s"
  "announced xkb (request (SendMouse t e) s) = announced xkb s"
  "announced xkb (request (SendKeymap b a) s) = announced xkb s"
  "announced xkb (set_depressed d s) = announced xkb s"
  "announced xkb (announce xkb s)"
  by (cases p; simp add: announced_def)+

text \<open>Key requests, in the form the event proofs use.\<close>

lemma send_key_fields [simp]:
  "ac_keymap (send_key xkb t k p s) = ac_keymap s" "ac_depressed (send_key xkb t k p s) = ac_depressed s"
  "kt_unicode (ac_tracker (send_key xkb t k p s)) = kt_unicode (ac_tracker s)"
  "dv_keymap (device_of (send_key xkb t k p s)) = dv_keymap (device_of s)"
  "announced xkb s \<Longrightarrow> announced xkb (send_key xkb t k p s)"
  using send_key_spec(1) [where xkb = xkb and t = t and k = k and pressed = p and s = s] send_key_spec(3) [where xkb = xkb and t = t and k = k and pressed = p and s = s]
  by (simp_all add: same_client_def)

lemma device_sendkey [simp]:
  "dv_held (device_act (SendKey t k p) d) = (if p then insert k (dv_held d) else dv_held d - {k})"
  "dv_keymap (device_act (SendKey t k p) d) = dv_keymap d"
  by (cases p; simp)+

text \<open>The invariant, its parts as premises and as conclusions.\<close>

lemma actor_invI:
  assumes "dv_held (device_of s) = held_keys (ac_depressed s)" and "announced xkb s" and "dv_keymap (device_of s) = Some (ac_keymap s)"
    and "\<And>k. k \<in> set (dk_plain (ac_depressed s)) \<Longrightarrow> \<not> is_modifier k"
    and "\<And>k. k \<in> set (dk_modifiers (ac_depressed s)) \<Longrightarrow> is_modifier k" and "no_modifier_characters (ac_tracker s)"
  shows "actor_inv xkb s"
  using assms by (simp add: actor_inv_def)

lemma no_modifier_characters_same:
  "kt_unicode t' = kt_unicode t \<Longrightarrow> no_modifier_characters t \<Longrightarrow> no_modifier_characters t'"
  by (simp add: no_modifier_characters_def)

lemma pressed_keeps:
  assumes inv: "actor_inv xkb s"
  shows "actor_inv xkb (handle_rdp_event xkb t (Pressed code extended) s) \<and>
    client_of (handle_rdp_event xkb t (Pressed code extended) s) = client_event (Pressed code extended) (client_of s)"
proof (cases "xt_to_evdev code extended")
  case None
  then show ?thesis using inv by simp
next
  case (Some k)
  let ?m = "is_modifier k" and ?d = "ac_depressed s"
  let ?s1 = "set_depressed (press_key k ?m ?d) s"
  let ?active = "k = left_shift_key \<and> dk_shift_owners ?d \<noteq> []"
  define u where "u = (if ?active then ?s1 else request Flush (send_key xkb t k True ?s1))"
  have held: "held_keys (press_key k ?m ?d) = insert k (held_keys ?d)"
    by (auto simp: held_keys_def press_key_fields)
  have u: "ac_depressed u = press_key k ?m ?d" "ac_keymap u = ac_keymap s" "kt_unicode (ac_tracker u) = kt_unicode (ac_tracker s)"
    "dv_keymap (device_of u) = dv_keymap (device_of s)" "announced xkb s \<Longrightarrow> announced xkb u"
    "dv_held (device_of u) = (if ?active then dv_held (device_of s) else insert k (dv_held (device_of s)))"
    by (simp_all add: u_def send_key_held)
  have "k \<in> held_keys ?d" if ?active using that by (auto simp: held_keys_def)
  then have "actor_inv xkb u"
    using inv u held by (intro actor_invI) (auto simp: actor_inv_def press_key_fields no_modifier_characters_def split: if_splits)
  moreover have "client_of u = client_key insert k (client_of s)"
    using u by (simp add: client_defs press_key_fields)
  moreover have "client_key insert k (client_of s) = client_of s" if "?m" "holds_modifier k ?d"
    using that by (simp add: client_defs holds_modifier_def insert_absorb)
  ultimately show ?thesis using Some inv by (auto simp: u_def Let_def)
qed

lemma released_keeps:
  assumes inv: "actor_inv xkb s"
  shows "actor_inv xkb (handle_rdp_event xkb t (Released code extended) s) \<and>
    client_of (handle_rdp_event xkb t (Released code extended) s) = client_event (Released code extended) (client_of s)"
proof (cases "xt_to_evdev code extended")
  case None
  then show ?thesis using inv by simp
next
  case (Some k)
  let ?m = "is_modifier k" and ?d = "ac_depressed s"
  let ?s1 = "set_depressed (release_key k ?m ?d) s"
  let ?kept = "k = left_shift_key \<and> dk_shift_owners ?d \<noteq> []"
  define u where "u = (if ?kept then ?s1 else request Flush (send_key xkb t k False ?s1))"
  have u: "ac_depressed u = release_key k ?m ?d" "ac_keymap u = ac_keymap s" "kt_unicode (ac_tracker u) = kt_unicode (ac_tracker s)"
    "dv_keymap (device_of u) = dv_keymap (device_of s)" "announced xkb s \<Longrightarrow> announced xkb u"
    "dv_held (device_of u) = (if ?kept then dv_held (device_of s) else dv_held (device_of s) - {k})"
    by (simp_all add: u_def send_key_held)
  have split: "\<forall>k\<in>set (dk_plain ?d). \<not> is_modifier k" "\<forall>k\<in>set (dk_modifiers ?d). is_modifier k" using inv by (simp_all add: actor_inv_def)
  have held: "held_keys (release_key k ?m ?d) = (if ?kept then held_keys ?d else held_keys ?d - {k})"
    using split by (auto simp: held_keys_def release_key_fields)
  have "actor_inv xkb u"
    using inv u held by (intro actor_invI) (auto simp: actor_inv_def release_key_fields no_modifier_characters_def split: if_splits)
  moreover have "client_of u = client_key without k (client_of s)"
    using u by (simp add: client_defs release_key_fields)
  moreover have "client_key without k (client_of s) = client_of s" if "?m" "\<not> holds_modifier k ?d"
    using that by (simp add: client_defs holds_modifier_def)
  ultimately show ?thesis using Some inv by (auto simp: u_def Let_def release_key_fields)
qed

lemma unicode_pressed_keeps:
  assumes inv: "actor_inv xkb s"
  shows "actor_inv xkb (handle_rdp_event xkb t (UnicodePressed p) s) \<and>
    client_of (handle_rdp_event xkb t (UnicodePressed p) s) = client_event (UnicodePressed p) (client_of s)"
proof (cases "unicode_to_evdev (ac_tracker s) p")
  case None
  then show ?thesis using inv by (simp add: client_of_def unicode_to_evdev_def)
next
  case (Some m)
  let ?d = "ac_depressed s" and ?k = "um_evdev_key m"
  let ?active = "holds_modifier left_shift_key ?d \<or> dk_shift_owners ?d \<noteq> []"
  define d' where "d' = (if um_needs_shift m then press_unicode_shift p ?d else ?d)"
  define s1 where "s1 = (if um_needs_shift m
      then (if ?active then set_depressed d' s else send_key xkb t left_shift_key True (set_depressed d' s)) else s)"
  define u where "u = handle_rdp_event xkb t (UnicodePressed p) s"
  have run: "u = request Flush (set_depressed (press_key ?k False (ac_depressed s1)) (request (SendKey t ?k True) s1))"
    unfolding u_def using Some by (simp add: s1_def d'_def Let_def)
  have s1: "ac_depressed s1 = d'" "ac_keymap s1 = ac_keymap s" "kt_unicode (ac_tracker s1) = kt_unicode (ac_tracker s)"
    "dv_keymap (device_of s1) = dv_keymap (device_of s)" "announced xkb s \<Longrightarrow> announced xkb s1"
    "dv_held (device_of s1) = (if um_needs_shift m \<and> \<not> ?active then insert left_shift_key (dv_held (device_of s)) else dv_held (device_of s))"
    by (simp_all add: s1_def d'_def send_key_held)
  have d': "dk_plain d' = dk_plain ?d" "dk_modifiers d' = dk_modifiers ?d"
    "set (dk_shift_owners d') = (if um_needs_shift m then insert p (set (dk_shift_owners ?d)) else set (dk_shift_owners ?d))"
    by (auto simp: d'_def press_unicode_shift_def)
  then have owners: "dk_shift_owners d' = [] \<longleftrightarrow> \<not> um_needs_shift m \<and> dk_shift_owners ?d = []"
    by (metis insert_not_empty set_empty)
  have held: "held_keys d' = (if um_needs_shift m \<and> \<not> ?active then insert left_shift_key (held_keys ?d) else held_keys ?d)"
    using owners d' by (auto simp: held_keys_def holds_modifier_def)
  have plain: "\<not> is_modifier ?k"
    using inv Some by (auto simp: actor_inv_def no_modifier_characters_def unicode_to_evdev_def)
  have dev: "dv_held (device_of u) = insert ?k (held_keys d')"
    using inv s1(6) held by (simp add: run actor_inv_def)
  have "actor_inv xkb u"
  proof (rule actor_invI)
    show "dv_held (device_of u) = held_keys (ac_depressed u)"
      unfolding dev by (auto simp: run s1 held_keys_def press_key_fields)
  qed (use inv plain s1 d' in \<open>auto simp: run actor_inv_def press_key_fields no_modifier_characters_def\<close>)
  moreover have "client_of u = client_event (UnicodePressed p) (client_of s)"
    using Some d' by (simp add: run s1 client_defs press_key_fields unicode_to_evdev_def)
  ultimately show ?thesis unfolding u_def ..
qed

lemma owners_without: "snd (release_unicode_shift p d) = d\<lparr>dk_shift_owners := filter (\<lambda>owner. owner \<noteq> p) (dk_shift_owners d)\<rparr>"
  by (simp add: release_unicode_shift_def Let_def)

lemma release_unicode_owned: "fst (release_unicode_shift p d) \<longleftrightarrow> p \<in> set (dk_shift_owners d)"
proof -
  have "length (filter (\<lambda>owner. owner \<noteq> p) xs) = length xs \<longleftrightarrow> p \<notin> set xs" for xs :: "nat list"
  proof (cases "p \<in> set xs")
    case True
    then show ?thesis using length_filter_less [of p xs "\<lambda>owner. owner \<noteq> p"] by simp
  next
    case False
    then have "filter (\<lambda>owner. owner \<noteq> p) xs = xs" by (auto simp: filter_id_conv)
    with False show ?thesis by simp
  qed
  then show ?thesis by (simp add: release_unicode_shift_def Let_def)
qed

text \<open>What the keys of a released character leave: the shift goes with its last owner.\<close>

lemma held_after_unicode_release:
  fixes d0 :: depressed_keys and shift :: bool and p :: nat
  assumes split: "\<forall>k\<in>set (dk_plain d0). \<not> is_modifier k" "\<forall>k\<in>set (dk_modifiers d0). is_modifier k" and "\<not> is_modifier k"
  defines "d \<equiv> release_key k False d0"
  defines "d' \<equiv> if shift then snd (release_unicode_shift p d) else d"
  defines "lift \<equiv> shift \<and> p \<in> set (dk_shift_owners d) \<and> dk_shift_owners d' = [] \<and> \<not> holds_modifier left_shift_key d'"
  shows "held_keys d' = (if lift then held_keys d0 - {k} - {left_shift_key} else held_keys d0 - {k})"
proof -
  let ?P = "set (dk_plain d0)" and ?M = "set (dk_modifiers d0)"
  have apart: "left_shift_key \<notin> ?P" "k \<notin> ?M" "k \<noteq> left_shift_key" using assms(1-3) by auto
  have d': "set (dk_plain d') = ?P - {k}" "set (dk_modifiers d') = ?M"
    "set (dk_shift_owners d') = (if shift then set (dk_shift_owners d0) - {p} else set (dk_shift_owners d0))"
    by (auto simp: d'_def d_def owners_without release_key_fields)
  have owners: "dk_shift_owners d = dk_shift_owners d0" by (simp add: d_def release_key_fields)
  show ?thesis
  proof (cases "set (dk_shift_owners d') = {}")
    case True
    then have "set (dk_shift_owners d0) = (if shift \<and> p \<in> set (dk_shift_owners d0) then {p} else {})"
      using d'(3) by (auto simp: subset_singleton_iff split: if_splits)
    then have none: "dk_shift_owners d0 = [] \<longleftrightarrow> \<not> (shift \<and> p \<in> set (dk_shift_owners d0))"
      by (cases "dk_shift_owners d0 = []") (auto simp flip: set_empty split: if_splits)
    have kept: "held_keys d' = (?P - {k}) \<union> ?M" using True d'(1,2) by (simp add: held_keys_def)
    show ?thesis
    proof (cases "shift \<and> p \<in> set (dk_shift_owners d0)")
      case yes: True
      then have "held_keys d0 = insert left_shift_key (?P \<union> ?M)" using none by (simp add: held_keys_def)
      then show ?thesis using yes True apart d'(2) by (auto simp: kept owners lift_def holds_modifier_def)
    next
      case no: False
      then have "held_keys d0 = ?P \<union> ?M" using none by (simp add: held_keys_def)
      then show ?thesis using no apart by (auto simp: kept owners lift_def)
    qed
  next
    case False
    then have "set (dk_shift_owners d0) \<noteq> {}" unfolding d'(3) by (rule contrapos_nn) simp
    then have ne: "dk_shift_owners d0 \<noteq> []" "dk_shift_owners d' \<noteq> []" using False by simp_all
    have "held_keys d' = insert left_shift_key (?P - {k} \<union> ?M)" using ne(2) d'(1,2) by (simp add: held_keys_def)
    moreover have "held_keys d0 = insert left_shift_key (?P \<union> ?M)" using ne(1) by (simp add: held_keys_def)
    ultimately show ?thesis using ne(2) apart by (auto simp: lift_def)
  qed
qed

lemma unicode_released_keeps:
  assumes inv: "actor_inv xkb s"
  shows "actor_inv xkb (handle_rdp_event xkb t (UnicodeReleased p) s) \<and>
    client_of (handle_rdp_event xkb t (UnicodeReleased p) s) = client_event (UnicodeReleased p) (client_of s)"
proof (cases "unicode_to_evdev (ac_tracker s) p")
  case None
  then show ?thesis using inv by (simp add: client_of_def unicode_to_evdev_def)
next
  case (Some m)
  let ?k = "um_evdev_key m"
  define d where "d = release_key ?k False (ac_depressed s)"
  define s2 where "s2 = set_depressed d (request (SendKey t ?k False) s)"
  define d' where "d' = (if um_needs_shift m then snd (release_unicode_shift p d) else d)"
  let ?lift = "um_needs_shift m \<and> p \<in> set (dk_shift_owners d) \<and> dk_shift_owners d' = [] \<and> \<not> holds_modifier left_shift_key d'"
  define s3 where "s3 = (if ?lift then send_key xkb t left_shift_key False (set_depressed d' s2) else set_depressed d' s2)"
  have s2eq: "set_depressed d s2 = s2" by (simp add: s2_def set_depressed_def)
  obtain owned dd where rel: "release_unicode_shift p d = (owned, dd)" by fastforce
  have run: "handle_rdp_event xkb t (UnicodeReleased p) s = request Flush s3"
    using Some rel release_unicode_owned [of p d] s2eq by (simp add: s3_def d'_def s2_def d_def Let_def)
  have parts: "dv_held (device_of s) = held_keys (ac_depressed s)" "\<forall>k\<in>set (dk_plain (ac_depressed s)). \<not> is_modifier k"
    "\<forall>k\<in>set (dk_modifiers (ac_depressed s)). is_modifier k" "\<not> is_modifier ?k"
    using inv Some by (auto simp: actor_inv_def no_modifier_characters_def unicode_to_evdev_def)
  have d': "set (dk_plain d') = set (dk_plain (ac_depressed s)) - {?k}" "set (dk_modifiers d') = set (dk_modifiers (ac_depressed s))"
    "set (dk_shift_owners d') = (if um_needs_shift m then set (dk_shift_owners (ac_depressed s)) - {p} else set (dk_shift_owners (ac_depressed s)))"
    by (auto simp: d'_def d_def owners_without release_key_fields)
  have u: "ac_depressed s3 = d'" "ac_keymap s3 = ac_keymap s" "kt_unicode (ac_tracker s3) = kt_unicode (ac_tracker s)"
    "dv_keymap (device_of s3) = dv_keymap (device_of s)" "announced xkb s \<Longrightarrow> announced xkb s3"
    "dv_held (device_of s3) = (if ?lift then dv_held (device_of s) - {?k} - {left_shift_key} else dv_held (device_of s) - {?k})"
    by (simp_all add: s3_def s2_def send_key_held)
  have "actor_inv xkb s3"
  proof (rule actor_invI)
    show "dv_held (device_of s3) = held_keys (ac_depressed s3)"
      unfolding u(1,6) parts(1) d'_def d_def using held_after_unicode_release [OF parts(2,3,4)] by (simp only:)
  qed (use inv u d' in \<open>auto simp: actor_inv_def no_modifier_characters_def\<close>)
  then have "actor_inv xkb (request Flush s3)" by (simp add: actor_inv_def)
  moreover have "client_of (request Flush s3) = client_event (UnicodeReleased p) (client_of s)"
    using Some d' u by (simp add: client_defs unicode_to_evdev_def)
  ultimately show ?thesis unfolding run ..
qed

lemma inv_held: "actor_inv xkb s \<Longrightarrow> dv_held (device_of s) = held_keys (ac_depressed s)"
  by (simp add: actor_inv_def)

lemma no_keys_held [simp]: "held_keys no_keys = {}"
  by (simp add: held_keys_def no_keys_def)

text \<open>A state with no key held whose replica has been announced.\<close>

lemma idle_inv:
  assumes "dv_held (device_of s) = {}" and "ac_depressed s = no_keys" and "announced xkb s"
    and "dv_keymap (device_of s) = Some (ac_keymap s)" and "no_modifier_characters (ac_tracker s)"
  shows "actor_inv xkb s"
  using assms by (intro actor_invI) (simp_all add: no_keys_def held_keys_def)

lemma synchronize_keeps:
  assumes inv: "actor_inv xkb s"
  shows "actor_inv xkb (handle_rdp_event xkb t (Synchronize flags) s) \<and>
    client_of (handle_rdp_event xkb t (Synchronize flags) s) = client_event (Synchronize flags) (client_of s)"
proof -
  note r = release_depressed_spec [OF inv_held [OF inv], of xkb t]
  define s2 where "s2 = (release_depressed xkb t s)\<lparr>ac_tracker := snd (synchronize_locks xkb flags (ac_tracker (release_depressed xkb t s)))\<rparr>"
  have run: "handle_rdp_event xkb t (Synchronize flags) s = request Flush (announce xkb s2)"
    by (simp add: s2_def Let_def)
  have s2: "ac_depressed s2 = no_keys" "ac_keymap s2 = ac_keymap s" "kt_unicode (ac_tracker s2) = kt_unicode (ac_tracker s)"
    "device_of s2 = device_of (release_depressed xkb t s)"
    using r by (simp_all add: s2_def synchronize_locks_unicode device_of_def)
  have "actor_inv xkb (request Flush (announce xkb s2))"
    using inv r s2 by (intro idle_inv) (auto simp: actor_inv_def no_modifier_characters_def)
  moreover have "client_of (request Flush (announce xkb s2)) = client_event (Synchronize flags) (client_of s)"
    using s2 by (simp add: client_defs no_keys_def)
  ultimately show ?thesis unfolding run ..
qed

lemma release_held_keeps:
  assumes inv: "actor_inv xkb s"
  shows "actor_inv xkb (release_held_keys xkb t s) \<and> client_of (release_held_keys xkb t s) = nothing_held (client_of s)"
proof (cases "keys_is_empty (ac_depressed s)")
  case True
  then show ?thesis using inv by (simp add: release_held_keys_def keys_is_empty_def client_defs)
next
  case False
  note r = release_depressed_spec [OF inv_held [OF inv], of xkb t]
  let ?u = "request Flush (announce xkb (release_depressed xkb t s))"
  have "actor_inv xkb ?u" using inv r by (intro idle_inv) (auto simp: actor_inv_def no_modifier_characters_def)
  moreover have "client_of ?u = nothing_held (client_of s)" using r by (simp add: client_defs no_keys_def)
  ultimately show ?thesis using False by (simp add: release_held_keys_def)
qed

text \<open>Keymaps in which no key that the client presses as a modifier types a character.\<close>

definition plain_characters :: "('m, 'x) xkb_ops \<Rightarrow> bool" where
  "plain_characters xkb \<longleftrightarrow> (\<forall>data tracker. tracker_new xkb data = Some tracker \<longrightarrow> no_modifier_characters tracker)"

lemma apply_keymap_keeps:
  assumes inv: "actor_inv xkb s" and xkb: "plain_characters xkb"
  shows "actor_inv xkb (handle_command xkb t accepts (ApplyKeymap data) s) \<and>
    client_of (handle_command xkb t accepts (ApplyKeymap data) s) = client_command xkb accepts (ApplyKeymap data) (client_of s)"
proof (cases "tracker_new xkb data")
  case None
  then show ?thesis using inv by simp
next
  case (Some tracker)
  define s1 where "s1 = request (SendKeymap data accepts) s"
  have s1: "dv_held (device_of s1) = held_keys (ac_depressed s1)" "ac_depressed s1 = ac_depressed s" "ac_keymap s1 = ac_keymap s"
    "dv_keymap (device_of s1) = (if accepts then Some data else dv_keymap (device_of s))" "ac_tracker s1 = ac_tracker s"
    using inv by (simp_all add: s1_def actor_inv_def)
  show ?thesis
  proof (cases accepts)
    case False
    then have "actor_inv xkb s1" using inv by (simp add: actor_inv_def s1 s1_def)
    with False Some show ?thesis by (simp add: client_of_def s1_def)
  next
    case True
    note r = release_depressed_spec [OF s1(1), of xkb t]
    let ?s3 = "(release_depressed xkb t s1)\<lparr>ac_tracker := tracker, ac_keymap := data\<rparr>"
    let ?u = "request Flush (announce xkb ?s3)"
    have dev: "device_of ?s3 = device_of (release_depressed xkb t s1)" by (simp add: device_of_def)
    have "no_modifier_characters tracker" using xkb Some by (auto simp: plain_characters_def)
    then have "actor_inv xkb ?u"
      using r s1(4) True dev by (intro idle_inv) simp_all
    moreover have "client_of ?u = (nothing_held (client_of s))\<lparr>cl_characters := kt_unicode tracker\<rparr>"
      using r by (simp add: client_defs no_keys_def)
    moreover have "handle_command xkb t accepts (ApplyKeymap data) s = ?u"
      using Some True by (simp add: s1_def Let_def)
    ultimately show ?thesis using Some True by (simp del: handle_command.simps)
  qed
qed

lemma lock_group_keeps:
  assumes inv: "actor_inv xkb s"
  shows "actor_inv xkb (lock_group xkb g s) \<and> client_of (lock_group xkb g s) = client_of s"
proof -
  obtain changed t' where run: "set_locked_group xkb g (ac_tracker s) = (changed, t')" by fastforce
  note f = set_locked_group_fields [OF run]
  have "device_of (s\<lparr>ac_tracker := t'\<rparr>) = device_of s" by (simp add: device_of_def)
  then show ?thesis
    using inv f by (auto simp: lock_group_def run Let_def actor_inv_def client_of_def no_modifier_characters_def announced_def)
qed

lemma own_layout_keeps:
  assumes inv: "actor_inv xkb s"
  shows "actor_inv xkb (handle_own_layout_event xkb accepts name s) \<and> client_of (handle_own_layout_event xkb accepts name s) = client_of s"
  using inv by (auto simp: handle_own_layout_event_def Let_def actor_inv_def client_of_def split: option.splits)

lemma command_keeps:
  assumes inv: "actor_inv xkb s" and xkb: "plain_characters xkb"
  shows "actor_inv xkb (handle_command xkb t accepts command s) \<and>
    client_of (handle_command xkb t accepts command s) = client_command xkb accepts command (client_of s)"
proof (cases command)
  case (KeyboardCommand event)
  then show ?thesis
    using pressed_keeps [OF inv] released_keeps [OF inv] synchronize_keeps [OF inv] unicode_pressed_keeps [OF inv] unicode_released_keeps [OF inv]
    by (cases event) (simp_all only: handle_command.simps client_command.simps)
next
  case (MouseCommand event)
  then show ?thesis using inv by (simp add: actor_inv_def client_of_def)
next
  case ReleaseHeldKeys
  then show ?thesis using release_held_keeps [OF inv] by simp
next
  case (ApplyKeymap data)
  then show ?thesis using apply_keymap_keeps [OF inv xkb] by (simp only:)
next
  case (SetLockedLayout name own)
  then show ?thesis using inv own_layout_keeps [OF inv] lock_group_keeps [OF inv] by (auto split: option.splits)
next
  case (SetInitialLayout candidates)
  then show ?thesis using inv lock_group_keeps [OF inv] by (auto split: option.splits)
qed

definition client_step :: "('m, 'x) xkb_ops \<Rightarrow> client \<Rightarrow> nat \<times> bool \<times> 'e input_command \<Rightarrow> client" where
  "client_step xkb c = (\<lambda>(t, accepts, command). client_command xkb accepts command c)"

interpretation input: event_refinement "actor_step xkb" "\<lambda>_. plain_characters xkb" "actor_inv xkb" client_of "client_step xkb"
  for xkb :: "('m, 'x) xkb_ops"
  by unfold_locales (auto simp: actor_step_def client_step_def command_keeps)

lemma actor_start_inv:
  assumes "actor_start xkb data accepts = Some s" and "plain_characters xkb"
  shows "actor_inv xkb s"
proof -
  obtain tracker where tr: "tracker_new xkb data = Some tracker" and accepts
    and s: "s = request Flush (announce xkb \<lparr>ac_tracker = tracker, ac_keymap = data, ac_depressed = no_keys, ac_requests = [SendKeymap data True]\<rparr>)"
    using assms(1) by (auto simp: actor_start_def Let_def split: option.splits if_splits)
  have "no_modifier_characters tracker" using assms(2) tr by (auto simp: plain_characters_def)
  then show ?thesis unfolding s by (intro idle_inv) (simp_all add: device_of_def announced_def request_def announce_def)
qed

section \<open>Properties\<close>


text \<open>
  A run of the actor ends with no key held on the device, whatever the client had pressed and
  however the run went.
\<close>

theorem shutdown_releases_every_key:
  assumes "run_input_actor xkb data accepts commands t = Some s" and "plain_characters xkb"
  shows "dv_held (device_of s) = {}"
proof -
  obtain s0 where s0: "actor_start xkb data accepts = Some s0"
    and s: "s = release_held_keys xkb t (run_events (actor_step xkb) s0 commands)"
    using assms(1) by (auto simp: run_input_actor_def)
  have "list_all (\<lambda>_. plain_characters xkb) commands" using assms(2) by (simp add: list_all_iff)
  from release_held_keeps [OF input.run_keeps [OF actor_start_inv [OF s0 assms(2)] this], of t]
  have "dv_held (device_of s) = client_keys (client_of s)" and "client_keys (client_of s) = {}"
    by (auto simp: s inv_held client_keys_of) (simp_all flip: client_keys_of add: client_keys_def nothing_held_def)
  then show ?thesis by simp
qed






text \<open>The small keyboard, with the client pressing a capital letter.\<close>

lemma tiny_tracker_any: "tracker_new tiny_xkb data = Some tracker \<Longrightarrow> tracker = tiny_tracker"
  using tiny_tracker_new by (auto simp: tracker_new_def compile_xkb_keymap_def tiny_xkb_def split: option.splits if_splits)


lemma tiny_plain: "plain_characters tiny_xkb"
  by (auto simp: plain_characters_def no_modifier_characters_def tiny_tracker_def is_modifier_def left_shift_key_def dest!: tiny_tracker_any split: if_splits)

definition tiny_start :: "(nat, unit) actor" where
  "tiny_start = request Flush (announce tiny_xkb
     \<lparr>ac_tracker = tiny_tracker, ac_keymap = [], ac_depressed = no_keys, ac_requests = [SendKeymap [] True]\<rparr>)"

lemma tiny_started: "actor_start tiny_xkb [] True = Some tiny_start"
  by (simp add: actor_start_def tiny_tracker_new tiny_start_def)


theorem shutdown_releases_every_key_witness:
  "dv_held (device_of (release_held_keys tiny_xkb 9 (run_events (actor_step tiny_xkb) tiny_start
     [(5, True, KeyboardCommand (Pressed 30 False)), (7, True, KeyboardCommand (UnicodePressed 65))]))) = {}"
proof -
  have "run_input_actor tiny_xkb [] True es 9 = Some (release_held_keys tiny_xkb 9 (run_events (actor_step tiny_xkb) tiny_start es))" for es
    by (simp add: run_input_actor_def tiny_started)
  from shutdown_releases_every_key [OF this tiny_plain] show ?thesis .
qed


end
