(* ===== verification/OutputLayout.thy ===== *)
theory OutputLayout
  imports Geometry
begin

text \<open>
  The layout of the outputs (\<open>src/src/input/layout.rs\<close>): where the captured output lies among the
  monitors, and the published snapshot that the pointer is mapped through, with the generation of its
  geometry. The compositor's answer is a parameter, a monitor being what the JSON accessors return for
  its fields. A sum or difference outside \<open>i64\<close> is the panic \<open>None\<close>.
\<close>

section \<open>The monitors\<close>

record monitor =
  mo_name :: "string option"
  mo_x :: "int option"
  mo_y :: "int option"
  mo_width :: "int option"
  mo_height :: "int option"

datatype layout_error = NotAnArray | NoMonitors | InvalidField | InvalidDimensions string | OutputNotFound | OutOfRange
  | InvalidBounds | InvalidSize

definition required_i64 :: "int option \<Rightarrow> layout_error + int" where
  "required_i64 field = (case field of None \<Rightarrow> Inl InvalidField | Some v \<Rightarrow> Inr v)"

definition i64_run :: "int \<Rightarrow> int run" where
  "i64_run x = (if i64_min \<le> x \<and> x \<le> i64_max then Some x else None)"

record layout_bounds =
  lb_min_x :: int
  lb_min_y :: int
  lb_max_x :: int
  lb_max_y :: int
  lb_target :: "(int \<times> int \<times> int \<times> int) option"

text \<open>One turn of the loop over the monitors.\<close>

definition scan_monitor :: "string \<Rightarrow> monitor \<Rightarrow> layout_bounds \<Rightarrow> (layout_error + layout_bounds) run" where
  "scan_monitor output_name m b =
     (case mo_name m of None \<Rightarrow> Some (Inl InvalidField) | Some name \<Rightarrow>
     (case required_i64 (mo_x m) of Inl e \<Rightarrow> Some (Inl e) | Inr x \<Rightarrow>
     (case required_i64 (mo_y m) of Inl e \<Rightarrow> Some (Inl e) | Inr y \<Rightarrow>
     (case required_i64 (mo_width m) of Inl e \<Rightarrow> Some (Inl e) | Inr w \<Rightarrow>
     (case required_i64 (mo_height m) of Inl e \<Rightarrow> Some (Inl e) | Inr h \<Rightarrow>
       if w \<le> 0 \<or> h \<le> 0 then Some (Inl (InvalidDimensions name))
       else do {
         right \<leftarrow> i64_run (x + w);
         bottom \<leftarrow> i64_run (y + h);
         Some (Inr (b\<lparr>lb_min_x := min (lb_min_x b) x, lb_min_y := min (lb_min_y b) y,
           lb_max_x := max (lb_max_x b) right, lb_max_y := max (lb_max_y b) bottom,
           lb_target := (if name = output_name then Some (x, y, w, h) else lb_target b)\<rparr>))
       })))))"

fun scan_monitors :: "string \<Rightarrow> monitor list \<Rightarrow> layout_bounds \<Rightarrow> (layout_error + layout_bounds) run" where
  "scan_monitors output_name [] b = Some (Inr b)"
| "scan_monitors output_name (m # ms) b = do {
     r \<leftarrow> scan_monitor output_name m b;
     (case r of Inl e \<Rightarrow> Some (Inl e) | Inr b' \<Rightarrow> scan_monitors output_name ms b')
   }"

definition u32_try_from :: "int \<Rightarrow> nat option" where
  "u32_try_from x = (if 0 \<le> x \<and> x \<le> int u32_max then Some (nat x) else None)"

record output_place =
  op_output_w :: nat
  op_output_h :: nat
  op_layout_extent_w :: nat
  op_layout_extent_h :: nat
  op_output_offset_x :: nat
  op_output_offset_y :: nat

text \<open>The conversions at the end, in the order of the code.\<close>

definition place_in_bounds :: "layout_bounds \<Rightarrow> int \<times> int \<times> int \<times> int \<Rightarrow> (layout_error + output_place) run" where
  "place_in_bounds b = (\<lambda>(target_x, target_y, target_w, target_h).
     do {
       dx \<leftarrow> i64_run (lb_max_x b - lb_min_x b);
       (case u32_try_from dx of None \<Rightarrow> Some (Inl OutOfRange) | Some layout_w \<Rightarrow> do {
          dy \<leftarrow> i64_run (lb_max_y b - lb_min_y b);
          (case u32_try_from dy of None \<Rightarrow> Some (Inl OutOfRange) | Some layout_h \<Rightarrow>
             if layout_w = 0 \<or> layout_h = 0 then Some (Inl InvalidBounds)
             else do {
               ox \<leftarrow> i64_run (target_x - lb_min_x b);
               (case u32_try_from ox of None \<Rightarrow> Some (Inl OutOfRange) | Some offset_x \<Rightarrow> do {
                  oy \<leftarrow> i64_run (target_y - lb_min_y b);
                  Some (case (u32_try_from oy, u32_try_from target_w, u32_try_from target_h) of
                      (Some offset_y, Some w, Some h) \<Rightarrow>
                        Inr \<lparr>op_output_w = w, op_output_h = h, op_layout_extent_w = layout_w, op_layout_extent_h = layout_h,
                          op_output_offset_x = offset_x, op_output_offset_y = offset_y\<rparr>
                    | _ \<Rightarrow> Inl OutOfRange)
                })
             })
        })
     })"

definition layout_from_monitors :: "monitor list option \<Rightarrow> string \<Rightarrow> (layout_error + output_place) run" where
  "layout_from_monitors monitors output_name =
     (case monitors of
        None \<Rightarrow> Some (Inl NotAnArray)
      | Some [] \<Rightarrow> Some (Inl NoMonitors)
      | Some ms \<Rightarrow> do {
          r \<leftarrow> scan_monitors output_name ms
            \<lparr>lb_min_x = i64_max, lb_min_y = i64_max, lb_max_x = i64_min, lb_max_y = i64_min, lb_target = None\<rparr>;
          (case r of
             Inl e \<Rightarrow> Some (Inl e)
           | Inr b \<Rightarrow> (case lb_target b of None \<Rightarrow> Some (Inl OutputNotFound) | Some target \<Rightarrow> place_in_bounds b target))
        })"

section \<open>The published layout\<close>

record prepared_layout =
  pl_output_name :: string
  pl_place :: output_place
  pl_geometry :: geometry

record layout_snapshot =
  ls_output_name :: string
  ls_place :: output_place
  ls_geometry :: geometry
  ls_generation :: nat

definition prepare_from_layout_query :: "string \<Rightarrow> output_place \<Rightarrow> nat \<times> nat \<Rightarrow> (layout_error + prepared_layout) run" where
  "prepare_from_layout_query output_name place = (\<lambda>(presentation_w, presentation_h).
     case size_new (op_output_w place) (op_output_h place) of None \<Rightarrow> Some (Inl InvalidSize) | Some source \<Rightarrow>
     (case size_new presentation_w presentation_h of None \<Rightarrow> Some (Inl InvalidSize) | Some presentation \<Rightarrow>
       map_option (\<lambda>g. Inr \<lparr>pl_output_name = output_name, pl_place = place, pl_geometry = g\<rparr>)
         (geometry_new source presentation)))"

definition prepare_from_output_with_presentation :: "monitor list option \<Rightarrow> string \<Rightarrow> nat \<times> nat \<Rightarrow>
    (layout_error + prepared_layout) run" where
  "prepare_from_output_with_presentation monitors output_name presentation = do {
     r \<leftarrow> layout_from_monitors monitors output_name;
     (case r of Inl e \<Rightarrow> Some (Inl e) | Inr place \<Rightarrow> prepare_from_layout_query output_name place presentation)
   }"

definition apply_prepared :: "prepared_layout \<Rightarrow> layout_snapshot option \<Rightarrow> layout_snapshot option" where
  "apply_prepared p inner =
     Some \<lparr>ls_output_name = pl_output_name p, ls_place = pl_place p, ls_geometry = pl_geometry p,
       ls_generation = (case inner of
           None \<Rightarrow> 0
         | Some old \<Rightarrow> if ls_geometry old = pl_geometry p then ls_generation old else u32_sat_add (ls_generation old) 1)\<rparr>"

definition update_from_output_with_presentation :: "monitor list option \<Rightarrow> string \<Rightarrow> nat \<times> nat \<Rightarrow> layout_snapshot option \<Rightarrow>
    (layout_error option \<times> layout_snapshot option) run" where
  "update_from_output_with_presentation monitors output_name presentation inner =
     map_option (\<lambda>r. case r of Inl e \<Rightarrow> (Some e, inner) | Inr p \<Rightarrow> (None, apply_prepared p inner))
       (prepare_from_output_with_presentation monitors output_name presentation)"

definition update_from_output :: "monitor list option \<Rightarrow> string \<Rightarrow> layout_snapshot option \<Rightarrow>
    (layout_error option \<times> layout_snapshot option) run" where
  "update_from_output monitors output_name inner = do {
     r \<leftarrow> layout_from_monitors monitors output_name;
     (case r of
        Inl e \<Rightarrow> Some (Some e, inner)
      | Inr place \<Rightarrow>
          map_option (\<lambda>r. case r of Inl e \<Rightarrow> (Some e, inner) | Inr p \<Rightarrow> (None, apply_prepared p inner))
            (prepare_from_layout_query output_name place (op_output_w place, op_output_h place)))
   }"

section \<open>The place of the output\<close>

text \<open>The monitor the compositor reports, as far as its fields are valid.\<close>

definition monitor_at :: "monitor \<Rightarrow> string \<Rightarrow> int \<Rightarrow> int \<Rightarrow> int \<Rightarrow> int \<Rightarrow> bool" where
  "monitor_at m name x y w h \<longleftrightarrow>
     mo_name m = Some name \<and> mo_x m = Some x \<and> mo_y m = Some y \<and> mo_width m = Some w \<and> mo_height m = Some h \<and> 0 < w \<and> 0 < h"

definition bounded_by :: "layout_bounds \<Rightarrow> int \<Rightarrow> int \<Rightarrow> int \<Rightarrow> int \<Rightarrow> bool" where
  "bounded_by b x y w h \<longleftrightarrow> lb_min_x b \<le> x \<and> lb_min_y b \<le> y \<and> x + w \<le> lb_max_x b \<and> y + h \<le> lb_max_y b"

lemma scan_monitor_Inr:
  assumes "scan_monitor output_name m b = Some (Inr b')"
  obtains name x y w h where "monitor_at m name x y w h" "bounded_by b' x y w h"
    "lb_min_x b' = min (lb_min_x b) x" "lb_min_y b' = min (lb_min_y b) y"
    "lb_max_x b' = max (lb_max_x b) (x + w)" "lb_max_y b' = max (lb_max_y b) (y + h)"
    "lb_target b' = (if name = output_name then Some (x, y, w, h) else lb_target b)"
  using assms that
  by (fastforce simp: scan_monitor_def required_i64_def monitor_at_def bounded_by_def i64_run_def
      split: option.splits sum.splits if_splits)

lemma scan_monitors_Inr:
  assumes "scan_monitors output_name ms b = Some (Inr b')"
  shows "lb_min_x b' \<le> lb_min_x b \<and> lb_min_y b' \<le> lb_min_y b \<and> lb_max_x b \<le> lb_max_x b' \<and> lb_max_y b \<le> lb_max_y b' \<and>
    (\<forall>m\<in>set ms. \<exists>name x y w h. monitor_at m name x y w h \<and> bounded_by b' x y w h) \<and>
    (lb_target b' = lb_target b \<or>
      (\<exists>m\<in>set ms. \<exists>x y w h. monitor_at m output_name x y w h \<and> lb_target b' = Some (x, y, w, h)))"
  using assms
proof (induction ms arbitrary: b)
  case Nil
  then show ?case by simp
next
  case (Cons m ms)
  then obtain b1 where b1: "scan_monitor output_name m b = Some (Inr b1)" "scan_monitors output_name ms b1 = Some (Inr b')"
    by (auto split: bind_splits sum.splits)
  note ih = Cons.IH [OF b1(2)]
  obtain name x y w h where m: "monitor_at m name x y w h" "bounded_by b1 x y w h"
    "lb_min_x b1 = min (lb_min_x b) x" "lb_min_y b1 = min (lb_min_y b) y"
    "lb_max_x b1 = max (lb_max_x b) (x + w)" "lb_max_y b1 = max (lb_max_y b) (y + h)"
    "lb_target b1 = (if name = output_name then Some (x, y, w, h) else lb_target b)"
    by (rule scan_monitor_Inr [OF b1(1)])
  have "bounded_by b' x y w h" using m(2) ih by (auto simp: bounded_by_def)
  then have "\<forall>m'\<in>set (m # ms). \<exists>name x y w h. monitor_at m' name x y w h \<and> bounded_by b' x y w h"
    using m(1) ih by (simp only: set_simps ball_simps) blast
  moreover have "lb_target b' = lb_target b \<or>
      (\<exists>m\<in>set (m # ms). \<exists>x y w h. monitor_at m output_name x y w h \<and> lb_target b' = Some (x, y, w, h))"
    using ih m(1,7) by (cases "name = output_name") auto
  ultimately show ?case using ih m(3-6) by auto
qed

lemma place_in_bounds_Inr:
  assumes "place_in_bounds b (x, y, w, h) = Some (Inr p)"
  shows "int (op_output_w p) = w" "int (op_output_h p) = h" "int (op_output_offset_x p) = x - lb_min_x b"
    "int (op_output_offset_y p) = y - lb_min_y b" "int (op_layout_extent_w p) = lb_max_x b - lb_min_x b"
    "int (op_layout_extent_h p) = lb_max_y b - lb_min_y b"
    "op_output_w p \<le> u32_max" "op_output_h p \<le> u32_max"
  using assms
  by (auto simp: place_in_bounds_def i64_run_def u32_try_from_def split: if_splits option.splits bind_splits)

lemma layout_from_monitors_Inr:
  assumes "layout_from_monitors monitors output_name = Some (Inr p)"
  obtains ms b m x y w h where "monitors = Some ms" "m \<in> set ms" "monitor_at m output_name x y w h"
    "place_in_bounds b (x, y, w, h) = Some (Inr p)"
    "\<forall>m\<in>set ms. \<exists>name x y w h. monitor_at m name x y w h \<and> bounded_by b x y w h"
proof -
  obtain m0 ms0 where ms: "monitors = Some (m0 # ms0)"
    using assms by (auto simp: layout_from_monitors_def split: option.splits list.splits)
  let ?b0 = "\<lparr>lb_min_x = i64_max, lb_min_y = i64_max, lb_max_x = i64_min, lb_max_y = i64_min, lb_target = None\<rparr>"
  obtain b target where b: "scan_monitors output_name (m0 # ms0) ?b0 = Some (Inr b)" "lb_target b = Some target"
    "place_in_bounds b target = Some (Inr p)"
    using assms unfolding layout_from_monitors_def ms by (auto split: bind_splits sum.splits option.splits)
  note scan = scan_monitors_Inr [OF b(1)]
  then obtain m x y w h where m: "m \<in> set (m0 # ms0)" "monitor_at m output_name x y w h" "target = (x, y, w, h)"
    using b(2) by (metis layout_bounds.select_convs(5) option.inject option.distinct(1))
  have "\<forall>m\<in>set (m0 # ms0). \<exists>name x y w h. monitor_at m name x y w h \<and> bounded_by b x y w h" using scan by blast
  with that [OF ms m(1,2)] b(3) m(3) show thesis by blast
qed

text \<open>
  C33: A place computed for the output names a reported monitor of that name, with its size, and puts it
  inside the layout, as it does every other monitor: no offset reaches beyond the extents.
\<close>

theorem output_inside_layout:
  assumes "layout_from_monitors (Some ms) output_name = Some (Inr p)"
  shows "(\<exists>m\<in>set ms. \<exists>x y. monitor_at m output_name x y (int (op_output_w p)) (int (op_output_h p)) \<and>
      (\<forall>m'\<in>set ms. \<exists>name x' y' w h. monitor_at m' name x' y' w h \<and>
         0 \<le> int (op_output_offset_x p) + (x' - x) \<and> int (op_output_offset_x p) + (x' - x) + w \<le> int (op_layout_extent_w p) \<and>
         0 \<le> int (op_output_offset_y p) + (y' - y) \<and> int (op_output_offset_y p) + (y' - y) + h \<le> int (op_layout_extent_h p))) \<and>
    op_output_offset_x p + op_output_w p \<le> op_layout_extent_w p \<and> op_output_offset_y p + op_output_h p \<le> op_layout_extent_h p"
proof -
  obtain b m x y w h where m: "m \<in> set ms" "monitor_at m output_name x y w h"
    "place_in_bounds b (x, y, w, h) = Some (Inr p)"
    "\<forall>m\<in>set ms. \<exists>name x y w h. monitor_at m name x y w h \<and> bounded_by b x y w h"
    by (rule layout_from_monitors_Inr [OF assms]) auto
  note p = place_in_bounds_Inr [OF m(3)]
  have all: "\<exists>name x' y' w' h'. monitor_at m' name x' y' w' h' \<and>
      0 \<le> int (op_output_offset_x p) + (x' - x) \<and> int (op_output_offset_x p) + (x' - x) + w' \<le> int (op_layout_extent_w p) \<and>
      0 \<le> int (op_output_offset_y p) + (y' - y) \<and> int (op_output_offset_y p) + (y' - y) + h' \<le> int (op_layout_extent_h p)"
    if "m' \<in> set ms" for m'
    using m(4) that p unfolding bounded_by_def by force
  have "bounded_by b x y w h" using m(1,2,4) by (force simp: monitor_at_def)
  then have "op_output_offset_x p + op_output_w p \<le> op_layout_extent_w p \<and> op_output_offset_y p + op_output_h p \<le> op_layout_extent_h p"
    using p unfolding bounded_by_def by linarith
  then show ?thesis using m(1,2) p(1,2) all by blast
qed

section \<open>Publishing\<close>

definition prepared_ok :: "prepared_layout \<Rightarrow> bool" where
  "prepared_ok p \<longleftrightarrow>
     (\<exists>source presentation. valid_size source \<and> valid_size presentation \<and> geometry_new source presentation = Some (pl_geometry p) \<and>
       sz_width source = op_output_w (pl_place p) \<and> sz_height source = op_output_h (pl_place p))"

definition layout_ok :: "layout_snapshot option \<Rightarrow> bool" where
  "layout_ok inner \<longleftrightarrow> (\<forall>s. inner = Some s \<longrightarrow>
     (\<exists>source presentation. valid_size source \<and> valid_size presentation \<and> geometry_new source presentation = Some (ls_geometry s) \<and>
       sz_width source = op_output_w (ls_place s) \<and> sz_height source = op_output_h (ls_place s)))"

lemma apply_prepared_ok: "prepared_ok p \<Longrightarrow> layout_ok (apply_prepared p inner)"
  by (simp add: prepared_ok_def layout_ok_def apply_prepared_def)

lemma prepare_ok:
  assumes "prepare_from_layout_query output_name place (pw, ph) = Some (Inr p)"
    and "op_output_w place \<le> u32_max" "op_output_h place \<le> u32_max" "pw \<le> u32_max" "ph \<le> u32_max"
  shows "prepared_ok p"
proof -
  obtain source presentation where sizes: "size_new (op_output_w place) (op_output_h place) = Some source"
      "size_new pw ph = Some presentation" and g: "geometry_new source presentation = Some (pl_geometry p)" "pl_place p = place"
    using assms(1) by (auto simp: prepare_from_layout_query_def split: option.splits)
  have "sz_width source = op_output_w place" "sz_height source = op_output_h place"
    using sizes(1) by (auto simp: size_new_def split: if_splits)
  with size_new_valid [OF sizes(1) assms(2,3)] size_new_valid [OF sizes(2) assms(4,5)] g show ?thesis
    unfolding prepared_ok_def by metis
qed

lemma prepare_total:
  assumes "op_output_w place \<le> u32_max" "op_output_h place \<le> u32_max" "pw \<le> u32_max" "ph \<le> u32_max"
  shows "prepare_from_layout_query output_name place (pw, ph) \<noteq> None"
proof (cases "size_new (op_output_w place) (op_output_h place)")
  case (Some source)
  show ?thesis
  proof (cases "size_new pw ph")
    case (Some presentation)
    then obtain g where "geometry_new source presentation = Some g"
      using geometry_new_fits [OF size_new_valid [OF \<open>size_new (op_output_w place) (op_output_h place) = Some source\<close> assms(1,2)]
          size_new_valid [OF Some assms(3,4)]] by auto
    then show ?thesis using Some \<open>size_new (op_output_w place) (op_output_h place) = Some source\<close>
      by (simp add: prepare_from_layout_query_def)
  qed (use Some in \<open>simp add: prepare_from_layout_query_def\<close>)
qed (simp add: prepare_from_layout_query_def)

text \<open>Snapshots of a run of publications: the generation never falls, and tells the geometries apart.\<close>

definition publish :: "layout_snapshot option \<Rightarrow> prepared_layout \<Rightarrow> layout_snapshot option" where
  "publish inner p = apply_prepared p inner"

definition publications :: "layout_snapshot option \<Rightarrow> prepared_layout list \<Rightarrow> layout_snapshot option" where
  "publications inner ps = run_events publish inner ps"

lemma run_publish_generation:
  assumes "inner = Some a" and "run_events publish inner ps = Some b" and "ls_generation b < u32_max"
  shows "ls_generation a \<le> ls_generation b \<and> (ls_generation a = ls_generation b \<longrightarrow> ls_geometry a = ls_geometry b)"
  using assms
proof (induction ps arbitrary: inner a)
  case Nil
  then show ?case by simp
next
  case (Cons p ps)
  obtain c where c: "publish inner p = Some c" "ls_geometry c = pl_geometry p"
    "ls_generation c = (if ls_geometry a = pl_geometry p then ls_generation a else u32_sat_add (ls_generation a) 1)"
    using Cons.prems(1) by (simp add: publish_def apply_prepared_def)
  have ih: "ls_generation c \<le> ls_generation b \<and> (ls_generation c = ls_generation b \<longrightarrow> ls_geometry c = ls_geometry b)"
    using Cons.IH [OF c(1)] Cons.prems(2,3) by simp
  show ?case
  proof (cases "ls_geometry a = pl_geometry p")
    case True
    with ih c show ?thesis by simp
  next
    case False
    then have "ls_generation c = min (ls_generation a + 1) u32_max" using c(3) by (simp add: u32_sat_add_def)
    with ih Cons.prems(3) show ?thesis by auto
  qed
qed

text \<open>
  Two snapshots, the later taken after any further publications, have the same generation only if they
  have the same geometry, as long as the generation has not reached the end of its range, and a later
  snapshot never has a smaller one.
\<close>

theorem generation_tells_geometry:
  assumes "publications (Some a) ps = Some b" and "ls_generation b < u32_max"
  shows "ls_generation a \<le> ls_generation b \<and> (ls_generation a = ls_generation b \<longrightarrow> ls_geometry a = ls_geometry b)"
  using run_publish_generation [OF refl] assms unfolding publications_def by blast

section \<open>Concrete inputs\<close>

text \<open>The monitors of the code's own test.\<close>

definition two_monitors :: "monitor list" where
  "two_monitors =
     [\<lparr>mo_name = Some ''DP-1'', mo_x = Some (- 1920), mo_y = Some 0, mo_width = Some 1920, mo_height = Some 1080\<rparr>,
      \<lparr>mo_name = Some ''hypr-rdp-1'', mo_x = Some 0, mo_y = Some 180, mo_width = Some 1280, mo_height = Some 720\<rparr>]"

lemma two_monitors_place:
  "layout_from_monitors (Some two_monitors) ''hypr-rdp-1'' =
     Some (Inr \<lparr>op_output_w = 1280, op_output_h = 720, op_layout_extent_w = 3200, op_layout_extent_h = 1080,
       op_output_offset_x = 1920, op_output_offset_y = 180\<rparr>)"
  by (simp add: layout_from_monitors_def two_monitors_def scan_monitor_def required_i64_def i64_run_def place_in_bounds_def u32_try_from_def)

theorem output_inside_layout_witness: "(1920 + 1280 :: nat) \<le> 3200 \<and> layout_from_monitors (Some two_monitors) ''hypr-rdp-1'' \<noteq> None"
  using output_inside_layout [OF two_monitors_place] by (simp add: two_monitors_place)

definition layout_of_width :: "nat \<Rightarrow> prepared_layout" where
  "layout_of_width w = \<lparr>pl_output_name = ''hypr-rdp-1'',
     pl_place = \<lparr>op_output_w = w, op_output_h = 720, op_layout_extent_w = w, op_layout_extent_h = 720,
       op_output_offset_x = 0, op_output_offset_y = 0\<rparr>,
     pl_geometry = \<lparr>geo_source = \<lparr>sz_width = w, sz_height = 720\<rparr>, geo_presentation = \<lparr>sz_width = w, sz_height = 720\<rparr>,
       geo_visible = \<lparr>rx = 0, ry = 0, rw = w, rh = 720\<rparr>\<rparr>\<rparr>"

theorem generation_tells_geometry_witness:
  "\<exists>a b. apply_prepared (layout_of_width 640) None = Some a \<and>
     publications (Some a) [layout_of_width 640, layout_of_width 1280] = Some b \<and>
     ls_generation a < ls_generation b \<and> ls_geometry a \<noteq> ls_geometry b"
proof -
  obtain a where a: "apply_prepared (layout_of_width 640) None = Some a" "ls_generation a = 0"
      "ls_geometry a = pl_geometry (layout_of_width 640)"
    by (simp add: apply_prepared_def)
  obtain b where b: "publications (Some a) [layout_of_width 640, layout_of_width 1280] = Some b" "ls_generation b = 1"
      "ls_geometry b = pl_geometry (layout_of_width 1280)"
    using a by (simp add: publications_def publish_def apply_prepared_def u32_sat_add_def layout_of_width_def)
  have "pl_geometry (layout_of_width 640) \<noteq> pl_geometry (layout_of_width 1280)" by (simp add: layout_of_width_def)
  then show ?thesis using generation_tells_geometry [OF b(1)] a b by simp
qed

end
