(* ===== verification/PointerInput.thy ===== *)
theory PointerInput
  imports InputActor OutputLayout "HOL-Library.Signed_Division"
begin

text \<open>
  The pointer of the client, and what feeds the input actor: mouse events become requests of the
  virtual pointer, layout events of the compositor and the client's keyboard layout become commands
  (\<open>src/src/input/wayland.rs\<close>, \<open>src/src/input/rdp.rs\<close>). The continuous distance of a wheel step is
  computed in \<open>f64\<close> and a parameter \<open>wheel\<close> of units and direction; the JSON of the compositor is what
  its accessors return.
\<close>

section \<open>Mouse events\<close>

datatype mouse_button = LeftButton | RightButton | MiddleButton | X1Button | X2Button | OtherButton

datatype mouse_event =
    MouseMove nat nat
  | MouseButton nat nat mouse_button bool
  | MouseButtonRel int int mouse_button bool
  | VerticalScroll int
  | Scroll int int
  | HorizontalScroll int
  | RelMove int int
  | OtherMouse

datatype axis = VerticalAxis | HorizontalAxis

datatype 'f pointer_request =
    AxisSourceWheel
  | AxisRequest nat axis 'f
  | AxisDiscrete nat axis 'f int
  | Motion nat int int
  | MotionAbsolute nat nat nat nat nat
  | ButtonRequest nat nat bool
  | Frame

definition btn_left :: nat where "btn_left = 0x110"
definition btn_right :: nat where "btn_right = 0x111"
definition btn_middle :: nat where "btn_middle = 0x112"
definition btn_side :: nat where "btn_side = 0x113"
definition btn_extra :: nat where "btn_extra = 0x114"

fun evdev_button :: "mouse_button \<Rightarrow> nat option" where
  "evdev_button LeftButton = Some btn_left"
| "evdev_button RightButton = Some btn_right"
| "evdev_button MiddleButton = Some btn_middle"
| "evdev_button X1Button = Some btn_side"
| "evdev_button X2Button = Some btn_extra"
| "evdev_button OtherButton = None"

text \<open>The remainders of the two axes, in units of the client.\<close>

record residuals =
  rs_horizontal :: int
  rs_vertical :: int

definition no_residuals :: residuals where
  "no_residuals = \<lparr>rs_horizontal = 0, rs_vertical = 0\<rparr>"

definition i32_run :: "int \<Rightarrow> int run" where
  "i32_run x = (if i32_min \<le> x \<and> x \<le> i32_max then Some x else None)"

definition scroll_axis_step :: "(int \<Rightarrow> bool \<Rightarrow> 'f) \<Rightarrow> int \<Rightarrow> int \<Rightarrow> bool \<Rightarrow> (('f \<times> int) \<times> int) run" where
  "scroll_axis_step wheel residual delta_units invert =
     (let accumulated = residual + delta_units;
          detents = accumulated sdiv 120;
          residual' = accumulated smod 120;
          detents' = (if invert then - detents else detents)
      in map_option (\<lambda>wayland_discrete. ((wheel delta_units invert, wayland_discrete), residual')) (i32_run detents'))"

definition emit_scroll_axis :: "(int \<Rightarrow> bool \<Rightarrow> 'f) \<Rightarrow> nat \<Rightarrow> axis \<Rightarrow> int \<Rightarrow> int \<Rightarrow> ('f pointer_request \<times> int) run" where
  "emit_scroll_axis wheel time axis delta_units residual =
     map_option (\<lambda>((continuous, discrete), residual').
         (if discrete = 0 then AxisRequest time axis continuous else AxisDiscrete time axis continuous discrete, residual'))
       (scroll_axis_step wheel residual delta_units (axis = VerticalAxis))"

definition emit_scroll_event :: "(int \<Rightarrow> bool \<Rightarrow> 'f) \<Rightarrow> nat \<Rightarrow> int \<Rightarrow> int \<Rightarrow> residuals \<Rightarrow> ('f pointer_request list \<times> residuals) run" where
  "emit_scroll_event wheel time horizontal_units vertical_units r = do {
     (vertical, r1) \<leftarrow> (if vertical_units = 0 then Some ([], r)
       else map_option (\<lambda>(q, v). ([q], r\<lparr>rs_vertical := v\<rparr>)) (emit_scroll_axis wheel time VerticalAxis vertical_units (rs_vertical r)));
     (horizontal, r2) \<leftarrow> (if horizontal_units = 0 then Some ([], r1)
       else map_option (\<lambda>(q, v). ([q], r1\<lparr>rs_horizontal := v\<rparr>)) (emit_scroll_axis wheel time HorizontalAxis horizontal_units (rs_horizontal r1)));
     Some (AxisSourceWheel # vertical @ horizontal @ [Frame], r2)
   }"

definition map_rdp_pointer_to_source :: "layout_snapshot \<Rightarrow> nat \<Rightarrow> nat \<Rightarrow> (nat \<times> nat) run" where
  "map_rdp_pointer_to_source layout x y = map_presentation_point_to_source (ls_geometry layout) x y"

definition pointer_at :: "layout_snapshot \<Rightarrow> nat \<Rightarrow> nat \<Rightarrow> nat \<Rightarrow> 'f pointer_request run" where
  "pointer_at layout t x y = map_option (\<lambda>(source_x, source_y).
     MotionAbsolute t source_x source_y (op_output_w (ls_place layout)) (op_output_h (ls_place layout)))
     (map_rdp_pointer_to_source layout x y)"

definition button_requests :: "nat \<Rightarrow> mouse_button \<Rightarrow> bool \<Rightarrow> 'f pointer_request list" where
  "button_requests t button pressed = (case evdev_button button of None \<Rightarrow> [] | Some code \<Rightarrow> [ButtonRequest t code pressed])"

text \<open>The first component says whether the caller flushes the connection.\<close>

fun emit_mouse_event :: "(int \<Rightarrow> bool \<Rightarrow> 'f) \<Rightarrow> layout_snapshot option \<Rightarrow> nat \<Rightarrow> mouse_event \<Rightarrow> residuals
    \<Rightarrow> (bool \<times> 'f pointer_request list \<times> residuals) run" where
  "emit_mouse_event wheel layout t (MouseMove x y) r = (case layout of
     None \<Rightarrow> Some (False, [], r)
   | Some l \<Rightarrow> map_option (\<lambda>q. (True, [q, Frame], r)) (pointer_at l t x y))"
| "emit_mouse_event wheel layout t (MouseButton x y button pressed) r = do {
     motion \<leftarrow> (case layout of None \<Rightarrow> Some [] | Some l \<Rightarrow> map_option (\<lambda>q. [q]) (pointer_at l t x y));
     Some (True, motion @ button_requests t button pressed @ [Frame], r)
   }"
| "emit_mouse_event wheel layout t (MouseButtonRel x y button pressed) r =
     Some (True, Motion t x y # button_requests t button pressed @ [Frame], r)"
| "emit_mouse_event wheel layout t (VerticalScroll v) r =
     map_option (\<lambda>(qs, r'). (True, qs, r')) (emit_scroll_event wheel t 0 v r)"
| "emit_mouse_event wheel layout t (Scroll x y) r =
     map_option (\<lambda>(qs, r'). (True, qs, r')) (emit_scroll_event wheel t x y r)"
| "emit_mouse_event wheel layout t (HorizontalScroll v) r =
     map_option (\<lambda>(qs, r'). (True, qs, r')) (emit_scroll_event wheel t v 0 r)"
| "emit_mouse_event wheel layout t (RelMove x y) r = Some (True, [Motion t x y, Frame], r)"
| "emit_mouse_event wheel layout t OtherMouse r = Some (False, [], r)"

text \<open>The requests of the virtual pointer for the mouse requests of the actor, in order.\<close>

fun pointer_stream :: "(int \<Rightarrow> bool \<Rightarrow> 'f) \<Rightarrow> layout_snapshot option \<Rightarrow> mouse_event request list \<Rightarrow> residuals
    \<Rightarrow> ('f pointer_request list \<times> residuals) run" where
  "pointer_stream wheel layout [] r = Some ([], r)"
| "pointer_stream wheel layout (SendMouse t event # qs) r = do {
     (flush, requests, r1) \<leftarrow> emit_mouse_event wheel layout t event r;
     (rest, r2) \<leftarrow> pointer_stream wheel layout qs r1;
     Some (requests @ rest, r2)
   }"
| "pointer_stream wheel layout (q # qs) r = pointer_stream wheel layout qs r"

section \<open>Layout events\<close>

datatype drive_exit = Shutdown | ReceiverGone | StreamFailed

text \<open>
  One turn of the loop: the shutdown flag at its start, then what the stream returns (\<open>None\<close> is a
  failure, \<open>Some None\<close> a timeout), and whether the actor still takes commands.
\<close>

record layout_turn =
  lt_shutdown :: bool
  lt_event :: "(string \<times> string) option option"
  lt_receiver :: bool

fun split_once :: "char \<Rightarrow> string \<Rightarrow> (string \<times> string) option" where
  "split_once sep [] = None"
| "split_once sep (c # cs) =
     (if c = sep then Some ([], cs) else map_option (\<lambda>(a, b). (c # a, b)) (split_once sep cs))"

definition parse_activelayout :: "string \<Rightarrow> (string \<times> string) option" where
  "parse_activelayout data = split_once (CHR '','') data"

definition starts_with :: "string \<Rightarrow> string \<Rightarrow> bool" where
  "starts_with s prefix \<longleftrightarrow> take (length prefix) s = prefix"

definition own_virtual_keyboard_prefix :: string where
  "own_virtual_keyboard_prefix = ''hl-virtual-keyboard-hypr-rdp''"

definition virtual_keyboard_prefix :: string where
  "virtual_keyboard_prefix = ''hl-virtual-keyboard''"

definition layout_command :: "string \<Rightarrow> string \<Rightarrow> 'e input_command option" where
  "layout_command keyboard layout =
     (let from_own_keyboard = starts_with keyboard own_virtual_keyboard_prefix in
      if \<not> from_own_keyboard \<and> starts_with keyboard virtual_keyboard_prefix then None
      else Some (SetLockedLayout layout from_own_keyboard))"

record keyboard_json =
  kj_name :: "string option"
  kj_active_keymap :: "string option"
  kj_main :: "bool option"

definition add_keyboard :: "keyboard_json \<Rightarrow> (string \<times> string) option \<times> (string \<times> string) list
    \<Rightarrow> (string \<times> string) option \<times> (string \<times> string) list" where
  "add_keyboard k = (\<lambda>(main, others).
     case kj_name k of None \<Rightarrow> (main, others) | Some name \<Rightarrow>
     if starts_with name virtual_keyboard_prefix then (main, others) else
     (case kj_active_keymap k of None \<Rightarrow> (main, others) | Some layout \<Rightarrow>
        if main = None \<and> kj_main k = Some True then (Some (name, layout), others)
        else (main, others @ [(name, layout)])))"

definition physical_keyboard_layouts :: "keyboard_json list option \<Rightarrow> layout_candidates option" where
  "physical_keyboard_layouts keyboards = (case keyboards of None \<Rightarrow> None | Some ks \<Rightarrow>
     (let (main, others) = fold add_keyboard ks (None, [])
      in if main = None \<and> others = [] then None else Some \<lparr>lc_main = main, lc_others = others\<rparr>))"

fun drive_turns :: "layout_turn list \<Rightarrow> 'e input_command list \<times> drive_exit option" where
  "drive_turns [] = ([], None)"
| "drive_turns (turn # turns) =
     (if lt_shutdown turn then ([], Some Shutdown)
      else (case lt_event turn of
          None \<Rightarrow> ([], Some StreamFailed)
        | Some None \<Rightarrow> drive_turns turns
        | Some (Some (event, data)) \<Rightarrow>
            if event \<noteq> ''activelayout'' then drive_turns turns
            else (case parse_activelayout data of
                None \<Rightarrow> drive_turns turns
              | Some (keyboard, layout) \<Rightarrow>
                  (case layout_command keyboard layout of
                     None \<Rightarrow> drive_turns turns
                   | Some command \<Rightarrow>
                       if \<not> lt_receiver turn then ([], Some ReceiverGone)
                       else (let (commands, exit) = drive_turns turns in (command # commands, exit))))))"

definition drive_layout_events :: "bool \<Rightarrow> layout_candidates option \<Rightarrow> bool \<Rightarrow> layout_turn list
    \<Rightarrow> 'e input_command list \<times> drive_exit option" where
  "drive_layout_events shutdown initial receiver turns =
     (if shutdown then ([], Some Shutdown)
      else (case initial of
          None \<Rightarrow> drive_turns turns
        | Some candidates \<Rightarrow>
            if \<not> receiver then ([], Some ReceiverGone)
            else (let (commands, exit) = drive_turns turns in (SetInitialLayout candidates # commands, exit))))"

section \<open>Keymaps at the start\<close>

datatype keymap_source = CompositorKeymap | HyprlandKeymap | FallbackKeymap

definition generate_fallback_keymap_from_names :: "('m, 'x) xkb_ops \<Rightarrow> xkb_names option \<Rightarrow> (byte list \<times> keymap_source) option" where
  "generate_fallback_keymap_from_names xkb hyprland_names =
     (let names = (case hyprland_names of None \<Rightarrow> \<lparr>xn_layout = None, xn_variant = None, xn_options = None\<rparr> | Some n \<Rightarrow> n);
          default = map_option (\<lambda>k. (k, FallbackKeymap))
            (generate_xkb_keymap_from_names xkb \<lparr>xn_layout = None, xn_variant = None, xn_options = None\<rparr>)
      in if xkb_names_is_empty names then default
         else (case generate_xkb_keymap_from_names xkb names of
             Some keymap \<Rightarrow> Some (keymap, HyprlandKeymap)
           | None \<Rightarrow> default))"

text \<open>\<open>Inl ()\<close> is the error of a seat with a keyboard and no keymap.\<close>

definition take_loaded_keymap :: "bool \<Rightarrow> byte list option \<Rightarrow> unit + (byte list \<times> keymap_source) option" where
  "take_loaded_keymap seat_has_keyboard keymap =
     (if \<not> seat_has_keyboard then Inr None
      else (case keymap of None \<Rightarrow> Inl () | Some k \<Rightarrow> Inr (Some (k, CompositorKeymap))))"

text \<open>\<open>roundtrip\<close> is the success of the roundtrip after which the keymap has arrived.\<close>

definition load_keymap :: "('m, 'x) xkb_ops \<Rightarrow> bool \<Rightarrow> bool \<Rightarrow> byte list option \<Rightarrow> xkb_names option \<Rightarrow> (byte list \<times> keymap_source) option" where
  "load_keymap xkb seat_has_keyboard roundtrip keymap hyprland_names =
     (if \<not> seat_has_keyboard then generate_fallback_keymap_from_names xkb hyprland_names
      else if \<not> roundtrip then None
      else (case take_loaded_keymap seat_has_keyboard keymap of
          Inl _ \<Rightarrow> None
        | Inr (Some k) \<Rightarrow> Some k
        | Inr None \<Rightarrow> generate_fallback_keymap_from_names xkb hyprland_names))"

section \<open>The handlers of the protocol\<close>

datatype layout_policy = ClientLayout | CompositorLayout

definition client_keymap_from_keyboard_layout :: "('m, 'x) xkb_ops \<Rightarrow> layout_policy \<Rightarrow> nat \<Rightarrow> byte list option" where
  "client_keymap_from_keyboard_layout xkb policy keyboard_layout =
     (if policy = CompositorLayout then None
      else (case xkb_names_for_rdp_keyboard_layout keyboard_layout of
          None \<Rightarrow> None
        | Some names \<Rightarrow> generate_xkb_keymap_from_names xkb names))"

text \<open>The queue of the actor: \<open>None\<close> once the actor or every strong sender is gone.\<close>

type_synonym commands = "mouse_event input_command list option"

definition send_input_command :: "mouse_event input_command \<Rightarrow> commands \<Rightarrow> commands" where
  "send_input_command command queue = map_option (\<lambda>q. q @ [command]) queue"

definition keyboard :: "keyboard_event \<Rightarrow> commands \<Rightarrow> commands" where
  "keyboard event = send_input_command (KeyboardCommand event)"

definition mouse :: "mouse_event \<Rightarrow> commands \<Rightarrow> commands" where
  "mouse event = send_input_command (MouseCommand event)"

definition session_ended :: "commands \<Rightarrow> commands" where
  "session_ended = send_input_command ReleaseHeldKeys"

definition set_keyboard_layout :: "('m, 'x) xkb_ops \<Rightarrow> layout_policy \<Rightarrow> nat \<Rightarrow> commands \<Rightarrow> commands" where
  "set_keyboard_layout xkb policy keyboard_layout queue =
     (case client_keymap_from_keyboard_layout xkb policy keyboard_layout of
        None \<Rightarrow> queue
      | Some keymap_data \<Rightarrow> send_input_command (ApplyKeymap keymap_data) queue)"

section \<open>Wheel steps\<close>

lemma wheel_detents:
  assumes "\<bar>residual\<bar> < 120" and "is_i32 delta"
  shows "scroll_axis_step wheel residual delta invert =
      Some ((wheel delta invert, (if invert then - 1 else 1) * ((residual + delta) sdiv 120)), (residual + delta) smod 120)"
    "\<bar>(residual + delta) smod 120\<bar> < 120"
    "120 * ((residual + delta) sdiv 120) + (residual + delta) smod 120 = residual + delta"
proof -
  let ?a = "residual + delta"
  show split: "120 * (?a sdiv 120) + ?a smod 120 = ?a" by (rule mult_sdiv_smod_eq)
  have "\<bar>\<bar>?a\<bar> mod 120\<bar> < 120" by simp
  then show small: "\<bar>?a smod 120\<bar> < 120" by (simp add: signed_modulo_int_def abs_mult sgn_if)
  have "i32_min \<le> ?a sdiv 120 \<and> ?a sdiv 120 \<le> i32_max \<and> i32_min \<le> - (?a sdiv 120) \<and> - (?a sdiv 120) \<le> i32_max"
    using split small assms by (simp add: is_i32_def) linarith
  then show "scroll_axis_step wheel residual delta invert =
      Some ((wheel delta invert, (if invert then - 1 else 1) * (?a sdiv 120)), ?a smod 120)"
    by (simp add: scroll_axis_step_def i32_run_def Let_def)
qed

text \<open>The whole detents sent along an axis, counted in the direction of the client.\<close>

fun detents :: "axis \<Rightarrow> 'f pointer_request list \<Rightarrow> int" where
  "detents a [] = 0"
| "detents a (AxisDiscrete t b v d # qs) = (if b = a then (if a = VerticalAxis then - d else d) else 0) + detents a qs"
| "detents a (q # qs) = detents a qs"

fun wheel_units :: "axis \<Rightarrow> mouse_event \<Rightarrow> int" where
  "wheel_units VerticalAxis (VerticalScroll v) = v"
| "wheel_units VerticalAxis (Scroll x y) = y"
| "wheel_units HorizontalAxis (HorizontalScroll v) = v"
| "wheel_units HorizontalAxis (Scroll x y) = x"
| "wheel_units a e = 0"

fun residual_of :: "axis \<Rightarrow> residuals \<Rightarrow> int" where
  "residual_of VerticalAxis r = rs_vertical r"
| "residual_of HorizontalAxis r = rs_horizontal r"

lemma detents_append: "detents a (xs @ ys) = detents a xs + detents a ys"
  by (induction a xs rule: detents.induct) auto

definition residuals_ok :: "residuals \<Rightarrow> bool" where
  "residuals_ok r \<longleftrightarrow> \<bar>rs_horizontal r\<bar> < 120 \<and> \<bar>rs_vertical r\<bar> < 120"

definition wheel_ok :: "mouse_event \<Rightarrow> bool" where
  "wheel_ok e \<longleftrightarrow> (\<forall>a. is_i32 (wheel_units a e))"

fun in_extent :: "'f pointer_request \<Rightarrow> bool" where
  "in_extent (MotionAbsolute t x y w h) \<longleftrightarrow> x < w \<and> y < h"
| "in_extent q \<longleftrightarrow> True"

lemma axis_step:
  assumes "\<bar>residual\<bar> < 120" and "is_i32 delta"
  obtains q residual' where "emit_scroll_axis wheel t a delta residual = Some (q, residual')" "\<bar>residual'\<bar> < 120"
    "120 * detents a [q] + residual' = residual + delta" "\<And>b. b \<noteq> a \<Longrightarrow> detents b [q] = 0" "in_extent q"
proof -
  note step = wheel_detents [OF assms]
  let ?d = "(residual + delta) sdiv 120"
  obtain q where q: "emit_scroll_axis wheel t a delta residual = Some (q, (residual + delta) smod 120)"
    "q = (if ?d = 0 then AxisRequest t a (wheel delta (a = VerticalAxis))
      else AxisDiscrete t a (wheel delta (a = VerticalAxis)) ((if a = VerticalAxis then - 1 else 1) * ?d))"
    using step(1) [of wheel "a = VerticalAxis"] by (auto simp: emit_scroll_axis_def)
  have "detents a [q] = ?d" "\<And>b. b \<noteq> a \<Longrightarrow> detents b [q] = 0" "in_extent q" using q(2) by auto
  with that [OF q(1) step(2)] step(3) show thesis by simp
qed

definition sent_units :: "residuals \<Rightarrow> 'f pointer_request list \<Rightarrow> residuals \<Rightarrow> (axis \<Rightarrow> int) \<Rightarrow> bool" where
  "sent_units r qs r' units \<longleftrightarrow> residuals_ok r' \<and> list_all in_extent qs \<and>
     (\<forall>a. 120 * detents a qs + residual_of a r' = residual_of a r + units a)"

lemma scroll_event:
  assumes r: "residuals_ok r" and h: "is_i32 h" and v: "is_i32 v"
  obtains qs r' where "emit_scroll_event wheel t h v r = Some (qs, r')"
    "sent_units r qs r' (\<lambda>a. case a of HorizontalAxis \<Rightarrow> h | VerticalAxis \<Rightarrow> v)"
proof -
  obtain qv rv where vert: "(if v = 0 then Some ([], r)
       else map_option (\<lambda>(q, u). ([q], r\<lparr>rs_vertical := u\<rparr>)) (emit_scroll_axis wheel t VerticalAxis v (rs_vertical r))) = Some (qv, rv)"
    "\<bar>rs_vertical rv\<bar> < 120" "rs_horizontal rv = rs_horizontal r" "120 * detents VerticalAxis qv + rs_vertical rv = rs_vertical r + v"
    "detents HorizontalAxis qv = 0" "list_all in_extent qv"
  proof (cases "v = 0")
    case True
    then show thesis using that [of "[]" r] r by (simp add: residuals_ok_def)
  next
    case False
    have "\<bar>rs_vertical r\<bar> < 120" using r by (simp add: residuals_ok_def)
    from axis_step [OF this v, of wheel t VerticalAxis] obtain q u where
      "emit_scroll_axis wheel t VerticalAxis v (rs_vertical r) = Some (q, u)" "\<bar>u\<bar> < 120"
      "120 * detents VerticalAxis [q] + u = rs_vertical r + v" "\<And>b. b \<noteq> VerticalAxis \<Longrightarrow> detents b [q] = 0" "in_extent q" by blast
    with False that [of "[q]" "r\<lparr>rs_vertical := u\<rparr>"] show thesis by simp
  qed
  have rv: "\<bar>rs_horizontal rv\<bar> < 120" using r vert(3) by (simp add: residuals_ok_def)
  obtain qh rh where horiz: "(if h = 0 then Some ([], rv)
       else map_option (\<lambda>(q, u). ([q], rv\<lparr>rs_horizontal := u\<rparr>)) (emit_scroll_axis wheel t HorizontalAxis h (rs_horizontal rv))) = Some (qh, rh)"
    "\<bar>rs_horizontal rh\<bar> < 120" "rs_vertical rh = rs_vertical rv" "120 * detents HorizontalAxis qh + rs_horizontal rh = rs_horizontal rv + h"
    "detents VerticalAxis qh = 0" "list_all in_extent qh"
  proof (cases "h = 0")
    case True
    then show thesis using that [of "[]" rv] rv by simp
  next
    case False
    from axis_step [OF rv h, of wheel t HorizontalAxis] obtain q u where
      "emit_scroll_axis wheel t HorizontalAxis h (rs_horizontal rv) = Some (q, u)" "\<bar>u\<bar> < 120"
      "120 * detents HorizontalAxis [q] + u = rs_horizontal rv + h" "\<And>b. b \<noteq> HorizontalAxis \<Longrightarrow> detents b [q] = 0" "in_extent q" by blast
    with False that [of "[q]" "rv\<lparr>rs_horizontal := u\<rparr>"] show thesis by simp
  qed
  let ?qs = "AxisSourceWheel # qv @ qh @ [Frame]"
  have run: "emit_scroll_event wheel t h v r = Some (?qs, rh)"
    unfolding emit_scroll_event_def vert(1) by (simp only: bind.bind_lunit prod.case horiz(1))
  moreover have "residuals_ok rh" using vert(2) horiz(2,3) by (simp add: residuals_ok_def)
  moreover have "120 * detents a ?qs + residual_of a rh = residual_of a r + (case a of HorizontalAxis \<Rightarrow> h | VerticalAxis \<Rightarrow> v)" for a
    using vert(3,4,5) horiz(3,4,5) by (cases a) (simp_all add: detents_append)
  ultimately show thesis using that vert(6) horiz(6) by (simp add: sent_units_def)
qed

section \<open>Positions\<close>

definition layout_valid :: "layout_snapshot option \<Rightarrow> bool" where
  "layout_valid layout \<longleftrightarrow> (\<forall>l. layout = Some l \<longrightarrow> valid_geometry (ls_geometry l) \<and>
     sz_width (geo_source (ls_geometry l)) = op_output_w (ls_place l) \<and> sz_height (geo_source (ls_geometry l)) = op_output_h (ls_place l))"

lemma published_valid:
  assumes "layout_ok inner"
  shows "layout_valid inner"
  unfolding layout_valid_def
proof (intro allI impI)
  fix l
  assume "inner = Some l"
  with assms obtain source presentation where "valid_size source" "valid_size presentation"
    "geometry_new source presentation = Some (ls_geometry l)" "sz_width source = op_output_w (ls_place l)"
    "sz_height source = op_output_h (ls_place l)" by (auto simp: layout_ok_def)
  with geometry_new_valid [of source presentation "ls_geometry l"] show "valid_geometry (ls_geometry l) \<and>
     sz_width (geo_source (ls_geometry l)) = op_output_w (ls_place l) \<and> sz_height (geo_source (ls_geometry l)) = op_output_h (ls_place l)"
    by simp
qed

lemma pointer_at_inside:
  assumes "layout_valid (Some l)"
  obtains q where "pointer_at l t x y = Some q" "in_extent q" "\<And>a. detents a [q] = 0"
  using map_point_shows [of "ls_geometry l" x y] assms that
  by (fastforce simp: pointer_at_def map_rdp_pointer_to_source_def layout_valid_def)

lemma button_requests_plain [simp]: "list_all in_extent (button_requests t b p)" "detents a (button_requests t b p @ qs) = detents a qs"
  by (simp_all add: button_requests_def split: option.splits)

lemma mouse_event_units:
  fixes wheel :: "int \<Rightarrow> bool \<Rightarrow> 'f"
  assumes r: "residuals_ok r" and w: "wheel_ok event" and l: "layout_valid layout"
  obtains flush qs r' where "emit_mouse_event wheel layout t event r = Some (flush, qs, r')"
    "sent_units r qs r' (\<lambda>a. wheel_units a event)"
proof -
  note event_done = that
  have units: "is_i32 (wheel_units a event)" for a using w by (simp add: wheel_ok_def)
  have still: "sent_units r qs r (\<lambda>a. 0)" if "list_all in_extent qs" "\<And>a. detents a qs = 0" for qs :: "'f pointer_request list"
    using r that by (simp add: sent_units_def)
  have zero: "is_i32 0" by (simp add: is_i32_def)
  have scrolled: thesis if run: "emit_mouse_event wheel layout t event r = map_option (\<lambda>(qs, r'). (True, qs, r')) (emit_scroll_event wheel t h v r)"
    and h: "is_i32 h" and v: "is_i32 v" and eq: "\<And>a. wheel_units a event = (case a of HorizontalAxis \<Rightarrow> h | VerticalAxis \<Rightarrow> v)" for h v
  proof (rule scroll_event [OF r h v, of wheel t])
    fix qs r'
    assume "emit_scroll_event wheel t h v r = Some (qs, r')"
      "sent_units r qs r' (\<lambda>a. case a of HorizontalAxis \<Rightarrow> h | VerticalAxis \<Rightarrow> v)"
    then show thesis by (intro event_done [of True qs r']) (simp_all add: run eq)
  qed
  show thesis
  proof (cases event)
    case (MouseMove x y)
    show thesis
    proof (cases layout)
      case None
      then show thesis using that [of False "[]" r] still [of "[]"] MouseMove by simp
    next
      case (Some lay)
      obtain q :: "'f pointer_request" where "pointer_at lay t x y = Some q" "in_extent q" "\<And>a. detents a [q] = 0"
        using pointer_at_inside [of lay t x y] l Some by blast
      then show thesis using that [of True "[q, Frame]" r] still [of "[q, Frame]"] MouseMove Some
          detents_append [of _ "[q]" "[Frame]"] by simp
    qed
  next
    case (MouseButton x y button pressed)
    show thesis
    proof (cases layout)
      case None
      then show thesis using that still [of "button_requests t button pressed @ [Frame]"] MouseButton by simp
    next
      case (Some lay)
      obtain q :: "'f pointer_request" where "pointer_at lay t x y = Some q" "in_extent q" "\<And>a. detents a [q] = 0"
        using pointer_at_inside [of lay t x y] l Some by blast
      then show thesis using that [of True "q # button_requests t button pressed @ [Frame]" r] MouseButton Some
          still [of "q # button_requests t button pressed @ [Frame]"]
          detents_append [of _ "[q]" "button_requests t button pressed @ [Frame]"] by simp
    qed
  next
    case (MouseButtonRel x y button pressed)
    then show thesis using that still [of "Motion t x y # button_requests t button pressed @ [Frame]"] by simp
  next
    case (VerticalScroll v)
    then show thesis using scrolled [of 0 v] units [of VerticalAxis] zero by (simp split: axis.splits)
  next
    case (Scroll x y)
    then show thesis using scrolled [of x y] units [of VerticalAxis] units [of HorizontalAxis] by (simp split: axis.splits)
  next
    case (HorizontalScroll v)
    then show thesis using scrolled [of v 0] units [of HorizontalAxis] zero by (simp split: axis.splits)
  next
    case (RelMove x y)
    then show thesis using that still [of "[Motion t x y, Frame]"] by simp
  next
    case OtherMouse
    then show thesis using that [of False "[]" r] still [of "[]"] by simp
  qed
qed

section \<open>Properties\<close>

fun mouse_events :: "mouse_event request list \<Rightarrow> mouse_event list" where
  "mouse_events [] = []"
| "mouse_events (SendMouse t e # qs) = e # mouse_events qs"
| "mouse_events (q # qs) = mouse_events qs"

lemma pointer_stream_units:
  assumes "residuals_ok r" and "list_all wheel_ok (mouse_events requests)" and "layout_valid layout"
  shows "\<exists>qs r'. pointer_stream wheel layout requests r = Some (qs, r') \<and>
    sent_units r qs r' (\<lambda>a. sum_list (map (wheel_units a) (mouse_events requests)))"
  using assms(1,2)
proof (induction requests arbitrary: r)
  case Nil
  then show ?case by (simp add: sent_units_def)
next
  case (Cons request requests)
  show ?case
  proof (cases "\<exists>t e. request = SendMouse t e")
    case False
    then have "pointer_stream wheel layout (request # requests) r = pointer_stream wheel layout requests r"
      "mouse_events (request # requests) = mouse_events requests" by (cases request; simp)+
    with Cons show ?thesis by simp
  next
    case True
    then obtain t e where request: "request = SendMouse t e" by blast
    with Cons.prems have e: "wheel_ok e" "list_all wheel_ok (mouse_events requests)" by simp_all
    obtain flush qs r1 where one: "emit_mouse_event wheel layout t e r = Some (flush, qs, r1)"
      "sent_units r qs r1 (\<lambda>a. wheel_units a e)" by (rule mouse_event_units [OF Cons.prems(1) e(1) assms(3)])
    then have "residuals_ok r1" by (simp add: sent_units_def)
    from Cons.IH [OF this e(2)] obtain rest r2 where rest: "pointer_stream wheel layout requests r1 = Some (rest, r2)"
      "sent_units r1 rest r2 (\<lambda>a. sum_list (map (wheel_units a) (mouse_events requests)))" by blast
    have "sent_units r (qs @ rest) r2 (\<lambda>a. sum_list (map (wheel_units a) (mouse_events (request # requests))))"
      unfolding sent_units_def
    proof (intro conjI allI)
      show "residuals_ok r2" "list_all in_extent (qs @ rest)" using one(2) rest(2) by (simp_all add: sent_units_def)
      fix a
      have "120 * detents a qs + residual_of a r1 = residual_of a r + wheel_units a e"
        "120 * detents a rest + residual_of a r2 = residual_of a r1 + sum_list (map (wheel_units a) (mouse_events requests))"
        using one(2) rest(2) by (simp_all add: sent_units_def)
      then show "120 * detents a (qs @ rest) + residual_of a r2 =
          residual_of a r + sum_list (map (wheel_units a) (mouse_events (request # requests)))"
        by (simp add: request detents_append)
    qed
    with one(1) rest(1) show ?thesis by (simp add: request)
  qed
qed

text \<open>
  C13: Whatever the client does with its mouse, the pointer requests are computed without a panic, every
  position lies on the output, and no wheel motion is lost or invented: on each axis the detents sent,
  120 units each, and the remainder kept, less than one detent, add up to the units received.
\<close>

theorem wheel_motion_preserved:
  assumes "layout_ok layout" and "list_all wheel_ok (mouse_events requests)"
  shows "\<exists>qs r. pointer_stream wheel layout requests no_residuals = Some (qs, r) \<and> list_all in_extent qs \<and>
    (\<forall>a. 120 * detents a qs + residual_of a r = sum_list (map (wheel_units a) (mouse_events requests)) \<and> \<bar>residual_of a r\<bar> < 120)"
proof -
  have "residuals_ok no_residuals" by (simp add: residuals_ok_def no_residuals_def)
  from pointer_stream_units [OF this assms(2) published_valid [OF assms(1)], of wheel] obtain qs r where
    run: "pointer_stream wheel layout requests no_residuals = Some (qs, r)"
    "sent_units no_residuals qs r (\<lambda>a. sum_list (map (wheel_units a) (mouse_events requests)))" by blast
  moreover have "residual_of a no_residuals = 0" "\<bar>residual_of a r\<bar> < 120" for a
    using run(2) by (cases a; simp add: no_residuals_def sent_units_def residuals_ok_def)+
  ultimately show ?thesis by (simp add: sent_units_def)
qed

text \<open>The buttons the virtual pointer holds after its requests.\<close>

fun buttons_held :: "'f pointer_request list \<Rightarrow> nat set \<Rightarrow> nat set" where
  "buttons_held [] held = held"
| "buttons_held (ButtonRequest t b pressed # qs) held = buttons_held qs (if pressed then insert b held else held - {b})"
| "buttons_held (q # qs) held = buttons_held qs held"

definition no_mouse :: "mouse_event request list \<Rightarrow> bool" where
  "no_mouse qs \<longleftrightarrow> mouse_events qs = []"

lemma mouse_events_append [simp]: "mouse_events (xs @ ys) = mouse_events xs @ mouse_events ys"
  by (induction xs rule: mouse_events.induct) auto

lemma pointer_stream_quiet: "mouse_events qs = [] \<Longrightarrow> pointer_stream wheel layout qs r = Some ([], r)"
  by (induction wheel layout qs r rule: pointer_stream.induct) auto

lemma pointer_stream_append:
  "pointer_stream wheel layout (xs @ ys) r = do {
     (a, r1) \<leftarrow> pointer_stream wheel layout xs r;
     (b, r2) \<leftarrow> pointer_stream wheel layout ys r1;
     Some (a @ b, r2) }"
  by (induction wheel layout xs r rule: pointer_stream.induct) (auto split: prod.splits bind_splits)

definition adds_no_mouse :: "('x, mouse_event) actor \<Rightarrow> ('x, mouse_event) actor \<Rightarrow> bool" where
  "adds_no_mouse s s' \<longleftrightarrow> (\<exists>qs. ac_requests s' = ac_requests s @ qs \<and> mouse_events qs = [])"

lemma adds_no_mouse_refl: "adds_no_mouse s s" by (simp add: adds_no_mouse_def)

lemma adds_no_mouse_trans: "adds_no_mouse s s' \<Longrightarrow> adds_no_mouse s' s'' \<Longrightarrow> adds_no_mouse s s''"
  by (auto simp: adds_no_mouse_def)

lemma release_one_no_mouse: "adds_no_mouse s (release_one xkb t k s)"
  by (auto simp: adds_no_mouse_def release_one_def feed_key_def request_def split: prod.splits)

lemma fold_release_no_mouse: "adds_no_mouse s (fold (release_one xkb t) ks s)"
proof (induction ks arbitrary: s)
  case (Cons k ks)
  from adds_no_mouse_trans [OF release_one_no_mouse Cons.IH] show ?case by simp
qed (simp add: adds_no_mouse_refl)

lemma set_depressed_no_mouse: "adds_no_mouse s (set_depressed d s)"
  by (simp add: adds_no_mouse_def set_depressed_def)

lemma release_depressed_no_mouse: "adds_no_mouse s (release_depressed xkb t s)"
  unfolding release_depressed_def Let_def
  by (auto split: prod.splits
      intro: adds_no_mouse_trans [OF _ set_depressed_no_mouse] adds_no_mouse_trans [OF _ release_one_no_mouse]
        adds_no_mouse_trans [OF set_depressed_no_mouse fold_release_no_mouse])

lemma release_held_no_mouse: "adds_no_mouse s (release_held_keys xkb t s)"
proof -
  obtain qs where "ac_requests (release_depressed xkb t s) = ac_requests s @ qs" "mouse_events qs = []"
    using release_depressed_no_mouse [of s xkb t] by (auto simp: adds_no_mouse_def)
  then show ?thesis by (auto simp: adds_no_mouse_def release_held_keys_def announce_def request_def)
qed

text \<open>
  C30: The end of a session releases the keys the client left held but no button of its pointer: a button
  pressed by one client is still held by the virtual pointer, which outlives the session, when the next
  one starts.
\<close>

theorem button_outlives_session:
  assumes "no_mouse (ac_requests s)" and "evdev_button button = Some code"
  shows "\<exists>qs r. pointer_stream wheel None (ac_requests
      (run_events (actor_step xkb) s [(t, accepts, MouseCommand (MouseButton x y button True)), (t', accepts', ReleaseHeldKeys)])) r0 =
        Some (qs, r) \<and> buttons_held qs {} = {code}"
proof -
  let ?s1 = "request (SendMouse t (MouseButton x y button True)) s"
  obtain qs where qs: "ac_requests (release_held_keys xkb t' ?s1) = ac_requests ?s1 @ qs" "mouse_events qs = []"
    using release_held_no_mouse [of ?s1 xkb t'] by (auto simp: adds_no_mouse_def)
  have "ac_requests ?s1 = ac_requests s @ [SendMouse t (MouseButton x y button True)]" by (simp add: request_def)
  then show ?thesis
    using qs assms by (simp add: actor_step_def pointer_stream_append pointer_stream_quiet no_mouse_def button_requests_def)
qed

theorem wheel_motion_preserved_witness:
  "\<exists>qs r. pointer_stream (\<lambda>d i. d) (apply_prepared \<lparr>pl_output_name = ''DP-1'', pl_place = \<lparr>op_output_w = 4, op_output_h = 2,
      op_layout_extent_w = 4, op_layout_extent_h = 2, op_output_offset_x = 0, op_output_offset_y = 0\<rparr>,
      pl_geometry = the (geometry_new \<lparr>sz_width = 4, sz_height = 2\<rparr> \<lparr>sz_width = 2, sz_height = 2\<rparr>)\<rparr> None)
      [SendMouse 1 (Scroll 30 (- 250)), Flush, SendMouse 2 (MouseMove 1 1), SendMouse 3 (VerticalScroll 20)] no_residuals = Some (qs, r) \<and>
    120 * detents VerticalAxis qs + rs_vertical r = - 230"
proof -
  let ?s = "\<lparr>sz_width = 4, sz_height = 2\<rparr>" and ?p = "\<lparr>sz_width = 2, sz_height = 2\<rparr>"
  define place where "place = \<lparr>op_output_w = 4, op_output_h = 2, op_layout_extent_w = 4, op_layout_extent_h = 2,
    op_output_offset_x = 0, op_output_offset_y = 0\<rparr>"
  have v: "valid_size ?s" "valid_size ?p" by (simp_all add: valid_size_def)
  then obtain g where g: "geometry_new ?s ?p = Some g" using geometry_new_fits [OF v] by auto
  have "prepared_ok \<lparr>pl_output_name = ''DP-1'', pl_place = place, pl_geometry = the (geometry_new ?s ?p)\<rparr>"
    unfolding prepared_ok_def using v g
    by (intro exI [of _ ?s] exI [of _ ?p]) (simp add: place_def)
  note ok = apply_prepared_ok [OF this, of None]
  have "wheel_ok (Scroll 30 (- 250))" "wheel_ok (MouseMove 1 1)" "wheel_ok (VerticalScroll 20)"
    unfolding wheel_ok_def by (auto simp: is_i32_def intro: axis.induct)
  then have "list_all wheel_ok (mouse_events [SendMouse 1 (Scroll 30 (- 250)), Flush, SendMouse 2 (MouseMove 1 1),
      SendMouse 3 (VerticalScroll 20)])" by simp
  from wheel_motion_preserved [OF ok this, of "\<lambda>d i. d"] obtain qs r where
    run: "pointer_stream (\<lambda>d i. d) (apply_prepared \<lparr>pl_output_name = ''DP-1'', pl_place = place,
        pl_geometry = the (geometry_new ?s ?p)\<rparr> None) [SendMouse 1 (Scroll 30 (- 250)), Flush, SendMouse 2 (MouseMove 1 1),
        SendMouse 3 (VerticalScroll 20)] no_residuals = Some (qs, r)"
    and units: "\<forall>a. 120 * detents a qs + residual_of a r = sum_list (map (wheel_units a) (mouse_events [SendMouse 1 (Scroll 30 (- 250)),
        Flush, SendMouse 2 (MouseMove 1 1), SendMouse 3 (VerticalScroll 20)]))" by blast
  have "120 * detents VerticalAxis qs + rs_vertical r = - 230" using units [rule_format, of VerticalAxis] by simp
  with run show ?thesis unfolding place_def by blast
qed

theorem button_outlives_session_witness:
  "\<exists>s qs r. ac_requests s = [] \<and> pointer_stream (\<lambda>d i. d) None (ac_requests (run_events (actor_step tiny_xkb) s
      [(1, True, MouseCommand (MouseButton 0 0 LeftButton True)), (2, True, ReleaseHeldKeys)])) no_residuals = Some (qs, r) \<and>
    buttons_held qs {} = {btn_left}"
proof -
  define s :: "(nat, mouse_event) actor" where
    "s = \<lparr>ac_tracker = tiny_tracker, ac_keymap = [], ac_depressed = no_keys, ac_requests = []\<rparr>"
  have "no_mouse (ac_requests s)" by (simp add: no_mouse_def s_def)
  from button_outlives_session [OF this, of LeftButton btn_left "\<lambda>d i. d" tiny_xkb 1 True 0 0 2 True no_residuals]
  show ?thesis by (intro exI [of _ s]) (simp add: s_def)
qed

end
