(* ===== verification/Spec2Isabelle.thy ===== *)
theory Spec2Isabelle
  imports Geometry FrameDelivery FramePacer ClipboardWatcher RemoteFilesystem PointerInput
begin

text \<open>
  A verification development of hypr-rdp, an RDP server for the Wayland compositor Hyprland. Paths
  below are relative to \<open>src/src/\<close>.

  \<^bold>\<open>The program.\<close> A capture thread receives pictures of an output with the rectangles that changed,
  scales them to the size of the client and hands them to the frame processor (\<open>capture/frame.rs\<close>),
  which encodes them (ClearCodec, AVC420, AVC444 or plain bitmaps) and queues them on the graphics
  channel (\<open>egfx/\<close>), whose protocol side reports acknowledgements and capabilities back through a
  shared state. The clipboard channel offers the desktop's selection to the client, files included
  (\<open>clipboard/files.rs\<close>), and the client's to the desktop: text and images as data, files as a mounted
  read-only file system fed by requests to the client (\<open>clipboard/inbound/\<close>). The input actor
  (\<open>input/actor.rs\<close>) turns the keyboard events of the client into those of a virtual device.

  \<^bold>\<open>Reading the theories.\<close> A Rust function is a HOL function of the same name on explicit state: a
  struct is a record, its fields under a short prefix; \<open>&mut self\<close> is a record returned updated; the
  state behind a mutex or the atomics shared between threads is one record on which each critical
  section or atomic operation is one step. Panics (failed \<open>expect\<close>, slicing out of bounds, arithmetic
  that overflows where the code relies on it not to) are the value \<open>None\<close> of the type \<open>run\<close>, results
  are sums, and every theorem that says a call returns says \<open>Some\<close>. Unsigned integers are \<open>nat\<close> and
  signed ones \<open>int\<close>, with wrapping, saturation and casts written out (\<open>Machine\<close>); bytes, pixels and
  bit masks are words.

  \<^bold>\<open>Prelude.\<close> \<open>Machine\<close> (arithmetic, panics, slices, runs of an event-driven component) and \<open>Regions\<close>
  (damage rectangles as sets of pixels, the contract \<open>region_clipper\<close> of everything that clips).

  \<^bold>\<open>Display.\<close>
    \<^item> \<open>Geometry\<close> models \<open>display/geometry.rs\<close>: the aspect fit, the maps of damage and of pointer
      positions between output and presentation, proved exact on the pixels.
    \<^item> \<open>Damage\<close> models \<open>capture/damage.rs\<close>: clamping, merging, and the comparison of a picture with the
      last one sent; the tiles found are exactly the changed ones among the candidates.
    \<^item> \<open>FramePacer\<close> and \<open>FrameProcessor\<close> model \<open>capture/frame.rs\<close> without its statistics, one call of
      \<open>process_at\<close> being one step. \<open>FrameDelivery\<close> proves that a change of the screen is never dropped
      before a frame with it went out, for every behaviour of transport, client and encoder.
    \<^item> \<open>FrameEncoder\<close> models \<open>egfx/backend.rs\<close> and the encoded frame of \<open>egfx/frame.rs\<close>; \<open>H264\<close> the
      software encoder of \<open>egfx/h264.rs\<close> around OpenH264; \<open>YuvPlanes\<close>, \<open>ChromaTiles\<close>, \<open>YuvConversion\<close>
      and \<open>Avc444\<close> the AVC444v2 encoder of \<open>egfx/avc444.rs\<close>: its planes, the tiles of the two views,
      the conversion, and the references it keeps of what the client shows.
    \<^item> \<open>ClearCodec\<close> models \<open>egfx/clearcodec.rs\<close> and \<open>Avc420\<close> models \<open>egfx/avc420.rs\<close>: the rectangles of a
      frame and what they cover.

  \<^bold>\<open>Graphics channel.\<close>
    \<^item> \<open>OutputQueue\<close> models \<open>egfx/output_queue.rs\<close>, the slots that frames hold until the network takes
      them, under every interleaving of its users.
    \<^item> \<open>FrameFlow\<close> models \<open>egfx/shared.rs\<close> and the callbacks of \<open>egfx/factory.rs\<close>: capabilities,
      acknowledgements, back pressure and the preferred frame rate.
    \<^item> \<open>Transport\<close> models \<open>egfx/rdpegfx.rs\<close>: surfaces, the sends with their error paths, the session. The
      graphics server of the protocol library is the record \<open>gfx_ops\<close> of parameters; there is one of
      them per connection.

  \<^bold>\<open>Clipboard.\<close>
    \<^item> \<open>Formats\<close> models \<open>clipboard/formats.rs\<close>: line endings and the text encodings.
    \<^item> \<open>RemoteTree\<close>, \<open>InboundTransfer\<close> and \<open>InboundService\<close> model \<open>clipboard/inbound/\<close> (\<open>tree.rs\<close>,
      \<open>transfer.rs\<close>, \<open>mod.rs\<close>): the tree of the client's files, the requests in flight with their budgets,
      and the life of a selection under protocol thread, watcher and mount worker.
    \<^item> \<open>RemoteFilesystem\<close> models \<open>clipboard/inbound/filesystem.rs\<close>: the replies of the mounted file
      system, and the directory a reader sees in pages.
    \<^item> \<open>FrozenWalk\<close> and \<open>OutboundFiles\<close> model \<open>clipboard/files.rs\<close>: the walk that freezes a selection, the
      lists and locks a client reads through, and the file worker.
    \<^item> \<open>ClipboardBackend\<close> models \<open>clipboard/backend.rs\<close>: every callback of the channel.
    \<^item> \<open>ClipboardWatcher\<close> models \<open>clipboard/wayland.rs\<close>: the data source that offers the client's copy,
      the suppression of its echo, the caches of a copy on the desktop, and the bounded pipe transfers.

  \<^bold>\<open>Input.\<close> \<open>Keyboard\<close> models \<open>input/keymap.rs\<close> and \<open>input/keyboard.rs\<close> over XKB as a parameter;
  \<open>InputActor\<close> models \<open>input/actor.rs\<close>, with a device that remembers what it was told; \<open>OutputLayout\<close> models
  \<open>input/layout.rs\<close>, the place of the output among the monitors and the generation of its geometry;
  \<open>PointerInput\<close> models the pointer and the layout events of \<open>input/wayland.rs\<close> and the handlers of
  \<open>input/rdp.rs\<close>.

  \<^bold>\<open>What the lemmas show.\<close> Each component has an invariant (names ending in \<open>_inv\<close> or \<open>_ok\<close>) that its
  constructor establishes and each operation keeps; an optimised routine is compared with a direct
  definition (sets of pixels, lists of lines, the client's picture); the properties, marked by their
  numbers C1 to C40, are stated over whole runs where the component reacts to events.

  \<^bold>\<open>Bounds and fuel.\<close> Pictures are at most \<open>u16::MAX\<close> on a side, as the protocol has it (\<open>small_frame\<close>
  in \<open>Damage\<close> asks only for \<open>i32\<close>). At most three frames are queued; the walk of a selection goes 128
  directories deep and stops at the limits of \<open>clipboard/files.rs\<close>. Loops are structural, or have a
  measure: the remaining bytes of a scan, the remaining time of the pacer, the budget of a walk. No
  definition carries fuel except the walk, whose fuel is the depth the code itself bounds.

  \<^bold>\<open>Not modelled.\<close> Wayland objects and shared memory, PipeWire, VA-API, FUSE and mounts, PAM, TLS,
  processes and sockets are I/O around libraries; OpenH264, the image and yuv packages, XKB and the
  protocol library appear as parameters whose assumptions each theorem states. Statistics and log
  messages are left out everywhere. Threads interleave between steps, not inside one: for the frame
  processor a step is a whole captured frame, elsewhere a critical section.
\<close>

end
